(* ===== verification/Kernel_Prelude.thy ===== *)
theory Kernel_Prelude
  imports Main "HOL-Library.Word"
begin

unbundle bit_operations_syntax

text \<open>
  What every component of the kernel model shares: the C integer types, the outcome of running
  kernel code, the operations that compose kernel code, their weakest preconditions, and the
  generic lemmas on lists, tables and little-endian integers.

  Kernel code is a function from the kernel state to an \<open>outcome\<close>. Every way the C code can stop
  is a value: it returns (\<open>Done\<close>), calls \<open>panic\<close> (console.c), gives up the CPU in \<open>sched\<close>
  (\<open>Asleep\<close>), spins on a lock another CPU holds (\<open>Spin\<close>), or does something C leaves undefined,
  such as following a null pointer, indexing past an array or overflowing an \<open>int\<close> (\<open>Fault\<close>).
\<close>

section \<open>C integer types\<close>

text \<open>\<open>types.h\<close>: \<open>uchar\<close>, \<open>ushort\<close> and \<open>uint\<close>. A signed \<open>int\<close> is modelled by \<^typ>\<open>int\<close>; where
  the code relies on its width the bounds are written out.\<close>

type_synonym uchar = "8 word"
type_synonym ushort = "16 word"
type_synonym uint = "32 word"

definition INT_MAX :: int where
  "INT_MAX = 2147483647"

section \<open>Outcomes and their composition\<close>

datatype ('s, 'a) outcome =
    Done 'a 's
  | Panic string
  | Asleep 's
  | Spin 's
  | Fault string

type_synonym ('s, 'a) kop = "'s \<Rightarrow> ('s, 'a) outcome"

named_theorems kop_defs \<open>unfolding of the composition operations\<close>
named_theorems wp_rules \<open>weakest preconditions of the composition operations\<close>

definition ret :: "'a \<Rightarrow> ('s, 'a) kop" where
  "ret a = (\<lambda>s. Done a s)"

definition bnd :: "('s, 'a) kop \<Rightarrow> ('a \<Rightarrow> ('s, 'b) kop) \<Rightarrow> ('s, 'b) kop" where
  "bnd m f = (\<lambda>s. case m s of
      Done a t \<Rightarrow> f a t
    | Panic e \<Rightarrow> Panic e
    | Asleep t \<Rightarrow> Asleep t
    | Spin t \<Rightarrow> Spin t
    | Fault e \<Rightarrow> Fault e)"

definition andthen :: "('s, 'a) kop \<Rightarrow> ('s, 'b) kop \<Rightarrow> ('s, 'b) kop" where
  "andthen m n = bnd m (\<lambda>_. n)"

definition gets :: "('s \<Rightarrow> 'a) \<Rightarrow> ('s, 'a) kop" where
  "gets f = (\<lambda>s. Done (f s) s)"

definition upd :: "('s \<Rightarrow> 's) \<Rightarrow> ('s, unit) kop" where
  "upd f = (\<lambda>s. Done () (f s))"

definition panic :: "string \<Rightarrow> ('s, 'a) kop" where
  "panic msg = (\<lambda>s. Panic msg)"

definition fault :: "string \<Rightarrow> ('s, 'a) kop" where
  "fault msg = (\<lambda>s. Fault msg)"

definition asleep :: "('s, 'a) kop" where
  "asleep = (\<lambda>s. Asleep s)"

definition spin :: "('s, 'a) kop" where
  "spin = (\<lambda>s. Spin s)"

definition whenever :: "bool \<Rightarrow> ('s, unit) kop \<Rightarrow> ('s, unit) kop" where
  "whenever b m = (if b then m else ret ())"

text \<open>A pointer that is followed: the null pointer faults.\<close>

definition deref :: "string \<Rightarrow> 'p option \<Rightarrow> ('s, 'p) kop" where
  "deref msg p = (case p of None \<Rightarrow> fault msg | Some x \<Rightarrow> ret x)"

text \<open>A loop over the elements of an array that runs to its end.\<close>

primrec for_each :: "'x list \<Rightarrow> ('x \<Rightarrow> ('s, unit) kop) \<Rightarrow> ('s, unit) kop" where
  "for_each [] f = ret ()"
| "for_each (x # xs) f = andthen (f x) (for_each xs f)"

declare ret_def [kop_defs] bnd_def [kop_defs] andthen_def [kop_defs] gets_def [kop_defs]
  upd_def [kop_defs] panic_def [kop_defs] fault_def [kop_defs] asleep_def [kop_defs]
  spin_def [kop_defs] whenever_def [kop_defs] deref_def [kop_defs]

section \<open>Weakest preconditions\<close>

text \<open>
  \<open>wp m Q s\<close>: run from \<open>s\<close>, the code \<open>m\<close> returns, and \<open>Q\<close> holds of the value and the state it
  returns. It is total: code that panics, faults, spins or goes to sleep does not satisfy it.
\<close>

definition wp :: "('s, 'a) kop \<Rightarrow> ('a \<Rightarrow> 's \<Rightarrow> bool) \<Rightarrow> 's \<Rightarrow> bool" where
  "wp m Q s \<longleftrightarrow> (case m s of Done a t \<Rightarrow> Q a t | _ \<Rightarrow> False)"

lemma wp_ret [wp_rules]: "wp (ret a) Q = Q a"
  by (simp add: fun_eq_iff wp_def ret_def)

lemma wp_bnd [wp_rules]: "wp (bnd m f) Q = wp m (\<lambda>a. wp (f a) Q)"
  by (simp add: fun_eq_iff wp_def bnd_def split: outcome.split)

lemma wp_andthen [wp_rules]: "wp (andthen m n) Q = wp m (\<lambda>_. wp n Q)"
  by (simp add: andthen_def wp_bnd)

lemma wp_gets [wp_rules]: "wp (gets f) Q s = Q (f s) s"
  by (simp add: wp_def gets_def)

lemma wp_upd [wp_rules]: "wp (upd f) Q s = Q () (f s)"
  by (simp add: wp_def upd_def)

lemma wp_panic [wp_rules]: "wp (panic e) Q s = False"
  by (simp add: wp_def panic_def)

lemma wp_fault [wp_rules]: "wp (fault e) Q s = False"
  by (simp add: wp_def fault_def)

lemma wp_asleep [wp_rules]: "wp asleep Q s = False"
  by (simp add: wp_def asleep_def)

lemma wp_spin [wp_rules]: "wp spin Q s = False"
  by (simp add: wp_def spin_def)

lemma wp_whenever [wp_rules]: "wp (whenever b m) Q s = (if b then wp m Q s else Q () s)"
  by (simp add: whenever_def wp_ret)

lemma wp_deref [wp_rules]: "wp (deref e p) Q s = (\<exists>x. p = Some x \<and> Q x s)"
  by (cases p) (simp_all add: deref_def wp_ret wp_fault)

lemma wp_if [wp_rules]: "wp (if b then m else n) Q s = (if b then wp m Q s else wp n Q s)"
  by simp

lemma wp_case_option [wp_rules]:
  "wp (case x of None \<Rightarrow> m | Some y \<Rightarrow> f y) Q s =
     (case x of None \<Rightarrow> wp m Q s | Some y \<Rightarrow> wp (f y) Q s)"
  by (simp split: option.split)

lemma wp_case_prod [wp_rules]:
  "wp (case x of (a, b) \<Rightarrow> f a b) Q s = (case x of (a, b) \<Rightarrow> wp (f a b) Q s)"
  by (simp split: prod.split)

lemma wp_Let [wp_rules]: "wp (Let x f) Q s = (let y = x in wp (f y) Q s)"
  by simp

lemma wp_mono:
  assumes "wp m P s" and "\<And>a t. P a t \<Longrightarrow> Q a t"
  shows "wp m Q s"
  using assms by (auto simp: wp_def split: outcome.splits)

lemma wp_conj: "wp m P s \<Longrightarrow> wp m Q s \<Longrightarrow> wp m (\<lambda>a t. P a t \<and> Q a t) s"
  by (auto simp: wp_def split: outcome.splits)

lemma wp_Done: "m s = Done a t \<Longrightarrow> wp m Q s = Q a t"
  by (simp add: wp_def)

lemma wpE:
  assumes "wp m Q s"
  obtains a t where "m s = Done a t" and "Q a t"
  using assms by (auto simp: wp_def split: outcome.splits)

lemma wp_iff_Done: "wp m Q s \<longleftrightarrow> (\<exists>a t. m s = Done a t \<and> Q a t)"
  by (auto simp: wp_def split: outcome.splits)

text \<open>
  \<open>wpa m Q R s\<close> is \<open>wp\<close> for code that may give up the CPU: \<open>m\<close> returns with \<open>Q\<close>, or goes to sleep
  with \<open>R\<close>.
\<close>

definition wpa :: "('s, 'a) kop \<Rightarrow> ('a \<Rightarrow> 's \<Rightarrow> bool) \<Rightarrow> ('s \<Rightarrow> bool) \<Rightarrow> 's \<Rightarrow> bool" where
  "wpa m Q R s \<longleftrightarrow> (case m s of Done a t \<Rightarrow> Q a t | Asleep t \<Rightarrow> R t | _ \<Rightarrow> False)"

named_theorems wpa_rules \<open>weakest preconditions of code that may sleep\<close>

lemma wpa_wp: "wp m Q s \<Longrightarrow> wpa m Q R s"
  by (auto simp: wp_def wpa_def split: outcome.splits)

lemma wpa_bnd [wpa_rules]: "wpa (bnd m f) Q R = wpa m (\<lambda>a. wpa (f a) Q R) R"
  by (simp add: fun_eq_iff wpa_def bnd_def split: outcome.split)

lemma wpa_andthen [wpa_rules]: "wpa (andthen m n) Q R = wpa m (\<lambda>_. wpa n Q R) R"
  by (simp add: andthen_def wpa_bnd)

lemma wpa_ret [wpa_rules]: "wpa (ret a) Q R = Q a"
  by (simp add: fun_eq_iff wpa_def ret_def)

lemma wpa_gets [wpa_rules]: "wpa (gets f) Q R s = Q (f s) s"
  by (simp add: wpa_def gets_def)

lemma wpa_upd [wpa_rules]: "wpa (upd f) Q R s = Q () (f s)"
  by (simp add: wpa_def upd_def)

lemma wpa_stuck [wpa_rules]:
  "wpa (panic e) Q R s = False" "wpa (fault e) Q R s = False" "wpa spin Q R s = False"
  by (simp_all add: wpa_def panic_def fault_def spin_def)

lemma wpa_asleep [wpa_rules]: "wpa asleep Q R s = R s"
  by (simp add: wpa_def asleep_def)

lemma wpa_whenever [wpa_rules]: "wpa (whenever b m) Q R s = (if b then wpa m Q R s else Q () s)"
  by (simp add: whenever_def wpa_ret)

lemma wpa_deref [wpa_rules]: "wpa (deref e p) Q R s = (\<exists>x. p = Some x \<and> Q x s)"
  by (cases p) (simp_all add: deref_def wpa_ret wpa_stuck)

lemma wpa_if [wpa_rules]:
  "wpa (if b then m else n) Q R s = (if b then wpa m Q R s else wpa n Q R s)"
  by simp

lemma wpa_case_option [wpa_rules]:
  "wpa (case x of None \<Rightarrow> m | Some y \<Rightarrow> f y) Q R s =
     (case x of None \<Rightarrow> wpa m Q R s | Some y \<Rightarrow> wpa (f y) Q R s)"
  by (simp split: option.split)

lemma wpa_mono:
  assumes "wpa m P S s" and "\<And>a t. P a t \<Longrightarrow> Q a t" and "\<And>t. S t \<Longrightarrow> R t"
  shows "wpa m Q R s"
  using assms by (auto simp: wpa_def split: outcome.splits)

lemma wpa_AsleepE:
  assumes "wpa m (\<lambda>_ _. False) R s"
  obtains t where "m s = Asleep t" and "R t"
  using assms by (auto simp: wpa_def split: outcome.splits)

text \<open>The loop rule: the invariant is indexed by what is left of the array.\<close>

lemma wp_for_each:
  assumes "I xs s"
    and "\<And>x rest t. I (x # rest) t \<Longrightarrow> \<exists>pre. xs = pre @ x # rest \<Longrightarrow> wp (f x) (\<lambda>_. I rest) t"
    and "\<And>t. I [] t \<Longrightarrow> Q () t"
  shows "wp (for_each xs f) Q s"
proof -
  have "I ys s \<Longrightarrow> \<exists>pre. xs = pre @ ys \<Longrightarrow> wp (for_each ys f) Q s" for ys
  proof (induction ys arbitrary: s)
    case Nil
    then show ?case using assms(3) by (simp add: wp_rules)
  next
    case (Cons y ys)
    then obtain pre where pre: "xs = pre @ y # ys" by blast
    then have "wp (f y) (\<lambda>_. I ys) s" using assms(2) Cons.prems(1) by blast
    moreover have "\<exists>pre. xs = pre @ ys" using pre by (metis append.assoc append_Cons append_Nil)
    ultimately show ?case
      using Cons.IH by (auto simp: wp_rules elim: wp_mono)
  qed
  then show ?thesis using assms(1) by blast
qed

section \<open>Tables\<close>

text \<open>The tables of the kernel are fixed arrays; an index is in range or the access faults.\<close>

lemma nth_list_update_if [simp]:
  "i < length xs \<Longrightarrow> xs[i := v] ! j = (if i = j then v else xs ! j)"
  by simp

lemma list_all_update: "list_all P xs \<Longrightarrow> P v \<Longrightarrow> list_all P (xs[i := v])"
  by (auto simp: list_all_iff dest: set_update_subset_insert [THEN subsetD])

section \<open>Little-endian integers in byte blocks\<close>

text \<open>On-disk structures are read and written through casts of byte buffers; the machine is
  little-endian.\<close>

definition get16 :: "uchar list \<Rightarrow> nat \<Rightarrow> ushort" where
  "get16 bs i = ucast (bs ! i) OR push_bit 8 (ucast (bs ! (i + 1)))"

definition get32 :: "uchar list \<Rightarrow> nat \<Rightarrow> uint" where
  "get32 bs i = ucast (bs ! i) OR push_bit 8 (ucast (bs ! (i + 1)))
     OR push_bit 16 (ucast (bs ! (i + 2))) OR push_bit 24 (ucast (bs ! (i + 3)))"

definition put16 :: "uchar list \<Rightarrow> nat \<Rightarrow> ushort \<Rightarrow> uchar list" where
  "put16 bs i w = bs[i := ucast w, i + 1 := ucast (drop_bit 8 w)]"

definition put32 :: "uchar list \<Rightarrow> nat \<Rightarrow> uint \<Rightarrow> uchar list" where
  "put32 bs i w = bs[i := ucast w, i + 1 := ucast (drop_bit 8 w),
     i + 2 := ucast (drop_bit 16 w), i + 3 := ucast (drop_bit 24 w)]"

lemma length_put16 [simp]: "length (put16 bs i w) = length bs"
  by (simp add: put16_def)

lemma length_put32 [simp]: "length (put32 bs i w) = length bs"
  by (simp add: put32_def)

lemma get16_put16 [simp]: "i + 1 < length bs \<Longrightarrow> get16 (put16 bs i w) i = w"
  by (rule bit_word_eqI) (auto simp: get16_def put16_def bit_simps)

lemma get32_put32 [simp]:
  assumes "i + 3 < length bs"
  shows "get32 (put32 bs i w) i = w"
proof (rule bit_word_eqI)
  fix n :: nat
  consider "n < 8" | "8 \<le> n" "n < 16" | "16 \<le> n" "n < 24" | "24 \<le> n" by linarith
  then show "bit (get32 (put32 bs i w) i) n = bit w n" if "n < LENGTH(32)"
    using that assms by cases (auto simp: get32_def put32_def bit_simps)
qed

lemma get32_put32_other [simp]:
  "i + 3 < length bs \<Longrightarrow> j + 3 < i \<or> i + 3 < j \<Longrightarrow> get32 (put32 bs i w) j = get32 bs j"
  by (auto simp: get32_def put32_def)

lemma get16_put32_other [simp]:
  "i + 3 < length bs \<Longrightarrow> j + 1 < i \<or> i + 3 < j \<Longrightarrow> get16 (put32 bs i w) j = get16 bs j"
  by (auto simp: get16_def put32_def)

lemma get32_put16_other [simp]:
  "i + 1 < length bs \<Longrightarrow> j + 3 < i \<or> i + 1 < j \<Longrightarrow> get32 (put16 bs i w) j = get32 bs j"
  by (auto simp: get32_def put16_def)

lemma get16_put16_other [simp]:
  "i + 1 < length bs \<Longrightarrow> j + 1 < i \<or> i + 1 < j \<Longrightarrow> get16 (put16 bs i w) j = get16 bs j"
  by (auto simp: get16_def put16_def)

lemma put32_eq_byte: "j < i \<or> i + 3 < j \<Longrightarrow> i + 3 < length bs \<Longrightarrow> put32 bs i w ! j = bs ! j"
  by (auto simp: put32_def)
lemma put16_eq_byte: "j < i \<or> i + 1 < j \<Longrightarrow> i + 1 < length bs \<Longrightarrow> put16 bs i w ! j = bs ! j"
  by (auto simp: put16_def)

section \<open>Signed reading of 32-bit words\<close>

lemma sint_uint32: "sint (x :: uint) = (if uint x < 2 ^ 31 then uint x else uint x - 2 ^ 32)"
proof -
  have b: "0 \<le> uint x" "uint x < 2 ^ 32" using uint_lt2p [of x] by simp_all
  have "bit (uint x) 31 \<longleftrightarrow> \<not> uint x < 2 ^ 31"
  proof (cases "uint x < 2 ^ 31")
    case True
    then have "uint x div 2 ^ 31 = 0" using b by (intro div_pos_pos_trivial) simp_all
    then show ?thesis using True by (simp only: bit_iff_odd) simp
  next
    case False
    then have "uint x div 2 ^ 31 = 1" using b by (intro int_div_pos_eq [of _ _ _ "uint x - 2 ^ 31"]) simp_all
    then show ?thesis using False by (simp only: bit_iff_odd) simp
  qed
  then show ?thesis
    using b by (simp add: sint_uint signed_take_bit_eq_take_bit_minus take_bit_int_eq_self)
qed

end
