(* ===== verification/StringC.thy ===== *)
theory StringC
  imports Kernel_Prelude
begin

text \<open>
  Memory as bytes by address, and the routines of string.c on it. An address is a \<open>uint\<close> and address
  arithmetic wraps, as the machine's does.
\<close>

type_synonym memory = "uint \<Rightarrow> uchar"

section \<open>Words in memory\<close>

definition rd32 :: "memory \<Rightarrow> uint \<Rightarrow> uint" where
  "rd32 m a = ucast (m a) OR push_bit 8 (ucast (m (a + 1))) OR push_bit 16 (ucast (m (a + 2)))
     OR push_bit 24 (ucast (m (a + 3)))"

definition wr32 :: "memory \<Rightarrow> uint \<Rightarrow> uint \<Rightarrow> memory" where
  "wr32 m a v = m(a := ucast v, a + 1 := ucast (drop_bit 8 v), a + 2 := ucast (drop_bit 16 v),
     a + 3 := ucast (drop_bit 24 v))"

section \<open>The routines\<close>

text \<open>x86.h: \<open>rep stosb\<close> and \<open>rep stosl\<close>.\<close>

fun stosb :: "memory \<Rightarrow> uint \<Rightarrow> uchar \<Rightarrow> nat \<Rightarrow> memory" where
  "stosb m addr data 0 = m"
| "stosb m addr data (Suc cnt) = stosb (m(addr := data)) (addr + 1) data cnt"

fun stosl :: "memory \<Rightarrow> uint \<Rightarrow> uint \<Rightarrow> nat \<Rightarrow> memory" where
  "stosl m addr data 0 = m"
| "stosl m addr data (Suc cnt) = stosl (wr32 m addr data) (addr + 4) data cnt"

definition memset :: "memory \<Rightarrow> uint \<Rightarrow> uint \<Rightarrow> uint \<Rightarrow> memory" where
  "memset m dst c n =
     (if sint dst mod 4 = 0 \<and> n mod 4 = 0
      then (let c = c AND 0xFF in
        stosl m dst (push_bit 24 c OR push_bit 16 c OR push_bit 8 c OR c) (unat (n div 4)))
      else stosb m dst (ucast c) (unat n))"

fun memcmp :: "memory \<Rightarrow> uint \<Rightarrow> uint \<Rightarrow> nat \<Rightarrow> int" where
  "memcmp m s1 s2 0 = 0"
| "memcmp m s1 s2 (Suc n) =
     (if m s1 \<noteq> m s2 then uint (m s1) - uint (m s2) else memcmp m (s1 + 1) (s2 + 1) n)"

fun copy_down :: "memory \<Rightarrow> uint \<Rightarrow> uint \<Rightarrow> nat \<Rightarrow> memory" where
  "copy_down m d s 0 = m"
| "copy_down m d s (Suc n) = copy_down (m(d - 1 := m (s - 1))) (d - 1) (s - 1) n"

fun copy_up :: "memory \<Rightarrow> uint \<Rightarrow> uint \<Rightarrow> nat \<Rightarrow> memory" where
  "copy_up m d s 0 = m"
| "copy_up m d s (Suc n) = copy_up (m(d := m s)) (d + 1) (s + 1) n"

definition memmove :: "memory \<Rightarrow> uint \<Rightarrow> uint \<Rightarrow> uint \<Rightarrow> memory" where
  "memmove m dst src n =
     (if src < dst \<and> src + n > dst then copy_down m (dst + n) (src + n) (unat n)
      else copy_up m dst src (unat n))"

definition memcpy :: "memory \<Rightarrow> uint \<Rightarrow> uint \<Rightarrow> uint \<Rightarrow> memory" where
  "memcpy m dst src n = memmove m dst src n"

fun strncmp :: "memory \<Rightarrow> uint \<Rightarrow> uint \<Rightarrow> nat \<Rightarrow> int" where
  "strncmp m p q 0 = 0"
| "strncmp m p q (Suc n) =
     (if m p \<noteq> 0 \<and> m p = m q then strncmp m (p + 1) (q + 1) n else uint (m p) - uint (m q))"

text \<open>The copying loop of \<open>strncpy\<close> gives the memory, where it stopped and what is left of \<open>n\<close>; the
  counter is decremented once more when the loop ends by it.\<close>

fun strncpy_copy :: "memory \<Rightarrow> uint \<Rightarrow> uint \<Rightarrow> nat \<Rightarrow> memory \<times> uint \<times> nat" where
  "strncpy_copy m s t 0 = (m, s, 0)"
| "strncpy_copy m s t (Suc n) =
     (let c = m t; m' = m(s := c) in
      if c \<noteq> 0 then strncpy_copy m' (s + 1) (t + 1) n else (m', s + 1, n))"

definition strncpy :: "memory \<Rightarrow> uint \<Rightarrow> uint \<Rightarrow> int \<Rightarrow> memory" where
  "strncpy m s t n = (case strncpy_copy m s t (nat n) of (m', s', k) \<Rightarrow> stosb m' s' 0 k)"

fun safestrcpy_copy :: "memory \<Rightarrow> uint \<Rightarrow> uint \<Rightarrow> nat \<Rightarrow> memory \<times> uint" where
  "safestrcpy_copy m s t 0 = (m, s)"
| "safestrcpy_copy m s t (Suc n) =
     (let c = m t; m' = m(s := c) in
      if c \<noteq> 0 then safestrcpy_copy m' (s + 1) (t + 1) n else (m', s + 1))"

definition safestrcpy :: "memory \<Rightarrow> uint \<Rightarrow> uint \<Rightarrow> int \<Rightarrow> memory" where
  "safestrcpy m s t n =
     (if n \<le> 0 then m
      else (case safestrcpy_copy m s t (nat (n - 1)) of (m', s') \<Rightarrow> m'(s' := 0)))"

text \<open>\<open>strlen\<close> runs on until it meets a zero byte.\<close>

partial_function (option) strlen_from :: "memory \<Rightarrow> uint \<Rightarrow> nat \<Rightarrow> nat option" where
  "strlen_from m s n = (if m (s + of_nat n) = 0 then Some n else strlen_from m s (n + 1))"

definition strlen :: "memory \<Rightarrow> uint \<Rightarrow> nat option" where
  "strlen m s = strlen_from m s 0"

section \<open>Words in memory, laws\<close>

lemma uint32_offset_neq:
  "(1::uint) \<noteq> 0" "(2::uint) \<noteq> 0" "(3::uint) \<noteq> 0" "(1::uint) \<noteq> 2" "(1::uint) \<noteq> 3" "(2::uint) \<noteq> 3"
  by simp_all

lemma rd32_wr32 [simp]: "rd32 (wr32 m a v) a = v"
proof -
  have ne: "a + 1 \<noteq> a" "a + 2 \<noteq> a" "a + 3 \<noteq> a" "a + 1 \<noteq> a + 2" "a + 1 \<noteq> a + 3" "a + 2 \<noteq> a + 3"
    using uint32_offset_neq by (simp_all only: add_left_cancel add_right_cancel) simp_all
  have b: "wr32 m a v a = ucast v" "wr32 m a v (a + 1) = ucast (drop_bit 8 v)"
    "wr32 m a v (a + 2) = ucast (drop_bit 16 v)" "wr32 m a v (a + 3) = ucast (drop_bit 24 v)"
    using ne ne [symmetric] by (simp_all add: wr32_def)
  have "get32 (put32 [0, 0, 0, 0] 0 v) 0 = v" by (rule get32_put32) simp
  then show ?thesis by (simp add: rd32_def b get32_def put32_def)
qed

lemma wr32_other: "x - a \<notin> {0, 1, 2, 3} \<Longrightarrow> wr32 m a v x = m x"
  by (auto simp: wr32_def)

text \<open>Words at addresses that are multiples of four are apart.\<close>

lemma rd32_cong:
  assumes "\<And>i. i \<in> {0, 1, 2, 3} \<Longrightarrow> m (a + i) = m' (a + i)"
  shows "rd32 m a = rd32 m' a"
  using assms [of 0] assms [of 1] assms [of 2] assms [of 3] by (simp add: rd32_def)

section \<open>Filling\<close>

lemma unat_step:
  fixes x a :: uint
  assumes "x \<noteq> a"
  shows "unat (x - (a + 1)) = unat (x - a) - 1" and "0 < unat (x - a)"
proof -
  have "x - a \<noteq> 0" using assms by simp
  then have "unat (x - a - 1) = unat (x - a) - 1" by (rule unat_minus_one)
  then show "unat (x - (a + 1)) = unat (x - a) - 1" by (simp add: diff_diff_eq)
  show "0 < unat (x - a)" using \<open>x - a \<noteq> 0\<close> by (simp add: unat_gt_0)
qed

lemma unat_back: "unat ((a::uint) - (a + 1)) = 2 ^ 32 - 1"
proof -
  have "a - (a + 1) = - 1" by simp
  moreover have "unat (- 1 :: uint) = mask LENGTH(32)" by (rule unsigned_minus_1_eq_mask)
  ultimately show ?thesis by (simp add: mask_eq_exp_minus_1)
qed

lemma stosb_spec: "n \<le> 2 ^ 32 \<Longrightarrow> stosb m a c n = (\<lambda>x. if unat (x - a) < n then c else m x)"
proof (induction n arbitrary: m a)
  case (Suc n)
  have "(if unat (x - (a + 1)) < n then c else (m(a := c)) x) = (if unat (x - a) < Suc n then c else m x)" for x
  proof (cases "x = a")
    case True
    then show ?thesis using Suc.prems unat_back [of a] by simp
  next
    case False
    then show ?thesis using unat_step [OF False] by auto
  qed
  then show ?case using Suc by simp
qed simp

lemma stosb_add: "stosb m a c (j + k) = stosb (stosb m a c j) (a + of_nat j) c k"
  by (induction j arbitrary: m a) (simp_all add: algebra_simps)

definition splat :: "uint \<Rightarrow> uint" where
  "splat c = push_bit 24 c OR push_bit 16 c OR push_bit 8 c OR c"

lemma wr32_splat: "wr32 m a (splat (c AND 0xFF)) = stosb m a (ucast c) 4"
proof -
  have ff: "(0xFF :: uint) = mask 8" by (simp add: mask_eq_exp_minus_1)
  have "bit (splat (c AND 0xFF)) (k + i) = bit c i" if "k = 0 \<or> k = 8 \<or> k = 16 \<or> k = 24" "i < 8" for k i
    using that by (elim disjE) (auto simp: splat_def bit_simps ff)
  then have k: "ucast (drop_bit k (splat (c AND 0xFF))) = (ucast c :: uchar)" if "k = 0 \<or> k = 8 \<or> k = 16 \<or> k = 24" for k
    using that by (intro bit_word_eqI) (simp add: bit_simps)
  have four: "4 = Suc (Suc (Suc (Suc 0)))" by simp
  have sums: "a + 1 + 1 = a + 2" "a + 2 + 1 = a + 3" by simp_all
  show ?thesis using k [of 0] k [of 8] k [of 16] k [of 24] by (simp add: wr32_def four sums)
qed

lemma stosl_stosb: "stosl m a (splat (c AND 0xFF)) n = stosb m a (ucast c) (4 * n)"
proof (induction n arbitrary: m a)
  case (Suc n)
  have "stosb m a (ucast c) (4 + 4 * n) = stosb (stosb m a (ucast c) 4) (a + of_nat 4) (ucast c) (4 * n)"
    by (rule stosb_add)
  moreover have "4 * Suc n = 4 + 4 * n" by simp
  ultimately show ?case using Suc [of "stosb m a (ucast c) 4" "a + 4"] by (simp only: stosl.simps wr32_splat of_nat_numeral)
qed simp

lemma div4_exact:
  fixes n :: uint
  assumes "n mod 4 = 0"
  shows "4 * unat (n div 4) = unat n"
proof -
  have "unat (n mod 4) = unat n mod unat (4 :: uint)" by (rule unat_mod_distrib)
  then have "unat n mod 4 = 0" by (simp add: assms)
  then show ?thesis using mult_div_mod_eq [of 4 "unat n"] by (simp add: unat_div)
qed

lemma memset_spec: "memset m dst c n = (\<lambda>x. if x - dst < n then ucast c else m x)"
proof -
  have n: "unat n \<le> 2 ^ 32" using unsigned_less [of n, where ?'a = nat] by simp
  show ?thesis
    using stosb_spec [OF n, of m dst "ucast c"] stosl_stosb [of m dst c "unat (n div 4)"] div4_exact [of n]
    by (simp add: memset_def Let_def splat_def word_less_nat_alt)
qed

section \<open>Moving\<close>

text \<open>What a move is to do, whatever the overlap: the bytes that were at the source are at the
  destination, and no other byte changes.\<close>

definition moved_bytes :: "memory \<Rightarrow> uint \<Rightarrow> uint \<Rightarrow> nat \<Rightarrow> memory" where
  "moved_bytes m d s n = (\<lambda>x. if unat (x - d) < n then m (s + (x - d)) else m x)"

lemma copy_up_spec:
  assumes "d = s \<or> n \<le> unat (d - s)" and "n \<le> 2 ^ 32"
  shows "copy_up m d s n = moved_bytes m d s n"
  using assms
proof (induction n arbitrary: m d s)
  case (Suc n)
  have IH: "copy_up (m(d := m s)) (d + 1) (s + 1) n = moved_bytes (m(d := m s)) (d + 1) (s + 1) n"
    using Suc.prems by (intro Suc.IH) auto
  have "moved_bytes (m(d := m s)) (d + 1) (s + 1) n x = moved_bytes m d s (Suc n) x" for x
  proof (cases "x = d")
    case True
    then show ?thesis using Suc.prems unat_back [of d] by (simp add: moved_bytes_def)
  next
    case False
    have src: "s + 1 + (x - (d + 1)) = s + (x - d)" by simp
    have "s + (x - d) \<noteq> d" if "unat (x - d) < Suc n"
    proof
      assume "s + (x - d) = d"
      then have "d - s = x - d" by (metis add_diff_cancel_left')
      then show False using Suc.prems(1) that False by auto
    qed
    then show ?thesis
      using unat_step [OF False] False src by (auto simp: moved_bytes_def)
  qed
  then show ?case using IH by (simp add: fun_eq_iff)
qed (simp add: moved_bytes_def)

lemma copy_down_spec:
  assumes "d = s \<or> n \<le> unat (s - d)" and "n < 2 ^ 32"
  shows "copy_down m d s n = moved_bytes m (d - of_nat n) (s - of_nat n) n"
  using assms
proof (induction n arbitrary: m d s)
  case (Suc n)
  let ?m = "m(d - 1 := m (s - 1))" and ?d = "d - 1 - of_nat n" and ?s = "s - 1 - of_nat n"
  have IH: "copy_down ?m (d - 1) (s - 1) n = moved_bytes ?m ?d ?s n"
    using Suc.prems by (intro Suc.IH) auto
  have un: "unat (of_nat n :: uint) = n" using Suc.prems(2) by (simp add: unat_of_nat take_bit_nat_eq_self)
  have "moved_bytes ?m ?d ?s n x = moved_bytes m ?d ?s (Suc n) x" for x
  proof (cases "unat (x - ?d) < n")
    case True
    have "?s + (x - ?d) \<noteq> d - 1"
    proof
      assume "?s + (x - ?d) = d - 1"
      then have e: "s - d = of_nat n - (x - ?d)" by (simp add: algebra_simps)
      have "unat (of_nat n - (x - ?d)) = n - unat (x - ?d)"
        using True un by (subst unat_sub) (simp_all add: word_le_nat_alt)
      then show False using Suc.prems(1) True e by (cases "d = s") auto
    qed
    then show ?thesis using True by (simp add: moved_bytes_def)
  next
    case False
    show ?thesis
    proof (cases "x = d - 1")
      case True
      then show ?thesis using un by (simp add: moved_bytes_def)
    next
      case xd: False
      have "unat (x - ?d) \<noteq> n"
      proof
        assume "unat (x - ?d) = n"
        then have "x - ?d = of_nat n" using un by (metis word_unat_eq_iff)
        then show False using xd by (simp add: algebra_simps)
      qed
      then show ?thesis using False xd by (simp add: moved_bytes_def)
    qed
  qed
  then show ?case using IH by (simp add: fun_eq_iff diff_diff_eq add.commute)
qed (simp add: moved_bytes_def)

lemma unat_wrap_sub:
  fixes a b :: uint
  assumes "a < b"
  shows "unat (a - b) = 2 ^ 32 - (unat b - unat a)"
  using assms by (simp add: unat_sub_if_size word_size word_le_nat_alt word_less_nat_alt)

lemma memmove_spec:
  assumes "unat src + unat n \<le> 2 ^ 32" and "unat dst + unat n \<le> 2 ^ 32"
  shows "memmove m dst src n = moved_bytes m dst src (unat n)"
proof (cases "n = 0")
  case True
  then show ?thesis by (simp add: memmove_def moved_bytes_def)
next
  case False
  have n: "unat n < 2 ^ 32" using unsigned_less [of n, where ?'a = nat] by simp
  show ?thesis
  proof (cases "src < dst \<and> src + n > dst")
    case True
    then have "unat n \<le> unat (src - dst)" using unat_wrap_sub [of src dst] assms by (simp add: word_less_nat_alt)
    then have "copy_down m (dst + n) (src + n) (unat n) = moved_bytes m (dst + n - of_nat (unat n)) (src + n - of_nat (unat n)) (unat n)"
      using n by (intro copy_down_spec) simp_all
    then show ?thesis using True by (simp add: memmove_def)
  next
    case up: False
    have "dst = src \<or> unat n \<le> unat (dst - src)"
    proof (cases "src < dst")
      case True
      have "unat (src + n) = unat src + unat n \<or> unat src + unat n = 2 ^ 32"
        using assms(1) by (cases "unat src + unat n = 2 ^ 32") (simp_all add: unat_word_ariths)
      moreover have "unat (dst - src) = unat dst - unat src" using True by (simp add: unat_sub word_less_nat_alt word_le_nat_alt)
      ultimately show ?thesis using True up assms by (auto simp: word_less_nat_alt)
    next
      case le: False
      have "dst = src \<or> unat dst \<noteq> unat src" by (simp add: word_unat_eq_iff)
      then show ?thesis using le unat_wrap_sub [of dst src] assms by (auto simp: word_less_nat_alt)
    qed
    then have "copy_up m dst src (unat n) = moved_bytes m dst src (unat n)" using n by (intro copy_up_spec) simp_all
    then show ?thesis by (simp only: memmove_def up if_False)
  qed
qed

section \<open>Strings\<close>

lemma strlen_from_found:
  assumes "m (s + of_nat (n + k)) = 0" and "\<And>i. i < k \<Longrightarrow> m (s + of_nat (n + i)) \<noteq> 0"
  shows "strlen_from m s n = Some (n + k)"
  using assms
proof (induction k arbitrary: n)
  case 0
  then show ?case by (subst strlen_from.simps) simp
next
  case (Suc k)
  have "strlen_from m s (n + 1) = Some (n + 1 + k)"
    using Suc.prems(1) Suc.prems(2) [of "Suc i" for i] by (intro Suc.IH) (simp_all add: add.assoc)
  then show ?case using Suc.prems(2) [of 0] by (subst strlen_from.simps) simp
qed

text \<open>What \<open>safestrcpy\<close> copies: \<open>k\<close> bytes before the first zero byte of the source, or \<open>n - 1\<close>.\<close>

lemma safestrcpy_copy_spec:
  assumes k: "k \<le> n" "\<And>i. i < k \<Longrightarrow> m (t + of_nat i) \<noteq> 0" "k < n \<Longrightarrow> m (t + of_nat k) = 0"
    and apart: "n \<le> unat (s - t)" "n < 2 ^ 32"
  shows "safestrcpy_copy m s t n =
    (if k < n then ((moved_bytes m s t k)(s + of_nat k := 0), s + of_nat k + 1) else (moved_bytes m s t k, s + of_nat k))"
  using assms
proof (induction n arbitrary: m s t k)
  case (Suc n)
  show ?case
  proof (cases k)
    case 0
    then show ?thesis using Suc.prems(3) by (simp add: Let_def moved_bytes_def)
  next
    case (Suc j)
    let ?m = "m(s := m t)"
    have st: "t + of_nat i \<noteq> s" if "i < Suc n" for i
    proof
      assume "t + of_nat i = s"
      then have "s - t = of_nat i" by auto
      then have "unat (s - t) = i" using that Suc.prems(5) by (simp add: unat_of_nat take_bit_nat_eq_self)
      then show False using that Suc.prems(4) by simp
    qed
    have nz: "m t \<noteq> 0" using Suc.prems(2) [of 0] Suc by simp
    have same: "?m (t + 1 + of_nat i) = m (t + of_nat (Suc i))" if "i < n" for i
      using st [of "Suc i"] that by (simp add: add.assoc)
    have "safestrcpy_copy ?m (s + 1) (t + 1) n =
      (if j < n then ((moved_bytes ?m (s + 1) (t + 1) j)(s + 1 + of_nat j := 0), s + 1 + of_nat j + 1)
       else (moved_bytes ?m (s + 1) (t + 1) j, s + 1 + of_nat j))"
    proof (rule Suc.IH)
      show "?m (t + 1 + of_nat i) \<noteq> 0" if "i < j" for i
        using same [of i] Suc.prems(1) Suc.prems(2) [of "Suc i"] Suc that by simp
      show "?m (t + 1 + of_nat j) = 0" if "j < n" using same [OF that] Suc.prems(3) Suc that by simp
    qed (use Suc.prems(1,4,5) Suc in simp_all)
    moreover have "moved_bytes ?m (s + 1) (t + 1) j = moved_bytes m s t (Suc j)"
    proof -
      have "copy_up m s t (Suc j) = moved_bytes m s t (Suc j)" "copy_up ?m (s + 1) (t + 1) j = moved_bytes ?m (s + 1) (t + 1) j"
        using Suc.prems Suc by (intro copy_up_spec; simp)+
      then show ?thesis by simp
    qed
    moreover have "s + 1 + of_nat j = s + of_nat (Suc j)" by simp
    ultimately show ?thesis
      using nz by (simp only: safestrcpy_copy.simps Let_def Suc Suc_less_eq if_True not_False_eq_True)
  qed
qed (simp add: moved_bytes_def)

text \<open>
  C22. \<open>memmove\<close> moves correctly whatever the overlap of source and destination, provided neither runs
  past the end of the address space: afterwards each byte of the destination is the byte the source had
  before, and no other byte has changed.
\<close>

theorem memmove_moves:
  assumes "unat src + unat n \<le> 2 ^ 32" and "unat dst + unat n \<le> 2 ^ 32"
  shows "(\<forall>i < unat n. memmove m dst src n (dst + of_nat i) = m (src + of_nat i)) \<and>
    (\<forall>x. unat n \<le> unat (x - dst) \<longrightarrow> memmove m dst src n x = m x)"
proof (intro conjI allI impI)
  fix i
  assume i: "i < unat n"
  then have "unat (of_nat i :: uint) = i"
    using unsigned_less [of n, where ?'a = nat] by (simp add: unat_of_nat take_bit_nat_eq_self)
  then show "memmove m dst src n (dst + of_nat i) = m (src + of_nat i)"
    using i memmove_spec [OF assms] by (simp add: moved_bytes_def)
qed (use memmove_spec [OF assms] in \<open>simp add: moved_bytes_def\<close>)

theorem memmove_moves_witness:
  "memmove (\<lambda>a. ucast a) 0x1004 0x1000 8 0x1004 = ucast (0x1000 :: uint) \<and>
   memmove (\<lambda>a. ucast a) 0x1004 0x1000 8 0x100B = ucast (0x1007 :: uint) \<and>
   memmove (\<lambda>a. ucast a) 0x1004 0x1000 8 0x100C = ucast (0x100C :: uint)"
proof -
  note moves = memmove_moves [of "0x1000" 8 "0x1004" "\<lambda>a. ucast a"]
  show ?thesis
    using conjunct1 [OF moves, THEN spec, of 0] conjunct1 [OF moves, THEN spec, of 7] conjunct2 [OF moves, THEN spec, of "0x100C"]
    by simp
qed

text \<open>
  C23. \<open>safestrcpy\<close> into a buffer of \<open>n\<close> bytes that is apart from the source copies the source's string as
  far as it fits, ends it with a zero byte inside the buffer, and writes nothing outside the buffer.
\<close>

theorem safestrcpy_terminates_string:
  assumes "0 < n" and "nat n \<le> unat (s - t)" and "nat n < 2 ^ 32"
    and "k < nat n" and "\<forall>i < k. m (t + of_nat i) \<noteq> 0" and "k = nat n - 1 \<or> m (t + of_nat k) = 0"
  shows "(\<forall>i < k. safestrcpy m s t n (s + of_nat i) = m (t + of_nat i)) \<and>
    safestrcpy m s t n (s + of_nat k) = 0 \<and>
    (\<forall>x. nat n \<le> unat (x - s) \<longrightarrow> safestrcpy m s t n x = m x)"
proof -
  let ?n = "nat n - 1"
  have n: "nat (n - 1) = ?n" "0 < nat n" using assms(1) by simp_all
  have "safestrcpy_copy m s t ?n =
      (if k < ?n then ((moved_bytes m s t k)(s + of_nat k := 0), s + of_nat k + 1) else (moved_bytes m s t k, s + of_nat k))"
    by (rule safestrcpy_copy_spec) (use assms in auto)
  then have eq: "safestrcpy m s t n =
      (if k < ?n then (moved_bytes m s t k)(s + of_nat k := 0, s + of_nat k + 1 := 0) else (moved_bytes m s t k)(s + of_nat k := 0))"
    using assms(1) n by (simp add: safestrcpy_def)
  have un: "unat (of_nat i :: uint) = i" if "i < nat n" for i
    using that assms(3) by (simp add: unat_of_nat take_bit_nat_eq_self)
  have ne: "s + of_nat i \<noteq> s + of_nat j" if "i < nat n" "j < nat n" "i \<noteq> j" for i j
    using un [OF that(1)] un [OF that(2)] that(3) by auto
  have k1: "s + of_nat k + 1 = s + of_nat (Suc k)" by simp
  show ?thesis
  proof (intro conjI allI impI)
    fix i
    assume i: "i < k"
    then show "safestrcpy m s t n (s + of_nat i) = m (t + of_nat i)"
      using ne [of i k] ne [of i "Suc k"] un [of i] assms(4) unfolding eq k1 by (auto simp: moved_bytes_def)
  next
    show "safestrcpy m s t n (s + of_nat k) = 0" using assms(4) unfolding eq k1 by auto
  next
    fix x
    assume x: "nat n \<le> unat (x - s)"
    then have ne: "x \<noteq> s + of_nat i" if "i < nat n" for i using un [OF that] that by auto
    show "safestrcpy m s t n x = m x"
      using x assms(4) ne [of k] ne [of "Suc k"] unfolding eq k1 by (cases "k < ?n") (simp_all add: moved_bytes_def)
  qed
qed

theorem safestrcpy_terminates_string_witness:
  "safestrcpy (\<lambda>a. if a < 0x1003 then 65 else 0) 0x2000 0x1000 16 0x2003 = 0"
proof -
  have "\<forall>i < (3::nat). (\<lambda>a :: uint. if a < 0x1003 then 65 else 0) (0x1000 + of_nat i) \<noteq> (0 :: uchar)"
    by (auto simp: less_Suc_eq numeral_3_eq_3)
  from safestrcpy_terminates_string [of 16 "0x2000" "0x1000" 3, OF _ _ _ _ this]
  show ?thesis by simp
qed

end
