(* ===== verification/Spinlock.thy ===== *)
theory Spinlock
  imports Kernel_Prelude
begin

text \<open>
  spinlock.c: the spin locks, interrupt masking with \<open>pushcli\<close>/\<open>popcli\<close>, and the record of
  call stacks. The first part models the operations as the code of one CPU; the second part
  splits \<open>acquire\<close> and \<open>release\<close> into their memory accesses and lets all CPUs interleave them.
\<close>

section \<open>CPUs and locks\<close>

text \<open>The locks of the kernel, by the object they are in.\<close>

datatype lockid =
    PtableLock | KmemLock | BcacheLock | IdeLock | LogLock | IcacheLock | FtableLock
  | TicksLock | ConsLock | InputLock | PipeLock uint

text \<open>\<open>struct spinlock\<close> (spinlock.h); \<open>lk_cpu\<close> is the CPU's index, \<open>None\<close> the null pointer.\<close>

record spinlock =
  lk_locked :: uint
  lk_name :: string
  lk_cpu :: "nat option"
  lk_pcs :: "uint list"

text \<open>
  \<open>struct cpu\<close> (proc.h), as far as the C code uses it. \<open>c_if\<close> is the interrupt flag of the CPU's
  \<open>eflags\<close> register, \<open>c_cr3\<close> its page-table register, \<open>c_esp0\<close> the kernel stack pointer of its
  task state. \<open>c_indice\<close> is the local variable \<open>indice\<close> of the CPU's activation of \<open>scheduler\<close>,
  which never returns.
\<close>

record cpu =
  c_id :: uchar
  c_ncli :: int
  c_intena :: bool
  c_if :: bool
  c_started :: bool
  c_proc :: "nat option"
  c_cr3 :: uint
  c_esp0 :: uint
  c_indice :: nat

definition NCPU :: nat where
  "NCPU = 8"

text \<open>
  The part of the kernel state that locking uses: the CPUs, the index of the CPU whose code is
  running, the locks, and the words of the kernel stack that \<open>getcallerpcs\<close> walks, with the
  address of the current function's first argument.
\<close>

record kbase =
  cpus :: "cpu list"
  mycpu :: nat
  spinlocks :: "lockid \<Rightarrow> spinlock"
  stackmem :: "uint \<Rightarrow> uint"
  stackarg :: uint

abbreviation thecpu :: "'z kbase_scheme \<Rightarrow> cpu" where
  "thecpu s \<equiv> cpus s ! mycpu s"

definition upd_cpu :: "(cpu \<Rightarrow> cpu) \<Rightarrow> 'z kbase_scheme \<Rightarrow> 'z kbase_scheme" where
  "upd_cpu f s = s\<lparr>cpus := (cpus s)[mycpu s := f (thecpu s)]\<rparr>"

definition upd_lock :: "lockid \<Rightarrow> (spinlock \<Rightarrow> spinlock) \<Rightarrow> 'z kbase_scheme \<Rightarrow> 'z kbase_scheme" where
  "upd_lock l f s = s\<lparr>spinlocks := (spinlocks s)(l := f (spinlocks s l))\<rparr>"

section \<open>The operations\<close>

definition initlock :: "lockid \<Rightarrow> string \<Rightarrow> ('z kbase_scheme, unit) kop" where
  "initlock l name = upd (upd_lock l (\<lambda>k. k\<lparr>lk_name := name, lk_locked := 0, lk_cpu := None\<rparr>))"

text \<open>The walk along the saved frame pointers, at most ten frames, the rest filled with zeroes.\<close>

definition KERNBASE :: uint where
  "KERNBASE = 0x80000000"

fun callerpcs :: "(uint \<Rightarrow> uint) \<Rightarrow> nat \<Rightarrow> uint \<Rightarrow> uint list" where
  "callerpcs m 0 ebp = []"
| "callerpcs m (Suc n) ebp =
     (if ebp = 0 \<or> ebp < KERNBASE \<or> ebp = 0xffffffff then replicate (Suc n) 0
      else m (ebp + 4) # callerpcs m n (m ebp))"

definition getcallerpcs :: "(uint \<Rightarrow> uint) \<Rightarrow> uint \<Rightarrow> uint list" where
  "getcallerpcs m v = callerpcs m 10 (v - 8)"

definition holding :: "lockid \<Rightarrow> 'z kbase_scheme \<Rightarrow> bool" where
  "holding l s \<longleftrightarrow> lk_locked (spinlocks s l) \<noteq> 0 \<and> lk_cpu (spinlocks s l) = Some (mycpu s)"

definition cli :: "('z kbase_scheme, unit) kop" where
  "cli = upd (upd_cpu (\<lambda>c. c\<lparr>c_if := False\<rparr>))"

definition sti :: "('z kbase_scheme, unit) kop" where
  "sti = upd (upd_cpu (\<lambda>c. c\<lparr>c_if := True\<rparr>))"

definition pushcli :: "('z kbase_scheme, unit) kop" where
  "pushcli =
     bnd (gets (\<lambda>s. c_if (thecpu s))) (\<lambda>eflags.
     andthen cli
     (bnd (gets (\<lambda>s. c_ncli (thecpu s))) (\<lambda>ncli.
     andthen (upd (upd_cpu (\<lambda>c. c\<lparr>c_ncli := ncli + 1\<rparr>)))
     (whenever (ncli = 0) (upd (upd_cpu (\<lambda>c. c\<lparr>c_intena := eflags\<rparr>)))))))"

definition popcli :: "('z kbase_scheme, unit) kop" where
  "popcli =
     bnd (gets (\<lambda>s. c_if (thecpu s))) (\<lambda>eflags.
     if eflags then panic ''popcli - interruptible''
     else
       andthen (upd (upd_cpu (\<lambda>c. c\<lparr>c_ncli := c_ncli c - 1\<rparr>)))
       (bnd (gets thecpu) (\<lambda>c.
       if c_ncli c < 0 then panic ''popcli''
       else whenever (c_ncli c = 0 \<and> c_intena c) sti)))"

text \<open>
  The \<open>xchg\<close> of \<open>acquire\<close> writes 1 and returns the old value: where that is not 0 the loop
  goes round, and since the lock is another CPU's, the outcome is \<open>Spin\<close>.
\<close>

definition acquire :: "lockid \<Rightarrow> ('z kbase_scheme, unit) kop" where
  "acquire l =
     andthen pushcli
     (bnd (gets (holding l)) (\<lambda>h.
     if h then panic ''acquire''
     else
       bnd (gets (\<lambda>s. lk_locked (spinlocks s l))) (\<lambda>old.
       andthen (upd (upd_lock l (\<lambda>k. k\<lparr>lk_locked := 1\<rparr>)))
       (if old \<noteq> 0 then spin
        else
          andthen (upd (\<lambda>s. upd_lock l (\<lambda>k. k\<lparr>lk_cpu := Some (mycpu s)\<rparr>) s))
          (upd (\<lambda>s. upd_lock l (\<lambda>k. k\<lparr>lk_pcs := getcallerpcs (stackmem s) (stackarg s)\<rparr>) s))))))"

definition release :: "lockid \<Rightarrow> ('z kbase_scheme, unit) kop" where
  "release l =
     bnd (gets (holding l)) (\<lambda>h.
     if \<not> h then panic ''release''
     else
       andthen (upd (upd_lock l (\<lambda>k. k\<lparr>lk_pcs := (lk_pcs k)[0 := 0]\<rparr>)))
       (andthen (upd (upd_lock l (\<lambda>k. k\<lparr>lk_cpu := None\<rparr>)))
       (andthen (upd (upd_lock l (\<lambda>k. k\<lparr>lk_locked := 0\<rparr>)))
       popcli)))"

section \<open>Locks held by the running CPU\<close>

text \<open>
  \<open>lks H s\<close>: the running CPU holds exactly the locks of \<open>H\<close>, no lock is held by another CPU, the
  nesting count is the number of locks held, and interrupts are off while a lock is held.
\<close>

definition lks :: "lockid set \<Rightarrow> 'z kbase_scheme \<Rightarrow> bool" where
  "lks H s \<longleftrightarrow> finite H \<and> mycpu s < length (cpus s) \<and> c_ncli (thecpu s) = int (card H) \<and>
     (H \<noteq> {} \<longrightarrow> \<not> c_if (thecpu s)) \<and>
     (\<forall>l \<in> H. holding l s) \<and> (\<forall>l. l \<notin> H \<longrightarrow> lk_locked (spinlocks s l) = 0)"

text \<open>What locking leaves alone in the CPUs.\<close>

definition cpu_core :: "cpu \<Rightarrow> uchar \<times> bool \<times> nat option \<times> uint \<times> uint \<times> nat" where
  "cpu_core c = (c_id c, c_started c, c_proc c, c_cr3 c, c_esp0 c, c_indice c)"

definition cpu_frame :: "nat \<Rightarrow> cpu list \<Rightarrow> cpu list \<Rightarrow> bool" where
  "cpu_frame i cs ds \<longleftrightarrow> (\<exists>c. cs = ds[i := c] \<and> cpu_core c = cpu_core (ds ! i))"

lemma cpu_frame_refl [simp]: "cpu_frame i cs cs"
  unfolding cpu_frame_def by (intro exI [of _ "cs ! i"]) simp

lemma cpu_frame_update: "cpu_core c = cpu_core (cs ! i) \<Longrightarrow> cpu_frame i (cs[i := c]) cs"
  unfolding cpu_frame_def by blast

lemma cpu_frame_core: "cpu_frame i cs ds \<Longrightarrow> cpu_core (cs ! j) = cpu_core (ds ! j)"
  by (cases "i < length ds") (auto simp: cpu_frame_def list_update_beyond)

lemma cpu_frame_trans: "cpu_frame i as bs \<Longrightarrow> cpu_frame i bs cs \<Longrightarrow> cpu_frame i as cs"
  using cpu_frame_core [of i bs cs i] by (auto simp: cpu_frame_def)

lemma cpu_frame_length: "cpu_frame i cs ds \<Longrightarrow> length cs = length ds"
  by (auto simp: cpu_frame_def)

lemma cpu_frame_others: "cpu_frame i cs ds \<Longrightarrow> j \<noteq> i \<Longrightarrow> cs ! j = ds ! j"
  by (auto simp: cpu_frame_def)

lemma cpu_frameD:
  assumes "cpu_frame j cs ds"
  shows "c_proc (cs ! i) = c_proc (ds ! i)" and "c_indice (cs ! i) = c_indice (ds ! i)"
    and "c_id (cs ! i) = c_id (ds ! i)" and "c_cr3 (cs ! i) = c_cr3 (ds ! i)"
  using cpu_frame_core [OF assms, of i] by (simp_all add: cpu_core_def)

lemma upd_cpu_unfold: "upd_cpu f s = s\<lparr>cpus := (cpus s)[mycpu s := f (thecpu s)]\<rparr>"
  by (simp add: upd_cpu_def)

lemmas lock_op_defs = acquire_def release_def pushcli_def popcli_def cli_def sti_def
  upd_cpu_def upd_lock_def

lemma wp_pushcli:
  assumes "mycpu s < length (cpus s)"
  shows "wp pushcli Q s = Q () (upd_cpu (\<lambda>c. c\<lparr>c_if := False, c_ncli := c_ncli c + 1,
    c_intena := (if c_ncli c = 0 then c_if c else c_intena c)\<rparr>) s)"
  using assms by (simp add: pushcli_def cli_def upd_cpu_def wp_rules)

definition popped :: "cpu \<Rightarrow> cpu" where
  "popped c = (if c_ncli c = 1 \<and> c_intena c then c\<lparr>c_ncli := 0, c_if := True\<rparr>
     else c\<lparr>c_ncli := c_ncli c - 1\<rparr>)"

lemma wp_popcli:
  assumes "mycpu s < length (cpus s)"
  shows "wp popcli Q s =
    (\<not> c_if (thecpu s) \<and> 0 < c_ncli (thecpu s) \<and> Q () (upd_cpu popped s))"
  using assms by (auto simp: popcli_def sti_def upd_cpu_def wp_rules popped_def)

lemma cpu_core_upd [simp]:
  "cpu_core (c\<lparr>c_ncli := n\<rparr>) = cpu_core c" "cpu_core (c\<lparr>c_intena := b\<rparr>) = cpu_core c"
  "cpu_core (c\<lparr>c_if := b\<rparr>) = cpu_core c" "cpu_core (popped c) = cpu_core c"
  by (simp_all add: cpu_core_def popped_def)

lemma kbase_upd_swap:
  "s\<lparr>spinlocks := k, cpus := c\<rparr> = s\<lparr>cpus := c, spinlocks := k\<rparr>"
  by simp

lemma lksD:
  assumes "lks H s"
  shows "finite H" and "mycpu s < length (cpus s)" and "c_ncli (thecpu s) = int (card H)"
    and "l \<in> H \<Longrightarrow> holding l s" and "l \<in> H \<Longrightarrow> \<not> c_if (thecpu s)"
    and "l \<notin> H \<Longrightarrow> lk_locked (spinlocks s l) = 0"
  using assms by (auto simp: lks_def)

text \<open>What \<open>acquire\<close> and \<open>release\<close> make of the CPU and of the lock, and nothing else.\<close>

definition pushed :: "cpu \<Rightarrow> cpu" where
  "pushed c = c\<lparr>c_if := False, c_ncli := c_ncli c + 1, c_intena := (if c_ncli c = 0 then c_if c else c_intena c)\<rparr>"

definition taken :: "'z kbase_scheme \<Rightarrow> spinlock \<Rightarrow> spinlock" where
  "taken s k = k\<lparr>lk_locked := 1, lk_cpu := Some (mycpu s), lk_pcs := getcallerpcs (stackmem s) (stackarg s)\<rparr>"

definition dropped :: "spinlock \<Rightarrow> spinlock" where
  "dropped k = k\<lparr>lk_pcs := (lk_pcs k)[0 := 0], lk_cpu := None, lk_locked := 0\<rparr>"

lemma wp_acquire_free:
  assumes "mycpu s < length (cpus s)" and "lk_locked (spinlocks s l) = 0"
  shows "wp (acquire l) Q s = Q () (s\<lparr>cpus := (cpus s)[mycpu s := pushed (thecpu s)],
    spinlocks := (spinlocks s)(l := taken s (spinlocks s l))\<rparr>)"
  using assms by (simp add: acquire_def wp_rules wp_pushcli holding_def upd_cpu_def upd_lock_def pushed_def taken_def)

lemma wp_release_held:
  assumes "mycpu s < length (cpus s)" and "holding l s" and "\<not> c_if (thecpu s)" and "0 < c_ncli (thecpu s)"
  shows "wp (release l) Q s = Q () (s\<lparr>cpus := (cpus s)[mycpu s := popped (thecpu s)],
    spinlocks := (spinlocks s)(l := dropped (spinlocks s l))\<rparr>)"
  using assms by (simp add: release_def wp_rules wp_popcli upd_cpu_def upd_lock_def kbase_upd_swap dropped_def)

lemma cpu_core_pushed [simp]: "cpu_core (pushed c) = cpu_core c"
  by (simp add: pushed_def)

lemma wp_acquire:
  assumes lks: "lks H s" and l: "l \<notin> H"
    and Q: "\<And>cs ks. lks (insert l H) (s\<lparr>cpus := cs, spinlocks := ks\<rparr>) \<Longrightarrow> cpu_frame (mycpu s) cs (cpus s) \<Longrightarrow>
      Q () (s\<lparr>cpus := cs, spinlocks := ks\<rparr>)"
  shows "wp (acquire l) Q s"
  unfolding wp_acquire_free [OF lksD(2) [OF lks] lksD(6) [OF lks l]]
proof (rule Q)
  show "lks (insert l H) (s\<lparr>cpus := (cpus s)[mycpu s := pushed (thecpu s)],
      spinlocks := (spinlocks s)(l := taken s (spinlocks s l))\<rparr>)"
    using lks l by (auto simp: lks_def holding_def pushed_def taken_def)
qed (simp add: cpu_frame_update)

lemma wp_release:
  assumes lks: "lks (insert l H) s" and l: "l \<notin> H"
    and Q: "\<And>cs ks. lks H (s\<lparr>cpus := cs, spinlocks := ks\<rparr>) \<Longrightarrow> cpu_frame (mycpu s) cs (cpus s) \<Longrightarrow>
      Q () (s\<lparr>cpus := cs, spinlocks := ks\<rparr>)"
  shows "wp (release l) Q s"
proof -
  have h: "holding l s" and c: "mycpu s < length (cpus s)" and fin: "finite H"
    and n: "c_ncli (thecpu s) = 1 + int (card H)" and i: "\<not> c_if (thecpu s)"
    using lksD [OF lks] l by auto
  have p: "c_ncli (popped (thecpu s)) = int (card H)" "H \<noteq> {} \<Longrightarrow> \<not> c_if (popped (thecpu s))"
    using n i fin by (auto simp: popped_def)
  have "lks H (s\<lparr>cpus := (cpus s)[mycpu s := popped (thecpu s)], spinlocks := (spinlocks s)(l := dropped (spinlocks s l))\<rparr>)"
    using lks l c fin p by (simp add: lks_def holding_def dropped_def) blast
  moreover have "0 < c_ncli (thecpu s)" using n by simp
  ultimately show ?thesis unfolding wp_release_held [OF c h i \<open>0 < c_ncli (thecpu s)\<close>] by (intro Q) (simp_all add: cpu_frame_update)
qed

section \<open>Sequences of lock operations\<close>

text \<open>
  Kernel code takes and drops locks in sequences that need not nest (\<open>sleep\<close> takes the process
  table's lock before it drops its caller's). \<open>track\<close> is the set of locks such a sequence holds
  at its end, \<open>None\<close> when it takes a lock twice or drops one it does not hold.
\<close>

datatype lockop = Acq lockid | Rel lockid

fun do_lockop :: "lockop \<Rightarrow> ('z kbase_scheme, unit) kop" where
  "do_lockop (Acq l) = acquire l"
| "do_lockop (Rel l) = release l"

definition run_lockops :: "lockop list \<Rightarrow> ('z kbase_scheme, unit) kop" where
  "run_lockops ops = for_each ops do_lockop"

fun track :: "lockid set \<Rightarrow> lockop list \<Rightarrow> lockid set option" where
  "track H [] = Some H"
| "track H (Acq l # ops) = (if l \<in> H then None else track (insert l H) ops)"
| "track H (Rel l # ops) = (if l \<in> H then track (H - {l}) ops else None)"

text \<open>The saved interrupt flag: what \<open>popcli\<close> will restore.\<close>

definition saved_if :: "lockid set \<Rightarrow> 'z kbase_scheme \<Rightarrow> bool" where
  "saved_if H s = (if H = {} then c_if (thecpu s) else c_intena (thecpu s))"

lemma acquire_saved_if:
  assumes "lks H s" and "l \<notin> H"
  shows "wp (acquire l) (\<lambda>_ t. lks (insert l H) t \<and> saved_if (insert l H) t = saved_if H s) s"
proof -
  have c: "mycpu s < length (cpus s)" and free: "lk_locked (spinlocks s l) = 0"
    and n: "c_ncli (thecpu s) = int (card H)" and f: "finite H"
    using lksD [OF assms(1)] assms(2) by auto
  have "wp (acquire l) (\<lambda>_ t. saved_if (insert l H) t = saved_if H s) s"
    using c free n f
    by (simp add: acquire_def wp_rules wp_pushcli holding_def upd_cpu_def upd_lock_def saved_if_def)
  moreover have "wp (acquire l) (\<lambda>_ t. lks (insert l H) t) s"
    using assms by (rule wp_acquire)
  ultimately show ?thesis by (rule wp_conj [rotated])
qed

lemma release_saved_if:
  assumes "lks H s" and "l \<in> H"
  shows "wp (release l) (\<lambda>_ t. lks (H - {l}) t \<and> saved_if (H - {l}) t = saved_if H s) s"
proof -
  have c: "mycpu s < length (cpus s)" and h: "holding l s" and i: "\<not> c_if (thecpu s)"
    and n: "c_ncli (thecpu s) = int (card H)" and f: "finite H"
    using lksD [OF assms(1)] assms(2) by auto
  have e: "(H - {l} = {}) = (card H = 1)"
    using assms(2) f by (auto simp: card_Suc_eq card_1_singleton_iff)
  have pos: "0 < card H" using assms(2) f by (auto simp: card_gt_0_iff)
  have "wp (release l) (\<lambda>_ t. saved_if (H - {l}) t = saved_if H s) s"
    using c h i n e pos assms(2)
    by (auto simp: release_def wp_rules wp_popcli upd_cpu_def upd_lock_def saved_if_def popped_def)
  moreover have "wp (release l) (\<lambda>_ t. lks (H - {l}) t) s"
    using assms by (intro wp_release [of l "H - {l}"]) (auto simp: insert_absorb)
  ultimately show ?thesis by (rule wp_conj [rotated])
qed

lemma run_lockops_saved_if:
  "lks H s \<Longrightarrow> track H ops = Some K \<Longrightarrow>
     wp (run_lockops ops) (\<lambda>_ t. lks K t \<and> saved_if K t = saved_if H s) s"
proof (induction ops arbitrary: H s)
  case Nil
  then show ?case by (simp add: run_lockops_def wp_rules)
next
  case (Cons op ops)
  show ?case
  proof (cases op)
    case (Acq l)
    with Cons.prems have "l \<notin> H" and tr: "track (insert l H) ops = Some K"
      by (auto split: if_splits)
    with Cons.prems(1) have "wp (acquire l)
      (\<lambda>_ t. lks (insert l H) t \<and> saved_if (insert l H) t = saved_if H s) s"
      by (intro acquire_saved_if)
    then have "wp (acquire l) (\<lambda>_. wp (run_lockops ops)
        (\<lambda>_ t. lks K t \<and> saved_if K t = saved_if H s)) s"
      by (rule wp_mono) (erule conjE, frule Cons.IH [OF _ tr], simp only:)
    then show ?thesis by (simp add: run_lockops_def wp_rules Acq)
  next
    case (Rel l)
    with Cons.prems have "l \<in> H" and tr: "track (H - {l}) ops = Some K"
      by (auto split: if_splits)
    with Cons.prems(1) have "wp (release l)
      (\<lambda>_ t. lks (H - {l}) t \<and> saved_if (H - {l}) t = saved_if H s) s"
      by (intro release_saved_if)
    then have "wp (release l) (\<lambda>_. wp (run_lockops ops)
        (\<lambda>_ t. lks K t \<and> saved_if K t = saved_if H s)) s"
      by (rule wp_mono) (erule conjE, frule Cons.IH [OF _ tr], simp only:)
    then show ?thesis by (simp add: run_lockops_def wp_rules Rel)
  qed
qed

text \<open>
  C16. A CPU that takes and drops any locks, in any order that never takes a lock it holds nor drops
  one it does not, and ends holding none, never panics, and leaves interrupts exactly as enabled
  or disabled as they were: \<open>pushcli\<close> and \<open>popcli\<close> are matched (spinlock.c, lines 89-92).
\<close>

theorem balanced_locking_restores_interrupts:
  assumes "lks {} s" and "track {} ops = Some {}"
  shows "\<exists>t. run_lockops ops s = Done () t \<and> lks {} t \<and> c_if (thecpu t) = c_if (thecpu s)"
  using run_lockops_saved_if [OF assms] by (auto simp: wp_iff_Done saved_if_def)

definition boot_cpu :: cpu where
  "boot_cpu = \<lparr>c_id = 0, c_ncli = 0, c_intena = False, c_if = True, c_started = True,
     c_proc = None, c_cr3 = 0, c_esp0 = 0, c_indice = 0\<rparr>"

definition free_lock :: spinlock where
  "free_lock = \<lparr>lk_locked = 0, lk_name = [], lk_cpu = None, lk_pcs = replicate 10 0\<rparr>"

definition boot_base :: kbase where
  "boot_base = \<lparr>cpus = replicate NCPU boot_cpu, mycpu = 0, spinlocks = (\<lambda>_. free_lock),
     stackmem = (\<lambda>_. 0), stackarg = 0\<rparr>"

lemma lks_boot_base: "lks {} boot_base"
  by (simp add: lks_def boot_base_def boot_cpu_def free_lock_def NCPU_def)

theorem balanced_locking_restores_interrupts_witness:
  "\<exists>t. run_lockops [Acq LogLock, Acq PtableLock, Rel LogLock, Rel PtableLock] boot_base = Done () t \<and>
     lks {} t \<and> c_if (thecpu t) = c_if (thecpu boot_base)"
  by (rule balanced_locking_restores_interrupts [OF lks_boot_base]) (simp add: insert_Diff_if)

section \<open>Mutual exclusion between CPUs\<close>

text \<open>
  The CPUs run \<open>acquire\<close> and \<open>release\<close> on one lock concurrently. Each step is one access to the
  lock's memory; \<open>xchg\<close> reads and writes in one step. A CPU is outside (\<open>Outside\<close>), in one of the
  positions of \<open>acquire\<close> (\<open>Pushed\<close>: after \<open>pushcli\<close>; \<open>Trying\<close>: before an \<open>xchg\<close>; \<open>Got\<close>: the \<open>xchg\<close>
  returned 0), holds the lock (\<open>Inside\<close>), is in one of the positions of \<open>release\<close> (\<open>Checked\<close>,
  \<open>Cleared\<close>, \<open>Freed\<close>), or has panicked.
\<close>

datatype lockpos = Outside | Pushed | Trying | Got | Inside | Checked | Cleared | Freed | Panicked

record locksys =
  sys_k :: kbase
  sys_pos :: "nat \<Rightarrow> lockpos"

definition on_cpu :: "nat \<Rightarrow> kbase \<Rightarrow> kbase" where
  "on_cpu c k = k\<lparr>mycpu := c\<rparr>"

inductive lock_step :: "lockid \<Rightarrow> locksys \<Rightarrow> locksys \<Rightarrow> bool" for l where
  step_pushcli: "sys_pos s c = Outside \<Longrightarrow> c < length (cpus (sys_k s)) \<Longrightarrow>
    pushcli (on_cpu c (sys_k s)) = Done () k \<Longrightarrow>
    lock_step l s (s\<lparr>sys_k := k, sys_pos := (sys_pos s)(c := Pushed)\<rparr>)"
| step_holding: "sys_pos s c = Pushed \<Longrightarrow> c < length (cpus (sys_k s)) \<Longrightarrow>
    lock_step l s (s\<lparr>sys_k := sys_k s, sys_pos := (sys_pos s)(c :=
      (if holding l (on_cpu c (sys_k s)) then Panicked else Trying))\<rparr>)"
| step_xchg: "sys_pos s c = Trying \<Longrightarrow> c < length (cpus (sys_k s)) \<Longrightarrow>
    lock_step l s (s\<lparr>sys_k := upd_lock l (\<lambda>k. k\<lparr>lk_locked := 1\<rparr>) (sys_k s),
      sys_pos := (sys_pos s)(c :=
        (if lk_locked (spinlocks (sys_k s) l) \<noteq> 0 then Trying else Got))\<rparr>)"
| step_record: "sys_pos s c = Got \<Longrightarrow> c < length (cpus (sys_k s)) \<Longrightarrow>
    lock_step l s (s\<lparr>sys_k := upd_lock l (\<lambda>k. k\<lparr>lk_cpu := Some c,
      lk_pcs := getcallerpcs (stackmem (sys_k s)) (stackarg (sys_k s))\<rparr>) (sys_k s),
      sys_pos := (sys_pos s)(c := Inside)\<rparr>)"
| step_check: "sys_pos s c = Inside \<Longrightarrow> c < length (cpus (sys_k s)) \<Longrightarrow>
    lock_step l s (s\<lparr>sys_k := sys_k s, sys_pos := (sys_pos s)(c :=
      (if holding l (on_cpu c (sys_k s)) then Checked else Panicked))\<rparr>)"
| step_clear: "sys_pos s c = Checked \<Longrightarrow> c < length (cpus (sys_k s)) \<Longrightarrow>
    lock_step l s (s\<lparr>sys_k := upd_lock l (\<lambda>k. k\<lparr>lk_pcs := (lk_pcs k)[0 := 0], lk_cpu := None\<rparr>)
      (sys_k s), sys_pos := (sys_pos s)(c := Cleared)\<rparr>)"
| step_free: "sys_pos s c = Cleared \<Longrightarrow> c < length (cpus (sys_k s)) \<Longrightarrow>
    lock_step l s (s\<lparr>sys_k := upd_lock l (\<lambda>k. k\<lparr>lk_locked := 0\<rparr>) (sys_k s),
      sys_pos := (sys_pos s)(c := Freed)\<rparr>)"
| step_popcli: "sys_pos s c = Freed \<Longrightarrow> c < length (cpus (sys_k s)) \<Longrightarrow>
    popcli (on_cpu c (sys_k s)) = Done () k \<Longrightarrow>
    lock_step l s (s\<lparr>sys_k := k, sys_pos := (sys_pos s)(c := Outside)\<rparr>)"
| step_popcli_panic: "sys_pos s c = Freed \<Longrightarrow> c < length (cpus (sys_k s)) \<Longrightarrow>
    popcli (on_cpu c (sys_k s)) = Panic e \<Longrightarrow>
    lock_step l s (s\<lparr>sys_k := sys_k s, sys_pos := (sys_pos s)(c := Panicked)\<rparr>)"

definition lock_start :: locksys where
  "lock_start = \<lparr>sys_k = boot_base, sys_pos = (\<lambda>_. Outside)\<rparr>"

inductive lock_reach :: "lockid \<Rightarrow> locksys \<Rightarrow> bool" for l where
  reach_start: "lock_reach l lock_start"
| reach_step: "lock_reach l s \<Longrightarrow> lock_step l s t \<Longrightarrow> lock_reach l t"

fun owner_pos :: "lockpos \<Rightarrow> bool" where
  "owner_pos p \<longleftrightarrow> p \<in> {Got, Inside, Checked, Cleared}"

text \<open>
  \<open>word_inv\<close>: what the lock word and the recorded CPU say about the positions, where \<open>ow\<close> is the
  CPU that owns the lock. \<open>pos_ok\<close>: the nesting count and the interrupt flag of one CPU.
\<close>

definition word_inv :: "spinlock \<Rightarrow> (nat \<Rightarrow> lockpos) \<Rightarrow> nat option \<Rightarrow> bool" where
  "word_inv k pos ow \<longleftrightarrow> (\<forall>c. owner_pos (pos c) = (ow = Some c)) \<and>
     (lk_locked k \<noteq> 0) = (ow \<noteq> None) \<and>
     lk_cpu k = (case ow of None \<Rightarrow> None
       | Some c \<Rightarrow> if pos c \<in> {Inside, Checked} then Some c else None)"

definition pos_ok :: "lockpos \<Rightarrow> cpu \<Rightarrow> bool" where
  "pos_ok p c \<longleftrightarrow> p \<noteq> Panicked \<and>
     (if p = Outside then c_ncli c = 0 else c_ncli c = 1 \<and> \<not> c_if c)"

definition lock_inv :: "lockid \<Rightarrow> locksys \<Rightarrow> bool" where
  "lock_inv l s \<longleftrightarrow> (\<forall>c < length (cpus (sys_k s)). pos_ok (sys_pos s c) (cpus (sys_k s) ! c)) \<and>
     (\<exists>ow. word_inv (spinlocks (sys_k s) l) (sys_pos s) ow)"

lemma lock_invI:
  assumes "lock_inv l s" and "length (cpus k) = length (cpus (sys_k s))"
    and "\<And>d. d \<noteq> c \<Longrightarrow> cpus k ! d = cpus (sys_k s) ! d" and "pos_ok p (cpus k ! c)"
    and "word_inv (spinlocks k l) ((sys_pos s)(c := p)) ow"
  shows "lock_inv l (s\<lparr>sys_k := k, sys_pos := (sys_pos s)(c := p)\<rparr>)"
  using assms by (auto simp: lock_inv_def)

lemma owner_stays:
  "\<forall>c. owner_pos (pos c) = (ow = Some c) \<Longrightarrow> owner_pos p = owner_pos (pos c) \<Longrightarrow>
     \<forall>d. owner_pos ((pos(c := p)) d) = (ow = Some d)"
  by (simp del: owner_pos.simps)

lemma owner_enters:
  "\<forall>c. owner_pos (pos c) = (None = Some c) \<Longrightarrow> owner_pos p \<Longrightarrow>
     \<forall>d. owner_pos ((pos(c := p)) d) = (Some c = Some d)"
  by (simp del: owner_pos.simps)

lemma owner_leaves:
  "\<forall>c. owner_pos (pos c) = (Some b = Some c) \<Longrightarrow> \<not> owner_pos p \<Longrightarrow>
     \<forall>d. owner_pos ((pos(b := p)) d) = (None = Some d)"
  by (simp del: owner_pos.simps)

lemma word_inv_other:
  "word_inv k pos ow \<Longrightarrow> \<not> owner_pos (pos c) \<Longrightarrow> \<not> owner_pos p \<Longrightarrow> word_inv k (pos(c := p)) ow"
  unfolding word_inv_def using owner_stays [of pos ow p c]
  by (cases ow) (auto simp del: owner_pos.simps)

lemma word_inv_owner: "word_inv k pos ow \<Longrightarrow> owner_pos (pos c) \<Longrightarrow> ow = Some c"
  by (simp add: word_inv_def)

lemma holding_iff_inside:
  assumes "word_inv (spinlocks k l) pos ow"
  shows "holding l (on_cpu c k) \<longleftrightarrow> pos c \<in> {Inside, Checked}"
proof (cases ow)
  case None
  then have "\<not> owner_pos (pos c)" using assms by (simp add: word_inv_def)
  then show ?thesis using assms None by (auto simp: word_inv_def holding_def on_cpu_def)
next
  case (Some d)
  then have "owner_pos (pos c) = (d = c)" using assms by (simp add: word_inv_def)
  then show ?thesis using assms Some by (auto simp: word_inv_def holding_def on_cpu_def)
qed

lemma pushcli_Done:
  "mycpu k < length (cpus k) \<Longrightarrow> pushcli k = Done () (upd_cpu (\<lambda>c. c\<lparr>c_if := False,
     c_ncli := c_ncli c + 1, c_intena := (if c_ncli c = 0 then c_if c else c_intena c)\<rparr>) k)"
  using wp_pushcli [of k "\<lambda>_ t. t = upd_cpu (\<lambda>c. c\<lparr>c_if := False, c_ncli := c_ncli c + 1,
     c_intena := (if c_ncli c = 0 then c_if c else c_intena c)\<rparr>) k"]
  by (simp add: wp_iff_Done)

lemma popcli_Done:
  assumes "mycpu k < length (cpus k)" "\<not> c_if (thecpu k)" "0 < c_ncli (thecpu k)"
  shows "popcli k = Done () (upd_cpu popped k)"
  using assms wp_popcli [OF assms(1), of "\<lambda>_ t. t = upd_cpu popped k"] by (simp add: wp_iff_Done)

lemma lock_inv_start: "lock_inv l lock_start"
proof -
  have "word_inv (spinlocks (sys_k lock_start) l) (sys_pos lock_start) None"
    by (simp add: word_inv_def lock_start_def boot_base_def free_lock_def)
  then show ?thesis
    by (auto simp: lock_inv_def lock_start_def boot_base_def boot_cpu_def pos_ok_def)
qed

lemma lock_step_inv:
  assumes "lock_step l s t" and inv: "lock_inv l s"
  shows "lock_inv l t"
proof -
  obtain ow where w: "word_inv (spinlocks (sys_k s) l) (sys_pos s) ow"
    using inv by (auto simp: lock_inv_def)
  have ok: "c < length (cpus (sys_k s)) \<Longrightarrow> pos_ok (sys_pos s c) (cpus (sys_k s) ! c)" for c
    using inv by (simp add: lock_inv_def)
  note own = word_inv_owner [OF w]
  from assms(1) show ?thesis
  proof cases
    case (step_pushcli c k)
    have "word_inv (spinlocks k l) ((sys_pos s)(c := Pushed)) ow"
      using step_pushcli word_inv_other [OF w, of c Pushed]
      by (auto simp: pushcli_Done on_cpu_def upd_cpu_def)
    then show ?thesis
      unfolding step_pushcli(1) using step_pushcli ok [of c]
      by (intro lock_invI [OF inv]) (auto simp: pushcli_Done on_cpu_def upd_cpu_def pos_ok_def)
  next
    case (step_holding c)
    then have "word_inv (spinlocks (sys_k s) l) ((sys_pos s)(c := Trying)) ow"
      using word_inv_other [OF w, of c Trying] by simp
    then show ?thesis
      unfolding step_holding(1) using step_holding ok [of c]
      by (intro lock_invI [OF inv]) (auto simp: holding_iff_inside [OF w] pos_ok_def)
  next
    case (step_xchg c)
    let ?k = "upd_lock l (\<lambda>k. k\<lparr>lk_locked := 1\<rparr>) (sys_k s)"
    let ?p = "if lk_locked (spinlocks (sys_k s) l) \<noteq> 0 then Trying else Got"
    have "\<exists>ow. word_inv (spinlocks ?k l) ((sys_pos s)(c := ?p)) ow"
    proof (cases "lk_locked (spinlocks (sys_k s) l) = 0")
      case True
      then have "ow = None" using w by (simp add: word_inv_def)
      then have "word_inv (spinlocks ?k l) ((sys_pos s)(c := Got)) (Some c)"
        using w owner_enters [of "sys_pos s" Got c] by (simp add: word_inv_def upd_lock_def)
      then show ?thesis using True by auto
    next
      case False
      then have "word_inv (spinlocks ?k l) ((sys_pos s)(c := Trying)) ow"
        using word_inv_other [OF w, of c Trying] step_xchg(2) by (simp add: word_inv_def upd_lock_def)
      then show ?thesis using False by auto
    qed
    then show ?thesis
      unfolding step_xchg(1) using step_xchg ok [of c]
      by (auto intro!: lock_invI [OF inv] simp: upd_lock_def pos_ok_def)
  next
    case (step_record c)
    then have "ow = Some c" using own by simp
    then have "word_inv ((spinlocks (sys_k s) l)\<lparr>lk_cpu := Some c,
        lk_pcs := getcallerpcs (stackmem (sys_k s)) (stackarg (sys_k s))\<rparr>)
        ((sys_pos s)(c := Inside)) ow"
      using w owner_stays [of "sys_pos s" ow Inside c] step_record(2) by (simp add: word_inv_def)
    then show ?thesis
      unfolding step_record(1) using step_record ok [of c]
      by (intro lock_invI [OF inv]) (auto simp: upd_lock_def pos_ok_def)
  next
    case (step_check c)
    then have "ow = Some c" using own by simp
    then have "word_inv (spinlocks (sys_k s) l) ((sys_pos s)(c := Checked)) ow"
      using w owner_stays [of "sys_pos s" ow Checked c] step_check(2) by (simp add: word_inv_def)
    then show ?thesis
      unfolding step_check(1) using step_check ok [of c]
      by (intro lock_invI [OF inv]) (auto simp: holding_iff_inside [OF w] pos_ok_def)
  next
    case (step_clear c)
    then have "ow = Some c" using own by simp
    then have "word_inv ((spinlocks (sys_k s) l)\<lparr>lk_pcs := (lk_pcs (spinlocks (sys_k s) l))[0 := 0],
        lk_cpu := None\<rparr>) ((sys_pos s)(c := Cleared)) ow"
      using w owner_stays [of "sys_pos s" ow Cleared c] step_clear(2) by (simp add: word_inv_def)
    then show ?thesis
      unfolding step_clear(1) using step_clear ok [of c]
      by (intro lock_invI [OF inv]) (auto simp: upd_lock_def pos_ok_def)
  next
    case (step_free c)
    then have ow: "ow = Some c" using own by simp
    then have "word_inv ((spinlocks (sys_k s) l)\<lparr>lk_locked := 0\<rparr>) ((sys_pos s)(c := Freed)) None"
      using w owner_leaves [of "sys_pos s" c Freed] step_free(2) by (simp add: word_inv_def)
    then show ?thesis
      unfolding step_free(1) using step_free ok [of c]
      by (intro lock_invI [OF inv]) (auto simp: upd_lock_def pos_ok_def)
  next
    case (step_popcli c k)
    then have k: "k = upd_cpu popped (on_cpu c (sys_k s))"
      using ok [of c] by (simp add: popcli_Done on_cpu_def pos_ok_def)
    have "word_inv (spinlocks k l) ((sys_pos s)(c := Outside)) ow"
      using step_popcli word_inv_other [OF w, of c Outside] by (simp add: k on_cpu_def upd_cpu_def)
    then show ?thesis
      unfolding step_popcli(1) using step_popcli ok [of c]
      by (intro lock_invI [OF inv]) (auto simp: k on_cpu_def upd_cpu_def pos_ok_def popped_def)
  next
    case (step_popcli_panic c e)
    then show ?thesis using ok [of c] by (simp add: popcli_Done on_cpu_def pos_ok_def)
  qed
qed

lemma lock_reach_inv: "lock_reach l s \<Longrightarrow> lock_inv l s"
  by (induction rule: lock_reach.induct) (simp_all add: lock_inv_start lock_step_inv)

text \<open>
  C1. However the CPUs interleave their accesses to a lock, at most one of them is between the end of
  its \<open>acquire\<close> and the start of its \<open>release\<close>, and none of the two panics of \<open>acquire\<close> and
  \<open>release\<close>, nor those of \<open>popcli\<close>, is ever reached.
\<close>

theorem spinlock_mutual_exclusion:
  assumes "lock_reach l s"
  shows "(sys_pos s c = Inside \<longrightarrow> sys_pos s d = Inside \<longrightarrow> c = d) \<and>
    (c < length (cpus (sys_k s)) \<longrightarrow> sys_pos s c \<noteq> Panicked)"
proof -
  obtain ow where w: "word_inv (spinlocks (sys_k s) l) (sys_pos s) ow"
    and ok: "\<forall>c < length (cpus (sys_k s)). pos_ok (sys_pos s c) (cpus (sys_k s) ! c)"
    using lock_reach_inv [OF assms] by (auto simp: lock_inv_def)
  have "c = d" if "sys_pos s c = Inside" "sys_pos s d = Inside"
    using word_inv_owner [OF w, of c] word_inv_owner [OF w, of d] that by simp
  then show ?thesis using ok by (auto simp: pos_ok_def)
qed

theorem spinlock_mutual_exclusion_witness:
  "\<exists>s. lock_reach KmemLock s \<and> sys_pos s 0 = Inside \<and> sys_pos s 1 \<noteq> Inside"
proof -
  let ?n = "length (cpus (sys_k lock_start))"
  have n: "?n = 8" by (simp add: lock_start_def boot_base_def NCPU_def)
  obtain k where k: "pushcli (on_cpu 0 (sys_k lock_start)) = Done () k"
    and kl: "length (cpus k) = 8" "spinlocks k KmemLock = free_lock"
    by (simp add: pushcli_Done on_cpu_def lock_start_def boot_base_def NCPU_def upd_cpu_def)
  define s1 where "s1 = lock_start\<lparr>sys_k := k, sys_pos := (sys_pos lock_start)(0 := Pushed)\<rparr>"
  have r1: "lock_reach KmemLock s1"
    unfolding s1_def using k n
    by (intro reach_step [OF reach_start] step_pushcli) (simp_all add: lock_start_def)
  define s2 where "s2 = s1\<lparr>sys_k := sys_k s1, sys_pos := (sys_pos s1)(0 :=
    (if holding KmemLock (on_cpu 0 (sys_k s1)) then Panicked else Trying))\<rparr>"
  have r2: "lock_reach KmemLock s2"
    unfolding s2_def by (intro reach_step [OF r1] step_holding) (simp_all add: s1_def kl)
  define s3 where "s3 = s2\<lparr>sys_k := upd_lock KmemLock (\<lambda>k. k\<lparr>lk_locked := 1\<rparr>) (sys_k s2),
    sys_pos := (sys_pos s2)(0 := (if lk_locked (spinlocks (sys_k s2) KmemLock) \<noteq> 0 then Trying else Got))\<rparr>"
  have r3: "lock_reach KmemLock s3"
    unfolding s3_def by (intro reach_step [OF r2] step_xchg)
      (simp_all add: s2_def s1_def kl holding_def on_cpu_def free_lock_def)
  define s4 where "s4 = s3\<lparr>sys_k := upd_lock KmemLock (\<lambda>k. k\<lparr>lk_cpu := Some 0,
    lk_pcs := getcallerpcs (stackmem (sys_k s3)) (stackarg (sys_k s3))\<rparr>) (sys_k s3),
    sys_pos := (sys_pos s3)(0 := Inside)\<rparr>"
  have r4: "lock_reach KmemLock s4"
    unfolding s4_def by (intro reach_step [OF r3] step_record)
      (simp_all add: s3_def s2_def s1_def kl upd_lock_def free_lock_def)
  have "sys_pos s4 0 = Inside" by (simp add: s4_def)
  moreover from this have "sys_pos s4 1 \<noteq> Inside"
    using spinlock_mutual_exclusion [OF r4, of 0 1] by auto
  ultimately show ?thesis using r4 by blast
qed

end
