(* ===== verification/Console_Out.thy ===== *)
theory Console_Out
  imports Spinlock
begin

text \<open>
  The output half of console.c and uart.c: \<open>printint\<close>, \<open>cprintf\<close>, \<open>cgaputc\<close>, \<open>consputc\<close> and
  \<open>uartputc\<close>. The screen is the CGA text memory (25 rows of 80 cells) with its cursor register;
  the serial line is the list of bytes sent.
\<close>

section \<open>State\<close>

record kcons = kbase +
  con_locking :: bool
  con_panicked :: bool
  uart :: bool
  serial :: "uchar list"
  crt :: "ushort list"
  crtpos :: nat

definition BACKSPACE :: nat where
  "BACKSPACE = 0x100"

text \<open>\<open>crt\<close> is the text memory from \<open>0xb8000\<close>: 25 rows of 80 cells.\<close>

definition CRTCELLS :: nat where
  "CRTCELLS = 2000"

section \<open>Characters to the devices\<close>

text \<open>
  \<open>uartputc\<close> polls the line status at most 128 times and then sends whatever the status: the
  polling has no effect on the state.
\<close>

definition uartputc :: "nat \<Rightarrow> ('z kcons_scheme, unit) kop" where
  "uartputc c = bnd (gets uart) (\<lambda>u.
     if \<not> u then ret () else upd (\<lambda>s. s\<lparr>serial := serial s @ [of_nat c]\<rparr>))"

definition crt_store :: "nat \<Rightarrow> ushort \<Rightarrow> ('z kcons_scheme, unit) kop" where
  "crt_store i v = bnd (gets (\<lambda>s. length (crt s))) (\<lambda>n.
     if i < n then upd (\<lambda>s. s\<lparr>crt := (crt s)[i := v]\<rparr>) else fault ''crt'')"

text \<open>Scrolling: rows 1 to 23 move up by one (\<open>memmove\<close>), the cells from the cursor to the end of
  row 23 are cleared (\<open>memset\<close>).\<close>

definition crt_scroll :: "nat \<Rightarrow> ('z kcons_scheme, unit) kop" where
  "crt_scroll pos = bnd (gets crt) (\<lambda>m.
     if length m < 24 * 80 \<or> pos > 24 * 80 then fault ''crt''
     else upd (\<lambda>s. s\<lparr>crt := take pos (take (23 * 80) (drop 80 m) @ drop (23 * 80) m)
       @ replicate (24 * 80 - pos) 0
       @ drop (24 * 80) m\<rparr>))"

text \<open>\<open>cga_char\<close>: the character at the cursor, giving the next position; \<open>cga_finish\<close>: scrolling and
  setting the cursor.\<close>

definition cga_char :: "nat \<Rightarrow> nat \<Rightarrow> ('z kcons_scheme, nat) kop" where
  "cga_char c pos =
     (if c = 10 then ret (pos + (80 - pos mod 80))
      else if c = BACKSPACE then ret (if pos > 0 then pos - 1 else pos)
      else andthen (crt_store pos (of_nat (c mod 256) OR 0x0700)) (ret (pos + 1)))"

definition cga_finish :: "nat \<Rightarrow> ('z kcons_scheme, unit) kop" where
  "cga_finish pos =
     bnd (if pos div 80 \<ge> 24
          then andthen (crt_scroll (pos - 80)) (ret (pos - 80))
          else ret pos)
     (\<lambda>pos.
     andthen (upd (\<lambda>s. s\<lparr>crtpos := pos\<rparr>))
     (crt_store pos (0x20 OR 0x0700)))"

definition cgaputc :: "nat \<Rightarrow> ('z kcons_scheme, unit) kop" where
  "cgaputc c = bnd (gets crtpos) (\<lambda>pos. bnd (cga_char c pos) cga_finish)"

text \<open>A panicked CPU stops every other one here: the loop never ends.\<close>

definition consputc :: "nat \<Rightarrow> ('z kcons_scheme, unit) kop" where
  "consputc c =
     bnd (gets con_panicked) (\<lambda>p.
     if p then andthen cli spin
     else
       andthen (if c = BACKSPACE
                then andthen (uartputc 8) (andthen (uartputc 32) (uartputc 8))
                else uartputc c)
       (cgaputc c))"

definition consputs :: "string \<Rightarrow> ('z kcons_scheme, unit) kop" where
  "consputs str = for_each str (\<lambda>ch. consputc (of_char ch))"

section \<open>Numbers and formats\<close>

definition digits :: string where
  "digits = ''0123456789abcdef''"

text \<open>The \<open>do\<close>-loop of \<open>printint\<close>: the digits come least significant first. Every call has
  base 10 or 16; below 2 the C loop would divide by zero or not end.\<close>

function digit_loop :: "nat \<Rightarrow> nat \<Rightarrow> string" where
  "digit_loop base x = (digits ! (x mod base)) #
     (if 2 \<le> base \<and> x div base \<noteq> 0 then digit_loop base (x div base) else [])"
  by pat_completeness auto
termination
proof (relation "measure snd", goal_cases)
  case (2 base x)
  then have "0 < x" by (cases x) auto
  then show ?case using 2 by simp
qed simp

declare digit_loop.simps [simp del]

text \<open>\<open>xx\<close> is a 32-bit \<open>int\<close>, given by its bits. The digits are printed in reverse. \<open>x = -xx\<close> negates an
  \<open>int\<close>: for the most negative number, which has no negative, it overflows.\<close>

definition printint_str :: "uint \<Rightarrow> nat \<Rightarrow> bool \<Rightarrow> string" where
  "printint_str xx base sign =
     (let neg = (sign \<and> sint xx < 0);
          x = (if neg then - xx else xx);
          buf = digit_loop base (unat x)
      in rev (if neg then buf @ ''-'' else buf))"

definition printint :: "uint \<Rightarrow> nat \<Rightarrow> bool \<Rightarrow> ('z kcons_scheme, unit) kop" where
  "printint xx base sign =
     (if sign \<and> sint xx = - (2 ^ 31) then fault ''int overflow'' else consputs (printint_str xx base sign))"

text \<open>The arguments after the format: a word, or a pointer to a string (\<open>None\<close> is null). An
  argument that is missing or of the wrong kind reads arbitrary memory.\<close>

datatype fmtarg = ArgInt uint | ArgStr "string option"

fun cprintf_loop :: "string \<Rightarrow> fmtarg list \<Rightarrow> ('z kcons_scheme, unit) kop" where
  "cprintf_loop [] args = ret ()"
| "cprintf_loop [c] args = (if c \<noteq> CHR ''%'' then consputc (of_char c) else ret ())"
| "cprintf_loop (c # d # fmt) args =
     (if c \<noteq> CHR ''%'' then andthen (consputc (of_char c)) (cprintf_loop (d # fmt) args)
      else if d = CHR ''d'' then
        (case args of ArgInt n # rest \<Rightarrow> andthen (printint n 10 True) (cprintf_loop fmt rest)
         | _ \<Rightarrow> fault ''cprintf argument'')
      else if d = CHR ''x'' \<or> d = CHR ''p'' then
        (case args of ArgInt n # rest \<Rightarrow> andthen (printint n 16 False) (cprintf_loop fmt rest)
         | _ \<Rightarrow> fault ''cprintf argument'')
      else if d = CHR ''s'' then
        (case args of ArgStr p # rest \<Rightarrow>
            andthen (consputs (case p of None \<Rightarrow> ''(null)'' | Some str \<Rightarrow> str)) (cprintf_loop fmt rest)
         | _ \<Rightarrow> fault ''cprintf argument'')
      else if d = CHR ''%'' then andthen (consputc 37) (cprintf_loop fmt args)
      else andthen (consputc 37) (andthen (consputc (of_char d)) (cprintf_loop fmt args)))"

definition cprintf :: "string \<Rightarrow> fmtarg list \<Rightarrow> ('z kcons_scheme, unit) kop" where
  "cprintf fmt args =
     bnd (gets con_locking) (\<lambda>locking.
     andthen (whenever locking (acquire ConsLock))
     (andthen (cprintf_loop fmt args)
     (whenever locking (release ConsLock))))"

section \<open>Printed numbers read back\<close>

text \<open>Reading a string of digits back, most significant first.\<close>

fun digit_val :: "char \<Rightarrow> nat" where
  "digit_val c = (if of_char c < (58 :: nat) then of_char c - 48 else of_char c - 87)"

definition read_digits :: "nat \<Rightarrow> string \<Rightarrow> nat" where
  "read_digits base str = foldl (\<lambda>n c. n * base + digit_val c) 0 str"

definition read_int :: "nat \<Rightarrow> string \<Rightarrow> int" where
  "read_int base str = (case str of
      c # rest \<Rightarrow> if c = CHR ''-'' then - int (read_digits base rest) else int (read_digits base str)
    | [] \<Rightarrow> 0)"

lemma digit_val_digits: "d < 16 \<Longrightarrow> digit_val (digits ! d) = d \<and> digits ! d \<noteq> CHR ''-''"
proof -
  have "\<forall>d \<in> set [0..<16]. digit_val (digits ! d) = d \<and> digits ! d \<noteq> CHR ''-''"
    by code_simp
  then show "d < 16 \<Longrightarrow> ?thesis" by simp
qed

lemma sint_negative:
  assumes "sint xx < 0"
  shows "uint (- xx) = - sint (xx :: uint)"
proof -
  have m: "sint xx = uint xx - 2 ^ 32" and pos: "0 < uint xx"
    using assms by (auto simp: sint_uint32 split: if_splits)
  have "(- uint xx) mod 2 ^ 32 = (2 ^ 32 - uint xx) mod 2 ^ 32" by (simp add: mod_diff_left_eq)
  also have "\<dots> = 2 ^ 32 - uint xx"
    using uint_lt2p [of xx] pos by (intro mod_pos_pos_trivial) auto
  finally have "uint (- xx) = 2 ^ 32 - uint xx" by (simp add: uint_word_ariths)
  then show ?thesis using m by simp
qed

lemma read_digit_loop:
  assumes "2 \<le> base" and "base \<le> 16"
  shows "read_digits base (rev (digit_loop base x)) = x"
  using assms
proof (induction base x rule: digit_loop.induct)
  case (1 base x)
  have d: "digit_val (digits ! (x mod base)) = x mod base"
    using digit_val_digits [of "x mod base"] mod_less_divisor [of base x] 1 by linarith
  show ?case
  proof (cases "x div base = 0")
    case True
    then have "x < base" using 1 by (simp add: div_eq_0_iff)
    then show ?thesis using True d by (simp add: digit_loop.simps [of base x] read_digits_def del: digit_val.simps)
  next
    case False
    then have "read_digits base (rev (digit_loop base (x div base))) = x div base"
      using 1 by simp
    then show ?thesis
      using False 1 d by (simp add: digit_loop.simps [of base x] read_digits_def del: digit_val.simps)
  qed
qed

lemma digit_loop_digits:
  "2 \<le> base \<Longrightarrow> base \<le> 16 \<Longrightarrow> c \<in> set (digit_loop base x) \<Longrightarrow> c \<noteq> CHR ''-''"
proof (induction base x rule: digit_loop.induct)
  case (1 base x)
  have "x mod base < 16" using 1 mod_less_divisor [of base x] by linarith
  then have "digits ! (x mod base) \<noteq> CHR ''-''" using digit_val_digits by blast
  then show ?case using 1 by (auto simp: digit_loop.simps [of base x] split: if_splits)
qed

lemma digit_loop_length: "2 \<le> base \<Longrightarrow> x < base ^ Suc n \<Longrightarrow> length (digit_loop base x) \<le> Suc n"
proof (induction n arbitrary: x)
  case 0
  then show ?case by (simp add: digit_loop.simps [of base x] div_eq_0_iff)
next
  case (Suc n)
  then have "x div base < base ^ Suc n"
    by (simp add: div_less_iff_less_mult mult.commute)
  then show ?case using Suc by (simp add: digit_loop.simps [of base x])
qed

lemma digit_loop_not_Nil [simp]: "digit_loop base x \<noteq> []"
  by (simp add: digit_loop.simps [of base x])

text \<open>What \<open>printint_str\<close> gives is the number, in characters that fit \<open>buf\<close>.\<close>

lemma read_printint_str:
  assumes "base = 10 \<or> base = 16"
  shows "read_int base (printint_str xx base sign) = (if sign then sint xx else uint xx) \<and>
    length (printint_str xx base sign) \<le> 16"
proof -
  have b: "2 \<le> base" "base \<le> 16" using assms by auto
  have len: "length (digit_loop base (unat x)) \<le> 10" for x :: uint
  proof -
    have "unat x < 10 ^ Suc 9" "unat x < 16 ^ Suc 9"
      using unsigned_less [of x, where ?'a = nat] by simp_all
    then show ?thesis using assms digit_loop_length [OF b(1), of "unat x" 9] by auto
  qed
  show ?thesis
  proof (cases "sign \<and> sint xx < 0")
    case True
    then have "read_int base (printint_str xx base sign) = - int (unat (- xx))"
      by (simp add: printint_str_def read_int_def read_digit_loop [OF b])
    then show ?thesis
      using True len [of "- xx"] by (simp add: sint_negative printint_str_def)
  next
    case False
    then have p: "printint_str xx base sign = rev (digit_loop base (unat xx))"
      by (auto simp: printint_str_def)
    obtain c rest where c: "rev (digit_loop base (unat xx)) = c # rest"
      by (cases "rev (digit_loop base (unat xx))") auto
    then have "c \<in> set (digit_loop base (unat xx))" by (metis list.set_intros(1) set_rev)
    then have "c \<noteq> CHR ''-''" using digit_loop_digits [OF b] by blast
    then have "read_int base (printint_str xx base sign) = int (unat xx)"
      using c read_digit_loop [OF b, of "unat xx"] by (simp add: p read_int_def)
    then show ?thesis using False len [of xx] uint_lt2p [of xx] by (auto simp: p sint_uint32)
  qed
qed

text \<open>
  C20. \<open>printint\<close> in base 10 or 16: for every 32-bit number, signed or not, but the most negative \<open>int\<close> printed as signed, it
  sends to the console, one after the other, characters that read back as that number, and they fit the function's 16-byte
  buffer; the most negative \<open>int\<close> printed as signed is undefined, since its negation overflows (console.c, lines 27-50).
\<close>

theorem printint_reads_back:
  assumes "base = 10 \<or> base = 16"
  shows "if sign \<and> sint xx = - (2 ^ 31) then printint xx base sign s = Fault ''int overflow''
    else \<exists>str. printint xx base sign s = for_each str (\<lambda>ch. consputc (of_char ch)) s \<and>
      read_int base str = (if sign then sint xx else uint xx) \<and> length str \<le> 16"
proof (cases "sign \<and> sint xx = - (2 ^ 31)")
  case True
  then show ?thesis by (simp add: printint_def fault_def)
next
  case False
  then show ?thesis
    using read_printint_str [OF assms, of xx sign]
    by (simp only: printint_def consputs_def if_False) (intro exI conjI, rule refl, blast+)
qed

section \<open>The screen stays within its memory\<close>

text \<open>The cursor stays in the first 24 rows, the text memory keeps its size.\<close>

definition crt_ok :: "'z kcons_scheme \<Rightarrow> bool" where
  "crt_ok s \<longleftrightarrow> length (crt s) = CRTCELLS \<and> crtpos s < 24 * 80"

definition con_ok :: "'z kcons_scheme \<Rightarrow> bool" where
  "con_ok s \<longleftrightarrow> crt_ok s \<and> \<not> con_panicked s"

text \<open>\<open>con_frame s t\<close>: only the serial line and the screen differ.\<close>

definition con_frame :: "'z kcons_scheme \<Rightarrow> 'z kcons_scheme \<Rightarrow> bool" where
  "con_frame s t \<longleftrightarrow> t = s\<lparr>serial := serial t, crt := crt t, crtpos := crtpos t\<rparr>"

lemma con_frame_refl [simp]: "con_frame s s"
  by (simp add: con_frame_def)

lemma con_frame_trans: "con_frame s t \<Longrightarrow> con_frame t u \<Longrightarrow> con_frame s u"
proof -
  assume st: "con_frame s t" and tu: "con_frame t u"
  have "t\<lparr>serial := a, crt := b, crtpos := c\<rparr> = s\<lparr>serial := a, crt := b, crtpos := c\<rparr>" for a b c
    by (subst st [unfolded con_frame_def]) simp
  then show "con_frame s u" using tu by (simp add: con_frame_def)
qed

lemma con_frame_upd [simp]:
  "con_frame s (s\<lparr>serial := ser\<rparr>)" "con_frame s (s\<lparr>crt := m\<rparr>)" "con_frame s (s\<lparr>crtpos := p\<rparr>)"
  "con_frame s (s\<lparr>crtpos := p, crt := m\<rparr>)"
  by (auto simp: con_frame_def intro!: kcons.equality)

lemma newline_pos: "pos < 24 * 80 \<Longrightarrow> pos + (80 - pos mod 80) \<le> 24 * (80 :: nat)"
proof -
  assume "pos < 24 * 80"
  then have "pos div 80 < 24" by (simp add: less_mult_imp_div_less)
  moreover have "pos = pos div 80 * 80 + pos mod 80" by simp
  moreover have "pos mod 80 < 80" by simp
  ultimately show ?thesis by linarith
qed

lemma wp_crt_store:
  assumes "i < length (crt s)"
  shows "wp (crt_store i v) Q s = Q () (s\<lparr>crt := (crt s)[i := v]\<rparr>)"
  using assms by (simp add: crt_store_def wp_rules)

lemma wp_crt_scroll:
  assumes "length (crt s) = CRTCELLS" and "pos \<le> 24 * 80"
    and "\<And>m. length m = CRTCELLS \<Longrightarrow> Q () (s\<lparr>crt := m\<rparr>)"
  shows "wp (crt_scroll pos) Q s"
  using assms by (simp add: crt_scroll_def wp_rules CRTCELLS_def min_def)

text \<open>After the character: the cursor is at most one past the last cell of row 23, and only there
  does the screen scroll.\<close>

lemma wp_cga_finish:
  assumes "length (crt s) = CRTCELLS" and "pos \<le> 24 * 80"
  shows "wp (cga_finish pos) (\<lambda>_ t. crt_ok t \<and> con_frame s t) s"
proof (cases "pos = 24 * 80")
  case True
  show ?thesis
    unfolding True cga_finish_def wp_rules
    using assms(1)
    by (auto simp: wp_rules wp_crt_store CRTCELLS_def crt_ok_def intro!: wp_crt_scroll)
next
  case False
  then have "pos div 80 < 24" using assms(2) by (simp add: less_mult_imp_div_less)
  then show ?thesis
    using False assms
    by (auto simp: cga_finish_def wp_rules wp_crt_store CRTCELLS_def crt_ok_def)
qed

lemma wp_cga_char:
  assumes "crt_ok s"
  shows "wp (cga_char c (crtpos s))
    (\<lambda>pos t. pos \<le> 24 * 80 \<and> length (crt t) = CRTCELLS \<and> con_frame s t) s"
proof -
  have l: "length (crt s) = CRTCELLS" and p: "crtpos s < 24 * 80"
    using assms by (simp_all add: crt_ok_def)
  then have "crtpos s < length (crt s)" by (simp add: CRTCELLS_def)
  then show ?thesis
    using l p newline_pos [OF p] by (auto simp: cga_char_def wp_rules wp_crt_store)
qed

lemma wp_cgaputc:
  assumes "crt_ok s"
  shows "wp (cgaputc c) (\<lambda>_ t. crt_ok t \<and> con_frame s t) s"
  unfolding cgaputc_def wp_bnd wp_gets
proof (rule wp_mono [OF wp_cga_char [OF assms]], elim conjE)
  fix pos :: nat and t
  assume "pos \<le> 24 * 80" "length (crt t) = CRTCELLS" and st: "con_frame s t"
  then have "wp (cga_finish pos) (\<lambda>_ u. crt_ok u \<and> con_frame t u) t"
    by (intro wp_cga_finish)
  then show "wp (cga_finish pos) (\<lambda>_ u. crt_ok u \<and> con_frame s u) t"
    by (rule wp_mono) (use st con_frame_trans in blast)
qed

lemma wp_uartputc: "wp (uartputc c) Q s = Q () (if uart s then s\<lparr>serial := serial s @ [of_nat c]\<rparr> else s)"
  by (simp add: uartputc_def wp_rules)

lemma crt_ok_serial [simp]: "crt_ok (s\<lparr>serial := x\<rparr>) = crt_ok s"
  by (simp add: crt_ok_def)

lemma con_frameD:
  assumes "con_frame s t"
  shows "con_panicked t = con_panicked s" and "con_locking t = con_locking s" and "uart t = uart s"
    and "cpus t = cpus s" and "mycpu t = mycpu s" and "spinlocks t = spinlocks s"
proof -
  note eq = assms [unfolded con_frame_def]
  show "con_panicked t = con_panicked s" using arg_cong [OF eq, of con_panicked] by simp
  show "con_locking t = con_locking s" using arg_cong [OF eq, of con_locking] by simp
  show "uart t = uart s" using arg_cong [OF eq, of uart] by simp
  show "cpus t = cpus s" using arg_cong [OF eq, of cpus] by simp
  show "mycpu t = mycpu s" using arg_cong [OF eq, of mycpu] by simp
  show "spinlocks t = spinlocks s" using arg_cong [OF eq, of spinlocks] by simp
qed

lemma wp_uart_any:
  "con_ok s \<Longrightarrow> wp (uartputc c) (\<lambda>_ t. con_ok t \<and> con_frame s t) s"
  by (simp add: wp_uartputc con_ok_def)

lemma con_step:
  assumes "con_ok s" and "\<And>s. con_ok s \<Longrightarrow> wp m (\<lambda>_ t. con_ok t \<and> con_frame s t) s"
    and "\<And>s. con_ok s \<Longrightarrow> wp n (\<lambda>_ t. con_ok t \<and> con_frame s t) s"
  shows "wp (andthen m n) (\<lambda>_ t. con_ok t \<and> con_frame s t) s"
  unfolding wp_andthen
proof (rule wp_mono [OF assms(2) [OF assms(1)]])
  fix a t
  assume "con_ok t \<and> con_frame s t"
  then show "wp n (\<lambda>_ u. con_ok u \<and> con_frame s u) t"
    using assms(3) [of t] con_frame_trans by (blast intro: wp_mono)
qed

lemma wp_consputc:
  assumes "con_ok s"
  shows "wp (consputc c) (\<lambda>_ t. con_ok t \<and> con_frame s t) s"
proof -
  have cga: "wp (cgaputc c) (\<lambda>_ t. con_ok t \<and> con_frame s t) s" if "con_ok s" for s :: "'a kcons_scheme"
    by (rule wp_mono [OF wp_cgaputc]) (use that in \<open>auto simp: con_ok_def con_frameD\<close>)
  have "\<not> con_panicked s" using assms by (simp add: con_ok_def)
  then show ?thesis
    unfolding consputc_def wp_bnd wp_gets
    by (simp add: con_step assms wp_uart_any cga)
qed

lemma wp_consputs:
  assumes "con_ok s"
  shows "wp (consputs str) (\<lambda>_ t. con_ok t \<and> con_frame s t) s"
  unfolding consputs_def using assms
  by (induction str arbitrary: s) (simp_all add: wp_ret con_step wp_consputc)

text \<open>The arguments a format consumes; \<open>%d\<close> takes no most negative number.\<close>

fun fmt_ok :: "string \<Rightarrow> fmtarg list \<Rightarrow> bool" where
  "fmt_ok [] args = True"
| "fmt_ok [c] args = True"
| "fmt_ok (c # d # fmt) args =
     (if c \<noteq> CHR ''%'' then fmt_ok (d # fmt) args
      else if d = CHR ''d'' then
        (case args of ArgInt n # rest \<Rightarrow> sint n \<noteq> - (2 ^ 31) \<and> fmt_ok fmt rest | _ \<Rightarrow> False)
      else if d = CHR ''x'' \<or> d = CHR ''p'' then
        (case args of ArgInt n # rest \<Rightarrow> fmt_ok fmt rest | _ \<Rightarrow> False)
      else if d = CHR ''s'' then
        (case args of ArgStr p # rest \<Rightarrow> fmt_ok fmt rest | _ \<Rightarrow> False)
      else fmt_ok fmt args)"

lemma wp_cprintf_loop:
  "con_ok s \<Longrightarrow> fmt_ok fmt args \<Longrightarrow>
     wp (cprintf_loop fmt args) (\<lambda>_ t. con_ok t \<and> con_frame s t) s"
proof (induction fmt args arbitrary: s rule: cprintf_loop.induct)
  case (1 args)
  then show ?case by (simp add: wp_ret)
next
  case (2 c args)
  then show ?case by (simp add: wp_ret wp_consputc)
next
  case (3 c d fmt args)
  show ?case
  proof (cases "c = CHR ''%''")
    case False
    then show ?thesis using 3 by (simp add: con_step wp_consputc)
  next
    case c: True
    consider (int) n rest where "d = CHR ''d'' \<and> sint n \<noteq> - (2 ^ 31) \<or> d = CHR ''x'' \<or> d = CHR ''p''"
        "args = ArgInt n # rest" "fmt_ok fmt rest"
      | (str) p rest where "d = CHR ''s''" "args = ArgStr p # rest" "fmt_ok fmt rest"
      | (other) "d \<noteq> CHR ''d''" "d \<noteq> CHR ''x''" "d \<noteq> CHR ''p''" "d \<noteq> CHR ''s''" "fmt_ok fmt args"
      using 3(8) c by (auto split: if_splits list.splits fmtarg.splits)
    then show ?thesis
    proof cases
      case int
      then show ?thesis
        using c 3(2,3) 3(7) by (elim disjE) (simp_all add: con_step wp_consputs printint_def)
    next
      case str
      then show ?thesis using c 3(4) 3(7) by (simp add: con_step wp_consputs)
    next
      case other
      have IH: "wp (cprintf_loop fmt args) (\<lambda>_ t. con_ok t \<and> con_frame u t) u" if "con_ok u"
        for u :: "'a kcons_scheme"
        using 3(5,6) that c other by (cases "d = CHR ''%''") simp_all
      show ?thesis
        using c other IH 3(7)
        by (cases "d = CHR ''%''") (auto intro!: con_step wp_consputc)
    qed
  qed
qed

lemma lks_con [simp]:
  "lks H (s\<lparr>serial := x\<rparr>) = lks H s" "lks H (s\<lparr>crt := m\<rparr>) = lks H s" "lks H (s\<lparr>crtpos := p\<rparr>) = lks H s"
  by (simp_all add: lks_def holding_def)

lemma con_ok_base [simp]: "con_ok (s\<lparr>cpus := cs\<rparr>) = con_ok s" "con_ok (s\<lparr>spinlocks := ks\<rparr>) = con_ok s"
  by (simp_all add: con_ok_def crt_ok_def)

lemma con_frame_elim:
  assumes "con_frame s t"
  obtains ser m p where "t = s\<lparr>serial := ser, crt := m, crtpos := p\<rparr>"
  using assms unfolding con_frame_def by blast

text \<open>
  Where a format's arguments fit, \<open>cprintf\<close> returns, and changes only the devices and, if it locks, what \<open>pushcli\<close> and the
  console's lock remember. Other CPUs may hold other locks meanwhile.
\<close>

definition printed :: "'z kcons_scheme \<Rightarrow> 'z kcons_scheme \<Rightarrow> bool" where
  "printed s t \<longleftrightarrow> (\<exists>i k ser m p. t = s\<lparr>cpus := (cpus s)[mycpu s := (thecpu s)\<lparr>c_intena := i\<rparr>], spinlocks := (spinlocks s)(ConsLock := k),
     serial := ser, crt := m, crtpos := p\<rparr> \<and> lk_locked k = 0 \<and> lk_name k = lk_name (spinlocks s ConsLock))"

lemma printedI:
  "lk_locked k = 0 \<Longrightarrow> lk_name k = lk_name (spinlocks s ConsLock) \<Longrightarrow>
   printed s (s\<lparr>cpus := (cpus s)[mycpu s := (thecpu s)\<lparr>c_intena := i\<rparr>], spinlocks := (spinlocks s)(ConsLock := k),
     serial := ser, crt := m, crtpos := p\<rparr>)"
  unfolding printed_def by blast

lemma popped_pushed:
  assumes "0 \<le> c_ncli c" and "0 < c_ncli c \<longrightarrow> \<not> c_if c"
  shows "popped (pushed c) = c\<lparr>c_intena := c_intena (pushed c)\<rparr>"
  using assms by (auto simp: popped_def pushed_def)

lemma wp_cprintf_printed:
  assumes c: "mycpu s < length (cpus s)" "0 \<le> c_ncli (thecpu s)" "0 < c_ncli (thecpu s) \<longrightarrow> \<not> c_if (thecpu s)"
    and l: "lk_locked (spinlocks s ConsLock) = 0" and con: "con_ok s" and fmt: "fmt_ok fmt args"
  shows "wp (cprintf fmt args) (\<lambda>_ t. printed s t \<and> con_ok t) s"
proof (cases "con_locking s")
  case False
  have "printed s t" if f: "con_frame s t" for t
  proof -
    obtain ser m p where t: "t = s\<lparr>serial := ser, crt := m, crtpos := p\<rparr>" by (rule con_frame_elim [OF f])
    show ?thesis
      using printedI [where s = s and k = "spinlocks s ConsLock" and i = "c_intena (thecpu s)" and ser = ser and m = m and p = p] l by (simp add: t)
  qed
  then show ?thesis
    using False wp_cprintf_loop [OF con fmt] by (auto simp: cprintf_def wp_rules elim: wp_mono)
next
  case True
  let ?t = "s\<lparr>cpus := (cpus s)[mycpu s := pushed (thecpu s)], spinlocks := (spinlocks s)(ConsLock := taken s (spinlocks s ConsLock))\<rparr>"
  have n: "0 < c_ncli (pushed (thecpu s))" "\<not> c_if (pushed (thecpu s))" using c(2) by (simp_all add: pushed_def)
  have "con_ok ?t" using con by simp
  from wp_cprintf_loop [OF this fmt]
  have "wp (cprintf_loop fmt args) (\<lambda>_. wp (release ConsLock) (\<lambda>_ u. printed s u \<and> con_ok u)) ?t"
  proof (rule wp_mono)
    fix a u
    assume ok: "con_ok u \<and> con_frame ?t u"
    then obtain ser m p where u: "u = ?t\<lparr>serial := ser, crt := m, crtpos := p\<rparr>" using con_frame_elim by blast
    let ?v = "s\<lparr>cpus := (cpus s)[mycpu s := (thecpu s)\<lparr>c_intena := c_intena (pushed (thecpu s))\<rparr>],
      spinlocks := (spinlocks s)(ConsLock := dropped (taken s (spinlocks s ConsLock))), serial := ser, crt := m, crtpos := p\<rparr>"
    have h: "mycpu u < length (cpus u)" "holding ConsLock u" "\<not> c_if (thecpu u)" "0 < c_ncli (thecpu u)"
      using c n by (simp_all add: u holding_def taken_def)
    have "u\<lparr>cpus := (cpus u)[mycpu u := popped (thecpu u)], spinlocks := (spinlocks u)(ConsLock := dropped (spinlocks u ConsLock))\<rparr> = ?v"
      using c by (simp add: u popped_pushed)
    moreover have "printed s ?v" by (rule printedI) (simp_all add: dropped_def taken_def)
    moreover have "con_ok ?v" using ok by (simp add: u con_ok_def crt_ok_def)
    ultimately show "wp (release ConsLock) (\<lambda>_ u. printed s u \<and> con_ok u) u" unfolding wp_release_held [OF h] by simp
  qed
  then show ?thesis
    using True by (simp add: cprintf_def whenever_def wp_bnd wp_gets wp_andthen wp_acquire_free [OF c(1) l])
qed

lemma lks_printed:
  assumes "lks H s" and "ConsLock \<notin> H" and "printed s t"
  shows "lks H t"
  using assms by (fastforce simp: printed_def lks_def holding_def split: if_splits)

lemma wp_cprintf:
  assumes lks: "lks H s" and H: "ConsLock \<notin> H" and con: "con_ok s" and fmt: "fmt_ok fmt args"
    and Q: "\<And>cs ks ser m p. lks H (s\<lparr>cpus := cs, spinlocks := ks, serial := ser, crt := m, crtpos := p\<rparr>) \<Longrightarrow>
      cpu_frame (mycpu s) cs (cpus s) \<Longrightarrow>
      con_ok (s\<lparr>cpus := cs, spinlocks := ks, serial := ser, crt := m, crtpos := p\<rparr>) \<Longrightarrow>
      Q () (s\<lparr>cpus := cs, spinlocks := ks, serial := ser, crt := m, crtpos := p\<rparr>)"
  shows "wp (cprintf fmt args) Q s"
proof -
  have n: "0 \<le> c_ncli (thecpu s)" "0 < c_ncli (thecpu s) \<longrightarrow> \<not> c_if (thecpu s)"
    using lks by (auto simp: lks_def)
  from wp_cprintf_printed [OF lksD(2) [OF lks] n lksD(6) [OF lks H] con fmt]
  show ?thesis
  proof (rule wp_mono)
    fix a t
    assume t: "printed s t \<and> con_ok t"
    have "lks H t" using lks_printed [OF lks H] t by blast
    then show "Q a t" using t Q cpu_frame_update unfolding printed_def by fastforce
  qed
qed

text \<open>
  C21. Printing never writes outside the screen: for any format whose arguments fit (no most negative number for \<open>%d\<close>), from a
  state in which the cursor is in the first 24 rows and the CPU holds the locks \<open>H\<close>, not the console's among them, \<open>cprintf\<close>
  returns (it neither faults nor panics) with the cursor again in the first 24 rows of the 25-row text memory, whose size is
  unchanged, and holding the locks \<open>H\<close>. Nothing else changes but the serial line, and what the console's lock, free again,
  and the CPU's \<open>intena\<close> remember of the locking (console.c, lines 54-105 and 131-178).
\<close>

theorem cprintf_stays_on_screen:
  assumes "lks H s" and "ConsLock \<notin> H" and "con_ok s" and "fmt_ok fmt args"
  shows "\<exists>t i k ser m p. cprintf fmt args s = Done () t \<and> lks H t \<and> length m = CRTCELLS \<and> p < 24 * 80 \<and>
    t = s\<lparr>cpus := (cpus s)[mycpu s := (thecpu s)\<lparr>c_intena := i\<rparr>], spinlocks := (spinlocks s)(ConsLock := k),
      serial := ser, crt := m, crtpos := p\<rparr> \<and> lk_locked k = 0 \<and> lk_name k = lk_name (spinlocks s ConsLock)"
proof -
  have n: "0 \<le> c_ncli (thecpu s)" "0 < c_ncli (thecpu s) \<longrightarrow> \<not> c_if (thecpu s)"
    using assms(1) by (auto simp: lks_def)
  from wp_cprintf_printed [OF lksD(2) [OF assms(1)] n lksD(6) [OF assms(1,2)] assms(3,4)]
  obtain t where t: "cprintf fmt args s = Done () t" "printed s t" "con_ok t" by (auto simp: wp_iff_Done)
  moreover have "lks H t" using assms(1,2) t(2) by (rule lks_printed)
  ultimately show ?thesis unfolding printed_def by (fastforce simp: con_ok_def crt_ok_def)
qed

definition boot_cons :: kcons where
  "boot_cons = kbase.extend boot_base \<lparr>con_locking = True, con_panicked = False, uart = True,
     serial = [], crt = replicate CRTCELLS 0, crtpos = 24 * 80 - 2\<rparr>"

lemma boot_cons_simps:
  "lks {} boot_cons" "con_ok boot_cons"
  using lks_boot_base
  by (simp_all add: boot_cons_def con_ok_def crt_ok_def CRTCELLS_def kbase.defs lks_def holding_def)

theorem printint_reads_back_witness:
  "\<exists>str. printint (- 2147483647) 10 True boot_cons = for_each str (\<lambda>ch. consputc (of_char ch)) boot_cons \<and>
     read_int 10 str = - 2147483647"
  using printint_reads_back [of 10 True "- 2147483647" boot_cons] by auto

theorem cprintf_stays_on_screen_witness:
  "\<exists>t. cprintf ''pid %d %s%x'' [ArgInt 7, ArgStr (Some ''init''), ArgInt 255] boot_cons = Done () t \<and>
     lks {} t \<and> length (crt t) = CRTCELLS \<and> crtpos t < 24 * 80"
proof -
  have "fmt_ok ''pid %d %s%x'' [ArgInt 7, ArgStr (Some ''init''), ArgInt 255]" by simp
  from cprintf_stays_on_screen [OF boot_cons_simps(1) _ boot_cons_simps(2) this] show ?thesis by fastforce
qed

end
