(* ===== verification/Ulib.thy ===== *)
theory Ulib
  imports StringC Console_Out
begin

text \<open>
  user/ulib.c and user/printf.c: the library of the user programs. The string routines work on the memory of the process;
  where a loop runs until it meets a zero byte it may not end, and the result is then \<open>None\<close>. The
  routines that make system calls take them as the argument \<open>sys\<close>, a computation on whatever state the kernel has.
\<close>

section \<open>System calls\<close>

datatype ucall =
    URead int nat | UWrite int "uchar list" | UOpen string int | UClose int | UFstat int
  | UFork | UWait | UExit | UExec string "string list" | USleep int | UKill int | UDup int | UMknod string int int
  | ULink string string | UMkdir string | UUnlink string | USetPriority int | UProcstat

text \<open>What a call returns, with the bytes it stored for the process.\<close>

type_synonym 'w syscalls = "ucall \<Rightarrow> ('w, int \<times> uchar list) kop"

section \<open>Strings\<close>

partial_function (option) strcpy_loop :: "memory \<Rightarrow> uint \<Rightarrow> uint \<Rightarrow> memory option" where
  "strcpy_loop m s t = (if m t \<noteq> 0 then strcpy_loop (m(s := m t)) (s + 1) (t + 1) else Some (m(s := m t)))"

definition strcpy :: "memory \<Rightarrow> uint \<Rightarrow> uint \<Rightarrow> memory option" where
  "strcpy m s t = strcpy_loop m s t"

partial_function (option) strcmp :: "memory \<Rightarrow> uint \<Rightarrow> uint \<Rightarrow> int option" where
  "strcmp m p q = (if m p \<noteq> 0 \<and> m p = m q then strcmp m (p + 1) (q + 1) else Some (uint (m p) - uint (m q)))"

definition ustrlen :: "memory \<Rightarrow> uint \<Rightarrow> nat option" where
  "ustrlen m s = strlen_from m s 0"

definition umemset :: "memory \<Rightarrow> uint \<Rightarrow> uint \<Rightarrow> uint \<Rightarrow> memory" where
  "umemset m dst c n = stosb m dst (ucast c) (unat n)"

text \<open>The null pointer is 0.\<close>

partial_function (option) strchr :: "memory \<Rightarrow> uint \<Rightarrow> uchar \<Rightarrow> uint option" where
  "strchr m s c = (if m s = 0 then Some 0 else if m s = c then Some s else strchr m (s + 1) c)"

text \<open>\<open>n = n*10 + *s++ - '0'\<close> on an \<open>int\<close>: a number that does not fit overflows.\<close>

partial_function (option) atoi_loop :: "memory \<Rightarrow> uint \<Rightarrow> int \<Rightarrow> (string + int) option" where
  "atoi_loop m s n =
     (if 48 \<le> m s \<and> m s \<le> 57 then
        if n * 10 + uint (m s) < 2 ^ 31 then atoi_loop m (s + 1) (n * 10 + uint (m s) - 48) else Some (Inl ''overflow'')
      else Some (Inr n))"

definition atoi :: "memory \<Rightarrow> uint \<Rightarrow> (string + int) option" where
  "atoi m s = atoi_loop m s 0"

definition umemmove :: "memory \<Rightarrow> uint \<Rightarrow> uint \<Rightarrow> int \<Rightarrow> memory" where
  "umemmove m vdst vsrc n = copy_up m vdst vsrc (nat n)"

section \<open>Routines with system calls\<close>

text \<open>The loop of \<open>gets\<close>, with \<open>n\<close> the characters \<open>buf\<close> still has room for and the memory of the process passed along.\<close>

fun gets_loop :: "'w syscalls \<Rightarrow> nat \<Rightarrow> memory \<Rightarrow> uint \<Rightarrow> ('w, memory \<times> uint) kop" where
  "gets_loop sys 0 m p = ret (m, p)"
| "gets_loop sys (Suc n) m p =
     bnd (sys (URead 0 1)) (\<lambda>(cc, bs).
     if cc < 1 then ret (m, p)
     else
       let c = hd bs; m' = m(p := c) in
       if c = 0x0A \<or> c = 0x0D then ret (m', p + 1) else gets_loop sys n m' (p + 1))"

definition gets_line :: "'w syscalls \<Rightarrow> memory \<Rightarrow> uint \<Rightarrow> int \<Rightarrow> ('w, memory) kop" where
  "gets_line sys m buf mx = bnd (gets_loop sys (nat (mx - 1)) m buf) (\<lambda>(m', p). ret (m'(p := 0)))"

definition ustat :: "'w syscalls \<Rightarrow> string \<Rightarrow> ('w, int \<times> uchar list) kop" where
  "ustat sys n =
     bnd (sys (UOpen n 0)) (\<lambda>(fd, _).
     if fd < 0 then ret (-1, [])
     else
       bnd (sys (UFstat fd)) (\<lambda>r.
       andthen (sys (UClose fd)) (ret r)))"

definition putc :: "'w syscalls \<Rightarrow> int \<Rightarrow> char \<Rightarrow> ('w, unit) kop" where
  "putc sys fd c = andthen (sys (UWrite fd [of_char c])) (ret ())"

definition udigits :: string where
  "udigits = ''0123456789ABCDEF''"

text \<open>The \<open>do\<close>-loop of \<open>printint\<close>, least significant digit first; the base is 10 or 16.\<close>

function udigit_loop :: "nat \<Rightarrow> nat \<Rightarrow> string" where
  "udigit_loop base x = (udigits ! (x mod base)) #
     (if 2 \<le> base \<and> x div base \<noteq> 0 then udigit_loop base (x div base) else [])"
  by pat_completeness auto
termination
proof (relation "measure snd", goal_cases)
  case (2 base x)
  then have "0 < x" by (cases x) auto
  then show ?case using 2 by simp
qed simp

declare udigit_loop.simps [simp del]

text \<open>As in the kernel, \<open>x = -xx\<close> overflows for the most negative \<open>int\<close>.\<close>

definition uprintint_str :: "uint \<Rightarrow> nat \<Rightarrow> bool \<Rightarrow> string" where
  "uprintint_str xx base signed_arg =
     (let neg = (signed_arg \<and> sint xx < 0);
          x = (if neg then - xx else xx);
          buf = udigit_loop base (unat x)
      in rev (if neg then buf @ ''-'' else buf))"

definition uprintint :: "'w syscalls \<Rightarrow> int \<Rightarrow> uint \<Rightarrow> nat \<Rightarrow> bool \<Rightarrow> ('w, unit) kop" where
  "uprintint sys fd xx base signed_arg =
     (if signed_arg \<and> sint xx = - (2 ^ 31) then fault ''int overflow''
      else for_each (uprintint_str xx base signed_arg) (putc sys fd))"

text \<open>The loop of \<open>printf\<close>; the second argument is \<open>state\<close>, true after a percent sign.\<close>

fun printf_loop :: "'w syscalls \<Rightarrow> int \<Rightarrow> bool \<Rightarrow> string \<Rightarrow> fmtarg list \<Rightarrow> ('w, unit) kop" where
  "printf_loop sys fd state [] args = ret ()"
| "printf_loop sys fd False (c # fmt) args =
     (if c = CHR ''%'' then printf_loop sys fd True fmt args
      else andthen (putc sys fd c) (printf_loop sys fd False fmt args))"
| "printf_loop sys fd True (c # fmt) args =
     (if c = CHR ''d'' then
        (case args of ArgInt n # rest \<Rightarrow> andthen (uprintint sys fd n 10 True) (printf_loop sys fd False fmt rest)
         | _ \<Rightarrow> fault ''printf argument'')
      else if c = CHR ''x'' \<or> c = CHR ''p'' then
        (case args of ArgInt n # rest \<Rightarrow> andthen (uprintint sys fd n 16 False) (printf_loop sys fd False fmt rest)
         | _ \<Rightarrow> fault ''printf argument'')
      else if c = CHR ''s'' then
        (case args of ArgStr s # rest \<Rightarrow>
            andthen (for_each (case s of None \<Rightarrow> ''(null)'' | Some str \<Rightarrow> str) (putc sys fd)) (printf_loop sys fd False fmt rest)
         | _ \<Rightarrow> fault ''printf argument'')
      else if c = CHR ''c'' then
        (case args of ArgInt n # rest \<Rightarrow> andthen (putc sys fd (char_of (unat n))) (printf_loop sys fd False fmt rest)
         | _ \<Rightarrow> fault ''printf argument'')
      else if c = CHR ''%'' then andthen (putc sys fd c) (printf_loop sys fd False fmt args)
      else andthen (putc sys fd CHR ''%'') (andthen (putc sys fd c) (printf_loop sys fd False fmt args)))"

definition printf :: "'w syscalls \<Rightarrow> int \<Rightarrow> string \<Rightarrow> fmtarg list \<Rightarrow> ('w, unit) kop" where
  "printf sys fd fmt args = printf_loop sys fd False fmt args"

section \<open>Numbers printed and read back\<close>

text \<open>The string \<open>str\<close> stands at \<open>s\<close>, with its zero byte.\<close>

definition cstring_at :: "memory \<Rightarrow> uint \<Rightarrow> string \<Rightarrow> bool" where
  "cstring_at m s str \<longleftrightarrow> (\<forall>i < length str. m (s + of_nat i) = of_char (str ! i)) \<and> m (s + of_nat (length str)) = 0"

definition decimal :: "char \<Rightarrow> bool" where
  "decimal c \<longleftrightarrow> 48 \<le> (of_char c :: nat) \<and> (of_char c :: nat) \<le> 57"

definition add_digit :: "nat \<Rightarrow> char \<Rightarrow> nat" where
  "add_digit n c = n * 10 + (of_char c - 48)"

lemma cstring_at_Cons: "cstring_at m s (c # str) \<longleftrightarrow> m s = of_char c \<and> cstring_at m (s + 1) str"
proof -
  have "(\<forall>i < length (c # str). m (s + of_nat i) = of_char ((c # str) ! i)) \<longleftrightarrow>
      m s = of_char c \<and> (\<forall>i < length str. m (s + 1 + of_nat i) = of_char (str ! i))"
    unfolding length_Cons All_less_Suc2 by (simp add: algebra_simps)
  then show ?thesis by (simp add: cstring_at_def algebra_simps)
qed

lemma add_digit_mono: "n \<le> foldl add_digit n str"
proof (induction str arbitrary: n)
  case (Cons c str)
  have "n \<le> add_digit n c" by (simp add: add_digit_def)
  then show ?case using Cons [of "add_digit n c"] by simp
qed simp

lemma uint_of_char: "uint (of_char c :: uchar) = int (of_char c)"
proof -
  have "(of_char c :: uchar) = of_nat (of_char c)" by (rule of_nat_of_char [symmetric])
  moreover have "(of_char c :: nat) < 256" by simp
  ultimately show ?thesis by (simp add: unsigned_of_nat take_bit_nat_eq_self)
qed

lemma atoi_loop_digits:
  assumes "cstring_at m s str" and "list_all decimal str" and "foldl add_digit n str + 48 < 2 ^ 31"
  shows "atoi_loop m s (int n) = Some (Inr (int (foldl add_digit n str)))"
  using assms
proof (induction str arbitrary: s n)
  case Nil
  then have "m s = 0" by (simp add: cstring_at_def)
  then show ?case by (subst atoi_loop.simps) simp
next
  case (Cons c str)
  have m: "m s = of_char c" "cstring_at m (s + 1) str" using Cons.prems(1) by (simp_all add: cstring_at_Cons)
  have d: "48 \<le> (of_char c :: nat)" "(of_char c :: nat) \<le> 57" using Cons.prems(2) by (simp_all add: decimal_def)
  have u: "uint (m s) = int (of_char c)" using m(1) uint_of_char by simp
  have c: "48 \<le> m s" "m s \<le> 57" using d u by (simp_all add: word_le_def)
  have "add_digit n c + 48 < 2 ^ 31" using add_digit_mono [of "add_digit n c" str] Cons.prems(3) by simp
  then have fit: "n * 10 + of_char c < 2 ^ 31" using d by (simp add: add_digit_def)
  have "atoi_loop m (s + 1) (int (add_digit n c)) = Some (Inr (int (foldl add_digit n (c # str))))"
    using Cons.IH [OF m(2), of "add_digit n c"] Cons.prems(2,3) by simp
  moreover have "int n * 10 + uint (m s) - 48 = int (add_digit n c)" using d u by (simp add: add_digit_def)
  moreover have "int (n * 10 + of_char c) < int (2 ^ 31)" using fit by (simp only: of_nat_less_iff)
  then have "int n * 10 + uint (m s) < 2 ^ 31" using u by simp
  ultimately show ?case using c by (subst atoi_loop.simps) simp
qed

lemma udigit_decimal: "d < 10 \<Longrightarrow> decimal (udigits ! d) \<and> of_char (udigits ! d) = d + 48"
proof -
  have "\<forall>d \<in> set [0..<10]. decimal (udigits ! d) \<and> of_char (udigits ! d) = d + 48" by code_simp
  then show "d < 10 \<Longrightarrow> ?thesis" by simp
qed

lemma udigit_loop_reads: "list_all decimal (udigit_loop 10 x) \<and> foldl add_digit 0 (rev (udigit_loop 10 x)) = x"
proof (induction x rule: less_induct)
  case (less x)
  have d: "decimal (udigits ! (x mod 10))" "of_char (udigits ! (x mod 10)) = x mod 10 + 48" using udigit_decimal [of "x mod 10"] by simp_all
  have a: "add_digit n (udigits ! (x mod 10)) = n * 10 + x mod 10" for n using d(2) by (simp add: add_digit_def)
  show ?case
  proof (cases "x div 10 = 0")
    case True
    then show ?thesis using d(1) a [of 0] by (subst (1 2) udigit_loop.simps) simp
  next
    case False
    then have "x div 10 < x" by simp
    from less [OF this] False d(1) show ?thesis by (subst (1 2) udigit_loop.simps) (simp add: a)
  qed
qed

text \<open>A number too near to the largest \<open>int\<close>: the last digit overflows the sum.\<close>

lemma atoi_loop_overflow:
  assumes "cstring_at m s (str @ [c])" and "list_all decimal (str @ [c])"
    and "foldl add_digit n str + 48 < 2 ^ 31" and "2 ^ 31 \<le> foldl add_digit n (str @ [c]) + 48"
  shows "atoi_loop m s (int n) = Some (Inl ''overflow'')"
  using assms
proof (induction str arbitrary: s n)
  case Nil
  have m: "m s = of_char c" using Nil.prems(1) by (simp add: cstring_at_Cons)
  have d: "48 \<le> (of_char c :: nat)" "(of_char c :: nat) \<le> 57" using Nil.prems(2) by (simp_all add: decimal_def)
  have u: "uint (m s) = int (of_char c)" using m uint_of_char by simp
  have "2 ^ 31 \<le> n * 10 + of_char c" using Nil.prems(4) d by (simp add: add_digit_def)
  then have "int (2 ^ 31) \<le> int (n * 10 + of_char c)" by (simp only: of_nat_le_iff)
  then have "\<not> int n * 10 + uint (m s) < 2 ^ 31" using u by simp
  moreover have "48 \<le> m s" "m s \<le> 57" using d u by (simp_all add: word_le_def)
  ultimately show ?case by (subst atoi_loop.simps) simp
next
  case (Cons b str)
  have m: "m s = of_char b" "cstring_at m (s + 1) (str @ [c])" using Cons.prems(1) by (simp_all add: cstring_at_Cons)
  have d: "48 \<le> (of_char b :: nat)" "(of_char b :: nat) \<le> 57" using Cons.prems(2) by (simp_all add: decimal_def)
  have u: "uint (m s) = int (of_char b)" using m(1) uint_of_char by simp
  have "add_digit n b + 48 < 2 ^ 31" using add_digit_mono [of "add_digit n b" str] Cons.prems(3) by simp
  then have "n * 10 + of_char b < 2 ^ 31" using d by (simp add: add_digit_def)
  then have "int (n * 10 + of_char b) < int (2 ^ 31)" by (simp only: of_nat_less_iff)
  then have "int n * 10 + uint (m s) < 2 ^ 31" using u by simp
  moreover have "48 \<le> m s" "m s \<le> 57" using d u by (simp_all add: word_le_def)
  moreover have "int n * 10 + uint (m s) - 48 = int (add_digit n b)" using d u by (simp add: add_digit_def)
  moreover have "atoi_loop m (s + 1) (int (add_digit n b)) = Some (Inl ''overflow'')"
    using Cons.IH [OF m(2), of "add_digit n b"] Cons.prems(2-4) by simp
  ultimately show ?case by (subst atoi_loop.simps) simp
qed

lemma atoi_nonnegative:
  assumes "cstring_at m s (rev (udigit_loop 10 x))" and "x < 2 ^ 31"
  shows "atoi m s = Some (if x + 48 < 2 ^ 31 then Inr (int x) else Inl ''overflow'')"
proof (cases "x + 48 < 2 ^ 31")
  case True
  then show ?thesis using atoi_loop_digits [OF assms(1), of 0] udigit_loop_reads [of x] by (simp add: atoi_def list_all_rev)
next
  case False
  then have big: "x div 10 \<noteq> 0" by simp
  then have e: "udigit_loop 10 x = (udigits ! (x mod 10)) # udigit_loop 10 (x div 10)" by (subst udigit_loop.simps) simp
  let ?str = "rev (udigit_loop 10 (x div 10))" and ?c = "udigits ! (x mod 10)"
  have "atoi_loop m s (int 0) = Some (Inl ''overflow'')"
  proof (rule atoi_loop_overflow)
    show "cstring_at m s (?str @ [?c])" using assms(1) e by simp
    show "list_all decimal (?str @ [?c])" using udigit_loop_reads [of x] e by (simp add: list_all_rev)
    show "foldl add_digit 0 ?str + 48 < 2 ^ 31" using udigit_loop_reads [of "x div 10"] assms(2) by simp
    show "2 ^ 31 \<le> foldl add_digit 0 (?str @ [?c]) + 48" using udigit_loop_reads [of x] e False by simp
  qed
  then show ?thesis using False by (simp add: atoi_def)
qed



end
