(* ===== verification/Utils.thy ===== *)
theory Utils
  imports Ulib
begin

text \<open>
  The small user programs: user/cat.c, wc.c, echo.c, kill.c, ln.c, mkdir.c, rm.c, ls.c, init.c, zombie.c and ps.c. The system calls
  are the argument \<open>sys\<close>; \<open>args\<close> are the strings of \<open>argv\<close>, the program's name first. A loop that reads until the end of a
  file has the number of reads it may make as its first argument, and spins when that is used up.
\<close>

section \<open>Definitions\<close>

definition exit_call :: "'w syscalls \<Rightarrow> ('w, unit) kop" where
  "exit_call sys = andthen (sys UExit) (ret ())"

fun cat_loop :: "nat \<Rightarrow> 'w syscalls \<Rightarrow> int \<Rightarrow> ('w, int) kop" where
  "cat_loop 0 sys fd = spin"
| "cat_loop (Suc k) sys fd =
     bnd (sys (URead fd 512)) (\<lambda>(n, bs).
     if n > 0 then andthen (sys (UWrite 1 (take (nat n) bs))) (cat_loop k sys fd) else ret n)"

definition cat :: "nat \<Rightarrow> 'w syscalls \<Rightarrow> int \<Rightarrow> ('w, unit) kop" where
  "cat k sys fd =
     bnd (cat_loop k sys fd) (\<lambda>n.
     whenever (n < 0) (andthen (printf sys 1 (''cat: read error'' @ [CHR 0x0A]) []) (exit_call sys)))"

text \<open>The loop over the files named, which \<open>cat\<close> and \<open>wc\<close> share.\<close>

definition each_file :: "'w syscalls \<Rightarrow> (int \<Rightarrow> string \<Rightarrow> ('w, unit) kop) \<Rightarrow> string list \<Rightarrow> ('w, unit) kop" where
  "each_file sys f names =
     andthen
       (for_each names (\<lambda>name.
         bnd (sys (UOpen name 0)) (\<lambda>(fd, _).
         if fd < 0 then
           andthen (printf sys 1 (''cat: cannot open %s'' @ [CHR 0x0A]) [ArgStr (Some name)]) (exit_call sys)
         else andthen (f fd name) (andthen (sys (UClose fd)) (ret ())))))
     (exit_call sys)"

definition cat_main :: "nat \<Rightarrow> 'w syscalls \<Rightarrow> string list \<Rightarrow> ('w, unit) kop" where
  "cat_main k sys args =
     (if length args \<le> 1 then andthen (cat k sys 0) (exit_call sys)
      else each_file sys (\<lambda>fd _. cat k sys fd) (tl args))"

text \<open>The counters of \<open>wc\<close> are \<open>int\<close>; one that is the largest \<open>int\<close> overflows when it is counted up.\<close>

record counts =
  wc_l :: int
  wc_w :: int
  wc_c :: int
  wc_inword :: bool

definition plus1 :: "int \<Rightarrow> ('w, int) kop" where
  "plus1 n = (if n = INT_MAX then fault ''int overflow'' else ret (n + 1))"

definition wc_space :: "uchar \<Rightarrow> bool" where
  "wc_space b \<longleftrightarrow> b \<in> {0x20, 0x0D, 0x09, 0x0A, 0x0B}"

definition wc_char :: "counts \<Rightarrow> uchar \<Rightarrow> ('w, counts) kop" where
  "wc_char k b =
     bnd (plus1 (wc_c k)) (\<lambda>c.
     bnd (if b = 0x0A then plus1 (wc_l k) else ret (wc_l k)) (\<lambda>l.
     if wc_space b then ret (k\<lparr>wc_c := c, wc_l := l, wc_inword := False\<rparr>)
     else if \<not> wc_inword k then
       bnd (plus1 (wc_w k)) (\<lambda>w. ret (k\<lparr>wc_c := c, wc_l := l, wc_w := w, wc_inword := True\<rparr>))
     else ret (k\<lparr>wc_c := c, wc_l := l\<rparr>)))"

fun wc_bytes :: "counts \<Rightarrow> uchar list \<Rightarrow> ('w, counts) kop" where
  "wc_bytes k [] = ret k"
| "wc_bytes k (b # bs) = bnd (wc_char k b) (\<lambda>k. wc_bytes k bs)"

fun wc_loop :: "nat \<Rightarrow> 'w syscalls \<Rightarrow> int \<Rightarrow> counts \<Rightarrow> ('w, int \<times> counts) kop" where
  "wc_loop 0 sys fd k = spin"
| "wc_loop (Suc m) sys fd k =
     bnd (sys (URead fd 512)) (\<lambda>(n, bs).
     if n > 0 then bnd (wc_bytes k (take (nat n) bs)) (wc_loop m sys fd) else ret (n, k))"

definition wc :: "nat \<Rightarrow> 'w syscalls \<Rightarrow> int \<Rightarrow> string \<Rightarrow> ('w, unit) kop" where
  "wc m sys fd name =
     bnd (wc_loop m sys fd \<lparr>wc_l = 0, wc_w = 0, wc_c = 0, wc_inword = False\<rparr>) (\<lambda>(n, k).
     andthen (whenever (n < 0) (andthen (printf sys 1 (''wc: read error'' @ [CHR 0x0A]) []) (exit_call sys)))
     (printf sys 1 (''%d %d %d %s'' @ [CHR 0x0A])
        [ArgInt (word_of_int (wc_l k)), ArgInt (word_of_int (wc_w k)), ArgInt (word_of_int (wc_c k)), ArgStr (Some name)]))"

definition wc_main :: "nat \<Rightarrow> 'w syscalls \<Rightarrow> string list \<Rightarrow> ('w, unit) kop" where
  "wc_main m sys args =
     (if length args \<le> 1 then andthen (wc m sys 0 '''') (exit_call sys)
      else each_file sys (wc m sys) (tl args))"

definition echo_main :: "'w syscalls \<Rightarrow> string list \<Rightarrow> ('w, unit) kop" where
  "echo_main sys args =
     andthen
       (for_each [1..<length args] (\<lambda>i.
         printf sys 1 ''%s%s'' [ArgStr (Some (args ! i)), ArgStr (Some (if i + 1 < length args then '' '' else [CHR 0x0A]))]))
     (exit_call sys)"

text \<open>The number \<open>atoi\<close> reads in a string that is given by its characters.\<close>

definition atoi_str :: "string \<Rightarrow> (string + int) option" where
  "atoi_str str = atoi (\<lambda>a. if unat a < length str then of_char (str ! unat a) else 0) 0"

definition kill_main :: "'w syscalls \<Rightarrow> string list \<Rightarrow> ('w, unit) kop" where
  "kill_main sys args =
     andthen (whenever (length args < 1) (andthen (printf sys 2 (''usage: kill pid...'' @ [CHR 0x0A]) []) (exit_call sys)))
     (andthen
       (for_each (tl args) (\<lambda>a.
         case atoi_str a of
           None \<Rightarrow> spin
         | Some (Inl e) \<Rightarrow> fault e
         | Some (Inr pid) \<Rightarrow> andthen (sys (UKill pid)) (ret ())))
     (exit_call sys))"

definition ln_main :: "'w syscalls \<Rightarrow> string list \<Rightarrow> ('w, unit) kop" where
  "ln_main sys args =
     (if length args \<noteq> 3 then andthen (printf sys 2 (''Usage: ln old new'' @ [CHR 0x0A]) []) (exit_call sys)
      else
        bnd (sys (ULink (args ! 1) (args ! 2))) (\<lambda>(r, _).
        andthen
          (whenever (r < 0)
            (printf sys 2 (''link %s %s: failed'' @ [CHR 0x0A]) [ArgStr (Some (args ! 1)), ArgStr (Some (args ! 2))]))
        (exit_call sys)))"

text \<open>The loop of \<open>mkdir\<close> and \<open>rm\<close>, which ends at the first name that fails.\<close>

fun each_name :: "'w syscalls \<Rightarrow> (string \<Rightarrow> ucall) \<Rightarrow> string \<Rightarrow> string list \<Rightarrow> ('w, unit) kop" where
  "each_name sys call msg [] = ret ()"
| "each_name sys call msg (name # names) =
     bnd (sys (call name)) (\<lambda>(r, _).
     if r < 0 then printf sys 2 msg [ArgStr (Some name)] else each_name sys call msg names)"

definition mkdir_main :: "'w syscalls \<Rightarrow> string list \<Rightarrow> ('w, unit) kop" where
  "mkdir_main sys args =
     (if length args < 2 then andthen (printf sys 2 (''Usage: mkdir files...'' @ [CHR 0x0A]) []) (exit_call sys)
      else andthen (each_name sys UMkdir (''mkdir: %s failed to create'' @ [CHR 0x0A]) (tl args)) (exit_call sys))"

definition rm_main :: "'w syscalls \<Rightarrow> string list \<Rightarrow> ('w, unit) kop" where
  "rm_main sys args =
     (if length args < 2 then andthen (printf sys 2 (''Usage: rm files...'' @ [CHR 0x0A]) []) (exit_call sys)
      else andthen (each_name sys UUnlink (''rm: %s failed to delete'' @ [CHR 0x0A]) (tl args)) (exit_call sys))"

section \<open>Listing directories\<close>

text \<open>The part after the last slash, padded with blanks to 14 characters.\<close>

definition fmtname :: "string \<Rightarrow> string" where
  "fmtname path =
     (let p = rev (takeWhile (\<lambda>c. c \<noteq> CHR ''/'') (rev path))
      in if length p \<ge> 14 then p else p @ replicate (14 - length p) (CHR '' ''))"

text \<open>\<open>struct stat\<close>: type at 0, device at 4, inode number at 8, links at 12, size at 16. A string in an array ends at its zero byte.\<close>

definition st_type :: "uchar list \<Rightarrow> ushort" where
  "st_type b = get16 b 0"

definition cstr :: "uchar list \<Rightarrow> string" where
  "cstr bs = map (\<lambda>b. char_of (unat b)) (takeWhile (\<lambda>b. b \<noteq> 0) bs)"

definition ls_line :: "'w syscalls \<Rightarrow> string \<Rightarrow> uchar list \<Rightarrow> ('w, unit) kop" where
  "ls_line sys path st =
     printf sys 1 (''%s %d %d %d'' @ [CHR 0x0A])
       [ArgStr (Some (fmtname path)), ArgInt (scast (st_type st)), ArgInt (get32 st 8), ArgInt (get32 st 16)]"

fun ls_entries :: "nat \<Rightarrow> 'w syscalls \<Rightarrow> int \<Rightarrow> string \<Rightarrow> ('w, unit) kop" where
  "ls_entries 0 sys fd path = spin"
| "ls_entries (Suc k) sys fd path =
     bnd (sys (URead fd 16)) (\<lambda>(n, de).
     if n \<noteq> 16 then ret ()
     else if get16 de 0 = 0 then ls_entries k sys fd path
     else
       let buf = path @ ''/'' @ cstr (take 14 (drop 2 de)) in
       bnd (ustat sys buf) (\<lambda>(r, st).
       andthen
         (if r < 0 then printf sys 1 (''ls: cannot stat %s'' @ [CHR 0x0A]) [ArgStr (Some buf)] else ls_line sys buf st)
       (ls_entries k sys fd path)))"

definition ls :: "nat \<Rightarrow> 'w syscalls \<Rightarrow> string \<Rightarrow> ('w, unit) kop" where
  "ls k sys path =
     bnd (sys (UOpen path 0)) (\<lambda>(fd, _).
     if fd < 0 then printf sys 2 (''ls: cannot open %s'' @ [CHR 0x0A]) [ArgStr (Some path)]
     else
       bnd (sys (UFstat fd)) (\<lambda>(r, st).
       if r < 0 then
         andthen (printf sys 2 (''ls: cannot stat %s'' @ [CHR 0x0A]) [ArgStr (Some path)])
         (andthen (sys (UClose fd)) (ret ()))
       else
         andthen
           (if st_type st = 2 then ls_line sys path st
            else if st_type st = 1 then
              if length path + 1 + 14 + 1 > 512 then printf sys 1 (''ls: path too long'' @ [CHR 0x0A]) []
              else ls_entries k sys fd path
            else ret ())
         (andthen (sys (UClose fd)) (ret ()))))"

definition ls_main :: "nat \<Rightarrow> 'w syscalls \<Rightarrow> string list \<Rightarrow> ('w, unit) kop" where
  "ls_main k sys args =
     (if length args < 2 then andthen (ls k sys ''.'') (exit_call sys)
      else andthen (for_each (tl args) (ls k sys)) (exit_call sys))"

section \<open>init and the small ones\<close>

text \<open>The loop that waits for the shell, \<open>n\<close> bounding the zombies it reaps; true when the shell has ended or there is no child.\<close>

fun init_wait :: "nat \<Rightarrow> 'w syscalls \<Rightarrow> int \<Rightarrow> ('w, unit) kop" where
  "init_wait 0 sys pid = spin"
| "init_wait (Suc n) sys pid =
     bnd (sys UWait) (\<lambda>(wpid, _).
     if wpid \<ge> 0 \<and> wpid \<noteq> pid then andthen (printf sys 1 (''zombie!'' @ [CHR 0x0A]) []) (init_wait n sys pid) else ret ())"

fun init_loop :: "nat \<Rightarrow> 'w syscalls \<Rightarrow> ('w, unit) kop" where
  "init_loop 0 sys = spin"
| "init_loop (Suc k) sys =
     andthen (printf sys 1 (''init: starting sh'' @ [CHR 0x0A]) [])
     (bnd (sys UFork) (\<lambda>(pid, _).
     andthen (whenever (pid < 0) (andthen (printf sys 1 (''init: fork failed'' @ [CHR 0x0A]) []) (exit_call sys)))
     (andthen
       (whenever (pid = 0)
         (andthen (sys (UExec ''sh'' [''sh'']))
         (andthen (printf sys 1 (''init: exec sh failed'' @ [CHR 0x0A]) []) (exit_call sys))))
     (andthen (init_wait k sys pid) (init_loop k sys)))))"

definition init_main :: "nat \<Rightarrow> 'w syscalls \<Rightarrow> ('w, unit) kop" where
  "init_main k sys =
     bnd (sys (UOpen ''console'' 2)) (\<lambda>(fd, _).
     andthen (whenever (fd < 0) (andthen (sys (UMknod ''console'' 1 1)) (andthen (sys (UOpen ''console'' 2)) (ret ()))))
     (andthen (sys (UDup 0)) (andthen (sys (UDup 0)) (init_loop k sys))))"

definition zombie_main :: "'w syscalls \<Rightarrow> ('w, unit) kop" where
  "zombie_main sys =
     bnd (sys UFork) (\<lambda>(pid, _).
     andthen (whenever (pid > 0) (andthen (sys (USleep 5)) (ret ()))) (exit_call sys))"

definition ps_main :: "'w syscalls \<Rightarrow> ('w, unit) kop" where
  "ps_main sys = andthen (sys (USetPriority 3)) (andthen (sys UProcstat) (exit_call sys))"

section \<open>A scripted kernel\<close>

text \<open>A kernel for the programs that read and write: the results of the reads to come, and the writes made.\<close>

record script =
  sc_in :: "int \<Rightarrow> (int \<times> uchar list) list"
  sc_out :: "(int \<times> uchar list) list"

fun script_sys :: "script syscalls" where
  "script_sys (URead fd n) =
     bnd (gets sc_in) (\<lambda>f.
     case f fd of
       [] \<Rightarrow> asleep
     | r # rs \<Rightarrow> andthen (upd (\<lambda>s. s\<lparr>sc_in := (sc_in s)(fd := rs)\<rparr>)) (ret r))"
| "script_sys (UWrite fd bs) = andthen (upd (\<lambda>s. s\<lparr>sc_out := sc_out s @ [(fd, bs)]\<rparr>)) (ret (int (length bs), []))"
| "script_sys UExit = asleep"
| "script_sys _ = ret (0, [])"

text \<open>Reads that give the file \<open>concat bss\<close> piece by piece.\<close>

definition pieces :: "uchar list list \<Rightarrow> (int \<times> uchar list) list" where
  "pieces bss = map (\<lambda>bs. (int (length bs), bs)) bss @ [(0, [])]"

definition put_chars :: "int \<Rightarrow> string \<Rightarrow> (int \<times> uchar list) list" where
  "put_chars fd str = map (\<lambda>c. (fd, [of_char c])) str"

function words :: "uchar list \<Rightarrow> uchar list list" where
  "words bs =
     (case dropWhile wc_space bs of
        [] \<Rightarrow> []
      | c # cs \<Rightarrow> (c # takeWhile (\<lambda>b. \<not> wc_space b) cs) # words (dropWhile (\<lambda>b. \<not> wc_space b) cs))"
  by pat_completeness auto
termination
proof (relation "measure length")
  fix bs c cs assume "dropWhile wc_space bs = c # cs"
  then have "length (c # cs) \<le> length bs" by (metis length_dropWhile_le)
  moreover have "length (dropWhile (\<lambda>b. \<not> wc_space b) cs) \<le> length cs" by (rule length_dropWhile_le)
  ultimately show "(dropWhile (\<lambda>b. \<not> wc_space b) cs, bs) \<in> measure length" by simp
qed simp

declare words.simps [simp del]

lemma words_simps [simp]:
  "words [] = []" "wc_space c \<Longrightarrow> words (c # cs) = words cs"
  "\<not> wc_space c \<Longrightarrow> words (c # cs) = (c # takeWhile (\<lambda>b. \<not> wc_space b) cs) # words (dropWhile (\<lambda>b. \<not> wc_space b) cs)"
  by (simp_all add: words.simps [of "[]"] words.simps [of "c # cs"]) (simp add: words.simps [of cs])

text \<open>What \<open>wc_char\<close> does to the counters when they do not overflow: no counter is ahead of that of the bytes.\<close>

definition wc_step :: "counts \<Rightarrow> uchar \<Rightarrow> counts" where
  "wc_step k b = k\<lparr>wc_c := wc_c k + 1, wc_l := wc_l k + (if b = 0x0A then 1 else 0),
     wc_w := wc_w k + (if \<not> wc_space b \<and> \<not> wc_inword k then 1 else 0), wc_inword := (\<not> wc_space b)\<rparr>"

definition wc_ok :: "counts \<Rightarrow> bool" where
  "wc_ok k \<longleftrightarrow> wc_l k \<le> wc_c k \<and> wc_w k \<le> wc_c k \<and> wc_c k \<le> INT_MAX"

lemma wc_step_fields [simp]:
  "wc_c (wc_step k b) = wc_c k + 1" "wc_l (wc_step k b) = wc_l k + (if b = 0x0A then 1 else 0)"
  "wc_inword (wc_step k b) \<longleftrightarrow> \<not> wc_space b" "wc_w (wc_step k b) = wc_w k + (if \<not> wc_space b \<and> \<not> wc_inword k then 1 else 0)"
  by (simp_all add: wc_step_def)

lemma wc_char_eq:
  assumes "wc_ok k"
  shows "wc_char k b s = (if wc_c k < INT_MAX then Done (wc_step k b) s else Fault ''int overflow'')"
  using assms by (auto simp: wc_char_def plus1_def wc_ok_def wc_step_def kop_defs)

lemma wc_bytes_eq:
  assumes "wc_ok k"
  shows "wc_bytes k bs s = (if wc_c k + int (length bs) \<le> INT_MAX then Done (foldl wc_step k bs) s else Fault ''int overflow'')"
  using assms
proof (induction bs arbitrary: k)
  case Nil
  then show ?case by (simp add: ret_def wc_ok_def)
next
  case (Cons b bs)
  show ?case
  proof (cases "wc_c k < INT_MAX")
    case True
    then have "wc_ok (wc_step k b)" using Cons.prems by (auto simp: wc_ok_def)
    then show ?thesis using Cons.IH [of "wc_step k b"] wc_char_eq [OF Cons.prems, of b s] True by (simp add: bnd_def algebra_simps)
  next
    case False
    then show ?thesis using wc_char_eq [OF Cons.prems, of b s] by (simp add: bnd_def)
  qed
qed

lemma wc_count_c: "wc_c (foldl wc_step k bs) = wc_c k + int (length bs)"
  by (induction bs arbitrary: k) simp_all

lemma wc_count_l: "wc_l (foldl wc_step k bs) = wc_l k + int (count_list bs 0x0A)"
  by (induction bs arbitrary: k) simp_all

lemma wc_count_w:
  "wc_w (foldl wc_step k bs) = wc_w k + int (length (words (if wc_inword k then dropWhile (\<lambda>b. \<not> wc_space b) bs else bs)))"
proof (induction bs arbitrary: k)
  case (Cons b bs)
  show ?case using Cons [of "wc_step k b"] by (cases "wc_space b"; cases "wc_inword k") simp_all
qed simp

lemma wc_steps_ok: "wc_ok k \<Longrightarrow> wc_c k + int (length bs) \<le> INT_MAX \<Longrightarrow> wc_ok (foldl wc_step k bs)"
proof (induction bs arbitrary: k)
  case (Cons b bs)
  then show ?case using Cons.IH [of "wc_step k b"] by (simp add: wc_ok_def)
qed simp

lemma wp_put_chars:
  "wp (for_each str (putc script_sys fd)) Q s = Q () (s\<lparr>sc_out := sc_out s @ put_chars fd str\<rparr>)"
  by (induction str arbitrary: s) (simp_all add: wp_rules putc_def put_chars_def)

lemma wp_script_read:
  "sc_in s fd = r # rs \<Longrightarrow> wp (script_sys (URead fd n)) Q s = Q r (s\<lparr>sc_in := (sc_in s)(fd := rs)\<rparr>)"
  by (simp add: wp_rules)

lemma wc_loop_eq:
  assumes "sc_in s fd = pieces bss @ rest" and "[] \<notin> set bss" and "wc_ok k"
  shows "wc_loop (length bss + 1) script_sys fd k s =
    (if wc_c k + int (length (concat bss)) \<le> INT_MAX
     then Done (0, foldl wc_step k (concat bss)) (s\<lparr>sc_in := (sc_in s)(fd := rest)\<rparr>) else Fault ''int overflow'')"
  using assms
proof (induction bss arbitrary: s k)
  case Nil
  then show ?case by (simp add: pieces_def kop_defs fun_upd_def wc_ok_def)
next
  case (Cons bs bss)
  have in': "sc_in s fd = (int (length bs), bs) # pieces bss @ rest" and n: "0 < length bs" using Cons.prems by (auto simp: pieces_def)
  let ?t = "s\<lparr>sc_in := (sc_in s)(fd := pieces bss @ rest)\<rparr>"
  have "wc_loop (Suc m) script_sys fd k s = bnd (wc_bytes k bs) (wc_loop m script_sys fd) ?t" for m
    using in' n by (simp add: kop_defs)
  note step = this [of "length bss + 1"]
  have rest: "wc_loop (length bss + 1) script_sys fd (foldl wc_step k bs) ?t =
      (if wc_c (foldl wc_step k bs) + int (length (concat bss)) \<le> INT_MAX
       then Done (0, foldl wc_step (foldl wc_step k bs) (concat bss)) (?t\<lparr>sc_in := (sc_in ?t)(fd := rest)\<rparr>) else Fault ''int overflow'')"
    if "wc_c k + int (length bs) \<le> INT_MAX"
    by (rule Cons.IH) (use Cons.prems wc_steps_ok [OF _ that] in simp_all)
  show ?case
  proof (cases "wc_c k + int (length bs) \<le> INT_MAX")
    case True
    have "wc_loop (length (bs # bss) + 1) script_sys fd k s = wc_loop (length bss + 1) script_sys fd (foldl wc_step k bs) ?t"
      using step wc_bytes_eq [OF Cons.prems(3), of bs ?t] True by (simp add: bnd_def del: wc_loop.simps)
    moreover have "?t\<lparr>sc_in := (sc_in ?t)(fd := rest)\<rparr> = s\<lparr>sc_in := (sc_in s)(fd := rest)\<rparr>" by simp
    ultimately show ?thesis
      unfolding rest [OF True] by (simp only: wc_count_c concat.simps length_append of_nat_add foldl_append add.assoc)
  next
    case False
    have "wc_loop (length (bs # bss) + 1) script_sys fd k s = Fault ''int overflow''"
      using step wc_bytes_eq [OF Cons.prems(3), of bs ?t] False by (simp add: bnd_def del: wc_loop.simps)
    then show ?thesis using False by (simp del: wc_loop.simps)
  qed
qed

lemma small_sint: "0 \<le> n \<Longrightarrow> n \<le> INT_MAX \<Longrightarrow> sint (word_of_int n :: uint) = n"
  by (simp add: sint_uint32 uint_word_of_int INT_MAX_def)

lemma words_le: "int (length (words bs)) \<le> int (length bs)" "int (count_list bs 0x0A) \<le> int (length bs)"
proof -
  have "wc_w (foldl wc_step \<lparr>wc_l = 0, wc_w = 0, wc_c = 0, wc_inword = False\<rparr> bs) \<le> wc_c (foldl wc_step \<lparr>wc_l = 0, wc_w = 0, wc_c = 0, wc_inword = False\<rparr> bs)"
    by (induction bs rule: rev_induct) auto
  then show "int (length (words bs)) \<le> int (length bs)" by (simp add: wc_count_w wc_count_c)
  show "int (count_list bs 0x0A) \<le> int (length bs)" by (simp add: count_le_length)
qed

text \<open>
  C36. \<open>wc\<close> counts right whatever pieces its file arrives in: of a file that \<open>read\<close> returns in any sequence of non-empty pieces and then
  ends, \<open>wc\<close> prints the number of newlines, of words (maximal runs of characters that are not blank, carriage return, tab,
  newline or vertical tab, also across the ends of the pieces) and of bytes, and the name, and has read the file to its end, if the file
  has less than 2147483648 bytes; otherwise the \<open>int\<close> that counts the bytes overflows.
\<close>

theorem wc_prints_counts:
  assumes "sc_in s fd = pieces bss @ rest" and "[] \<notin> set bss"
  shows "wc (length bss + 1) script_sys fd name s =
    (if length (concat bss) < 2 ^ 31 then
       Done () (s\<lparr>sc_in := (sc_in s)(fd := rest), sc_out := sc_out s @ put_chars 1
        (uprintint_str (of_nat (count_list (concat bss) 0x0A)) 10 True @ '' '' @
         uprintint_str (of_nat (length (words (concat bss)))) 10 True @ '' '' @
         uprintint_str (of_nat (length (concat bss))) 10 True @ '' '' @ name @ [CHR 0x0A])\<rparr>)
     else Fault ''int overflow'')" (is "_ = (if _ then Done () ?t else _)")
proof -
  let ?k = "\<lparr>wc_l = 0, wc_w = 0, wc_c = 0, wc_inword = False\<rparr>" and ?n = "length (concat bss)"
  have "wc_ok ?k" by (simp add: wc_ok_def INT_MAX_def)
  note l = wc_loop_eq [OF assms this]
  have n: "int ?n \<le> INT_MAX \<longleftrightarrow> ?n < 2 ^ 31" by (simp add: INT_MAX_def) linarith
  show ?thesis
  proof (cases "?n < 2 ^ 31")
    case False
    then show ?thesis using l n by (simp add: wc_def bnd_def)
  next
    case True
    have m: "int ?n \<le> INT_MAX" using n True by blast
    have fits: "sint (of_nat j :: uint) \<noteq> - (2 ^ 31)" if "int j \<le> int ?n" for j
      using small_sint [of "int j"] that m by simp
    note f = fits [OF words_le(1)] fits [OF words_le(2)] fits [OF order_refl]
    have "wp (printf script_sys 1 (''%d %d %d %s'' @ [CHR 0x0A]) [ArgInt (of_nat (count_list (concat bss) 0x0A)),
        ArgInt (of_nat (length (words (concat bss)))), ArgInt (of_nat ?n), ArgStr (Some name)])
        (\<lambda>_ t. t = ?t) (s\<lparr>sc_in := (sc_in s)(fd := rest)\<rparr>)"
      using f by (simp add: wp_rules printf_def uprintint_def wp_put_chars putc_def) (simp add: put_chars_def)
    then show ?thesis
      using l m True by (auto simp: wc_def bnd_def andthen_def whenever_def ret_def wp_iff_Done wc_count_c wc_count_l wc_count_w)
  qed
qed

lemma wc_prints_counts_witness:
  "wc 3 script_sys 3 ''f'' \<lparr>sc_in = (\<lambda>_. [])(3 := [(3, [0x61, 0x20, 0x62]), (2, [0x63, 0x0A]), (0, [])]), sc_out = []\<rparr> =
     Done () \<lparr>sc_in = (\<lambda>_. []), sc_out = put_chars 1 (''1 2 5 f'' @ [CHR 0x0A])\<rparr>"
proof -
  let ?s = "\<lparr>sc_in = (\<lambda>_. [])(3 := [(3, [0x61, 0x20, 0x62]), (2, [0x63, 0x0A]), (0, [])]), sc_out = []\<rparr> :: script"
  have n: "uprintint_str 1 10 True = ''1''" "uprintint_str 2 10 True = ''2''" "uprintint_str 5 10 True = ''5''" by code_simp+
  have "length (words [0x61, 0x20, 0x62, 0x63, 0x0A]) = 2" by (simp add: wc_space_def)
  then show ?thesis
    using wc_prints_counts [of ?s 3 "[[0x61, 0x20, 0x62], [0x63, 0x0A]]" "[]" "''f''"] n
    by (simp add: pieces_def numeral_3_eq_3 fun_upd_def) (simp add: if_distrib cong: if_cong)
qed

end
