(* ===== verification/Sched.thy ===== *)
theory Sched
  imports Console_Out
begin

text \<open>
  The process table and the scheduler of proc.c: the multilevel feedback queues
  (\<open>encolar\<close>, \<open>desencolar\<close>, \<open>up\<close>, \<open>down\<close>), \<open>make_runnable\<close>, \<open>make_running\<close>, \<open>set_priority\<close>, \<open>sched\<close>,
  \<open>yield\<close>, \<open>sleep\<close>, \<open>wakeup\<close>, \<open>kill\<close>, the parts of \<open>fork\<close>, \<open>exit\<close> and \<open>wait\<close> that work on the
  table, and the loop of \<open>scheduler\<close>; with \<open>switchuvm\<close> and \<open>switchkvm\<close> of vm.c.

  A pointer to a process is its index in \<open>ptable.proc\<close>; the null pointer is \<open>None\<close>.
\<close>

section \<open>The process table\<close>

definition NPROC :: nat where
  "NPROC = 64"

definition NOFILE :: nat where
  "NOFILE = 16"

definition KSTACKSIZE :: uint where
  "KSTACKSIZE = 4096"

definition MLF_LEVELS :: nat where
  "MLF_LEVELS = 4"

definition MAX_QUANTUM :: int where
  "MAX_QUANTUM = 4"

datatype procstate = UNUSED | EMBRYO | SLEEPING | RUNNABLE | RUNNING | ZOMBIE

text \<open>A sleep channel is the address of the object waited for.\<close>

datatype chan = ProcChan nat | BufChan nat | InodeChan nat | LogChan | TicksChan
  | PipeReadChan uint | PipeWriteChan uint | InputChan

text \<open>\<open>struct trapframe\<close> (x86.h, without its padding) and \<open>struct context\<close> (proc.h).\<close>

record trapframe =
  tf_edi :: uint
  tf_esi :: uint
  tf_ebp :: uint
  tf_oesp :: uint
  tf_ebx :: uint
  tf_edx :: uint
  tf_ecx :: uint
  tf_eax :: uint
  tf_gs :: ushort
  tf_fs :: ushort
  tf_es :: ushort
  tf_ds :: ushort
  tf_trapno :: uint
  tf_err :: uint
  tf_eip :: uint
  tf_cs :: ushort
  tf_eflags :: uint
  tf_esp :: uint
  tf_ss :: ushort

record kcontext =
  ctx_edi :: uint
  ctx_esi :: uint
  ctx_ebx :: uint
  ctx_ebp :: uint
  ctx_eip :: uint

text \<open>
  \<open>struct proc\<close> (proc.h). \<open>p_tf\<close> and \<open>p_context\<close> are the contents of what the pointers point to on
  the kernel stack; \<open>p_ofile\<close> and \<open>p_cwd\<close> are indices into the file table and the inode cache.
  \<open>p_intena\<close> is the local variable \<open>intena\<close> of the process's activation of \<open>sched\<close>.
\<close>

record proc =
  p_sz :: uint
  p_pgdir :: uint
  p_kstack :: uint
  p_state :: procstate
  p_pid :: int
  p_parent :: "nat option"
  p_tf :: trapframe
  p_context :: kcontext
  p_chan :: "chan option"
  p_killed :: bool
  p_ofile :: "nat option list"
  p_cwd :: "nat option"
  p_name :: string
  p_quantum :: int
  p_next :: "nat option"
  p_current_level :: int
  p_intena :: bool

text \<open>\<open>struct queue\<close> and \<open>ptable\<close> (proc.c), with the globals of proc.c, trap.c and vm.c.\<close>

record queue =
  q_first :: "nat option"
  q_last :: "nat option"
  q_size :: int

record kproc = kcons +
  pt_proc :: "proc list"
  pt_mlf :: "queue list"
  pt_size :: int
  initproc :: "nat option"
  nextpid :: int
  ticks :: uint
  kpgdir :: uint

definition pget :: "nat \<Rightarrow> ('z kproc_scheme, proc) kop" where
  "pget p = bnd (gets pt_proc) (\<lambda>ps. if p < length ps then ret (ps ! p) else fault ''proc'')"

definition pset :: "nat \<Rightarrow> (proc \<Rightarrow> proc) \<Rightarrow> ('z kproc_scheme, unit) kop" where
  "pset p f = bnd (gets pt_proc) (\<lambda>ps.
     if p < length ps then upd (\<lambda>s. s\<lparr>pt_proc := (pt_proc s)[p := f (pt_proc s ! p)]\<rparr>)
     else fault ''proc'')"

text \<open>An index into \<open>ptable.mlf\<close> is an \<open>int\<close>: out of range it reaches other kernel data.\<close>

definition mlf_get :: "int \<Rightarrow> ('z kproc_scheme, queue) kop" where
  "mlf_get level = bnd (gets pt_mlf) (\<lambda>m.
     if 0 \<le> level \<and> nat level < length m then ret (m ! nat level) else fault ''mlf'')"

definition mlf_set :: "int \<Rightarrow> (queue \<Rightarrow> queue) \<Rightarrow> ('z kproc_scheme, unit) kop" where
  "mlf_set level f = bnd (gets pt_mlf) (\<lambda>m.
     if 0 \<le> level \<and> nat level < length m
     then upd (\<lambda>s. s\<lparr>pt_mlf := (pt_mlf s)[nat level := f (pt_mlf s ! nat level)]\<rparr>)
     else fault ''mlf'')"

text \<open>\<open>proc\<close>, the running process of this CPU.\<close>

definition curproc :: "('z kproc_scheme, nat option) kop" where
  "curproc = gets (\<lambda>s. c_proc (thecpu s))"

definition myproc :: "('z kproc_scheme, nat) kop" where
  "myproc = bnd curproc (deref ''proc'')"

section \<open>The multilevel feedback queues\<close>

definition sizeLevels :: "('z kproc_scheme, unit) kop" where
  "sizeLevels =
     bnd (mlf_get 0) (\<lambda>q0. bnd (mlf_get 1) (\<lambda>q1. bnd (mlf_get 2) (\<lambda>q2. bnd (mlf_get 3) (\<lambda>q3.
     whenever (q_size q0 \<noteq> 0 \<or> q_size q1 \<noteq> 0 \<or> q_size q2 \<noteq> 0 \<or> q_size q3 \<noteq> 0)
       (cprintf ''nivel 0 : [%d] ; nivel 1 : [%d] ; nivel 2 : [%d] ; nivel 3 : [%d]  \<newline>''
         [ArgInt (of_int (q_size q0)), ArgInt (of_int (q_size q1)),
          ArgInt (of_int (q_size q2)), ArgInt (of_int (q_size q3))])))))"

definition up :: "proc \<Rightarrow> int" where
  "up p = (if p_current_level p > 0 then p_current_level p - 1 else p_current_level p)"

definition down :: "proc \<Rightarrow> int" where
  "down p = (if p_current_level p < int MLF_LEVELS - 1 then p_current_level p + 1
     else p_current_level p)"

definition encolar :: "nat \<Rightarrow> int \<Rightarrow> ('z kproc_scheme, unit) kop" where
  "encolar p level =
     andthen (upd (\<lambda>s. s\<lparr>pt_size := pt_size s + 1\<rparr>))
     (bnd (mlf_get level) (\<lambda>q.
     if q_first q = None then
       andthen (mlf_set level (\<lambda>q. q\<lparr>q_last := Some p\<rparr>))
       (andthen (mlf_set level (\<lambda>q. q\<lparr>q_first := Some p\<rparr>))
       (andthen (mlf_set level (\<lambda>q. q\<lparr>q_size := q_size q + 1\<rparr>))
       (pset p (\<lambda>r. r\<lparr>p_current_level := level\<rparr>))))
     else
       bnd (deref ''last'' (q_last q)) (\<lambda>l.
       andthen (pset l (\<lambda>r. r\<lparr>p_next := Some p\<rparr>))
       (andthen (mlf_set level (\<lambda>q. q\<lparr>q_last := Some p\<rparr>))
       (andthen (mlf_set level (\<lambda>q. q\<lparr>q_size := q_size q + 1\<rparr>))
       (pset p (\<lambda>r. r\<lparr>p_current_level := level\<rparr>)))))))"

definition desencolar :: "nat \<Rightarrow> ('z kproc_scheme, unit) kop" where
  "desencolar p =
     andthen (upd (\<lambda>s. s\<lparr>pt_size := pt_size s - 1\<rparr>))
     (bnd (pget p) (\<lambda>r.
     bnd (mlf_get (p_current_level r)) (\<lambda>q.
     bnd (deref ''last'' (q_last q)) (\<lambda>l. bnd (pget l) (\<lambda>lp.
     bnd (deref ''first'' (q_first q)) (\<lambda>f. bnd (pget f) (\<lambda>fp.
     if p_pid lp = p_pid fp then
       andthen (mlf_set (p_current_level r) (\<lambda>q. q\<lparr>q_last := None\<rparr>))
       (andthen (mlf_set (p_current_level r) (\<lambda>q. q\<lparr>q_first := None\<rparr>))
       (mlf_set (p_current_level r) (\<lambda>q. q\<lparr>q_size := q_size q - 1\<rparr>)))
     else
       andthen (mlf_set (p_current_level r) (\<lambda>q. q\<lparr>q_first := p_next r\<rparr>))
       (mlf_set (p_current_level r) (\<lambda>q. q\<lparr>q_size := q_size q - 1\<rparr>)))))))))"

definition make_runnable :: "nat \<Rightarrow> int \<Rightarrow> ('z kproc_scheme, unit) kop" where
  "make_runnable p level = andthen (encolar p level) (pset p (\<lambda>r. r\<lparr>p_state := RUNNABLE\<rparr>))"

definition make_running :: "nat \<Rightarrow> ('z kproc_scheme, unit) kop" where
  "make_running p = andthen (desencolar p) (pset p (\<lambda>r. r\<lparr>p_state := RUNNING\<rparr>))"

definition set_priority :: "nat \<Rightarrow> int \<Rightarrow> ('z kproc_scheme, unit) kop" where
  "set_priority p param =
     andthen (pset p (\<lambda>r. r\<lparr>p_current_level := param\<rparr>))
     (bnd (pget p) (\<lambda>r. cprintf ''----> name proc set_priority: %s \<newline>'' [ArgStr (Some (p_name r))]))"

definition pinit :: "('z kproc_scheme, unit) kop" where
  "pinit = initlock PtableLock ''ptable''"

section \<open>Giving up and getting the CPU\<close>

text \<open>vm.c: the page table and the kernel stack of the process that is switched to.\<close>

definition V2P :: "uint \<Rightarrow> uint" where
  "V2P a = a - KERNBASE"

definition P2V :: "uint \<Rightarrow> uint" where
  "P2V a = a + KERNBASE"

definition switchkvm :: "('z kproc_scheme, unit) kop" where
  "switchkvm = upd (\<lambda>s. upd_cpu (\<lambda>c. c\<lparr>c_cr3 := V2P (kpgdir s)\<rparr>) s)"

definition switchuvm :: "nat \<Rightarrow> ('z kproc_scheme, unit) kop" where
  "switchuvm p =
     andthen pushcli
     (bnd myproc (\<lambda>me. bnd (pget me) (\<lambda>r.
     andthen (upd (upd_cpu (\<lambda>c. c\<lparr>c_esp0 := p_kstack r + KSTACKSIZE\<rparr>)))
     (bnd (pget p) (\<lambda>q.
     if p_pgdir q = 0 then panic ''switchuvm: no pgdir''
     else andthen (upd (upd_cpu (\<lambda>c. c\<lparr>c_cr3 := V2P (p_pgdir q)\<rparr>))) popcli)))))"

text \<open>
  \<open>sched\<close> up to the switch to the CPU's scheduler; \<open>sched_return\<close> is what it does when the
  process runs again, on whichever CPU.
\<close>

definition sched :: "('z kproc_scheme, 'a) kop" where
  "sched =
     bnd (gets (holding PtableLock)) (\<lambda>h.
     if \<not> h then panic ''sched ptable.lock''
     else bnd (gets thecpu) (\<lambda>c.
       if c_ncli c \<noteq> 1 then panic ''sched locks''
       else bnd myproc (\<lambda>me. bnd (pget me) (\<lambda>r.
         if p_state r = RUNNING then panic ''sched running''
         else if c_if c then panic ''sched interruptible''
         else andthen (pset me (\<lambda>r. r\<lparr>p_intena := c_intena c\<rparr>)) asleep))))"

definition sched_return :: "('z kproc_scheme, unit) kop" where
  "sched_return = bnd myproc (\<lambda>me. bnd (pget me) (\<lambda>r.
     upd (upd_cpu (\<lambda>c. c\<lparr>c_intena := p_intena r\<rparr>))))"

definition yield :: "('z kproc_scheme, 'a) kop" where
  "yield =
     andthen (acquire PtableLock)
     (bnd myproc (\<lambda>me. bnd (pget me) (\<lambda>r.
     andthen (make_runnable me (down r))
     sched)))"

definition yield_return :: "('z kproc_scheme, unit) kop" where
  "yield_return = andthen sched_return (release PtableLock)"

text \<open>
  \<open>sleep\<close> up to the switch, and \<open>sleep_return\<close> when the process has been woken and runs again.
  \<open>lk\<close> is \<open>None\<close> for the null pointer.
\<close>

definition sleep :: "chan \<Rightarrow> lockid option \<Rightarrow> ('z kproc_scheme, 'a) kop" where
  "sleep ch lk =
     bnd curproc (\<lambda>cur.
     case cur of None \<Rightarrow> panic ''sleep''
     | Some me \<Rightarrow>
       (case lk of None \<Rightarrow> panic ''sleep without lk''
        | Some l \<Rightarrow>
          andthen (whenever (l \<noteq> PtableLock) (andthen (acquire PtableLock) (release l)))
          (andthen (pset me (\<lambda>r. r\<lparr>p_chan := Some ch\<rparr>))
          (andthen (pset me (\<lambda>r. r\<lparr>p_state := SLEEPING\<rparr>))
          sched))))"

definition sleep_return :: "lockid \<Rightarrow> ('z kproc_scheme, unit) kop" where
  "sleep_return l =
     andthen sched_return
     (bnd myproc (\<lambda>me.
     andthen (pset me (\<lambda>r. r\<lparr>p_chan := None\<rparr>))
     (whenever (l \<noteq> PtableLock) (andthen (release PtableLock) (acquire l)))))"

definition wakeup1 :: "chan option \<Rightarrow> ('z kproc_scheme, unit) kop" where
  "wakeup1 ch = for_each [0..<NPROC] (\<lambda>p. bnd (pget p) (\<lambda>r.
     whenever (p_state r = SLEEPING \<and> p_chan r = ch) (make_runnable p (up r))))"

definition wakeup :: "chan \<Rightarrow> ('z kproc_scheme, unit) kop" where
  "wakeup ch = andthen (acquire PtableLock) (andthen (wakeup1 (Some ch)) (release PtableLock))"

text \<open>The loop of \<open>kill\<close> stops at the first slot with the given pid, whatever its state.\<close>

fun kill_loop :: "int \<Rightarrow> nat list \<Rightarrow> ('z kproc_scheme, int) kop" where
  "kill_loop pid [] = andthen (release PtableLock) (ret (- 1))"
| "kill_loop pid (p # ps) = bnd (pget p) (\<lambda>r.
     if p_pid r = pid then
       andthen (pset p (\<lambda>r. r\<lparr>p_killed := True\<rparr>))
       (andthen (whenever (p_state r = SLEEPING)
          (andthen (cprintf ''El proceso %s pasa a RUNNABLE por KILL \<newline>'' [ArgStr (Some (p_name r))])
            (make_runnable p (p_current_level r))))
       (andthen (release PtableLock) (ret 0)))
     else kill_loop pid ps)"

definition kill :: "int \<Rightarrow> ('z kproc_scheme, int) kop" where
  "kill pid = andthen (acquire PtableLock) (kill_loop pid [0..<NPROC])"

section \<open>The table's part of creating and ending processes\<close>

text \<open>\<open>allocproc\<close> up to the kernel stack: the first unused slot becomes an embryo with a new pid.
  \<open>nextpid\<close> is an \<open>int\<close>.\<close>

fun find_unused :: "nat list \<Rightarrow> ('z kproc_scheme, nat option) kop" where
  "find_unused [] = ret None"
| "find_unused (p # ps) = bnd (pget p) (\<lambda>r. if p_state r = UNUSED then ret (Some p) else find_unused ps)"

definition alloc_slot :: "('z kproc_scheme, nat option) kop" where
  "alloc_slot =
     andthen (acquire PtableLock)
     (bnd (find_unused [0..<NPROC]) (\<lambda>f.
     case f of None \<Rightarrow> andthen (release PtableLock) (ret None)
     | Some p \<Rightarrow>
       andthen (pset p (\<lambda>r. r\<lparr>p_state := EMBRYO\<rparr>))
       (bnd (gets nextpid) (\<lambda>n.
       if n \<ge> INT_MAX then fault ''nextpid overflow''
       else
         andthen (pset p (\<lambda>r. r\<lparr>p_pid := n\<rparr>))
         (andthen (upd (\<lambda>s. s\<lparr>nextpid := n + 1\<rparr>))
         (andthen (release PtableLock) (ret (Some p))))))))"

text \<open>The end of \<open>fork\<close> and of \<open>userinit\<close>: the new process enters the first queue.\<close>

definition publish :: "nat \<Rightarrow> ('z kproc_scheme, unit) kop" where
  "publish p = andthen (acquire PtableLock) (andthen (make_runnable p 0) (release PtableLock))"

text \<open>\<open>exit\<close> from \<open>acquire\<close> on: the parent is woken, the children go to \<open>initproc\<close>, and the process
  is a zombie that never runs again.\<close>

definition reparent :: "nat \<Rightarrow> nat option \<Rightarrow> ('z kproc_scheme, unit) kop" where
  "reparent me ini = for_each [0..<NPROC] (\<lambda>p. bnd (pget p) (\<lambda>r.
     whenever (p_parent r = Some me)
       (andthen (pset p (\<lambda>r. r\<lparr>p_parent := ini\<rparr>))
       (whenever (p_state r = ZOMBIE) (wakeup1 (map_option ProcChan ini))))))"

definition exit_table :: "('z kproc_scheme, 'a) kop" where
  "exit_table =
     andthen (acquire PtableLock)
     (bnd myproc (\<lambda>me. bnd (pget me) (\<lambda>r.
     andthen (wakeup1 (map_option ProcChan (p_parent r)))
     (bnd (gets initproc) (\<lambda>ini.
     andthen (reparent me ini)
     (andthen (pset me (\<lambda>r. r\<lparr>p_state := ZOMBIE\<rparr>))
     (andthen (sched :: ('z kproc_scheme, unit) kop) (panic ''zombie exit''))))))))"

text \<open>\<open>wait\<close>, on the zombie child it found, after its memory is freed.\<close>

definition reap_slot :: "nat \<Rightarrow> ('z kproc_scheme, unit) kop" where
  "reap_slot p = pset p (\<lambda>r. r\<lparr>p_state := UNUSED, p_pid := 0, p_parent := None,
     p_name := [], p_killed := False\<rparr>)"

section \<open>The loop of \<open>scheduler\<close>\<close>

text \<open>
  The body of the endless loop in the pieces between which the CPU runs other code:
  \<open>scheduler_top\<close> up to the inner loop; \<open>scheduler_pick\<close> the inner loop's body up to the switch,
  with the process switched to; \<open>scheduler_back\<close> after the switch; \<open>scheduler_advance\<close> the step to
  the next level; \<open>scheduler_out\<close> after the inner loop.
\<close>

definition scheduler_top :: "('z kproc_scheme, unit) kop" where
  "scheduler_top =
     andthen (upd (upd_cpu (\<lambda>c. c\<lparr>c_indice := 0\<rparr>)))
     (andthen sti (acquire PtableLock))"

definition scheduler_pick :: "('z kproc_scheme, nat option) kop" where
  "scheduler_pick =
     bnd (gets (\<lambda>s. c_indice (thecpu s))) (\<lambda>i.
     bnd (mlf_get (int i)) (\<lambda>q.
     case q_first q of None \<Rightarrow> ret None
     | Some p \<Rightarrow>
       bnd (pget p) (\<lambda>r.
       if p_state r \<noteq> RUNNABLE then panic ''This proces is not RUNNABLE''
       else
         andthen (upd (upd_cpu (\<lambda>c. c\<lparr>c_proc := Some p\<rparr>)))
         (andthen (switchuvm p)
         (andthen (make_running p)
         (andthen (pset p (\<lambda>r. r\<lparr>p_quantum := 0\<rparr>))
         (ret (Some p))))))))"

definition scheduler_back :: "('z kproc_scheme, unit) kop" where
  "scheduler_back = andthen switchkvm (upd (upd_cpu (\<lambda>c. c\<lparr>c_proc := None\<rparr>)))"

definition scheduler_advance :: "('z kproc_scheme, unit) kop" where
  "scheduler_advance =
     bnd (gets (\<lambda>s. c_indice (thecpu s))) (\<lambda>i.
     bnd (mlf_get (int i)) (\<lambda>q.
     whenever (q_first q = None) (upd (upd_cpu (\<lambda>c. c\<lparr>c_indice := i + 1\<rparr>)))))"

definition scheduler_out :: "('z kproc_scheme, unit) kop" where
  "scheduler_out = release PtableLock"

section \<open>The queues as lists\<close>

text \<open>
  \<open>qrep nx q xs\<close>: following \<open>nx\<close> from \<open>q_first\<close> to \<open>q_last\<close> visits exactly \<open>xs\<close>. Nothing is said of
  where the last process's \<open>p_next\<close> points: \<open>encolar\<close> never resets it.
\<close>

fun chain :: "(nat \<Rightarrow> nat option) \<Rightarrow> nat list \<Rightarrow> bool" where
  "chain nx (x # y # zs) \<longleftrightarrow> nx x = Some y \<and> chain nx (y # zs)"
| "chain nx _ \<longleftrightarrow> True"

definition qrep :: "(nat \<Rightarrow> nat option) \<Rightarrow> queue \<Rightarrow> nat list \<Rightarrow> bool" where
  "qrep nx q xs \<longleftrightarrow> q_size q = int (length xs) \<and>
     q_first q = (if xs = [] then None else Some (hd xs)) \<and>
     q_last q = (if xs = [] then None else Some (last xs)) \<and> chain nx xs"

lemma chain_cong: "(\<And>x. x \<in> set (butlast xs) \<Longrightarrow> f x = g x) \<Longrightarrow> chain f xs = chain g xs"
  by (induction f xs rule: chain.induct) auto

lemma chain_snoc:
  "chain nx xs \<Longrightarrow> xs \<noteq> [] \<Longrightarrow> nx (last xs) = Some p \<Longrightarrow> chain nx (xs @ [p])"
  by (induction nx xs rule: chain.induct) auto

lemma chain_tl: "chain nx xs \<Longrightarrow> chain nx (tl xs)"
  by (cases "(nx, xs)" rule: chain.cases) auto

lemma chain_second: "chain nx (x # xs) \<Longrightarrow> xs \<noteq> [] \<Longrightarrow> nx x = Some (hd xs)"
  by (cases xs) auto

text \<open>The effect of \<open>encolar\<close> and \<open>desencolar\<close> on the table.\<close>

definition link :: "nat list \<Rightarrow> nat \<Rightarrow> proc list \<Rightarrow> proc list" where
  "link xs p ps = (if xs = [] then ps else ps[last xs := (ps ! last xs)\<lparr>p_next := Some p\<rparr>])"

abbreviation nexts :: "proc list \<Rightarrow> nat \<Rightarrow> nat option" where
  "nexts ps p \<equiv> p_next (ps ! p)"

lemma wp_pget: "p < length (pt_proc s) \<Longrightarrow> wp (pget p) Q s = Q (pt_proc s ! p) s"
  by (simp add: pget_def wp_rules)

lemma wp_pset:
  "p < length (pt_proc s) \<Longrightarrow>
     wp (pset p f) Q s = Q () (s\<lparr>pt_proc := (pt_proc s)[p := f (pt_proc s ! p)]\<rparr>)"
  by (simp add: pset_def wp_rules)

lemma wp_mlf_get:
  "l < length (pt_mlf s) \<Longrightarrow> wp (mlf_get (int l)) Q s = Q (pt_mlf s ! l) s"
  by (simp add: mlf_get_def wp_rules)

lemma wp_mlf_set:
  "l < length (pt_mlf s) \<Longrightarrow>
     wp (mlf_set (int l) f) Q s = Q () (s\<lparr>pt_mlf := (pt_mlf s)[l := f (pt_mlf s ! l)]\<rparr>)"
  by (simp add: mlf_set_def wp_rules)

lemmas wp_table = wp_pget wp_pset wp_mlf_get wp_mlf_set

lemma wp_encolar:
  assumes "qrep nx (pt_mlf s ! l) xs" and "l < length (pt_mlf s)" and "p < length (pt_proc s)"
    and "xs \<noteq> [] \<Longrightarrow> last xs < length (pt_proc s) \<and> last xs \<noteq> p"
  shows "wp (encolar p (int l)) R s =
    R () (s\<lparr>pt_size := pt_size s + 1,
       pt_mlf := (pt_mlf s)[l := \<lparr>q_first = Some (hd (xs @ [p])), q_last = Some p,
         q_size = int (length xs) + 1\<rparr>],
       pt_proc := (link xs p (pt_proc s))[p := (pt_proc s ! p)\<lparr>p_current_level := int l\<rparr>]\<rparr>)"
proof (cases "pt_mlf s ! l")
  case (fields f la n)
  then show ?thesis
    using assms by (cases "xs = []") (simp_all add: encolar_def wp_rules wp_table qrep_def link_def)
qed

text \<open>\<open>desencolar\<close> takes the first process off its queue; it compares pids to tell whether the queue
  has one process.\<close>

lemma wp_desencolar:
  assumes "qrep (nexts (pt_proc s)) (pt_mlf s ! l) (p # xs)" and "l < length (pt_mlf s)"
    and "p_current_level (pt_proc s ! p) = int l" and "p < length (pt_proc s)"
    and "last (p # xs) < length (pt_proc s)"
    and "p_pid (pt_proc s ! last (p # xs)) = p_pid (pt_proc s ! p) \<longleftrightarrow> xs = []"
  shows "wp (desencolar p) R s =
    R () (s\<lparr>pt_size := pt_size s - 1,
       pt_mlf := (pt_mlf s)[l := \<lparr>q_first = (if xs = [] then None else Some (hd xs)),
         q_last = (if xs = [] then None else Some (last xs)), q_size = int (length xs)\<rparr>]\<rparr>)"
proof (cases "pt_mlf s ! l")
  case (fields f la n)
  then show ?thesis
    using assms chain_second [of "nexts (pt_proc s)" p xs]
    by (cases "xs = []") (simp_all add: desencolar_def wp_rules wp_table qrep_def)
qed

section \<open>The invariant of the process table\<close>

text \<open>
  \<open>mlf_inv\<close>: the lists \<open>Q\<close> are what the queues hold; each process is in at most one queue, once;
  the processes queued at a level are runnable and record that level; every runnable process is
  queued; the counters count.
\<close>

definition mlf_inv :: "proc list \<Rightarrow> queue list \<Rightarrow> int \<Rightarrow> nat list list \<Rightarrow> bool" where
  "mlf_inv ps m sz Q \<longleftrightarrow>
     length ps = NPROC \<and> length m = MLF_LEVELS \<and> length Q = MLF_LEVELS \<and>
     (\<forall>l < MLF_LEVELS. qrep (nexts ps) (m ! l) (Q ! l)) \<and> distinct (concat Q) \<and>
     (\<forall>l < MLF_LEVELS. \<forall>p \<in> set (Q ! l).
        p < NPROC \<and> p_state (ps ! p) = RUNNABLE \<and> p_current_level (ps ! p) = int l) \<and>
     (\<forall>p < NPROC. p_state (ps ! p) = RUNNABLE \<longrightarrow> p \<in> set (concat Q)) \<and>
     sz = int (length (concat Q))"

lemma mlf_invD:
  assumes "mlf_inv ps m sz Q"
  shows "length ps = NPROC" and "length m = MLF_LEVELS" and "length Q = MLF_LEVELS"
    and "l < MLF_LEVELS \<Longrightarrow> qrep (nexts ps) (m ! l) (Q ! l)" and "distinct (concat Q)"
    and "l < MLF_LEVELS \<Longrightarrow> p \<in> set (Q ! l) \<Longrightarrow>
      p < NPROC \<and> p_state (ps ! p) = RUNNABLE \<and> p_current_level (ps ! p) = int l"
    and "p < NPROC \<Longrightarrow> p_state (ps ! p) = RUNNABLE \<Longrightarrow> p \<in> set (concat Q)"
    and "sz = int (length (concat Q))"
  using assms by (simp_all add: mlf_inv_def)

lemma concat_nth: "l < length Q \<Longrightarrow> concat Q = concat (take l Q) @ Q ! l @ concat (drop (Suc l) Q)"
  by (metis concat.simps(2) concat_append id_take_nth_drop)

lemma concat_update:
  "l < length Q \<Longrightarrow> concat (Q[l := xs]) = concat (take l Q) @ xs @ concat (drop (Suc l) Q)"
  by (simp add: upd_conv_take_nth_drop)

lemma mlf_inv_not_queued:
  assumes "mlf_inv ps m sz Q" and "p_state (ps ! p) \<noteq> RUNNABLE"
  shows "p \<notin> set (concat Q)" and "l < MLF_LEVELS \<Longrightarrow> p \<notin> set (Q ! l)"
  using assms mlf_invD(3,6) [OF assms(1)] by (auto simp: in_set_conv_nth [of _ Q])

lemma mlf_inv_distinct: "mlf_inv ps m sz Q \<Longrightarrow> l < MLF_LEVELS \<Longrightarrow> distinct (Q ! l)"
  using concat_nth [of l Q] by (auto simp: mlf_inv_def)

lemma mlf_inv_level:
  "mlf_inv ps m sz Q \<Longrightarrow> l < MLF_LEVELS \<Longrightarrow> k < MLF_LEVELS \<Longrightarrow> p \<in> set (Q ! l) \<Longrightarrow> p \<in> set (Q ! k) \<Longrightarrow> l = k"
  using mlf_invD(6) [of ps m sz Q l p] mlf_invD(6) [of ps m sz Q k p] by auto

lemma nth_link:
  "xs \<noteq> [] \<Longrightarrow> last xs < length ps \<Longrightarrow>
     link xs p ps ! r = (if r = last xs then (ps ! r)\<lparr>p_next := Some p\<rparr> else ps ! r)"
  by (simp add: link_def)

lemma length_link [simp]: "length (link xs p ps) = length ps"
  by (simp add: link_def)

lemma link_field:
  assumes "\<And>q v. fld (q\<lparr>p_next := v\<rparr>) = fld q"
  shows "fld (link xs p ps ! r) = fld (ps ! r)"
  using assms by (cases "last xs < length ps") (auto simp: link_def list_update_beyond)

text \<open>Appending a process that is not runnable to the queue of a level.\<close>

lemma mlf_inv_enqueue:
  assumes inv: "mlf_inv ps m sz Q" and l: "l < MLF_LEVELS" and p: "p < NPROC"
    and st: "p_state (ps ! p) \<noteq> RUNNABLE"
    and r: "p_next r = p_next (ps ! p)" "p_state r = RUNNABLE" "p_current_level r = int l"
  shows "mlf_inv ((link (Q ! l) p ps)[p := r])
    (m[l := \<lparr>q_first = Some (hd (Q ! l @ [p])), q_last = Some p, q_size = int (length (Q ! l)) + 1\<rparr>])
    (sz + 1) (Q[l := Q ! l @ [p]])"
proof -
  let ?ps = "(link (Q ! l) p ps)[p := r]"
  note D = mlf_invD [OF inv]
  have np: "p \<notin> set (concat Q)" "\<And>k. k < MLF_LEVELS \<Longrightarrow> p \<notin> set (Q ! k)"
    using mlf_inv_not_queued [OF inv st] by blast+
  have lQ: "l < length Q" and lenp: "p < length ps" using l p D by auto
  have nx: "nexts ?ps x = (if Q ! l \<noteq> [] \<and> x = last (Q ! l) then Some p else nexts ps x)" for x
  proof (cases "Q ! l = []")
    case True
    then show ?thesis using lenp r by (simp add: link_def)
  next
    case False
    then have "last (Q ! l) \<in> set (Q ! l)" by simp
    then have "last (Q ! l) < length ps" "last (Q ! l) \<noteq> p" using D(1) D(6) [OF l] np l by auto
    then show ?thesis using False lenp r by (auto simp: nth_link)
  qed
  have fld: "p_state (?ps ! x) = (if x = p then RUNNABLE else p_state (ps ! x))"
    "p_current_level (?ps ! x) = (if x = p then int l else p_current_level (ps ! x))" for x
    using lenp r by (auto simp: link_field)
  have q: "qrep (nexts ?ps) ((m[l := \<lparr>q_first = Some (hd (Q ! l @ [p])), q_last = Some p,
      q_size = int (length (Q ! l)) + 1\<rparr>]) ! k) ((Q[l := Q ! l @ [p]]) ! k)" if k: "k < MLF_LEVELS" for k
  proof (cases "k = l")
    case True
    have "chain (nexts ?ps) (Q ! l) = chain (nexts ps) (Q ! l)"
    proof (rule chain_cong)
      fix x
      assume x: "x \<in> set (butlast (Q ! l))"
      then have "Q ! l = butlast (Q ! l) @ [last (Q ! l)]" by (cases "Q ! l") auto
      then have "x \<noteq> last (Q ! l)"
        using mlf_inv_distinct [OF inv l] x by (metis distinct_append disjoint_iff list.set_intros(1))
      then show "nexts ?ps x = nexts ps x" by (simp add: nx)
    qed
    then have "chain (nexts ?ps) (Q ! l @ [p])"
      using D(4) [OF l] by (cases "Q ! l = []") (auto simp: qrep_def nx intro!: chain_snoc)
    then show ?thesis using True l D by (auto simp: qrep_def)
  next
    case False
    have "chain (nexts ?ps) (Q ! k) = chain (nexts ps) (Q ! k)"
    proof (rule chain_cong)
      fix x
      assume "x \<in> set (butlast (Q ! k))"
      then have "x \<in> set (Q ! k)" by (rule in_set_butlastD)
      then have "\<not> (Q ! l \<noteq> [] \<and> x = last (Q ! l))"
        using mlf_inv_level [OF inv k l] False last_in_set [of "Q ! l"] by blast
      then show "nexts ?ps x = nexts ps x" by (simp only: nx if_False)
    qed
    then show ?thesis using False D(4) [OF k] k D by (simp add: qrep_def)
  qed
  have c: "set (concat (Q[l := Q ! l @ [p]])) = insert p (set (concat Q))"
    "distinct (concat (Q[l := Q ! l @ [p]]))"
    "length (concat (Q[l := Q ! l @ [p]])) = Suc (length (concat Q))"
    using concat_nth [OF lQ] concat_update [OF lQ] D(5) np(1) by auto
  show ?thesis
    unfolding mlf_inv_def
  proof (intro conjI allI impI ballI)
    show "length ?ps = NPROC" using D by simp
    show "x \<in> set (concat (Q[l := Q ! l @ [p]]))" if "x < NPROC" "p_state (?ps ! x) = RUNNABLE" for x
      using that D(7) [of x] c(1) fld(1) [of x] by (auto split: if_splits)
    fix k x
    assume k: "k < MLF_LEVELS" and x: "x \<in> set ((Q[l := Q ! l @ [p]]) ! k)"
    have x': "x = p \<and> k = l \<or> x \<noteq> p \<and> x \<in> set (Q ! k)"
      using k x lQ np(2) [OF k] by (cases "k = l") auto
    then show "x < NPROC" using D(6) [OF k] p by blast
    show "p_state (?ps ! x) = RUNNABLE" using x' D(6) [OF k] fld by auto
    show "p_current_level (?ps ! x) = int k" using x' D(6) [OF k] fld by auto
  qed (use D q c in auto)
qed

text \<open>Taking the first process off the queue of a level; its state is no longer \<open>RUNNABLE\<close>.\<close>

lemma mlf_inv_dequeue:
  assumes inv: "mlf_inv ps m sz Q" and l: "l < MLF_LEVELS" and Ql: "Q ! l = p # xs"
    and r: "p_next r = p_next (ps ! p)" "p_state r \<noteq> RUNNABLE"
  shows "mlf_inv (ps[p := r])
    (m[l := \<lparr>q_first = (if xs = [] then None else Some (hd xs)),
       q_last = (if xs = [] then None else Some (last xs)), q_size = int (length xs)\<rparr>])
    (sz - 1) (Q[l := xs])"
proof -
  let ?ps = "ps[p := r]"
  note D = mlf_invD [OF inv]
  have p: "p < NPROC" "p < length ps" using D(1) D(6) [OF l, of p] Ql by auto
  have lQ: "l < length Q" using l D by simp
  have nx: "nexts ?ps = nexts ps" using p r by auto
  have c: "set (concat Q) = insert p (set (concat (Q[l := xs])))"
    "distinct (concat (Q[l := xs]))" "p \<notin> set (concat (Q[l := xs]))"
    "length (concat Q) = Suc (length (concat (Q[l := xs])))"
    using concat_nth [OF lQ] concat_update [OF lQ, of xs] D(5) Ql by auto
  have q: "qrep (nexts ?ps) ((m[l := \<lparr>q_first = (if xs = [] then None else Some (hd xs)),
      q_last = (if xs = [] then None else Some (last xs)), q_size = int (length xs)\<rparr>]) ! k)
      ((Q[l := xs]) ! k)" if k: "k < MLF_LEVELS" for k
    using D(4) [OF k] D(2,3) k l chain_tl [of "nexts ps" "p # xs"] Ql unfolding nx
    by (cases "k = l") (auto simp: qrep_def)
  have sub: "x \<in> set ((Q[l := xs]) ! k) \<Longrightarrow> x \<in> set (Q ! k) \<and> x \<noteq> p" if "k < MLF_LEVELS" for k x
    using that lQ Ql mlf_inv_distinct [OF inv l] mlf_inv_level [OF inv that l, of p] D(3)
    by (cases "k = l") auto
  show ?thesis
    unfolding mlf_inv_def
  proof (intro conjI allI impI ballI)
    show "x \<in> set (concat (Q[l := xs]))" if "x < NPROC" "p_state (?ps ! x) = RUNNABLE" for x
      using that D(7) [of x] c(1) r p by (auto split: if_splits)
    fix k x
    assume k: "k < MLF_LEVELS" and x: "x \<in> set ((Q[l := xs]) ! k)"
    note x' = sub [OF k x]
    show "x < NPROC" using D(6) [OF k] x' by blast
    show "p_state (?ps ! x) = RUNNABLE" using x' D(6) [OF k] by auto
    show "p_current_level (?ps ! x) = int k" using x' D(6) [OF k] by auto
  qed (use D q c in auto)
qed

text \<open>A process that is not queued and does not become runnable may change in any other way.\<close>

lemma mlf_inv_other:
  assumes inv: "mlf_inv ps m sz Q" and st: "p_state (ps ! p) \<noteq> RUNNABLE" "p_state r \<noteq> RUNNABLE"
    and p: "p < NPROC"
  shows "mlf_inv (ps[p := r]) m sz Q"
proof -
  note D = mlf_invD [OF inv]
  have np: "l < MLF_LEVELS \<Longrightarrow> p \<notin> set (Q ! l)" for l
    using mlf_inv_not_queued [OF inv st(1)] by blast
  have q: "qrep (nexts (ps[p := r])) (m ! l) (Q ! l)" if l: "l < MLF_LEVELS" for l
  proof -
    have "chain (nexts (ps[p := r])) (Q ! l) = chain (nexts ps) (Q ! l)"
    proof (rule chain_cong)
      fix x
      assume "x \<in> set (butlast (Q ! l))"
      then have "p \<noteq> x" using np [OF l] in_set_butlastD by fast
      then show "nexts (ps[p := r]) x = nexts ps x" by simp
    qed
    then show ?thesis using D(4) [OF l] by (simp add: qrep_def)
  qed
  show ?thesis
    unfolding mlf_inv_def
  proof (intro conjI allI impI ballI)
    fix l x
    assume l: "l < MLF_LEVELS" and x: "x \<in> set (Q ! l)"
    then have "x \<noteq> p" using np by blast
    then show "p_state (ps[p := r] ! x) = RUNNABLE" "p_current_level (ps[p := r] ! x) = int l"
      using D(6) [OF l x] by auto
    show "x < NPROC" using D(6) [OF l x] by blast
  next
    fix x
    assume "x < NPROC" "p_state (ps[p := r] ! x) = RUNNABLE"
    then show "x \<in> set (concat Q)" using D(7) [of x] st(2) p D(1) by (cases "x = p") auto
  qed (use D q in auto)
qed

text \<open>A change of fields the queues do not use.\<close>

lemma mlf_inv_same:
  assumes inv: "mlf_inv ps m sz Q" and p: "p < NPROC"
    and r: "p_next r = p_next (ps ! p)" "p_state r = p_state (ps ! p)"
      "p_current_level r = p_current_level (ps ! p)"
  shows "mlf_inv (ps[p := r]) m sz Q"
proof -
  have "length ps = NPROC" using mlf_invD(1) [OF inv] .
  then have "nexts (ps[p := r]) = nexts ps" "p_state (ps[p := r] ! x) = p_state (ps ! x)"
    "p_current_level (ps[p := r] ! x) = p_current_level (ps ! x)" for x
    using p r by auto
  then show ?thesis using inv unfolding mlf_inv_def by simp
qed

end
