(* ===== verification/Sched_Inv.thy ===== *)
theory Sched_Inv
  imports Sched
begin

text \<open>
  What the operations on the process table keep and do. \<open>table_inv s Q\<close> is the invariant, with the
  contents \<open>Q\<close> of the four queues; each operation's rule says how \<open>Q\<close> and the processes change.
\<close>

section \<open>The table invariant\<close>

text \<open>Levels are in range; live processes have different pids, all below \<open>nextpid\<close>, which is an \<open>int\<close>.\<close>

definition levels_ok :: "proc list \<Rightarrow> bool" where
  "levels_ok ps \<longleftrightarrow> (\<forall>p < NPROC. 0 \<le> p_current_level (ps ! p) \<and> p_current_level (ps ! p) < int MLF_LEVELS)"

definition pids_ok :: "proc list \<Rightarrow> int \<Rightarrow> bool" where
  "pids_ok ps n \<longleftrightarrow> 0 < n \<and> n \<le> INT_MAX \<and> (\<forall>p < NPROC. p_state (ps ! p) \<noteq> UNUSED \<longrightarrow> 0 < p_pid (ps ! p) \<and> p_pid (ps ! p) < n) \<and>
     (\<forall>p < NPROC. \<forall>q < NPROC. p_state (ps ! p) \<noteq> UNUSED \<longrightarrow> p_state (ps ! q) \<noteq> UNUSED \<longrightarrow>
        p_pid (ps ! p) = p_pid (ps ! q) \<longrightarrow> p = q)"

definition table_inv :: "'z kproc_scheme \<Rightarrow> nat list list \<Rightarrow> bool" where
  "table_inv s Q \<longleftrightarrow> mlf_inv (pt_proc s) (pt_mlf s) (pt_size s) Q \<and> levels_ok (pt_proc s) \<and>
     pids_ok (pt_proc s) (nextpid s)"

lemma table_invD:
  assumes "table_inv s Q"
  shows "mlf_inv (pt_proc s) (pt_mlf s) (pt_size s) Q" and "levels_ok (pt_proc s)"
    and "pids_ok (pt_proc s) (nextpid s)" and "length (pt_proc s) = NPROC"
    and "length (pt_mlf s) = MLF_LEVELS"
  using assms mlf_invD(1,2) by (auto simp: table_inv_def)

lemma table_inv_frame [simp]:
  "table_inv (s\<lparr>cpus := cs\<rparr>) Q = table_inv s Q" "table_inv (s\<lparr>spinlocks := ks\<rparr>) Q = table_inv s Q"
  "table_inv (s\<lparr>serial := x\<rparr>) Q = table_inv s Q" "table_inv (s\<lparr>crt := m\<rparr>) Q = table_inv s Q"
  "table_inv (s\<lparr>crtpos := n\<rparr>) Q = table_inv s Q" "table_inv (s\<lparr>mycpu := c\<rparr>) Q = table_inv s Q"
  "table_inv (s\<lparr>ticks := t\<rparr>) Q = table_inv s Q"
  by (simp_all add: table_inv_def)

lemma lks_table [simp]:
  "lks H (s\<lparr>pt_proc := ps\<rparr>) = lks H s" "lks H (s\<lparr>pt_mlf := m\<rparr>) = lks H s"
  "lks H (s\<lparr>pt_size := n\<rparr>) = lks H s" "lks H (s\<lparr>nextpid := i\<rparr>) = lks H s"
  "lks H (s\<lparr>initproc := p\<rparr>) = lks H s" "lks H (s\<lparr>ticks := t\<rparr>) = lks H s"
  by (simp_all add: lks_def holding_def)

lemma con_ok_table [simp]:
  "con_ok (s\<lparr>pt_proc := ps\<rparr>) = con_ok s" "con_ok (s\<lparr>pt_mlf := m\<rparr>) = con_ok s"
  "con_ok (s\<lparr>pt_size := n\<rparr>) = con_ok s" "con_ok (s\<lparr>nextpid := i\<rparr>) = con_ok s"
  "con_ok (s\<lparr>initproc := p\<rparr>) = con_ok s" "con_ok (s\<lparr>ticks := t\<rparr>) = con_ok s"
  by (simp_all add: con_ok_def crt_ok_def)

text \<open>
  \<open>moved p ps' ps\<close>: between \<open>ps\<close> and \<open>ps'\<close> only process \<open>p\<close> changed, in its state and level, and the
  links of the queues.
\<close>

definition pcore :: "proc \<Rightarrow> proc" where
  "pcore r = r\<lparr>p_next := None, p_current_level := 0, p_state := UNUSED\<rparr>"

definition moved :: "nat \<Rightarrow> proc list \<Rightarrow> proc list \<Rightarrow> bool" where
  "moved p ps' ps \<longleftrightarrow> length ps' = length ps \<and> (\<forall>r. pcore (ps' ! r) = pcore (ps ! r)) \<and>
     (\<forall>r. r \<noteq> p \<longrightarrow> p_state (ps' ! r) = p_state (ps ! r) \<and>
        p_current_level (ps' ! r) = p_current_level (ps ! r))"

lemma pcoreD:
  assumes "pcore a = pcore b"
  shows "p_sz a = p_sz b" "p_pgdir a = p_pgdir b" "p_kstack a = p_kstack b" "p_pid a = p_pid b"
    "p_parent a = p_parent b" "p_chan a = p_chan b" "p_killed a = p_killed b"
    "p_ofile a = p_ofile b" "p_cwd a = p_cwd b" "p_name a = p_name b"
    "p_quantum a = p_quantum b" "p_tf a = p_tf b" "p_intena a = p_intena b"
  using arg_cong [OF assms, of p_sz] arg_cong [OF assms, of p_pgdir] arg_cong [OF assms, of p_kstack]
    arg_cong [OF assms, of p_pid] arg_cong [OF assms, of p_parent] arg_cong [OF assms, of p_chan]
    arg_cong [OF assms, of p_killed] arg_cong [OF assms, of p_ofile] arg_cong [OF assms, of p_cwd]
    arg_cong [OF assms, of p_name] arg_cong [OF assms, of p_quantum] arg_cong [OF assms, of p_tf]
    arg_cong [OF assms, of p_intena]
  by (simp_all add: pcore_def)

lemma pcore_upd [simp]:
  "pcore (r\<lparr>p_next := n\<rparr>) = pcore r" "pcore (r\<lparr>p_current_level := l\<rparr>) = pcore r"
  "pcore (r\<lparr>p_state := st\<rparr>) = pcore r"
  by (simp_all add: pcore_def)

lemma levels_ok_moved:
  "levels_ok ps \<Longrightarrow> moved p ps' ps \<Longrightarrow> 0 \<le> p_current_level (ps' ! p) \<Longrightarrow>
     p_current_level (ps' ! p) < int MLF_LEVELS \<Longrightarrow> levels_ok ps'"
  unfolding levels_ok_def moved_def by metis

lemma pids_ok_cong:
  assumes "pids_ok ps n" and "\<And>r. r < NPROC \<Longrightarrow> p_pid (ps' ! r) = p_pid (ps ! r)"
    and "\<And>r. r < NPROC \<Longrightarrow> (p_state (ps' ! r) \<noteq> UNUSED) = (p_state (ps ! r) \<noteq> UNUSED)"
  shows "pids_ok ps' n"
  using assms unfolding pids_ok_def by simp

lemma pids_ok_moved:
  assumes "pids_ok ps n" and "moved p ps' ps" and "p_state (ps ! p) \<noteq> UNUSED" and "p_state (ps' ! p) \<noteq> UNUSED"
  shows "pids_ok ps' n"
  using assms(1)
proof (rule pids_ok_cong)
  show "p_pid (ps' ! r) = p_pid (ps ! r)" for r
    using assms(2) pcoreD(4) unfolding moved_def by blast
  show "(p_state (ps' ! r) \<noteq> UNUSED) = (p_state (ps ! r) \<noteq> UNUSED)" for r
    using assms(2-4) unfolding moved_def by (cases "r = p") auto
qed

section \<open>Into and out of the queues\<close>

lemma wp_make_runnable:
  assumes inv: "table_inv s Q" and l: "l < MLF_LEVELS" and p: "p < NPROC"
    and st: "p_state (pt_proc s ! p) \<noteq> RUNNABLE" "p_state (pt_proc s ! p) \<noteq> UNUSED"
    and R: "\<And>m ps. table_inv (s\<lparr>pt_size := pt_size s + 1, pt_mlf := m, pt_proc := ps\<rparr>) (Q[l := Q ! l @ [p]]) \<Longrightarrow>
      moved p ps (pt_proc s) \<Longrightarrow> p_state (ps ! p) = RUNNABLE \<Longrightarrow> p_current_level (ps ! p) = int l \<Longrightarrow>
      R () (s\<lparr>pt_size := pt_size s + 1, pt_mlf := m, pt_proc := ps\<rparr>)"
  shows "wp (make_runnable p (int l)) R s"
proof -
  note D = table_invD [OF inv] and M = mlf_invD [OF table_invD(1) [OF inv]]
  let ?r = "(pt_proc s ! p)\<lparr>p_current_level := int l, p_state := RUNNABLE\<rparr>"
  let ?ps = "(link (Q ! l) p (pt_proc s))[p := ?r]"
  let ?m = "(pt_mlf s)[l := \<lparr>q_first = Some (hd (Q ! l @ [p])), q_last = Some p,
    q_size = int (length (Q ! l)) + 1\<rparr>]"
  have last: "last (Q ! l) < length (pt_proc s) \<and> last (Q ! l) \<noteq> p" if "Q ! l \<noteq> []"
    using M(6) [OF l, of "last (Q ! l)"] D(4) st that by auto
  have mv: "moved p ?ps (pt_proc s)"
    unfolding moved_def using D(4) p
    by (auto simp: link_field [of pcore] link_field [of p_state] link_field [of p_current_level])
  have e: "p_state (?ps ! p) = RUNNABLE" "p_current_level (?ps ! p) = int l"
    using D(4) p by simp_all
  have "table_inv (s\<lparr>pt_size := pt_size s + 1, pt_mlf := ?m, pt_proc := ?ps\<rparr>) (Q[l := Q ! l @ [p]])"
    unfolding table_inv_def
    using mlf_inv_enqueue [OF D(1) l p st(1), of ?r] levels_ok_moved [OF D(2) mv] e l
      pids_ok_moved [OF D(3) mv st(2)] by simp
  then have "R () (s\<lparr>pt_size := pt_size s + 1, pt_mlf := ?m, pt_proc := ?ps\<rparr>)"
    using mv e by (rule R)
  then show ?thesis
    using M(4) [OF l] l p D(4,5) last
    by (simp add: make_runnable_def wp_rules wp_encolar wp_pset)
qed

lemma wp_make_running:
  assumes inv: "table_inv s Q" and l: "l < MLF_LEVELS" and Ql: "Q ! l = p # xs"
    and R: "\<And>m ps. table_inv (s\<lparr>pt_size := pt_size s - 1, pt_mlf := m, pt_proc := ps\<rparr>) (Q[l := xs]) \<Longrightarrow>
      moved p ps (pt_proc s) \<Longrightarrow> p_state (ps ! p) = RUNNING \<Longrightarrow> p_current_level (ps ! p) = int l \<Longrightarrow>
      R () (s\<lparr>pt_size := pt_size s - 1, pt_mlf := m, pt_proc := ps\<rparr>)"
  shows "wp (make_running p) R s"
proof -
  note D = table_invD [OF inv] and M = mlf_invD [OF table_invD(1) [OF inv]]
  let ?r = "(pt_proc s ! p)\<lparr>p_state := RUNNING\<rparr>"
  let ?ps = "(pt_proc s)[p := ?r]"
  let ?m = "(pt_mlf s)[l := \<lparr>q_first = (if xs = [] then None else Some (hd xs)),
    q_last = (if xs = [] then None else Some (last xs)), q_size = int (length xs)\<rparr>]"
  have p: "p < NPROC" "p_state (pt_proc s ! p) = RUNNABLE" "p_current_level (pt_proc s ! p) = int l"
    using M(6) [OF l] Ql by auto
  have la: "last (p # xs) < NPROC" "p_state (pt_proc s ! last (p # xs)) = RUNNABLE"
    using M(6) [OF l, of "last (p # xs)"] Ql by auto
  have pid: "p_pid (pt_proc s ! last (p # xs)) = p_pid (pt_proc s ! p) \<longleftrightarrow> xs = []"
  proof (cases "xs = []")
    case False
    then have "last (p # xs) \<noteq> p"
      using mlf_inv_distinct [OF D(1) l] Ql by (auto dest: last_in_set)
    then show ?thesis using False D(3) p la unfolding pids_ok_def by auto
  qed simp
  have mv: "moved p ?ps (pt_proc s)"
    unfolding moved_def using D(4) p by auto
  have e: "p_state (?ps ! p) = RUNNING" "p_current_level (?ps ! p) = int l"
    using D(4) p by simp_all
  have "table_inv (s\<lparr>pt_size := pt_size s - 1, pt_mlf := ?m, pt_proc := ?ps\<rparr>) (Q[l := xs])"
    unfolding table_inv_def
    using mlf_inv_dequeue [OF D(1) l Ql, of ?r] levels_ok_moved [OF D(2) mv] e l
      pids_ok_moved [OF D(3) mv] p by simp
  then have "R () (s\<lparr>pt_size := pt_size s - 1, pt_mlf := ?m, pt_proc := ?ps\<rparr>)"
    using mv e by (rule R)
  then show ?thesis
    using M(4) [OF l] l p la pid D(4,5) Ql
    by (simp add: make_running_def wp_rules wp_desencolar wp_pset)
qed

section \<open>Waking\<close>

text \<open>
  What \<open>wakeup1\<close> promises: every process asleep on the channel becomes runnable one level up (at
  most the first), at the end of that level's queue, in the order of the table; nothing else changes.
  Level 0 is the first; on \<^typ>\<open>nat\<close> the subtraction stops there.
\<close>

definition sleeps_on :: "chan option \<Rightarrow> proc \<Rightarrow> bool" where
  "sleeps_on ch r \<longleftrightarrow> p_state r = SLEEPING \<and> p_chan r = ch"

definition wake_queue :: "chan option \<Rightarrow> proc list \<Rightarrow> nat list list \<Rightarrow> nat \<Rightarrow> nat list list" where
  "wake_queue ch ps Q p = (if sleeps_on ch (ps ! p)
     then let l = nat (p_current_level (ps ! p)) - 1 in Q[l := Q ! l @ [p]] else Q)"

definition woken_queues :: "chan option \<Rightarrow> proc list \<Rightarrow> nat list list \<Rightarrow> nat list list" where
  "woken_queues ch ps Q = foldl (wake_queue ch ps) Q [0..<NPROC]"

definition woken :: "chan option \<Rightarrow> nat set \<Rightarrow> proc list \<Rightarrow> proc list \<Rightarrow> bool" where
  "woken ch D ps' ps \<longleftrightarrow> length ps' = length ps \<and> (\<forall>r. pcore (ps' ! r) = pcore (ps ! r) \<and>
     p_state (ps' ! r) = (if r \<in> D \<and> sleeps_on ch (ps ! r) then RUNNABLE else p_state (ps ! r)) \<and>
     p_current_level (ps' ! r) =
       (if r \<in> D \<and> sleeps_on ch (ps ! r) then max 0 (p_current_level (ps ! r) - 1) else p_current_level (ps ! r)))"

lemma up_range:
  assumes "levels_ok ps" and "p < NPROC"
  obtains l where "up (ps ! p) = int l" and "l < MLF_LEVELS"
proof -
  have "0 \<le> up (ps ! p)" "up (ps ! p) < int MLF_LEVELS"
    using assms by (auto simp: levels_ok_def up_def)
  then show ?thesis using that [of "nat (up (ps ! p))"] by simp
qed

text \<open>On the levels there are, \<open>up\<close> is one less, down to 0.\<close>

lemma up_one:
  assumes "levels_ok ps" and "p < NPROC"
  shows "up (ps ! p) = int (nat (p_current_level (ps ! p)) - 1)" and "up (ps ! p) = max 0 (p_current_level (ps ! p) - 1)"
  using assms by (auto simp: levels_ok_def up_def)

lemma down_range:
  assumes "levels_ok ps" and "p < NPROC"
  obtains l where "down (ps ! p) = int l" and "l < MLF_LEVELS"
proof -
  have "0 \<le> down (ps ! p)" "down (ps ! p) < int MLF_LEVELS"
    using assms by (auto simp: levels_ok_def down_def)
  then show ?thesis using that [of "nat (down (ps ! p))"] by simp
qed

lemma level_range:
  assumes "levels_ok ps" and "p < NPROC"
  obtains l where "p_current_level (ps ! p) = int l" and "l < MLF_LEVELS"
proof -
  have "0 \<le> p_current_level (ps ! p)" "p_current_level (ps ! p) < int MLF_LEVELS"
    using assms by (auto simp: levels_ok_def)
  then show ?thesis using that [of "nat (p_current_level (ps ! p))"] by simp
qed

lemma wp_wake_body:
  assumes inv: "table_inv s Q" and p: "p < NPROC"
    and R: "\<And>n m ps. table_inv (s\<lparr>pt_size := n, pt_mlf := m, pt_proc := ps\<rparr>) (wake_queue ch (pt_proc s) Q p) \<Longrightarrow>
      woken ch {p} ps (pt_proc s) \<Longrightarrow> R () (s\<lparr>pt_size := n, pt_mlf := m, pt_proc := ps\<rparr>)"
  shows "wp (bnd (pget p) (\<lambda>r. whenever (p_state r = SLEEPING \<and> p_chan r = ch) (make_runnable p (up r)))) R s"
proof -
  have len: "p < length (pt_proc s)" using p table_invD(4) [OF inv] by simp
  have "wp (make_runnable p (up (pt_proc s ! p))) R s" if on: "sleeps_on ch (pt_proc s ! p)"
  proof -
    obtain l where l: "up (pt_proc s ! p) = int l" "l < MLF_LEVELS"
      using up_range [OF table_invD(2) [OF inv] p] by blast
    have up: "nat (p_current_level (pt_proc s ! p)) - 1 = l" "max 0 (p_current_level (pt_proc s ! p) - 1) = int l"
      using up_one [OF table_invD(2) [OF inv] p] l(1) by simp_all
    from inv l(2) p have "wp (make_runnable p (int l)) R s"
    proof (rule wp_make_runnable)
      show "p_state (pt_proc s ! p) \<noteq> RUNNABLE" "p_state (pt_proc s ! p) \<noteq> UNUSED"
        using on by (simp_all add: sleeps_on_def)
      fix m ps
      assume "table_inv (s\<lparr>pt_size := pt_size s + 1, pt_mlf := m, pt_proc := ps\<rparr>) (Q[l := Q ! l @ [p]])"
        "moved p ps (pt_proc s)" "p_state (ps ! p) = RUNNABLE" "p_current_level (ps ! p) = int l"
      then show "R () (s\<lparr>pt_size := pt_size s + 1, pt_mlf := m, pt_proc := ps\<rparr>)"
        using on up by (intro R) (auto simp: wake_queue_def woken_def moved_def Let_def)
    qed
    then show ?thesis by (simp only: l)
  qed
  moreover have "R () s" if off: "\<not> sleeps_on ch (pt_proc s ! p)"
  proof -
    have "woken ch {p} (pt_proc s) (pt_proc s)" using off by (auto simp: woken_def)
    then show ?thesis
      using R [where n = "pt_size s" and m = "pt_mlf s" and ps = "pt_proc s"] inv off
      by (simp add: wake_queue_def)
  qed
  ultimately show ?thesis
    unfolding wp_bnd wp_pget [OF len] wp_whenever sleeps_on_def if_bool_eq_conj by blast
qed

lemma woken_insert:
  assumes "woken ch D ps qs" and "woken ch {p} ps' ps" and "p \<notin> D"
  shows "woken ch (insert p D) ps' qs" and "wake_queue ch ps Q p = wake_queue ch qs Q p"
proof -
  have "p_state (ps ! p) = p_state (qs ! p)" "p_current_level (ps ! p) = p_current_level (qs ! p)"
    and "pcore (ps ! p) = pcore (qs ! p)"
    using assms(1,3) by (simp_all add: woken_def)
  moreover from this(3) have "p_chan (ps ! p) = p_chan (qs ! p)" by (rule pcoreD)
  ultimately have "sleeps_on ch (ps ! p) = sleeps_on ch (qs ! p)" "p_current_level (ps ! p) = p_current_level (qs ! p)"
    by (simp_all add: sleeps_on_def)
  then show "woken ch (insert p D) ps' qs" "wake_queue ch ps Q p = wake_queue ch qs Q p"
    using assms by (auto simp: woken_def wake_queue_def)
qed

lemma wp_wakeup1:
  assumes inv: "table_inv s Q"
    and R: "\<And>n m ps. table_inv (s\<lparr>pt_size := n, pt_mlf := m, pt_proc := ps\<rparr>) (woken_queues ch (pt_proc s) Q) \<Longrightarrow>
      woken ch {..<NPROC} ps (pt_proc s) \<Longrightarrow> R () (s\<lparr>pt_size := n, pt_mlf := m, pt_proc := ps\<rparr>)"
  shows "wp (wakeup1 ch) R s"
proof -
  define I where "I rest t \<longleftrightarrow> (\<exists>pre n m ps. [0..<NPROC] = pre @ rest \<and> t = s\<lparr>pt_size := n, pt_mlf := m, pt_proc := ps\<rparr> \<and>
    table_inv t (foldl (wake_queue ch (pt_proc s)) Q pre) \<and> woken ch (set pre) ps (pt_proc s))" for rest t
  show ?thesis
    unfolding wakeup1_def
  proof (rule wp_for_each [where I = I])
    show "I [0..<NPROC] s"
      unfolding I_def
      using inv by (intro exI [of _ "[]"] exI [of _ "pt_size s"] exI [of _ "pt_mlf s"] exI [of _ "pt_proc s"])
        (simp add: woken_def)
  next
    fix t
    assume "I [] t"
    then obtain pre n m ps where pre: "[0..<NPROC] = pre @ []" and t: "t = s\<lparr>pt_size := n, pt_mlf := m, pt_proc := ps\<rparr>"
      and ti: "table_inv t (foldl (wake_queue ch (pt_proc s)) Q pre)" and w: "woken ch (set pre) ps (pt_proc s)"
      unfolding I_def by blast
    have "pre = [0..<NPROC]" using pre by simp
    then have "table_inv t (woken_queues ch (pt_proc s) Q)" "woken ch {..<NPROC} ps (pt_proc s)"
      using ti w by (simp_all only: woken_queues_def set_upt lessThan_atLeast0)
    then show "R () t" unfolding t by (rule R)
  next
    fix p rest t
    assume "I (p # rest) t"
    then obtain pre n m ps where pre: "[0..<NPROC] = pre @ p # rest"
      and t: "t = s\<lparr>pt_size := n, pt_mlf := m, pt_proc := ps\<rparr>"
      and ti: "table_inv t (foldl (wake_queue ch (pt_proc s)) Q pre)" and w: "woken ch (set pre) ps (pt_proc s)"
      unfolding I_def by blast
    have "p \<in> set [0..<NPROC]" unfolding pre by simp
    then have p: "p < NPROC" by simp
    have "distinct [0..<NPROC]" by simp
    then have np: "p \<notin> set pre" unfolding pre by simp
    from ti p show "wp (bnd (pget p) (\<lambda>r. whenever (p_state r = SLEEPING \<and> p_chan r = ch) (make_runnable p (up r))))
        (\<lambda>_. I rest) t"
    proof (rule wp_wake_body)
      fix n' m' ps'
      let ?u = "t\<lparr>pt_size := n', pt_mlf := m', pt_proc := ps'\<rparr>"
      assume "table_inv ?u (wake_queue ch (pt_proc t) (foldl (wake_queue ch (pt_proc s)) Q pre) p)"
        "woken ch {p} ps' (pt_proc t)"
      then show "I rest ?u"
        unfolding I_def
        using pre woken_insert [OF w _ np, of ps']
        by (intro exI [of _ "pre @ [p]"] exI [of _ n'] exI [of _ m'] exI [of _ ps']) (simp add: t)
    qed
  qed
qed

section \<open>The table under its lock\<close>

text \<open>
  \<open>kframe s t\<close>: code that ran from \<open>s\<close> to \<open>t\<close> changed at most the locks, this CPU's nesting and
  interrupt flags, the console's output and the process table; other components' state is as it was.
  \<open>ptab H s Q\<close>: the table and the console are well-formed and this CPU holds the locks \<open>H\<close>.
\<close>

definition kframe :: "'z kproc_scheme \<Rightarrow> 'z kproc_scheme \<Rightarrow> bool" where
  "kframe s t \<longleftrightarrow> mycpu t = mycpu s \<and> cpu_frame (mycpu s) (cpus t) (cpus s) \<and>
     stackmem t = stackmem s \<and> stackarg t = stackarg s \<and> con_locking t = con_locking s \<and>
     con_panicked t = con_panicked s \<and> uart t = uart s \<and> initproc t = initproc s \<and>
     ticks t = ticks s \<and> kpgdir t = kpgdir s \<and> kproc.more t = kproc.more s"

definition same_table :: "'z kproc_scheme \<Rightarrow> 'z kproc_scheme \<Rightarrow> bool" where
  "same_table s t \<longleftrightarrow> pt_proc t = pt_proc s \<and> pt_mlf t = pt_mlf s \<and> pt_size t = pt_size s \<and>
     nextpid t = nextpid s"

definition ptab :: "lockid set \<Rightarrow> 'z kproc_scheme \<Rightarrow> nat list list \<Rightarrow> bool" where
  "ptab H s Q \<longleftrightarrow> lks H s \<and> con_ok s \<and> table_inv s Q"

lemma kframe_refl [simp]: "kframe s s"
  by (simp add: kframe_def)

lemma kframe_trans: "kframe s t \<Longrightarrow> kframe t u \<Longrightarrow> kframe s u"
  by (auto simp: kframe_def intro: cpu_frame_trans)

lemma kframe_table [simp]:
  "kframe s (t\<lparr>pt_proc := ps\<rparr>) = kframe s t" "kframe s (t\<lparr>pt_mlf := m\<rparr>) = kframe s t"
  "kframe s (t\<lparr>pt_size := n\<rparr>) = kframe s t" "kframe s (t\<lparr>nextpid := i\<rparr>) = kframe s t"
  "kframe s (t\<lparr>spinlocks := ks\<rparr>) = kframe s t" "kframe s (t\<lparr>serial := x\<rparr>) = kframe s t"
  "kframe s (t\<lparr>crt := y\<rparr>) = kframe s t" "kframe s (t\<lparr>crtpos := z\<rparr>) = kframe s t"
  by (simp_all add: kframe_def)

lemma kframe_cpus: "cpu_frame (mycpu s) cs (cpus s) \<Longrightarrow> kframe s (s\<lparr>cpus := cs\<rparr>)"
  by (simp add: kframe_def)

lemma kframe_cproc:
  assumes "kframe s t"
  shows "c_proc (thecpu t) = c_proc (thecpu s)" and "c_indice (thecpu t) = c_indice (thecpu s)"
    and "mycpu t = mycpu s" and "initproc t = initproc s"
  using assms cpu_frameD(1,2) [of "mycpu s" "cpus t" "cpus s" "mycpu s"] by (auto simp: kframe_def)

lemma same_table_refl [simp]: "same_table s s"
  by (simp add: same_table_def)

lemma same_table_inv: "same_table s t \<Longrightarrow> table_inv t Q = table_inv s Q"
  by (simp add: same_table_def table_inv_def)

lemma ptabD:
  assumes "ptab H s Q"
  shows "lks H s" "con_ok s" "table_inv s Q" "length (pt_proc s) = NPROC" "length (pt_mlf s) = MLF_LEVELS"
  using assms table_invD [of s Q] by (auto simp: ptab_def)

lemma wp_acquire_table:
  assumes "ptab H s Q" and "l \<notin> H"
    and R: "\<And>t. kframe s t \<Longrightarrow> ptab (insert l H) t Q \<Longrightarrow> same_table s t \<Longrightarrow> R () t"
  shows "wp (acquire l) R s"
  using ptabD(1) [OF assms(1)] assms(2)
proof (rule wp_acquire)
  fix cs ks
  assume "lks (insert l H) (s\<lparr>cpus := cs, spinlocks := ks\<rparr>)" and "cpu_frame (mycpu s) cs (cpus s)"
  then show "R () (s\<lparr>cpus := cs, spinlocks := ks\<rparr>)"
    using assms(1) by (intro R) (simp_all add: kframe_cpus ptab_def same_table_def)
qed

lemma wp_release_table:
  assumes "ptab (insert l H) s Q" and "l \<notin> H"
    and R: "\<And>t. kframe s t \<Longrightarrow> ptab H t Q \<Longrightarrow> same_table s t \<Longrightarrow> R () t"
  shows "wp (release l) R s"
  using ptabD(1) [OF assms(1)] assms(2)
proof (rule wp_release)
  fix cs ks
  assume "lks H (s\<lparr>cpus := cs, spinlocks := ks\<rparr>)" and "cpu_frame (mycpu s) cs (cpus s)"
  then show "R () (s\<lparr>cpus := cs, spinlocks := ks\<rparr>)"
    using assms(1) by (intro R) (simp_all add: kframe_cpus ptab_def same_table_def)
qed

lemma wp_cprintf_table:
  assumes "ptab H s Q" and "fmt_ok fmt args" and "ConsLock \<notin> H"
    and R: "\<And>t. kframe s t \<Longrightarrow> ptab H t Q \<Longrightarrow> same_table s t \<Longrightarrow> R () t"
  shows "wp (cprintf fmt args) R s"
  using ptabD(1) [OF assms(1)] assms(3) ptabD(2) [OF assms(1)] assms(2)
proof (rule wp_cprintf)
  fix cs ks ser m p
  let ?t = "s\<lparr>cpus := cs, spinlocks := ks, serial := ser, crt := m, crtpos := p\<rparr>"
  assume "lks H ?t" "cpu_frame (mycpu s) cs (cpus s)" "con_ok ?t"
  then show "R () ?t"
    using assms(1) by (intro R) (simp_all add: kframe_cpus ptab_def same_table_def)
qed

text \<open>Changes of one process that the queues do not see.\<close>

lemma ptab_same:
  assumes "ptab H s Q" and "p < NPROC" and "p_next r = p_next (pt_proc s ! p)"
    and "p_state r = p_state (pt_proc s ! p)" and "p_current_level r = p_current_level (pt_proc s ! p)"
    and "p_pid r = p_pid (pt_proc s ! p)"
  shows "ptab H (s\<lparr>pt_proc := (pt_proc s)[p := r]\<rparr>) Q"
proof -
  note D = table_invD [OF ptabD(3) [OF assms(1)]]
  have "levels_ok ((pt_proc s)[p := r])" using D(2,4) assms(2,5) by (auto simp: levels_ok_def)
  moreover have "pids_ok ((pt_proc s)[p := r]) (nextpid s)"
    using D(3) by (rule pids_ok_cong) (use D(4) assms in auto)
  ultimately show ?thesis
    using assms(1) mlf_inv_same [OF D(1) assms(2-5)] by (simp add: ptab_def table_inv_def)
qed

lemma ptab_other:
  assumes "ptab H s Q" and "p < NPROC" and "p_state (pt_proc s ! p) \<noteq> RUNNABLE" and "p_state r \<noteq> RUNNABLE"
    and "0 \<le> p_current_level r" and "p_current_level r < int MLF_LEVELS"
    and "pids_ok ((pt_proc s)[p := r]) n"
  shows "ptab H (s\<lparr>pt_proc := (pt_proc s)[p := r], nextpid := n\<rparr>) Q"
proof -
  note D = table_invD [OF ptabD(3) [OF assms(1)]]
  have "levels_ok ((pt_proc s)[p := r])" using D(2,4) assms(2,5,6) by (auto simp: levels_ok_def)
  then show ?thesis
    using assms(1,7) mlf_inv_other [OF D(1) assms(3,4,2)] by (simp add: ptab_def table_inv_def)
qed

lemma table_inv_live:
  assumes "table_inv s Q" and "p < NPROC" and "p_state (pt_proc s ! p) \<notin> {RUNNABLE, UNUSED}"
    and "p_state r \<notin> {RUNNABLE, UNUSED}" and "0 \<le> p_current_level r" "p_current_level r < int MLF_LEVELS"
    and "p_pid r = p_pid (pt_proc s ! p)"
  shows "table_inv (s\<lparr>pt_proc := (pt_proc s)[p := r]\<rparr>) Q"
proof -
  note D = table_invD [OF assms(1)]
  have "pids_ok ((pt_proc s)[p := r]) (nextpid s)"
    using D(3) by (rule pids_ok_cong) (use D(4) assms in auto)
  moreover have "levels_ok ((pt_proc s)[p := r])" using D(2,4) assms(2,5,6) by (auto simp: levels_ok_def)
  ultimately show ?thesis using mlf_inv_other [OF D(1) _ _ assms(2)] assms(3,4) by (simp add: table_inv_def)
qed

lemma ptab_live:
  assumes "ptab H s Q" and "p < NPROC" and "p_state (pt_proc s ! p) \<notin> {RUNNABLE, UNUSED}"
    and "p_state r \<notin> {RUNNABLE, UNUSED}" and "0 \<le> p_current_level r" "p_current_level r < int MLF_LEVELS"
    and "p_pid r = p_pid (pt_proc s ! p)"
  shows "ptab H (s\<lparr>pt_proc := (pt_proc s)[p := r]\<rparr>) Q"
  using assms(1) table_inv_live [OF ptabD(3) [OF assms(1)] assms(2-7)] by (simp add: ptab_def)

lemma ptab_unused:
  assumes "ptab H s Q" and "p < NPROC" and "p_state (pt_proc s ! p) \<noteq> RUNNABLE"
    and "p_state r = UNUSED" and "p_current_level r = p_current_level (pt_proc s ! p)"
  shows "ptab H (s\<lparr>pt_proc := (pt_proc s)[p := r]\<rparr>) Q"
proof -
  note D = table_invD [OF ptabD(3) [OF assms(1)]]
  have "pids_ok ((pt_proc s)[p := r]) (nextpid s)"
    using D(3,4) assms(2,4) unfolding pids_ok_def by simp
  moreover have "0 \<le> p_current_level r" "p_current_level r < int MLF_LEVELS"
    using D(2) assms(2,5) by (auto simp: levels_ok_def)
  ultimately show ?thesis using ptab_other [OF assms(1-3), of r "nextpid s"] assms(4) by simp
qed

section \<open>Giving up the CPU\<close>

text \<open>\<open>restate p st ps ps'\<close>: process \<open>p\<close> comes to be in state \<open>st\<close>, no other process changes its state, and
  no process its page table.\<close>

definition restate :: "nat \<Rightarrow> procstate \<Rightarrow> proc list \<Rightarrow> proc list \<Rightarrow> bool" where
  "restate p st ps ps' \<longleftrightarrow> p_state (ps' ! p) = st \<and> (\<forall>r. p_pgdir (ps' ! r) = p_pgdir (ps ! r) \<and>
     (r \<noteq> p \<longrightarrow> p_state (ps' ! r) = p_state (ps ! r)))"

lemma wpa_sched:
  assumes "ptab {PtableLock} s Q" and "c_proc (thecpu s) = Some p" and "p < NPROC"
    and "p_state (pt_proc s ! p) \<noteq> RUNNING"
    and R: "\<And>b. ptab {PtableLock} (s\<lparr>pt_proc := (pt_proc s)[p := (pt_proc s ! p)\<lparr>p_intena := b\<rparr>]\<rparr>) Q \<Longrightarrow>
      R (s\<lparr>pt_proc := (pt_proc s)[p := (pt_proc s ! p)\<lparr>p_intena := b\<rparr>]\<rparr>)"
  shows "wpa sched P R s"
proof -
  have "holding PtableLock s" "c_ncli (thecpu s) = 1" "\<not> c_if (thecpu s)"
    using lksD(3-5) [OF ptabD(1) [OF assms(1)]] by auto
  moreover have "p < length (pt_proc s)" using ptabD(4) [OF assms(1)] assms(3) by simp
  moreover have "R (s\<lparr>pt_proc := (pt_proc s)[p := (pt_proc s ! p)\<lparr>p_intena := c_intena (thecpu s)\<rparr>]\<rparr>)"
    by (intro R ptab_same [OF assms(1,3)]) simp_all
  ultimately show ?thesis
    using assms(2,4)
    by (simp add: sched_def wpa_rules myproc_def curproc_def pget_def pset_def)
qed

text \<open>\<open>yield\<close>: the process goes to the end of the queue one level down, and to the scheduler with
  the lock held.\<close>

lemma wpa_yield:
  assumes s: "ptab {} s Q" and cp: "c_proc (thecpu s) = Some p" and p: "p < NPROC"
    and st: "p_state (pt_proc s ! p) = RUNNING"
    and R: "\<And>t. kframe s t \<Longrightarrow> ptab {PtableLock} t (let l = nat (down (pt_proc s ! p)) in Q[l := Q ! l @ [p]]) \<Longrightarrow>
      restate p RUNNABLE (pt_proc s) (pt_proc t) \<Longrightarrow> p_current_level (pt_proc t ! p) = down (pt_proc s ! p) \<Longrightarrow> R t"
  shows "wpa yield P R s"
  unfolding yield_def wpa_andthen
proof (rule wpa_wp, rule wp_acquire_table [OF s])
  fix t
  assume kt: "kframe s t" and t: "ptab {PtableLock} t Q" and same: "same_table s t"
  have eq: "pt_proc t = pt_proc s" using same by (simp add: same_table_def)
  obtain l where l: "down (pt_proc s ! p) = int l" "l < MLF_LEVELS"
    using down_range [OF table_invD(2) [OF ptabD(3) [OF s]] p] .
  have cpt: "c_proc (thecpu t) = Some p" using cp kframe_cproc [OF kt] by simp
  have "wpa (make_runnable p (int l)) (\<lambda>_. wpa sched P R) R t"
  proof (rule wpa_wp, rule wp_make_runnable [OF ptabD(3) [OF t] l(2) p])
    show "p_state (pt_proc t ! p) \<noteq> RUNNABLE" "p_state (pt_proc t ! p) \<noteq> UNUSED" using st eq by simp_all
    fix m ps
    let ?u = "t\<lparr>pt_size := pt_size t + 1, pt_mlf := m, pt_proc := ps\<rparr>"
    assume u: "table_inv ?u (Q[l := Q ! l @ [p]])" "moved p ps (pt_proc t)" "p_state (ps ! p) = RUNNABLE"
      "p_current_level (ps ! p) = int l"
    have pu: "ptab {PtableLock} ?u (Q[l := Q ! l @ [p]])" using u(1) t by (simp add: ptab_def)
    have pg: "p_pgdir (ps ! r) = p_pgdir (pt_proc s ! r)" for r
      using u(2) eq pcoreD(2) [of "ps ! r"] by (simp add: moved_def)
    have len: "length ps = NPROC" using ptabD(4) [OF pu] by simp
    show "wpa sched P R ?u"
      using pu
    proof (rule wpa_sched [where p = p])
      show "R (?u\<lparr>pt_proc := (pt_proc ?u)[p := (pt_proc ?u ! p)\<lparr>p_intena := b\<rparr>]\<rparr>)"
        if "ptab {PtableLock} (?u\<lparr>pt_proc := (pt_proc ?u)[p := (pt_proc ?u ! p)\<lparr>p_intena := b\<rparr>]\<rparr>) (Q[l := Q ! l @ [p]])" for b
        using that u kt l eq pg p len by (intro R) (simp_all add: moved_def restate_def)
    qed (use cpt p u in simp_all)
  qed
  then show "wpa (bnd myproc (\<lambda>me. bnd (pget me) (\<lambda>r. andthen (make_runnable me (down r)) sched))) P R t"
    using cpt p l eq ptabD(4) [OF t] by (simp add: wpa_rules myproc_def curproc_def pget_def)
qed simp

text \<open>\<open>sleep\<close>, on the table's own lock as in \<open>wait\<close> or on another lock, which it lets go once it has
  the table's.\<close>

lemma wpa_sleep_locked:
  assumes s: "ptab {PtableLock} s Q" and cp: "c_proc (thecpu s) = Some p" and p: "p < NPROC"
    and st: "p_state (pt_proc s ! p) = RUNNING"
    and R: "\<And>t. kframe s t \<Longrightarrow> ptab {PtableLock} t Q \<Longrightarrow> restate p SLEEPING (pt_proc s) (pt_proc t) \<Longrightarrow>
      p_chan (pt_proc t ! p) = Some ch \<Longrightarrow> R t"
  shows "wpa (andthen (pset p (\<lambda>r. r\<lparr>p_chan := Some ch\<rparr>)) (andthen (pset p (\<lambda>r. r\<lparr>p_state := SLEEPING\<rparr>)) sched)) P R s"
proof -
  let ?r = "(pt_proc s ! p)\<lparr>p_chan := Some ch, p_state := SLEEPING\<rparr>"
  let ?u = "s\<lparr>pt_proc := (pt_proc s)[p := ?r]\<rparr>"
  have len: "p < length (pt_proc s)" using p ptabD(4) [OF s] by simp
  have "0 \<le> p_current_level (pt_proc s ! p)" "p_current_level (pt_proc s ! p) < int MLF_LEVELS"
    using table_invD(2) [OF ptabD(3) [OF s]] p by (auto simp: levels_ok_def)
  then have u: "ptab {PtableLock} ?u Q" using ptab_live [OF s p, of ?r] st by simp
  then have "wpa sched P R ?u"
  proof (rule wpa_sched [where p = p])
    fix b
    let ?t = "?u\<lparr>pt_proc := (pt_proc ?u)[p := (pt_proc ?u ! p)\<lparr>p_intena := b\<rparr>]\<rparr>"
    assume "ptab {PtableLock} ?t Q"
    then show "R ?t" using len by (intro R) (simp_all add: restate_def)
  qed (use cp p len in simp_all)
  then show ?thesis using len by (simp add: wpa_rules pset_def)
qed

lemma wpa_sleep:
  fixes s :: "'b kproc_scheme" and P :: "'c \<Rightarrow> 'b kproc_scheme \<Rightarrow> bool"
  assumes s: "ptab {l} s Q" and cp: "c_proc (thecpu s) = Some p" and p: "p < NPROC"
    and st: "p_state (pt_proc s ! p) = RUNNING"
    and R: "\<And>t. kframe s t \<Longrightarrow> ptab {PtableLock} t Q \<Longrightarrow> restate p SLEEPING (pt_proc s) (pt_proc t) \<Longrightarrow>
      p_chan (pt_proc t ! p) = Some ch \<Longrightarrow> R t"
  shows "wpa (sleep ch (Some l)) P R s"
proof -
  define rest :: "('b kproc_scheme, 'c) kop" where
    "rest = andthen (pset p (\<lambda>r. r\<lparr>p_chan := Some ch\<rparr>)) (andthen (pset p (\<lambda>r. r\<lparr>p_state := SLEEPING\<rparr>)) sched)"
  have rest: "wpa rest P R u" if u: "ptab {PtableLock} u Q" "kframe s u" "pt_proc u = pt_proc s" for u
    unfolding rest_def
    by (rule wpa_sleep_locked [OF u(1) _ p])
      (use st u kframe_cproc [OF u(2)] cp R kframe_trans [OF u(2)] in simp_all)
  have "wpa (whenever (l \<noteq> PtableLock) (andthen (acquire PtableLock) (release l))) (\<lambda>_. wpa rest P R) R s"
  proof (cases "l = PtableLock")
    case False
    have "wp (andthen (acquire PtableLock) (release l)) (\<lambda>_. wpa rest P R) s"
      unfolding wp_andthen
    proof (rule wp_acquire_table [OF s])
      show "PtableLock \<notin> {l}" using False by simp
      fix t
      assume kt: "kframe s t" and t: "ptab {PtableLock, l} t Q" and same: "same_table s t"
      have t': "ptab (insert l {PtableLock}) t Q" using t by (simp add: insert_commute)
      show "wp (release l) (\<lambda>_. wpa rest P R) t"
        by (rule wp_release_table [OF t'])
          (use False same rest kframe_trans [OF kt] in \<open>auto simp: same_table_def\<close>)
    qed
    then show ?thesis using False by (simp add: wpa_wp wpa_whenever)
  qed (use rest s in \<open>simp add: wpa_rules\<close>)
  then show ?thesis using cp unfolding rest_def by (simp add: sleep_def curproc_def wpa_rules)
qed

section \<open>Waking and killing\<close>

lemma wp_wakeup1_table:
  assumes s: "ptab H s Q"
    and R: "\<And>t. kframe s t \<Longrightarrow> ptab H t (woken_queues ch (pt_proc s) Q) \<Longrightarrow> woken ch {..<NPROC} (pt_proc t) (pt_proc s) \<Longrightarrow>
      nextpid t = nextpid s \<Longrightarrow> R () t"
  shows "wp (wakeup1 ch) R s"
  using ptabD(3) [OF s] by (rule wp_wakeup1) (use s in \<open>auto simp: ptab_def intro!: R\<close>)

lemma wp_wakeup:
  assumes s: "ptab H s Q" and H: "PtableLock \<notin> H"
    and R: "\<And>t. kframe s t \<Longrightarrow> ptab H t (woken_queues (Some ch) (pt_proc s) Q) \<Longrightarrow>
      woken (Some ch) {..<NPROC} (pt_proc t) (pt_proc s) \<Longrightarrow> nextpid t = nextpid s \<Longrightarrow> R () t"
  shows "wp (wakeup ch) R s"
  unfolding wakeup_def wp_andthen
proof (rule wp_acquire_table [OF s H])
  fix t
  assume kt: "kframe s t" and t: "ptab (insert PtableLock H) t Q" and same: "same_table s t"
  show "wp (wakeup1 (Some ch)) (\<lambda>_. wp (release PtableLock) R) t"
  proof (rule wp_wakeup1_table [OF t])
    fix u
    assume ku: "kframe t u" and u: "ptab (insert PtableLock H) u (woken_queues (Some ch) (pt_proc t) Q)"
      and w: "woken (Some ch) {..<NPROC} (pt_proc u) (pt_proc t)" and n: "nextpid u = nextpid t"
    show "wp (release PtableLock) R u"
      using u H
    proof (rule wp_release_table)
      fix v
      assume "kframe u v" "ptab H v (woken_queues (Some ch) (pt_proc t) Q)" "same_table u v"
      then show "R () v"
        using same w n kframe_trans [OF kframe_trans [OF kt ku]] by (intro R) (simp_all add: same_table_def)
    qed
  qed
qed

text \<open>
  What \<open>kill\<close> promises: the first slot of the table with the given pid is marked; if it sleeps it
  becomes runnable, at the end of the queue of the level it had; with no such slot nothing changes.
\<close>

definition killed_in :: "nat \<Rightarrow> proc list \<Rightarrow> nat list list \<Rightarrow> proc list \<Rightarrow> nat list list \<Rightarrow> bool" where
  "killed_in p ps Q ps' Q' \<longleftrightarrow> length ps' = length ps \<and>
     (\<forall>r. r \<noteq> p \<longrightarrow> pcore (ps' ! r) = pcore (ps ! r) \<and> p_state (ps' ! r) = p_state (ps ! r) \<and>
        p_current_level (ps' ! r) = p_current_level (ps ! r)) \<and>
     pcore (ps' ! p) = pcore ((ps ! p)\<lparr>p_killed := True\<rparr>) \<and>
     p_current_level (ps' ! p) = p_current_level (ps ! p) \<and>
     (if p_state (ps ! p) = SLEEPING
      then p_state (ps' ! p) = RUNNABLE \<and>
        (let l = nat (p_current_level (ps ! p)) in Q' = Q[l := Q ! l @ [p]])
      else p_state (ps' ! p) = p_state (ps ! p) \<and> Q' = Q)"

definition kill_post :: "int \<Rightarrow> proc list \<Rightarrow> nat list list \<Rightarrow> int \<Rightarrow> proc list \<Rightarrow> nat list list \<Rightarrow> bool" where
  "kill_post pid ps Q v ps' Q' \<longleftrightarrow>
     (case find (\<lambda>p. p_pid (ps ! p) = pid) [0..<NPROC] of
        None \<Rightarrow> v = - 1 \<and> ps' = ps \<and> Q' = Q
      | Some p \<Rightarrow> v = 0 \<and> killed_in p ps Q ps' Q')"

lemma kill_fmt_ok: "fmt_ok ''El proceso %s pasa a RUNNABLE por KILL \<newline>'' [ArgStr n]"
  by (simp add: fmt_ok.simps)

lemma wp_kill_found:
  assumes s: "ptab {PtableLock} s Q" and p: "p < NPROC"
    and R: "\<And>t Q'. kframe s t \<Longrightarrow> ptab {PtableLock} t Q' \<Longrightarrow> nextpid t = nextpid s \<Longrightarrow>
      killed_in p (pt_proc s) Q (pt_proc t) Q' \<Longrightarrow> R () t"
  shows "wp (andthen (pset p (\<lambda>r. r\<lparr>p_killed := True\<rparr>)) (whenever (p_state (pt_proc s ! p) = SLEEPING)
     (andthen (cprintf ''El proceso %s pasa a RUNNABLE por KILL \<newline>'' [ArgStr (Some (p_name (pt_proc s ! p)))])
        (make_runnable p (p_current_level (pt_proc s ! p)))))) R s"
proof -
  let ?r = "(pt_proc s ! p)\<lparr>p_killed := True\<rparr>"
  let ?u = "s\<lparr>pt_proc := (pt_proc s)[p := ?r]\<rparr>"
  have len: "p < length (pt_proc s)" using p ptabD(4) [OF s] by simp
  have u: "ptab {PtableLock} ?u Q" by (rule ptab_same [OF s p]) simp_all
  obtain l where l: "p_current_level (pt_proc s ! p) = int l" "l < MLF_LEVELS"
    using level_range [OF table_invD(2) [OF ptabD(3) [OF s]] p] .
  show ?thesis
  proof (cases "p_state (pt_proc s ! p) = SLEEPING")
    case False
    then show ?thesis
      using u len by (auto simp: wp_rules wp_pset killed_in_def intro!: R)
  next
    case True
    have "wp (cprintf ''El proceso %s pasa a RUNNABLE por KILL \<newline>'' [ArgStr (Some (p_name (pt_proc s ! p)))])
        (\<lambda>_. wp (make_runnable p (int l)) R) ?u"
    proof (rule wp_cprintf_table [OF u kill_fmt_ok])
      fix t
      assume kt: "kframe ?u t" and t: "ptab {PtableLock} t Q" and same: "same_table ?u t"
      have eq: "pt_proc t = (pt_proc s)[p := ?r]" "nextpid t = nextpid s"
        using same by (simp_all add: same_table_def)
      from ptabD(3) [OF t] l(2) p show "wp (make_runnable p (int l)) R t"
      proof (rule wp_make_runnable)
        show "p_state (pt_proc t ! p) \<noteq> RUNNABLE" "p_state (pt_proc t ! p) \<noteq> UNUSED"
          using True len by (simp_all add: eq)
        fix m ps
        let ?v = "t\<lparr>pt_size := pt_size t + 1, pt_mlf := m, pt_proc := ps\<rparr>"
        assume v: "table_inv ?v (Q[l := Q ! l @ [p]])" "moved p ps (pt_proc t)" "p_state (ps ! p) = RUNNABLE"
          "p_current_level (ps ! p) = int l"
        have "kframe s ?v" using kt by (simp add: kframe_def)
        moreover have "killed_in p (pt_proc s) Q ps (Q[l := Q ! l @ [p]])"
          using v l True len unfolding killed_in_def moved_def eq by (auto split: if_splits)
        moreover have "ptab {PtableLock} ?v (Q[l := Q ! l @ [p]])" using v(1) t by (simp add: ptab_def)
        ultimately show "R () ?v" using eq by (intro R [where Q' = "Q[l := Q ! l @ [p]]"]) simp_all
      qed
    qed simp
    then show ?thesis using True len l by (simp add: wp_rules wp_pset)
  qed
qed

lemma wp_kill_loop:
  assumes s: "ptab {PtableLock} s Q" and xs: "set xs \<subseteq> {..<NPROC}"
    and R: "\<And>t Q' v. kframe s t \<Longrightarrow> ptab {} t Q' \<Longrightarrow> nextpid t = nextpid s \<Longrightarrow>
      (case find (\<lambda>p. p_pid (pt_proc s ! p) = pid) xs of
         None \<Rightarrow> v = - 1 \<and> pt_proc t = pt_proc s \<and> Q' = Q
       | Some p \<Rightarrow> v = 0 \<and> killed_in p (pt_proc s) Q (pt_proc t) Q') \<Longrightarrow> R v t"
  shows "wp (kill_loop pid xs) R s"
  using xs R
proof (induction xs)
  case Nil
  show ?case
    unfolding kill_loop.simps wp_andthen wp_ret
    by (rule wp_release_table [OF s]) (auto simp: same_table_def intro: Nil.prems(2))
next
  case (Cons p xs)
  have p: "p < NPROC" and xs: "set xs \<subseteq> {..<NPROC}" using Cons.prems(1) by auto
  have len: "p < length (pt_proc s)" using p ptabD(4) [OF s] by simp
  show ?case
  proof (cases "p_pid (pt_proc s ! p) = pid")
    case False
    then have "wp (kill_loop pid xs) R s" by (intro Cons.IH [OF xs] Cons.prems(2)) simp_all
    then show ?thesis using False len by (simp add: wp_rules wp_pget)
  next
    case True
    have "wp (andthen (pset p (\<lambda>r. r\<lparr>p_killed := True\<rparr>)) (whenever (p_state (pt_proc s ! p) = SLEEPING)
       (andthen (cprintf ''El proceso %s pasa a RUNNABLE por KILL \<newline>'' [ArgStr (Some (p_name (pt_proc s ! p)))])
          (make_runnable p (p_current_level (pt_proc s ! p)))))) (\<lambda>_. wp (andthen (release PtableLock) (ret 0)) R) s"
    proof (rule wp_kill_found [OF s p])
      fix t Q'
      assume t: "kframe s t" "ptab {PtableLock} t Q'" "nextpid t = nextpid s"
        "killed_in p (pt_proc s) Q (pt_proc t) Q'"
      show "wp (andthen (release PtableLock) (ret 0)) R t"
        unfolding wp_andthen wp_ret
        by (rule wp_release_table [OF t(2)])
          (use t True kframe_trans [OF t(1)] in \<open>auto simp: same_table_def intro!: Cons.prems(2)\<close>)
    qed
    then show ?thesis using True len unfolding kill_loop.simps by (simp add: wp_bnd wp_andthen wp_pget)
  qed
qed

lemma wp_kill:
  assumes s: "ptab {} s Q"
    and R: "\<And>t Q' v. kframe s t \<Longrightarrow> ptab {} t Q' \<Longrightarrow> nextpid t = nextpid s \<Longrightarrow>
      kill_post pid (pt_proc s) Q v (pt_proc t) Q' \<Longrightarrow> R v t"
  shows "wp (kill pid) R s"
  unfolding kill_def wp_andthen
proof (rule wp_acquire_table [OF s])
  fix t
  assume kt: "kframe s t" and t: "ptab {PtableLock} t Q" and same: "same_table s t"
  have "pt_proc t = pt_proc s" "nextpid t = nextpid s" using same by (simp_all add: same_table_def)
  then show "wp (kill_loop pid [0..<NPROC]) R t"
    by (intro wp_kill_loop [OF t] R kframe_trans [OF kt]) (auto simp: kill_post_def split: option.splits)
qed simp

section \<open>New and old processes\<close>

lemma wp_find_unused:
  assumes "length (pt_proc s) = NPROC" and "set xs \<subseteq> {..<NPROC}"
  shows "wp (find_unused xs) R s = R (find (\<lambda>p. p_state (pt_proc s ! p) = UNUSED) xs) s"
  using assms(2) by (induction xs) (auto simp: wp_rules wp_pget assms(1))

lemma find_SomeD:
  assumes "find P xs = Some x"
  shows "P x" and "x \<in> set xs"
  using assms by (auto simp: find_Some_iff)

lemma pids_ok_new:
  assumes "pids_ok ps n" and "length ps = NPROC" and "p < NPROC" and "p_pid r = n" and "n < INT_MAX"
  shows "pids_ok (ps[p := r]) (n + 1)"
proof -
  have "0 < p_pid (ps ! q) \<and> p_pid (ps ! q) < n" if "q < NPROC" "p_state (ps ! q) \<noteq> UNUSED" for q
    using assms(1) that by (simp add: pids_ok_def)
  then have "p_pid (ps ! q) \<noteq> n" "0 < p_pid (ps ! q)" "p_pid (ps ! q) < n + 1"
    if "q < NPROC" "p_state (ps ! q) \<noteq> UNUSED" for q
    using that by fastforce+
  moreover have "0 < n" "n + 1 \<le> INT_MAX" using assms(1,5) by (simp_all add: pids_ok_def)
  moreover have "p_pid (ps ! q) = p_pid (ps ! q') \<Longrightarrow> q = q'"
    if "q < NPROC" "q' < NPROC" "p_state (ps ! q) \<noteq> UNUSED" "p_state (ps ! q') \<noteq> UNUSED" for q q'
    using assms(1) that by (simp add: pids_ok_def)
  ultimately show ?thesis
    using assms(2-4) unfolding pids_ok_def by (metis add.commute add_pos_pos less_add_one
      nth_list_update_eq nth_list_update_neq zero_less_one)
qed

lemma wp_alloc_slot:
  assumes s: "ptab {} s Q" and n: "\<exists>p < NPROC. p_state (pt_proc s ! p) = UNUSED \<Longrightarrow> nextpid s < INT_MAX"
    and none: "\<And>t. kframe s t \<Longrightarrow> ptab {} t Q \<Longrightarrow> same_table s t \<Longrightarrow>
      (\<forall>p < NPROC. p_state (pt_proc s ! p) \<noteq> UNUSED) \<Longrightarrow> R None t"
    and some: "\<And>t p. kframe s t \<Longrightarrow> ptab {} t Q \<Longrightarrow> p < NPROC \<Longrightarrow> p_state (pt_proc s ! p) = UNUSED \<Longrightarrow>
      \<forall>r < p. p_state (pt_proc s ! r) \<noteq> UNUSED \<Longrightarrow> nextpid t = nextpid s + 1 \<Longrightarrow>
      pt_proc t = (pt_proc s)[p := (pt_proc s ! p)\<lparr>p_state := EMBRYO, p_pid := nextpid s\<rparr>] \<Longrightarrow> R (Some p) t"
  shows "wp alloc_slot R s"
  unfolding alloc_slot_def wp_andthen wp_bnd
proof (rule wp_acquire_table [OF s])
  fix t
  let ?f = "find (\<lambda>p. p_state (pt_proc s ! p) = UNUSED) [0..<NPROC]"
  assume kt: "kframe s t" and t: "ptab {PtableLock} t Q" and same: "same_table s t"
  have eq: "pt_proc t = pt_proc s" "nextpid t = nextpid s" using same by (simp_all add: same_table_def)
  let ?k = "\<lambda>f. case f of None \<Rightarrow> andthen (release PtableLock) (ret None)
     | Some p \<Rightarrow>
       andthen (pset p (\<lambda>r. r\<lparr>p_state := EMBRYO\<rparr>))
       (bnd (gets nextpid) (\<lambda>n.
       if n \<ge> INT_MAX then fault ''nextpid overflow''
       else
         andthen (pset p (\<lambda>r. r\<lparr>p_pid := n\<rparr>))
         (andthen (upd (\<lambda>s. s\<lparr>nextpid := n + 1\<rparr>))
         (andthen (release PtableLock) (ret (Some p))))))"
  have "wp (?k ?f) R t"
  proof (cases ?f)
    case None
    have "wp (release PtableLock) (\<lambda>_. R None) t"
      using t
    proof (rule wp_release_table)
      fix u
      assume "kframe t u" "ptab {} u Q" "same_table t u"
      then show "R None u"
        using None same kframe_trans [OF kt] by (intro none) (auto simp: same_table_def find_None_iff)
    qed simp
    then show ?thesis unfolding None by (simp add: wp_rules)
  next
    case (Some p)
    then have p: "p < NPROC" "p_state (pt_proc s ! p) = UNUSED" using find_SomeD [OF Some] by auto
    have first: "\<forall>r < p. p_state (pt_proc s ! r) \<noteq> UNUSED"
      using Some by (auto simp: find_Some_iff)
    let ?r = "(pt_proc s ! p)\<lparr>p_state := EMBRYO, p_pid := nextpid s\<rparr>"
    let ?u = "t\<lparr>pt_proc := (pt_proc t)[p := ?r], nextpid := nextpid s + 1\<rparr>"
    note D = table_invD [OF ptabD(3) [OF s]]
    have n': "nextpid s < INT_MAX" using n p by blast
    have lev: "0 \<le> p_current_level ?r" "p_current_level ?r < int MLF_LEVELS"
      using D(2) p(1) by (auto simp: levels_ok_def)
    have "pids_ok ((pt_proc t)[p := ?r]) (nextpid s + 1)"
      unfolding eq using pids_ok_new [OF D(3,4) p(1)] n' by simp
    then have u: "ptab {PtableLock} ?u Q" by (intro ptab_other [OF t p(1)]) (use p lev eq in simp_all)
    have "wp (release PtableLock) (\<lambda>_. R (Some p)) ?u"
      using u
    proof (rule wp_release_table)
      fix v
      assume "kframe ?u v" "ptab {} v Q" "same_table ?u v"
      then show "R (Some p) v"
        using p first kt eq kframe_trans [of s ?u v] by (intro some) (auto simp: same_table_def)
    qed simp
    then show ?thesis
      unfolding Some using p n' ptabD(4) [OF t] by (simp add: wp_rules wp_pset eq)
  qed
  moreover have "set [0..<NPROC] \<subseteq> {..<NPROC}" by auto
  ultimately show "wp (find_unused [0..<NPROC]) (\<lambda>a. wp (?k a) R) t"
    by (simp only: wp_find_unused [OF ptabD(4) [OF t]] eq)
qed simp

text \<open>When the pids are used up \<open>alloc_slot\<close> returns only if it finds no slot.\<close>

lemma alloc_slot_Done:
  assumes s: "ptab {} s Q" and d: "alloc_slot s = Done v u" and p: "\<exists>p < NPROC. p_state (pt_proc s ! p) = UNUSED"
  shows "nextpid s < INT_MAX"
proof -
  let ?f = "find (\<lambda>p. p_state (pt_proc s ! p) = UNUSED) [0..<NPROC]"
  have "wp (acquire PtableLock) (\<lambda>_ t. ptab {PtableLock} t Q \<and> same_table s t) s"
    using s by (rule wp_acquire_table) auto
  then obtain t where t: "acquire PtableLock s = Done () t" "ptab {PtableLock} t Q" "same_table s t" by (auto simp: wp_iff_Done)
  have eq: "pt_proc t = pt_proc s" "nextpid t = nextpid s" using t(3) by (simp_all add: same_table_def)
  have sub: "set [0..<NPROC] \<subseteq> {..<NPROC}" by auto
  have "wp (find_unused [0..<NPROC]) (\<lambda>a b. a = ?f \<and> b = t) t"
    unfolding wp_find_unused [OF ptabD(4) [OF t(2)] sub] eq by simp
  then have f: "find_unused [0..<NPROC] t = Done ?f t" by (auto simp: wp_iff_Done)
  obtain q where q: "?f = Some q" using p by (cases ?f) (auto simp: find_None_iff)
  then have "q < NPROC" using find_SomeD [OF q] by auto
  then have "pset q (\<lambda>r. r\<lparr>p_state := EMBRYO\<rparr>) t = Done () (t\<lparr>pt_proc := (pt_proc t)[q := (pt_proc t ! q)\<lparr>p_state := EMBRYO\<rparr>]\<rparr>)"
    using ptabD(4) [OF t(2)] by (simp add: pset_def kop_defs)
  then show ?thesis using d t(1) f q eq by (auto simp: alloc_slot_def kop_defs split: if_splits)
qed

lemma wp_publish:
  assumes s: "ptab {} s Q" and p: "p < NPROC" and st: "p_state (pt_proc s ! p) = EMBRYO"
    and R: "\<And>t. kframe s t \<Longrightarrow> ptab {} t (Q[0 := Q ! 0 @ [p]]) \<Longrightarrow> nextpid t = nextpid s \<Longrightarrow>
      moved p (pt_proc t) (pt_proc s) \<Longrightarrow> p_state (pt_proc t ! p) = RUNNABLE \<Longrightarrow> R () t"
  shows "wp (publish p) R s"
  unfolding publish_def wp_andthen
proof (rule wp_acquire_table [OF s])
  fix t
  assume kt: "kframe s t" and t: "ptab {PtableLock} t Q" and same: "same_table s t"
  have eq: "pt_proc t = pt_proc s" "nextpid t = nextpid s" using same by (simp_all add: same_table_def)
  have lev: "0 < MLF_LEVELS" by (simp add: MLF_LEVELS_def)
  from ptabD(3) [OF t] lev p have "wp (make_runnable p (int 0)) (\<lambda>_. wp (release PtableLock) R) t"
  proof (rule wp_make_runnable)
    fix m ps
    let ?u = "t\<lparr>pt_size := pt_size t + 1, pt_mlf := m, pt_proc := ps\<rparr>"
    assume u: "table_inv ?u (Q[0 := Q ! 0 @ [p]])" "moved p ps (pt_proc t)" "p_state (ps ! p) = RUNNABLE"
    have "ptab {PtableLock} ?u (Q[0 := Q ! 0 @ [p]])" using u(1) t by (simp add: ptab_def)
    then show "wp (release PtableLock) R ?u"
    proof (rule wp_release_table)
      fix v
      assume "kframe ?u v" "ptab {} v (Q[0 := Q ! 0 @ [p]])" "same_table ?u v"
      then show "R () v"
        using u kt eq kframe_trans [of s ?u v] by (intro R) (simp_all add: same_table_def)
    qed simp
  qed (use st eq in simp_all)
  then show "wp (make_runnable p 0) (\<lambda>_. wp (release PtableLock) R) t" by simp
qed simp

text \<open>\<open>awoken ps ps'\<close>: some sleepers have become runnable, and no other process changed state.\<close>

definition awoken :: "proc list \<Rightarrow> proc list \<Rightarrow> bool" where
  "awoken ps ps' \<longleftrightarrow> (\<forall>r. p_pgdir (ps' ! r) = p_pgdir (ps ! r) \<and>
     (p_state (ps' ! r) = p_state (ps ! r) \<or> p_state (ps ! r) = SLEEPING \<and> p_state (ps' ! r) = RUNNABLE))"

lemma awoken_refl [simp]: "awoken ps ps"
  by (simp add: awoken_def)

lemma awokenD:
  "awoken ps ps' \<Longrightarrow> p_state (ps' ! r) = p_state (ps ! r) \<or> p_state (ps ! r) = SLEEPING \<and> p_state (ps' ! r) = RUNNABLE"
  by (simp add: awoken_def)

lemma awoken_trans: "awoken ps qs \<Longrightarrow> awoken qs rs \<Longrightarrow> awoken ps rs"
  unfolding awoken_def by metis

lemma woken_awoken:
  assumes "woken ch D ps' ps"
  shows "awoken ps ps'" and "p_parent (ps' ! r) = p_parent (ps ! r)"
  using assms pcoreD(2) [of "ps' ! r" "ps ! r" for r] pcoreD(5) [of "ps' ! r" "ps ! r"]
  by (auto simp: woken_def awoken_def sleeps_on_def)

lemma wp_reparent_body:
  assumes s: "ptab {PtableLock} s Q" and p: "p < NPROC"
    and R: "\<And>t Q'. kframe s t \<Longrightarrow> ptab {PtableLock} t Q' \<Longrightarrow> awoken (pt_proc s) (pt_proc t) \<Longrightarrow> nextpid t = nextpid s \<Longrightarrow>
      (\<forall>r. p_parent (pt_proc t ! r) =
         (if r = p \<and> p_parent (pt_proc s ! r) = Some me then ini else p_parent (pt_proc s ! r))) \<Longrightarrow> R () t"
  shows "wp (bnd (pget p) (\<lambda>r. whenever (p_parent r = Some me)
       (andthen (pset p (\<lambda>r. r\<lparr>p_parent := ini\<rparr>))
       (whenever (p_state r = ZOMBIE) (wakeup1 (map_option ProcChan ini)))))) R s"
proof -
  let ?u = "s\<lparr>pt_proc := (pt_proc s)[p := (pt_proc s ! p)\<lparr>p_parent := ini\<rparr>]\<rparr>"
  have len: "p < length (pt_proc s)" using p ptabD(4) [OF s] by simp
  have u: "ptab {PtableLock} ?u Q" by (rule ptab_same [OF s p]) simp_all
  have aw: "awoken (pt_proc s) (pt_proc ?u)" using len by (simp add: awoken_def)
  have "R () s" if "p_parent (pt_proc s ! p) \<noteq> Some me"
    by (rule R [where Q' = Q]) (use s that in auto)
  moreover have "R () ?u" if "p_parent (pt_proc s ! p) = Some me"
    by (rule R [where Q' = Q]) (use u that len aw in auto)
  moreover have "wp (wakeup1 (map_option ProcChan ini)) R ?u" if "p_parent (pt_proc s ! p) = Some me"
    using u
  proof (rule wp_wakeup1_table)
    fix t
    assume t: "kframe ?u t" "ptab {PtableLock} t (woken_queues (map_option ProcChan ini) (pt_proc ?u) Q)"
      "woken (map_option ProcChan ini) {..<NPROC} (pt_proc t) (pt_proc ?u)" "nextpid t = nextpid ?u"
    have "kframe s t" using t(1) by (simp add: kframe_def)
    then show "R () t"
      using t(2,4) awoken_trans [OF aw woken_awoken(1) [OF t(3)]] woken_awoken(2) [OF t(3)] that len
      by (intro R) auto
  qed
  ultimately show ?thesis using len by (simp add: wp_rules wp_table)
qed

lemma wp_reparent:
  assumes s: "ptab {PtableLock} s Q"
    and R: "\<And>t Q'. kframe s t \<Longrightarrow> ptab {PtableLock} t Q' \<Longrightarrow> awoken (pt_proc s) (pt_proc t) \<Longrightarrow> nextpid t = nextpid s \<Longrightarrow>
      (\<forall>r < NPROC. p_parent (pt_proc t ! r) =
         (if p_parent (pt_proc s ! r) = Some me then ini else p_parent (pt_proc s ! r))) \<Longrightarrow> R () t"
  shows "wp (reparent me ini) R s"
proof -
  define I where "I rest t \<longleftrightarrow> (\<exists>Q'. kframe s t \<and> ptab {PtableLock} t Q' \<and> awoken (pt_proc s) (pt_proc t) \<and>
    nextpid t = nextpid s \<and> (\<forall>r < NPROC. p_parent (pt_proc t ! r) =
      (if r \<notin> set rest \<and> p_parent (pt_proc s ! r) = Some me then ini else p_parent (pt_proc s ! r))))" for rest t
  show ?thesis
    unfolding reparent_def
  proof (rule wp_for_each [where I = I])
    show "I [0..<NPROC] s" unfolding I_def using s by auto
    show "R () t" if "I [] t" for t using that R unfolding I_def by auto
  next
    fix p rest t
    assume "I (p # rest) t" and "\<exists>pre. [0..<NPROC] = pre @ p # rest"
    then obtain Q' pre where t: "kframe s t" "ptab {PtableLock} t Q'" "awoken (pt_proc s) (pt_proc t)"
        "nextpid t = nextpid s"
      and par: "\<forall>r < NPROC. p_parent (pt_proc t ! r) =
        (if r \<notin> set (p # rest) \<and> p_parent (pt_proc s ! r) = Some me then ini else p_parent (pt_proc s ! r))"
      and pre: "[0..<NPROC] = pre @ p # rest"
      unfolding I_def by blast
    have "p \<in> set [0..<NPROC]" unfolding pre by simp
    then have p: "p < NPROC" by simp
    have "distinct [0..<NPROC]" by simp
    then have np: "p \<notin> set rest" unfolding pre by simp
    show "wp (bnd (pget p) (\<lambda>r. whenever (p_parent r = Some me)
       (andthen (pset p (\<lambda>r. r\<lparr>p_parent := ini\<rparr>))
       (whenever (p_state r = ZOMBIE) (wakeup1 (map_option ProcChan ini)))))) (\<lambda>_. I rest) t"
    proof (rule wp_reparent_body [OF t(2) p])
      fix u Q''
      assume u: "kframe t u" "ptab {PtableLock} u Q''" "awoken (pt_proc t) (pt_proc u)" "nextpid u = nextpid t"
        and par': "\<forall>r. p_parent (pt_proc u ! r) =
         (if r = p \<and> p_parent (pt_proc t ! r) = Some me then ini else p_parent (pt_proc t ! r))"
      have "\<forall>r < NPROC. p_parent (pt_proc u ! r) =
          (if r \<notin> set rest \<and> p_parent (pt_proc s ! r) = Some me then ini else p_parent (pt_proc s ! r))"
        using par par' np by auto
      then show "I rest u"
        unfolding I_def using u t kframe_trans awoken_trans by (metis (no_types, lifting))
    qed
  qed
qed

text \<open>What the table sees of \<open>exit\<close>: the process is a zombie, its children have passed to \<open>initproc\<close>,
  whoever slept on its parent's channel is awake.\<close>

definition exited :: "nat \<Rightarrow> nat option \<Rightarrow> proc list \<Rightarrow> proc list \<Rightarrow> bool" where
  "exited p ini ps ps' \<longleftrightarrow> p_state (ps' ! p) = ZOMBIE \<and>
     (\<forall>r. r \<noteq> p \<longrightarrow> p_state (ps' ! r) = p_state (ps ! r) \<or> p_state (ps ! r) = SLEEPING \<and> p_state (ps' ! r) = RUNNABLE) \<and>
     (\<forall>r. p_pgdir (ps' ! r) = p_pgdir (ps ! r)) \<and>
     (\<forall>r < NPROC. p_parent (ps' ! r) = (if p_parent (ps ! r) = Some p then ini else p_parent (ps ! r))) \<and>
     (\<forall>r < NPROC. r \<noteq> p \<longrightarrow> sleeps_on (map_option ProcChan (p_parent (ps ! p))) (ps ! r) \<longrightarrow> p_state (ps' ! r) = RUNNABLE)"

lemma wpa_exit_table_end:
  assumes s: "ptab {PtableLock} s Q" and cp: "c_proc (thecpu s) = Some p" and p: "p < NPROC"
    and st: "p_state (pt_proc s ! p) = RUNNING"
    and R: "\<And>t. kframe s t \<Longrightarrow> ptab {PtableLock} t Q \<Longrightarrow> restate p ZOMBIE (pt_proc s) (pt_proc t) \<Longrightarrow>
      (\<forall>r. p_parent (pt_proc t ! r) = p_parent (pt_proc s ! r)) \<Longrightarrow> R t"
  shows "wpa (andthen (pset p (\<lambda>r. r\<lparr>p_state := ZOMBIE\<rparr>)) (andthen (sched :: (_, unit) kop) (panic ''zombie exit''))) P R s"
proof -
  let ?r = "(pt_proc s ! p)\<lparr>p_state := ZOMBIE\<rparr>"
  let ?u = "s\<lparr>pt_proc := (pt_proc s)[p := ?r]\<rparr>"
  have len: "p < length (pt_proc s)" using p ptabD(4) [OF s] by simp
  have "0 \<le> p_current_level (pt_proc s ! p)" "p_current_level (pt_proc s ! p) < int MLF_LEVELS"
    using table_invD(2) [OF ptabD(3) [OF s]] p by (auto simp: levels_ok_def)
  then have u: "ptab {PtableLock} ?u Q" using ptab_live [OF s p, of ?r] st by simp
  then have "wpa sched (\<lambda>_. wpa (panic ''zombie exit'') P R) R ?u"
  proof (rule wpa_sched [where p = p])
    fix b
    let ?t = "?u\<lparr>pt_proc := (pt_proc ?u)[p := (pt_proc ?u ! p)\<lparr>p_intena := b\<rparr>]\<rparr>"
    assume "ptab {PtableLock} ?t Q"
    then show "R ?t" using len by (intro R) (simp_all add: restate_def)
  qed (use cp p len in simp_all)
  then show ?thesis using len by (simp add: wpa_andthen pset_def wpa_bnd wpa_gets wpa_upd)
qed

lemma wpa_exit_table:
  assumes s: "ptab {} s Q" and cp: "c_proc (thecpu s) = Some p" and p: "p < NPROC"
    and st: "p_state (pt_proc s ! p) = RUNNING"
    and R: "\<And>t Q'. kframe s t \<Longrightarrow> ptab {PtableLock} t Q' \<Longrightarrow> exited p (initproc s) (pt_proc s) (pt_proc t) \<Longrightarrow> R t"
  shows "wpa exit_table P R s"
  unfolding exit_table_def wpa_andthen wpa_bnd
proof (rule wpa_wp, rule wp_acquire_table [OF s])
  let ?ch = "map_option ProcChan (p_parent (pt_proc s ! p))"
  fix t
  assume kt: "kframe s t" and t: "ptab {PtableLock} t Q" and same: "same_table s t"
  have eq: "pt_proc t = pt_proc s" using same by (simp add: same_table_def)
  let ?fin = "andthen (pset p (\<lambda>r. r\<lparr>p_state := ZOMBIE\<rparr>)) (andthen (sched :: (_, unit) kop) (panic ''zombie exit''))"
  have "wp (wakeup1 ?ch) (\<lambda>_. wpa (gets initproc) (\<lambda>ini. wpa (reparent p ini) (\<lambda>_. wpa ?fin P R) R) R) t"
  proof (rule wp_wakeup1_table [OF t])
    fix u
    assume ku: "kframe t u" and u: "ptab {PtableLock} u (woken_queues ?ch (pt_proc t) Q)"
      and w: "woken ?ch {..<NPROC} (pt_proc u) (pt_proc t)"
    have ini: "initproc u = initproc s" using kframe_cproc(4) [OF kt] kframe_cproc(4) [OF ku] by simp
    show "wpa (gets initproc) (\<lambda>ini. wpa (reparent p ini) (\<lambda>_. wpa ?fin P R) R) R u"
      unfolding wpa_gets ini
    proof (rule wpa_wp, rule wp_reparent [OF u])
      fix v Q'
      assume kv: "kframe u v" and v: "ptab {PtableLock} v Q'" and aw: "awoken (pt_proc u) (pt_proc v)"
        and par: "\<forall>r < NPROC. p_parent (pt_proc v ! r) =
          (if p_parent (pt_proc u ! r) = Some p then initproc s else p_parent (pt_proc u ! r))"
      note ksv = kframe_trans [OF kframe_trans [OF kt ku] kv]
      have aw': "awoken (pt_proc s) (pt_proc v)" using awoken_trans [OF woken_awoken(1) [OF w] aw] eq by simp
      have wk: "p_state (pt_proc v ! r) = RUNNABLE" if "r < NPROC" "sleeps_on ?ch (pt_proc s ! r)" for r
        using w that eq awokenD [OF aw, of r] by (auto simp: woken_def)
      show "wpa ?fin P R v"
      proof (rule wpa_exit_table_end [OF v _ p])
        show "c_proc (thecpu v) = Some p" using cp kframe_cproc [OF ksv] by simp
        show "p_state (pt_proc v ! p) = RUNNING" using awokenD [OF aw', of p] st by auto
        fix x
        assume x: "kframe v x" "ptab {PtableLock} x Q'" "restate p ZOMBIE (pt_proc v) (pt_proc x)"
          "\<forall>r. p_parent (pt_proc x ! r) = p_parent (pt_proc v ! r)"
        have "exited p (initproc s) (pt_proc s) (pt_proc x)"
          using x(3,4) aw' par wk woken_awoken(2) [OF w] eq by (simp add: exited_def restate_def awoken_def)
        then show "R x" using x kframe_trans [OF ksv] by (intro R)
      qed
    qed
  qed
  then show "wpa myproc (\<lambda>me. wpa (pget me) (\<lambda>r. wpa (wakeup1 (map_option ProcChan (p_parent r)))
       (\<lambda>_. wpa (gets initproc) (\<lambda>ini. wpa (reparent me ini) (\<lambda>_. wpa (pset me (\<lambda>r. r\<lparr>p_state := ZOMBIE\<rparr>))
         (\<lambda>_. wpa (sched :: (_, unit) kop) (\<lambda>_. wpa (panic ''zombie exit'') P R) R) R) R) R) R) R) R t"
    using cp kframe_cproc [OF kt] p ptabD(4) [OF t]
    by (simp add: myproc_def curproc_def pget_def wpa_rules eq wpa_wp)
qed simp

section \<open>The scheduler\<close>

text \<open>\<open>sframe\<close> is what the scheduler leaves alone: the other CPUs.\<close>

definition sframe :: "'z kproc_scheme \<Rightarrow> 'z kproc_scheme \<Rightarrow> bool" where
  "sframe s t \<longleftrightarrow> mycpu t = mycpu s \<and> length (cpus t) = length (cpus s) \<and>
     (\<forall>d. d \<noteq> mycpu s \<longrightarrow> cpus t ! d = cpus s ! d)"

lemma kframe_sframe: "kframe s t \<Longrightarrow> sframe s t"
  by (auto simp: kframe_def sframe_def cpu_frame_length cpu_frame_others)

lemma ptab_cpu:
  assumes "ptab H s Q" and "c_ncli c = c_ncli (thecpu s)" and "c_if c = c_if (thecpu s)"
  shows "ptab H (s\<lparr>cpus := (cpus s)[mycpu s := c]\<rparr>) Q"
  using assms lksD(2) [OF ptabD(1) [OF assms(1)]] by (simp add: ptab_def lks_def holding_def)

lemma wp_switchuvm:
  assumes s: "ptab H s Q" and H: "H \<noteq> {}" and cp: "c_proc (thecpu s) = Some me" and me: "me < NPROC"
    and p: "p < NPROC" and pg: "p_pgdir (pt_proc s ! p) \<noteq> 0"
    and R: "\<And>c. ptab H (s\<lparr>cpus := (cpus s)[mycpu s := c]\<rparr>) Q \<Longrightarrow> c_proc c = Some me \<Longrightarrow>
      c_indice c = c_indice (thecpu s) \<Longrightarrow> c_cr3 c = V2P (p_pgdir (pt_proc s ! p)) \<Longrightarrow>
      c_esp0 c = p_kstack (pt_proc s ! me) + KSTACKSIZE \<Longrightarrow>
      R () (s\<lparr>cpus := (cpus s)[mycpu s := c]\<rparr>)"
  shows "wp (switchuvm p) R s"
proof -
  note L = lksD [OF ptabD(1) [OF s]]
  let ?c1 = "(thecpu s)\<lparr>c_if := False, c_ncli := c_ncli (thecpu s) + 1,
    c_intena := (if c_ncli (thecpu s) = 0 then c_if (thecpu s) else c_intena (thecpu s)),
    c_esp0 := p_kstack (pt_proc s ! me) + KSTACKSIZE, c_cr3 := V2P (p_pgdir (pt_proc s ! p))\<rparr>"
  have n: "0 < c_ncli (thecpu s)" "\<not> c_if (thecpu s)"
    using L(1,3,5) H by (auto simp: card_gt_0_iff)
  have "ptab H (s\<lparr>cpus := (cpus s)[mycpu s := popped ?c1]\<rparr>) Q"
    using ptab_cpu [OF s, of "popped ?c1"] n by (simp add: popped_def)
  then have "R () (s\<lparr>cpus := (cpus s)[mycpu s := popped ?c1]\<rparr>)"
    by (rule R) (use n cp in \<open>simp_all add: popped_def\<close>)
  then show ?thesis
    using L(2) n cp me p pg ptabD(4) [OF s]
    by (simp add: switchuvm_def wp_rules wp_pushcli wp_popcli upd_cpu_def myproc_def curproc_def pget_def)
qed

lemma wp_scheduler_pick:
  assumes s: "ptab {PtableLock} s Q" and i: "c_indice (thecpu s) = i" "i < MLF_LEVELS"
    and pg: "\<And>p. p < NPROC \<Longrightarrow> p_state (pt_proc s ! p) = RUNNABLE \<Longrightarrow> p_pgdir (pt_proc s ! p) \<noteq> 0"
    and none: "Q ! i = [] \<Longrightarrow> R None s"
    and some: "\<And>p xs t. Q ! i = p # xs \<Longrightarrow> p < NPROC \<Longrightarrow> p_state (pt_proc s ! p) = RUNNABLE \<Longrightarrow> sframe s t \<Longrightarrow>
      ptab {PtableLock} t (Q[i := xs]) \<Longrightarrow> restate p RUNNING (pt_proc s) (pt_proc t) \<Longrightarrow>
      c_proc (thecpu t) = Some p \<Longrightarrow> c_indice (thecpu t) = i \<Longrightarrow> p_quantum (pt_proc t ! p) = 0 \<Longrightarrow>
      p_current_level (pt_proc t ! p) = int i \<Longrightarrow> nextpid t = nextpid s \<Longrightarrow> R (Some p) t"
  shows "wp scheduler_pick R s"
proof -
  note inv = ptabD(3) [OF s] and len = ptabD(4,5) [OF s]
  note M = mlf_invD [OF table_invD(1) [OF inv]]
  have q: "q_first (pt_mlf s ! i) = (if Q ! i = [] then None else Some (hd (Q ! i)))"
    using M(4) [OF i(2)] by (simp add: qrep_def)
  show ?thesis
  proof (cases "Q ! i")
    case Nil
    then show ?thesis
      using none q i len by (simp add: scheduler_pick_def wp_rules wp_mlf_get)
  next
    case (Cons p xs)
    have p: "p < NPROC" "p_state (pt_proc s ! p) = RUNNABLE" using M(6) [OF i(2)] Cons by auto
    have cl: "mycpu s < length (cpus s)" using lksD(2) [OF ptabD(1) [OF s]] .
    let ?u = "s\<lparr>cpus := (cpus s)[mycpu s := (thecpu s)\<lparr>c_proc := Some p\<rparr>]\<rparr>"
    have u: "ptab {PtableLock} ?u Q" by (rule ptab_cpu [OF s]) simp_all
    have "wp (switchuvm p) (\<lambda>_. wp (make_running p) (\<lambda>_. wp (pset p (\<lambda>r. r\<lparr>p_quantum := 0\<rparr>)) (\<lambda>_. R (Some p)))) ?u"
    proof (rule wp_switchuvm [OF u, where me = p])
      fix c
      let ?v = "?u\<lparr>cpus := (cpus ?u)[mycpu ?u := c]\<rparr>"
      assume v: "ptab {PtableLock} ?v Q" and c: "c_proc c = Some p" "c_indice c = c_indice (thecpu ?u)"
      from ptabD(3) [OF v] i(2) Cons
      show "wp (make_running p) (\<lambda>_. wp (pset p (\<lambda>r. r\<lparr>p_quantum := 0\<rparr>)) (\<lambda>_. R (Some p))) ?v"
      proof (rule wp_make_running)
        fix m ps
        let ?w = "?v\<lparr>pt_size := pt_size ?v - 1, pt_mlf := m, pt_proc := ps\<rparr>"
        assume w: "table_inv ?w (Q[i := xs])" "moved p ps (pt_proc ?v)" "p_state (ps ! p) = RUNNING"
          "p_current_level (ps ! p) = int i"
        have pw: "ptab {PtableLock} ?w (Q[i := xs])" using w(1) v by (simp add: ptab_def)
        have pgs: "p_pgdir (ps ! r) = p_pgdir (pt_proc s ! r)" for r
          using w(2) pcoreD(2) [of "ps ! r"] by (simp add: moved_def)
        have lps: "length ps = NPROC" using ptabD(4) [OF pw] by simp
        let ?x = "?w\<lparr>pt_proc := (pt_proc ?w)[p := (pt_proc ?w ! p)\<lparr>p_quantum := 0\<rparr>]\<rparr>"
        have "ptab {PtableLock} ?x (Q[i := xs])" by (rule ptab_same [OF pw p(1)]) simp_all
        then have "R (Some p) ?x"
          using Cons p w(2-4) pgs lps c i cl
          by (intro some) (simp_all add: sframe_def restate_def moved_def)
        then show "wp (pset p (\<lambda>r. r\<lparr>p_quantum := 0\<rparr>)) (\<lambda>_. R (Some p)) ?w"
          using p lps by (simp add: wp_pset)
      qed
    qed (use p pg cl in simp_all)
    then show ?thesis
      using Cons q i len p by (simp add: scheduler_pick_def wp_rules wp_mlf_get wp_pget upd_cpu_def)
  qed
qed

end
