(* ===== verification/Sched_Sys.thy ===== *)
theory Sched_Sys
  imports Sched_Inv
begin

text \<open>
  All CPUs at work on the process table. A step is one CPU running one piece of kernel code between
  two switches: a piece of the loop of \<open>scheduler\<close>, the return of a process from \<open>sched\<close>, or an
  operation of a running process on the table. The table's lock passes from a process to the
  scheduler and on to the next process, as in the code. The steps of all CPUs interleave.
\<close>

section \<open>The steps\<close>

text \<open>
  Where a CPU is: at the top of the scheduler's loop (\<open>Outer\<close>); in the inner loop, holding the
  lock (\<open>Inner\<close>); switched to a process that still holds the lock (\<open>Enter\<close>); running a process (\<open>User\<close>);
  back from a process that holds the lock (\<open>Back\<close>).
\<close>

datatype phase = Outer | Inner | Enter nat | User nat | Back nat

fun locking :: "phase \<Rightarrow> bool" where
  "locking Inner = True" | "locking (Enter p) = True" | "locking (Back p) = True"
| "locking Outer = False" | "locking (User p) = False"

fun runs :: "phase \<Rightarrow> nat option" where
  "runs (Enter p) = Some p" | "runs (User p) = Some p" | "runs (Back p) = None"
| "runs Outer = None" | "runs Inner = None"

fun has_proc :: "phase \<Rightarrow> nat option" where
  "has_proc (Enter p) = Some p" | "has_proc (User p) = Some p" | "has_proc (Back p) = Some p"
| "has_proc Outer = None" | "has_proc Inner = None"

abbreviation on :: "nat \<Rightarrow> 'z kproc_scheme \<Rightarrow> 'z kproc_scheme" where
  "on c s \<equiv> s\<lparr>mycpu := c\<rparr>"

text \<open>The part of \<open>wait\<close> that frees a child, with the lock around it.\<close>

definition reap :: "nat \<Rightarrow> ('z kproc_scheme, unit) kop" where
  "reap q = andthen (acquire PtableLock) (andthen (reap_slot q) (release PtableLock))"

text \<open>
  A CPU that finds the table's lock taken spins: it takes no step. So an operation that begins with
  \<open>acquire(&ptable.lock)\<close> runs where the lock is free.
\<close>

definition table_free :: "'z kproc_scheme \<Rightarrow> bool" where
  "table_free s \<longleftrightarrow> lk_locked (spinlocks s PtableLock) = 0"

text \<open>
  A step is labelled with the levels that a process gives \<open>set_priority\<close> in it. \<open>set_priority\<close> looks neither at the level nor at
  the table's lock, so a process may call it with any number, also while another CPU works on the table. A process goes to sleep
  on a channel with a lock its caller took before (\<open>sleeps\<close>), and lets the lock go when it is back (\<open>slept\<close>); in \<open>wait\<close> the lock is
  the table's own. A new process starts in \<open>forkret\<close>; \<open>fills\<close> is what \<open>allocproc\<close>, \<open>fork\<close> and \<open>userinit\<close> write to a slot that is
  not in use yet.
\<close>

inductive sched_step :: "'z kproc_scheme \<times> (nat \<Rightarrow> phase) \<Rightarrow> int list \<Rightarrow> 'z kproc_scheme \<times> (nat \<Rightarrow> phase) \<Rightarrow> bool" where
  top: "c < length (cpus s) \<Longrightarrow> ph c = Outer \<Longrightarrow> table_free s \<Longrightarrow> scheduler_top (on c s) = Done () t \<Longrightarrow>
    sched_step (s, ph) [] (t, ph(c := Inner))"
| pick: "c < length (cpus s) \<Longrightarrow> ph c = Inner \<Longrightarrow> c_indice (cpus s ! c) < MLF_LEVELS \<Longrightarrow>
    scheduler_pick (on c s) = Done (Some p) t \<Longrightarrow> sched_step (s, ph) [] (t, ph(c := Enter p))"
| miss: "c < length (cpus s) \<Longrightarrow> ph c = Inner \<Longrightarrow> c_indice (cpus s ! c) < MLF_LEVELS \<Longrightarrow>
    scheduler_pick (on c s) = Done None t \<Longrightarrow> scheduler_advance t = Done () u \<Longrightarrow>
    sched_step (s, ph) [] (u, ph(c := Inner))"
| out: "c < length (cpus s) \<Longrightarrow> ph c = Inner \<Longrightarrow> \<not> c_indice (cpus s ! c) < MLF_LEVELS \<Longrightarrow>
    scheduler_out (on c s) = Done () t \<Longrightarrow> sched_step (s, ph) [] (t, ph(c := Outer))"
| swtched: "c < length (cpus s) \<Longrightarrow> ph c = Back p \<Longrightarrow> andthen scheduler_back scheduler_advance (on c s) = Done () t \<Longrightarrow>
    sched_step (s, ph) [] (t, ph(c := Inner))"
| forkret: "c < length (cpus s) \<Longrightarrow> ph c = Enter p \<Longrightarrow> release PtableLock (on c s) = Done () t \<Longrightarrow>
    sched_step (s, ph) [] (t, ph(c := User p))"
| yielded: "c < length (cpus s) \<Longrightarrow> ph c = Enter p \<Longrightarrow> yield_return (on c s) = Done () t \<Longrightarrow>
    sched_step (s, ph) [] (t, ph(c := User p))"
| slept: "c < length (cpus s) \<Longrightarrow> ph c = Enter p \<Longrightarrow> andthen (sleep_return l) (release l) (on c s) = Done () t \<Longrightarrow>
    sched_step (s, ph) [] (t, ph(c := User p))"
| yields: "c < length (cpus s) \<Longrightarrow> ph c = User p \<Longrightarrow> table_free s \<Longrightarrow> (yield :: (_, unit) kop) (on c s) = Asleep t \<Longrightarrow>
    sched_step (s, ph) [] (t, ph(c := Back p))"
| sleeps: "c < length (cpus s) \<Longrightarrow> ph c = User p \<Longrightarrow> table_free s \<Longrightarrow>
    andthen (acquire l) (sleep ch (Some l) :: (_, unit) kop) (on c s) = Asleep t \<Longrightarrow>
    sched_step (s, ph) [] (t, ph(c := Back p))"
| exits: "c < length (cpus s) \<Longrightarrow> ph c = User p \<Longrightarrow> table_free s \<Longrightarrow> (exit_table :: (_, unit) kop) (on c s) = Asleep t \<Longrightarrow>
    sched_step (s, ph) [] (t, ph(c := Back p))"
| wakes: "c < length (cpus s) \<Longrightarrow> \<not> locking (ph c) \<Longrightarrow> table_free s \<Longrightarrow> wakeup ch (on c s) = Done () t \<Longrightarrow>
    sched_step (s, ph) [] (t, ph)"
| kills: "c < length (cpus s) \<Longrightarrow> ph c = User p \<Longrightarrow> table_free s \<Longrightarrow> kill pid (on c s) = Done v t \<Longrightarrow>
    sched_step (s, ph) [] (t, ph)"
| allocs: "c < length (cpus s) \<Longrightarrow> ph c = User p \<Longrightarrow> table_free s \<Longrightarrow> alloc_slot (on c s) = Done q t \<Longrightarrow>
    sched_step (s, ph) [] (t, ph)"
| fills: "c < length (cpus s) \<Longrightarrow> ph c = User p \<Longrightarrow> q < NPROC \<Longrightarrow> p_state (pt_proc s ! q) = EMBRYO \<Longrightarrow>
    p_state r = EMBRYO \<or> p_state r = UNUSED \<Longrightarrow> p_pid r = p_pid (pt_proc s ! q) \<Longrightarrow>
    p_current_level r = p_current_level (pt_proc s ! q) \<Longrightarrow> pset q (\<lambda>_. r) (on c s) = Done () t \<Longrightarrow>
    sched_step (s, ph) [] (t, ph)"
| publishes: "c < length (cpus s) \<Longrightarrow> ph c = User p \<Longrightarrow> table_free s \<Longrightarrow> q < NPROC \<Longrightarrow>
    p_state (pt_proc s ! q) = EMBRYO \<Longrightarrow> p_pgdir (pt_proc s ! q) \<noteq> 0 \<Longrightarrow> publish q (on c s) = Done () t \<Longrightarrow>
    sched_step (s, ph) [] (t, ph)"
| reaps: "c < length (cpus s) \<Longrightarrow> ph c = User p \<Longrightarrow> table_free s \<Longrightarrow> q < NPROC \<Longrightarrow>
    p_state (pt_proc s ! q) = ZOMBIE \<Longrightarrow> p_parent (pt_proc s ! q) = Some p \<Longrightarrow> reap q (on c s) = Done () t \<Longrightarrow>
    sched_step (s, ph) [] (t, ph)"
| sets: "c < length (cpus s) \<Longrightarrow> ph c = User p \<Longrightarrow> set_priority p k (on c s) = Done () t \<Longrightarrow>
    sched_step (s, ph) [k] (t, ph)"

inductive_cases sched_stepE: "sched_step x ks y"

text \<open>A run, with the levels that \<open>set_priority\<close> was given on the way.\<close>

inductive sched_run :: "'z kproc_scheme \<times> (nat \<Rightarrow> phase) \<Rightarrow> int list \<Rightarrow> 'z kproc_scheme \<times> (nat \<Rightarrow> phase) \<Rightarrow> bool" where
  start: "sched_run x [] x"
| step: "sched_run x ks y \<Longrightarrow> sched_step y ls z \<Longrightarrow> sched_run x (ks @ ls) z"

definition level_ok :: "int \<Rightarrow> bool" where
  "level_ok k \<longleftrightarrow> 0 \<le> k \<and> k < int MLF_LEVELS"

section \<open>The invariant of the system\<close>

text \<open>
  Locks: a CPU in a phase that holds the table's lock does hold it and no other; the others hold
  none; when no CPU is in such a phase every lock is free.
\<close>

definition locks_inv :: "'z kproc_scheme \<Rightarrow> (nat \<Rightarrow> phase) \<Rightarrow> bool" where
  "locks_inv s ph \<longleftrightarrow>
     (\<forall>c < length (cpus s). if locking (ph c) then lks {PtableLock} (on c s) else c_ncli (cpus s ! c) = 0) \<and>
     ((\<forall>c < length (cpus s). \<not> locking (ph c)) \<longrightarrow> (\<forall>l. lk_locked (spinlocks s l) = 0))"

text \<open>
  Processes: a CPU's \<open>proc\<close> is the process it runs; a process is \<open>RUNNING\<close> just when a CPU runs it,
  and then one CPU only; a process that can run has a page table.
\<close>

definition procs_inv :: "proc list \<Rightarrow> cpu list \<Rightarrow> (nat \<Rightarrow> phase) \<Rightarrow> bool" where
  "procs_inv ps cs ph \<longleftrightarrow>
     (\<forall>c < length cs. c_proc (cs ! c) = has_proc (ph c)) \<and>
     (\<forall>c < length cs. has_proc (ph c) \<noteq> None \<longrightarrow> c_indice (cs ! c) < MLF_LEVELS) \<and>
     (\<forall>c < length cs. \<forall>p. runs (ph c) = Some p \<longrightarrow> p < NPROC \<and> p_state (ps ! p) = RUNNING) \<and>
     (\<forall>c < length cs. \<forall>d < length cs. runs (ph c) \<noteq> None \<longrightarrow> runs (ph c) = runs (ph d) \<longrightarrow> c = d) \<and>
     (\<forall>p < NPROC. p_state (ps ! p) = RUNNING \<longrightarrow> (\<exists>c < length cs. runs (ph c) = Some p)) \<and>
     (\<forall>p < NPROC. p_state (ps ! p) \<in> {SLEEPING, RUNNABLE, RUNNING} \<longrightarrow> p_pgdir (ps ! p) \<noteq> 0)"

definition sys_inv :: "'z kproc_scheme \<times> (nat \<Rightarrow> phase) \<Rightarrow> bool" where
  "sys_inv x \<longleftrightarrow> (case x of (s, ph) \<Rightarrow> (\<exists>Q. table_inv s Q) \<and> con_ok s \<and> locks_inv s ph \<and>
     procs_inv (pt_proc s) (cpus s) ph)"

lemma sys_invD:
  assumes "sys_inv (s, ph)"
  shows "\<exists>Q. table_inv s Q" and "con_ok s" and "locks_inv s ph" and "procs_inv (pt_proc s) (cpus s) ph"
  using assms by (simp_all add: sys_inv_def)

lemma ptab_on_inv: "lks H (on c s) \<Longrightarrow> con_ok s \<Longrightarrow> table_inv s Q \<Longrightarrow> ptab H (on c s) Q"
  by (simp add: ptab_def con_ok_def crt_ok_def)

lemma sys_locked:
  assumes "sys_inv (s, ph)" and "c < length (cpus s)" and "locking (ph c)"
  obtains Q where "ptab {PtableLock} (on c s) Q" and "\<forall>d < length (cpus s). d \<noteq> c \<longrightarrow> \<not> locking (ph d)"
proof -
  note D = sys_invD [OF assms(1)]
  have l: "lks {PtableLock} (on d s)" if "d < length (cpus s)" "locking (ph d)" for d
    using D(3) that by (simp add: locks_inv_def)
  have "\<not> locking (ph d)" if "d < length (cpus s)" "d \<noteq> c" for d
    using l [OF assms(2,3)] l [of d] that by (auto simp: lks_def holding_def)
  then show ?thesis using that ptab_on_inv [OF l [OF assms(2,3)] D(2)] D(1) by blast
qed

lemma sys_free:
  assumes "sys_inv (s, ph)" and "c < length (cpus s)" and "\<not> locking (ph c)" and "table_free s"
  obtains Q where "ptab {} (on c s) Q" and "\<forall>d < length (cpus s). d \<noteq> c \<longrightarrow> \<not> locking (ph d)"
proof -
  note D = sys_invD [OF assms(1)]
  have n: "\<not> locking (ph d)" if "d < length (cpus s)" for d
    using D(3) that assms(4) by (auto simp: locks_inv_def lks_def holding_def table_free_def)
  then have "\<forall>l. lk_locked (spinlocks s l) = 0" "c_ncli (cpus s ! c) = 0"
    using D(3) assms(2,3) by (auto simp: locks_inv_def)
  then have "lks {} (on c s)" using assms(2) by (simp add: lks_def)
  then show ?thesis using that n ptab_on_inv [OF _ D(2)] D(1) by blast
qed

text \<open>One CPU's step re-establishes the invariant, if the other CPUs hold no lock.\<close>

lemma sys_inv_after:
  assumes inv: "sys_inv (s, ph)" and c: "c < length (cpus s)"
    and free: "\<forall>d < length (cpus s). d \<noteq> c \<longrightarrow> \<not> locking (ph d)"
    and fr: "sframe (on c s) t" and t: "ptab (if locking f then {PtableLock} else {}) t Q"
    and ps: "procs_inv (pt_proc t) (cpus t) (ph(c := f))"
  shows "sys_inv (t, ph(c := f))"
proof -
  have len: "length (cpus t) = length (cpus s)" and my: "mycpu t = c"
    and oth: "\<And>d. d \<noteq> c \<Longrightarrow> cpus t ! d = cpus s ! d" using fr by (auto simp: sframe_def)
  have on: "on c t = t" using my by simp
  have other: "c_ncli (cpus t ! d) = 0" if "d < length (cpus s)" "d \<noteq> c" for d
    using sys_invD(3) [OF inv] free that oth by (simp add: locks_inv_def)
  note L = ptabD(1) [OF t]
  have "locks_inv t (ph(c := f))"
    unfolding locks_inv_def
  proof (intro conjI allI impI)
    fix d
    assume d: "d < length (cpus t)"
    show "if locking ((ph(c := f)) d) then lks {PtableLock} (on d t) else c_ncli (cpus t ! d) = 0"
    proof (cases "d = c")
      case True
      then show ?thesis using L lksD(3) [OF L] my on by auto
    next
      case False
      then show ?thesis using free other d len by simp
    qed
  next
    fix l
    assume "\<forall>d < length (cpus t). \<not> locking ((ph(c := f)) d)"
    then have "\<not> locking f" using c len by (auto dest: spec [of _ c])
    then show "lk_locked (spinlocks t l) = 0" using L lksD(6) [OF L] by simp
  qed
  then show ?thesis using ptabD(2,3) [OF t] ps by (auto simp: sys_inv_def)
qed

lemma procs_invD:
  assumes "procs_inv ps cs ph"
  shows "c < length cs \<Longrightarrow> c_proc (cs ! c) = has_proc (ph c)"
    and "c < length cs \<Longrightarrow> has_proc (ph c) \<noteq> None \<Longrightarrow> c_indice (cs ! c) < MLF_LEVELS"
    and "c < length cs \<Longrightarrow> runs (ph c) = Some p \<Longrightarrow> p < NPROC \<and> p_state (ps ! p) = RUNNING"
    and "c < length cs \<Longrightarrow> d < length cs \<Longrightarrow> runs (ph c) = Some p \<Longrightarrow> runs (ph d) = Some p \<Longrightarrow> c = d"
    and "p < NPROC \<Longrightarrow> p_state (ps ! p) = RUNNING \<Longrightarrow> \<exists>c < length cs. runs (ph c) = Some p"
    and "p < NPROC \<Longrightarrow> p_state (ps ! p) \<in> {SLEEPING, RUNNABLE, RUNNING} \<Longrightarrow> p_pgdir (ps ! p) \<noteq> 0"
  using assms unfolding procs_inv_def by (blast, blast, blast, simp, blast, blast)

lemma procs_invI:
  assumes "\<And>c. c < length cs \<Longrightarrow> c_proc (cs ! c) = has_proc (ph c)"
    and "\<And>c. c < length cs \<Longrightarrow> has_proc (ph c) \<noteq> None \<Longrightarrow> c_indice (cs ! c) < MLF_LEVELS"
    and "\<And>c p. c < length cs \<Longrightarrow> runs (ph c) = Some p \<Longrightarrow> p < NPROC \<and> p_state (ps ! p) = RUNNING"
    and "\<And>c d p. c < length cs \<Longrightarrow> d < length cs \<Longrightarrow> runs (ph c) = Some p \<Longrightarrow> runs (ph d) = Some p \<Longrightarrow> c = d"
    and "\<And>p. p < NPROC \<Longrightarrow> p_state (ps ! p) = RUNNING \<Longrightarrow> \<exists>c < length cs. runs (ph c) = Some p"
    and "\<And>p. p < NPROC \<Longrightarrow> p_state (ps ! p) \<in> {SLEEPING, RUNNABLE, RUNNING} \<Longrightarrow> p_pgdir (ps ! p) \<noteq> 0"
  shows "procs_inv ps cs ph"
proof -
  have "\<forall>c < length cs. \<forall>d < length cs. runs (ph c) \<noteq> None \<longrightarrow> runs (ph c) = runs (ph d) \<longrightarrow> c = d"
    using assms(4) by (metis not_None_eq)
  then show ?thesis unfolding procs_inv_def using assms(1-3,5,6) by blast
qed

lemma procs_inv_same:
  assumes inv: "procs_inv ps cs ph" and len: "length cs' = length cs"
    and cpu: "\<And>c. c < length cs \<Longrightarrow> c_proc (cs' ! c) = c_proc (cs ! c) \<and> c_indice (cs' ! c) = c_indice (cs ! c)"
    and ph: "\<And>c. has_proc (ph' c) = has_proc (ph c) \<and> runs (ph' c) = runs (ph c)"
    and st: "\<And>p. p < NPROC \<Longrightarrow> (p_state (ps' ! p) = RUNNING) = (p_state (ps ! p) = RUNNING)"
      "\<And>p. p < NPROC \<Longrightarrow> p_state (ps' ! p) \<in> {SLEEPING, RUNNABLE, RUNNING} \<Longrightarrow> p_pgdir (ps' ! p) \<noteq> 0"
  shows "procs_inv ps' cs' ph'"
  using procs_invD [OF inv] st by (intro procs_invI) (simp_all only: len cpu ph not_False_eq_True)

lemma procs_inv_leave:
  assumes inv: "procs_inv ps cs ph" and len: "length cs' = length cs" and c: "c < length cs"
    and cpu: "\<And>c. c < length cs \<Longrightarrow> c_proc (cs' ! c) = c_proc (cs ! c) \<and> c_indice (cs' ! c) = c_indice (cs ! c)"
    and ph: "ph c = User p"
    and st: "p_state (ps' ! p) \<noteq> RUNNING"
      "\<And>r. r < NPROC \<Longrightarrow> r \<noteq> p \<Longrightarrow> (p_state (ps' ! r) = RUNNING) = (p_state (ps ! r) = RUNNING)"
      "\<And>r. r < NPROC \<Longrightarrow> p_state (ps' ! r) \<in> {SLEEPING, RUNNABLE, RUNNING} \<Longrightarrow> p_pgdir (ps' ! r) \<noteq> 0"
  shows "procs_inv ps' cs' (ph(c := Back p))"
proof (rule procs_invI)
  note D = procs_invD [OF inv]
  have r: "runs (ph c) = Some p" "has_proc (ph c) = Some p" using ph by simp_all
  have other: "d \<noteq> c \<and> runs (ph d) = Some q" if "runs ((ph(c := Back p)) d) = Some q" for d q
    using that by (auto split: if_splits)
  show "c_proc (cs' ! d) = has_proc ((ph(c := Back p)) d)" if "d < length cs'" for d
    using D(1) [of d] that len cpu r by auto
  show "c_indice (cs' ! d) < MLF_LEVELS" if "d < length cs'" "has_proc ((ph(c := Back p)) d) \<noteq> None" for d
    using D(2) [of d] that len cpu r by (auto split: if_splits)
  show "q < NPROC \<and> p_state (ps' ! q) = RUNNING" if "d < length cs'" "runs ((ph(c := Back p)) d) = Some q" for d q
  proof -
    have d: "d \<noteq> c" "runs (ph d) = Some q" "d < length cs" using other [OF that(2)] that(1) len by simp_all
    then have "q \<noteq> p" using D(4) [OF c, of d p] r by metis
    then show ?thesis using D(3) [OF d(3,2)] st(2) [of q] by blast
  qed
  show "a = b" if "a < length cs'" "b < length cs'" "runs ((ph(c := Back p)) a) = Some q"
      "runs ((ph(c := Back p)) b) = Some q" for a b q
    using D(4) [of a b q] other [OF that(3)] other [OF that(4)] that(1,2) len by simp
  show "\<exists>d < length cs'. runs ((ph(c := Back p)) d) = Some q" if q: "q < NPROC" "p_state (ps' ! q) = RUNNING" for q
  proof -
    have "q \<noteq> p" "p_state (ps ! q) = RUNNING" using q st by auto
    then obtain d where "d < length cs" "runs (ph d) = Some q" using D(5) [of q] q by blast
    then show ?thesis using r \<open>q \<noteq> p\<close> len by (intro exI [of _ d]) auto
  qed
qed (use st in auto)

lemma procs_inv_enter:
  assumes inv: "procs_inv ps cs ph" and len: "length cs' = length cs" and c: "c < length cs"
    and ph: "ph c = Inner" and p: "p < NPROC" "p_state (ps ! p) = RUNNABLE"
    and cpu: "\<And>d. d \<noteq> c \<Longrightarrow> cs' ! d = cs ! d" "c_proc (cs' ! c) = Some p" "c_indice (cs' ! c) < MLF_LEVELS"
    and st: "restate p RUNNING ps ps'"
  shows "procs_inv ps' cs' (ph(c := Enter p))"
proof (rule procs_invI)
  note D = procs_invD [OF inv]
  have rs: "p_state (ps' ! p) = RUNNING" "\<And>r. r \<noteq> p \<Longrightarrow> p_state (ps' ! r) = p_state (ps ! r)"
    "\<And>r. p_pgdir (ps' ! r) = p_pgdir (ps ! r)" using st by (auto simp: restate_def)
  have no: "runs (ph d) \<noteq> Some p" if "d < length cs" for d
    using D(3) [OF that, of p] p by auto
  show "c_proc (cs' ! d) = has_proc ((ph(c := Enter p)) d)" if "d < length cs'" for d
    using D(1) [of d] that len cpu by auto
  show "c_indice (cs' ! d) < MLF_LEVELS" if "d < length cs'" "has_proc ((ph(c := Enter p)) d) \<noteq> None" for d
    using D(2) [of d] that len cpu by (auto split: if_splits)
  show "q < NPROC \<and> p_state (ps' ! q) = RUNNING" if "d < length cs'" "runs ((ph(c := Enter p)) d) = Some q" for d q
    using D(3) [of d q] that len rs(1) rs(2) [of q] p by (cases "q = p") (auto split: if_splits)
  show "a = b" if "a < length cs'" "b < length cs'" "runs ((ph(c := Enter p)) a) = Some q"
      "runs ((ph(c := Enter p)) b) = Some q" for a b q
    using D(4) [of a b q] no that len by (auto split: if_splits)
  show "\<exists>d < length cs'. runs ((ph(c := Enter p)) d) = Some q" if q: "q < NPROC" "p_state (ps' ! q) = RUNNING" for q
  proof (cases "q = p")
    case True
    then show ?thesis using c len by (intro exI [of _ c]) simp
  next
    case False
    then obtain d where "d < length cs" "runs (ph d) = Some q" using D(5) [of q] q rs by auto
    then show ?thesis using ph len by (intro exI [of _ d]) auto
  qed
  show "p_pgdir (ps' ! q) \<noteq> 0" if "q < NPROC" "p_state (ps' ! q) \<in> {SLEEPING, RUNNABLE, RUNNING}" for q
    using D(6) [of q] that rs p by (cases "q = p") auto
qed

lemma procs_inv_back:
  assumes inv: "procs_inv ps cs ph" and len: "length cs' = length cs"
    and ph: "ph c = Back p" and cpu: "\<And>d. d \<noteq> c \<Longrightarrow> cs' ! d = cs ! d" "c_proc (cs' ! c) = None"
  shows "procs_inv ps cs' (ph(c := Inner))"
proof (rule procs_invI)
  note D = procs_invD [OF inv]
  have other: "d \<noteq> c \<and> runs (ph d) = Some q" if "runs ((ph(c := Inner)) d) = Some q" for d q
    using that by (auto split: if_splits)
  show "c_proc (cs' ! d) = has_proc ((ph(c := Inner)) d)" if "d < length cs'" for d
    using D(1) [of d] that len cpu by auto
  show "c_indice (cs' ! d) < MLF_LEVELS" if "d < length cs'" "has_proc ((ph(c := Inner)) d) \<noteq> None" for d
    using D(2) [of d] that len cpu by (auto split: if_splits)
  show "q < NPROC \<and> p_state (ps ! q) = RUNNING" if "d < length cs'" "runs ((ph(c := Inner)) d) = Some q" for d q
    using D(3) [of d q] other [OF that(2)] that len by auto
  show "a = b" if "a < length cs'" "b < length cs'" "runs ((ph(c := Inner)) a) = Some q"
      "runs ((ph(c := Inner)) b) = Some q" for a b q
    using D(4) [of a b q] other [OF that(3)] other [OF that(4)] that(1,2) len by simp
  show "\<exists>d < length cs'. runs ((ph(c := Inner)) d) = Some q" if q: "q < NPROC" "p_state (ps ! q) = RUNNING" for q
  proof -
    obtain d where "d < length cs" "runs (ph d) = Some q" using D(5) [of q] q by blast
    then show ?thesis using ph len by (intro exI [of _ d]) auto
  qed
qed (use procs_invD(6) [OF inv] in auto)

section \<open>Every step keeps the invariant\<close>

text \<open>Each lemma shows that the code of a step returns (or gives up the CPU), and what it leaves.\<close>

lemma kframe_on:
  assumes "kframe (on c s) t"
  shows "length (cpus t) = length (cpus s)"
    and "c_proc (cpus t ! d) = c_proc (cpus s ! d) \<and> c_indice (cpus t ! d) = c_indice (cpus s ! d)"
  using assms cpu_frame_length [of c "cpus t" "cpus s"] cpu_frameD(1,2) [of c "cpus t" "cpus s" d]
  by (simp_all add: kframe_def)

text \<open>A step of code that neither starts nor stops a process, in a CPU that holds no lock.\<close>

lemma sys_inv_kstep:
  assumes inv: "sys_inv (s, ph)" and c: "c < length (cpus s)" and nl: "\<not> locking (ph c)"
    and free: "\<forall>d < length (cpus s). d \<noteq> c \<longrightarrow> \<not> locking (ph d)"
    and fr: "kframe (on c s) t" and t: "ptab {} t Q"
    and st: "\<And>p. p < NPROC \<Longrightarrow> (p_state (pt_proc t ! p) = RUNNING) = (p_state (pt_proc s ! p) = RUNNING)"
      "\<And>p. p < NPROC \<Longrightarrow> p_state (pt_proc t ! p) \<in> {SLEEPING, RUNNABLE, RUNNING} \<Longrightarrow> p_pgdir (pt_proc t ! p) \<noteq> 0"
  shows "sys_inv (t, ph)"
proof -
  have "procs_inv (pt_proc t) (cpus t) (ph(c := ph c))"
    using sys_invD(4) [OF inv] by (rule procs_inv_same) (use kframe_on [OF fr] st in auto)
  then have "sys_inv (t, ph(c := ph c))"
    using nl by (intro sys_inv_after [OF inv c free kframe_sframe [OF fr]]) (use t in simp_all)
  then show ?thesis by simp
qed

lemma sys_wakeup:
  assumes inv: "sys_inv (s, ph)" and c: "c < length (cpus s)" and nl: "\<not> locking (ph c)" and fr: "table_free s"
  shows "wp (wakeup ch) (\<lambda>_ t. sys_inv (t, ph)) (on c s)"
proof -
  obtain Q where Q: "ptab {} (on c s) Q" and free: "\<forall>d < length (cpus s). d \<noteq> c \<longrightarrow> \<not> locking (ph d)"
    by (rule sys_free [OF inv c nl fr])
  show ?thesis
  proof (rule wp_wakeup [OF Q])
    fix t
    assume t: "kframe (on c s) t" "ptab {} t (woken_queues (Some ch) (pt_proc (on c s)) Q)"
      and w: "woken (Some ch) {..<NPROC} (pt_proc t) (pt_proc (on c s))"
    have aw: "awoken (pt_proc s) (pt_proc t)" using woken_awoken(1) [OF w] by simp
    show "sys_inv (t, ph)"
      using inv c nl free t
    proof (rule sys_inv_kstep)
      fix p
      assume p: "p < NPROC"
      show "(p_state (pt_proc t ! p) = RUNNING) = (p_state (pt_proc s ! p) = RUNNING)"
        using awokenD [OF aw, of p] by auto
      show "p_pgdir (pt_proc t ! p) \<noteq> 0" if "p_state (pt_proc t ! p) \<in> {SLEEPING, RUNNABLE, RUNNING}"
        using procs_invD(6) [OF sys_invD(4) [OF inv] p] that aw [unfolded awoken_def, rule_format, of p] by auto
    qed
  qed simp
qed

lemma sys_kill:
  assumes inv: "sys_inv (s, ph)" and c: "c < length (cpus s)" and nl: "\<not> locking (ph c)" and fr: "table_free s"
  shows "wp (kill pid) (\<lambda>_ t. sys_inv (t, ph)) (on c s)"
proof -
  obtain Q where Q: "ptab {} (on c s) Q" and free: "\<forall>d < length (cpus s). d \<noteq> c \<longrightarrow> \<not> locking (ph d)"
    by (rule sys_free [OF inv c nl fr])
  show ?thesis
  proof (rule wp_kill [OF Q])
    fix t Q' v
    assume t: "kframe (on c s) t" "ptab {} t Q'" and k: "kill_post pid (pt_proc (on c s)) Q v (pt_proc t) Q'"
    have aw: "p_pgdir (pt_proc t ! r) = p_pgdir (pt_proc s ! r) \<and> (p_state (pt_proc t ! r) = p_state (pt_proc s ! r) \<or>
        p_state (pt_proc s ! r) = SLEEPING \<and> p_state (pt_proc t ! r) = RUNNABLE)" for r
    proof (cases "find (\<lambda>p. p_pid (pt_proc s ! p) = pid) [0..<NPROC]")
      case (Some q)
      then have kk: "killed_in q (pt_proc s) Q (pt_proc t) Q'" using k by (simp add: kill_post_def)
      then have "p_pgdir (pt_proc t ! r) = p_pgdir (pt_proc s ! r)"
        using pcoreD(2) [of "pt_proc t ! r" "pt_proc s ! r"]
          pcoreD(2) [of "pt_proc t ! r" "(pt_proc s ! r)\<lparr>p_killed := True\<rparr>"]
        by (cases "r = q") (auto simp: killed_in_def)
      then show ?thesis using kk by (cases "r = q") (auto simp: killed_in_def split: if_splits)
    qed (use k in \<open>simp add: kill_post_def\<close>)
    show "sys_inv (t, ph)"
      using inv c nl free t
    proof (rule sys_inv_kstep)
      fix p
      assume p: "p < NPROC"
      show "(p_state (pt_proc t ! p) = RUNNING) = (p_state (pt_proc s ! p) = RUNNING)"
        using aw [of p] by auto
      show "p_pgdir (pt_proc t ! p) \<noteq> 0" if "p_state (pt_proc t ! p) \<in> {SLEEPING, RUNNABLE, RUNNING}"
        using procs_invD(6) [OF sys_invD(4) [OF inv] p] that aw [of p] by auto
    qed
  qed
qed

lemma sys_alloc:
  assumes inv: "sys_inv (s, ph)" and c: "c < length (cpus s)" and nl: "\<not> locking (ph c)" and fr: "table_free s"
    and d: "alloc_slot (on c s) = Done v u"
  shows "wp alloc_slot (\<lambda>_ t. sys_inv (t, ph)) (on c s)"
proof -
  obtain Q where Q: "ptab {} (on c s) Q" and free: "\<forall>d < length (cpus s). d \<noteq> c \<longrightarrow> \<not> locking (ph d)"
    by (rule sys_free [OF inv c nl fr])
  note n = alloc_slot_Done [OF Q d]
  note P = procs_invD(6) [OF sys_invD(4) [OF inv]]
  have len: "length (pt_proc s) = NPROC" using ptabD(4) [OF Q] by simp
  show ?thesis
  proof (rule wp_alloc_slot [OF Q])
    fix t
    assume t: "kframe (on c s) t" "ptab {} t Q" and same: "same_table (on c s) t"
    show "sys_inv (t, ph)"
      using inv c nl free t by (rule sys_inv_kstep) (use same P in \<open>auto simp: same_table_def\<close>)
  next
    fix t p
    assume t: "kframe (on c s) t" "ptab {} t Q" and p: "p < NPROC" "p_state (pt_proc (on c s) ! p) = UNUSED"
      and ps: "pt_proc t = (pt_proc (on c s))[p := (pt_proc (on c s) ! p)\<lparr>p_state := EMBRYO, p_pid := nextpid (on c s)\<rparr>]"
    show "sys_inv (t, ph)"
      using inv c nl free t by (rule sys_inv_kstep) (use ps P p len in \<open>auto split: if_splits\<close>)
  qed (use n in simp)
qed

lemma sys_publish:
  assumes inv: "sys_inv (s, ph)" and c: "c < length (cpus s)" and nl: "\<not> locking (ph c)" and fr: "table_free s"
    and q: "q < NPROC" "p_state (pt_proc s ! q) = EMBRYO" "p_pgdir (pt_proc s ! q) \<noteq> 0"
  shows "wp (publish q) (\<lambda>_ t. sys_inv (t, ph)) (on c s)"
proof -
  obtain Q where Q: "ptab {} (on c s) Q" and free: "\<forall>d < length (cpus s). d \<noteq> c \<longrightarrow> \<not> locking (ph d)"
    by (rule sys_free [OF inv c nl fr])
  show ?thesis
  proof (rule wp_publish [OF Q q(1)])
    fix t
    assume t: "kframe (on c s) t" "ptab {} t (Q[0 := Q ! 0 @ [q]])" and mv: "moved q (pt_proc t) (pt_proc (on c s))"
      and st: "p_state (pt_proc t ! q) = RUNNABLE"
    have mv': "p_pgdir (pt_proc t ! r) = p_pgdir (pt_proc s ! r)" "r \<noteq> q \<Longrightarrow> p_state (pt_proc t ! r) = p_state (pt_proc s ! r)" for r
      using mv pcoreD(2) [of "pt_proc t ! r" "pt_proc s ! r"] by (simp_all add: moved_def)
    show "sys_inv (t, ph)"
      using inv c nl free t
    proof (rule sys_inv_kstep)
      fix p
      assume p: "p < NPROC"
      show "(p_state (pt_proc t ! p) = RUNNING) = (p_state (pt_proc s ! p) = RUNNING)"
        using mv' [of p] st q by (cases "p = q") auto
      show "p_pgdir (pt_proc t ! p) \<noteq> 0" if "p_state (pt_proc t ! p) \<in> {SLEEPING, RUNNABLE, RUNNING}"
        using procs_invD(6) [OF sys_invD(4) [OF inv] p] that mv' [of p] q by (cases "p = q") auto
    qed
  qed (use q in simp)
qed

lemma pids_ok_sub:
  assumes "pids_ok ps n"
    and sub: "\<And>r. r < NPROC \<Longrightarrow> p_state (ps' ! r) \<noteq> UNUSED \<Longrightarrow> p_state (ps ! r) \<noteq> UNUSED \<and> p_pid (ps' ! r) = p_pid (ps ! r)"
  shows "pids_ok ps' n"
  using assms(1) unfolding pids_ok_def by (simp add: sub)

lemma sys_fill:
  assumes inv: "sys_inv (s, ph)" and c: "c < length (cpus s)"
    and q: "q < NPROC" "p_state (pt_proc s ! q) = EMBRYO" and r: "p_state r = EMBRYO \<or> p_state r = UNUSED"
      "p_pid r = p_pid (pt_proc s ! q)" "p_current_level r = p_current_level (pt_proc s ! q)"
    and t: "pset q (\<lambda>_. r) (on c s) = Done () t"
  shows "sys_inv (t, ph)"
proof -
  note D = sys_invD [OF inv]
  obtain Q where Q: "table_inv s Q" using D(1) by blast
  note T = table_invD [OF Q]
  have t': "t = s\<lparr>mycpu := c, pt_proc := (pt_proc s)[q := r]\<rparr>"
    using t q T(4) by (simp add: pset_def kop_defs)
  have "levels_ok ((pt_proc s)[q := r])" using T(2,4) q r by (auto simp: levels_ok_def)
  moreover have "pids_ok ((pt_proc s)[q := r]) (nextpid s)"
    using T(3) by (rule pids_ok_sub) (use T(4) q r in \<open>auto split: if_splits\<close>)
  moreover have "mlf_inv ((pt_proc s)[q := r]) (pt_mlf s) (pt_size s) Q"
    using mlf_inv_other [OF T(1) _ _ q(1), of r] q r by auto
  ultimately have "table_inv t Q" by (simp add: t' table_inv_def)
  moreover have "procs_inv (pt_proc t) (cpus t) ph"
    using D(4) by (rule procs_inv_same) (use procs_invD(6) [OF D(4)] q r T(4) in \<open>auto simp: t'\<close>)
  moreover have "lks H (on d t) = lks H (on d s)" for H d by (simp add: t' lks_def holding_def)
  then have "locks_inv t ph" using D(3) by (simp add: locks_inv_def) (simp add: t')
  ultimately show ?thesis using D(2) by (auto simp: sys_inv_def t' con_ok_def crt_ok_def)
qed

lemma wp_locked:
  assumes s: "ptab {} s Q"
    and m: "\<And>t. kframe s t \<Longrightarrow> ptab {PtableLock} t Q \<Longrightarrow> same_table s t \<Longrightarrow>
      wp m (\<lambda>_ u. kframe t u \<and> (\<exists>Q'. ptab {PtableLock} u Q' \<and> P (pt_proc u))) t"
    and R: "\<And>v Q'. kframe s v \<Longrightarrow> ptab {} v Q' \<Longrightarrow> P (pt_proc v) \<Longrightarrow> R () v"
  shows "wp (andthen (acquire PtableLock) (andthen m (release PtableLock))) R s"
  unfolding wp_andthen
proof (rule wp_acquire_table [OF s])
  fix t
  assume t: "kframe s t" "ptab {PtableLock} t Q" "same_table s t"
  show "wp m (\<lambda>_. wp (release PtableLock) R) t"
    using m [OF t]
  proof (rule wp_mono)
    fix a u
    assume "kframe t u \<and> (\<exists>Q'. ptab {PtableLock} u Q' \<and> P (pt_proc u))"
    then obtain Q' where u: "kframe t u" "ptab {PtableLock} u Q'" "P (pt_proc u)" by blast
    show "wp (release PtableLock) R u"
      by (rule wp_release_table [OF u(2)])
        (use R [OF kframe_trans [OF kframe_trans [OF t(1) u(1)]]] u(3) in \<open>auto simp: same_table_def\<close>)
  qed
qed simp

lemma sys_reap:
  assumes inv: "sys_inv (s, ph)" and c: "c < length (cpus s)" and nl: "\<not> locking (ph c)" and fr: "table_free s"
    and q: "q < NPROC" "p_state (pt_proc s ! q) = ZOMBIE"
  shows "wp (reap q) (\<lambda>_ t. sys_inv (t, ph)) (on c s)"
proof -
  obtain Q where Q: "ptab {} (on c s) Q" and free: "\<forall>d < length (cpus s). d \<noteq> c \<longrightarrow> \<not> locking (ph d)"
    by (rule sys_free [OF inv c nl fr])
  let ?r = "(pt_proc s ! q)\<lparr>p_state := UNUSED, p_pid := 0, p_parent := None, p_name := [], p_killed := False\<rparr>"
  have len: "length (pt_proc s) = NPROC" using ptabD(4) [OF Q] by simp
  show ?thesis
    unfolding reap_def
  proof (rule wp_locked [OF Q, where P = "\<lambda>ps. ps = (pt_proc s)[q := ?r]"])
    fix t
    assume t: "ptab {PtableLock} t Q" and same: "same_table (on c s) t"
    have eq: "pt_proc t = pt_proc s" using same by (simp add: same_table_def)
    have "ptab {PtableLock} (t\<lparr>pt_proc := (pt_proc t)[q := ?r]\<rparr>) Q"
      by (rule ptab_unused [OF t q(1)]) (use q eq in simp_all)
    then show "wp (reap_slot q) (\<lambda>_ u. kframe t u \<and> (\<exists>Q'. ptab {PtableLock} u Q' \<and> pt_proc u = (pt_proc s)[q := ?r])) t"
      using q len eq by (auto simp: reap_slot_def wp_pset)
  next
    fix v Q'
    assume v: "kframe (on c s) v" "ptab {} v Q'" "pt_proc v = (pt_proc s)[q := ?r]"
    show "sys_inv (v, ph)"
      using inv c nl free v(1,2)
      by (rule sys_inv_kstep) (use v(3) len q procs_invD(6) [OF sys_invD(4) [OF inv]] in \<open>auto split: if_splits\<close>)
  qed
qed

lemma set_priority_fmt_ok: "fmt_ok ''----> name proc set_priority: %s \<newline>'' [ArgStr n]"
  by (simp add: fmt_ok.simps)

text \<open>Another CPU may hold the table's lock while a process prints.\<close>

lemma locks_inv_printed:
  assumes inv: "locks_inv s ph" and c: "c < length (cpus s)" "\<not> locking (ph c)" and t: "printed (on c s) t"
  shows "locks_inv t ph"
proof -
  obtain i k ser m p where eq: "t = (on c s)\<lparr>cpus := (cpus s)[c := (cpus s ! c)\<lparr>c_intena := i\<rparr>], spinlocks := (spinlocks s)(ConsLock := k),
      serial := ser, crt := m, crtpos := p\<rparr>" "lk_locked k = 0"
    using t unfolding printed_def by auto
  have "lks {PtableLock} (on d t)" if "lks {PtableLock} (on d s)" "d \<noteq> c" for d
    using that eq(2) by (auto simp: eq(1) lks_def holding_def)
  moreover have "c_ncli (cpus t ! d) = c_ncli (cpus s ! d)" "length (cpus t) = length (cpus s)" for d
    using c(1) by (auto simp: eq(1) nth_list_update)
  moreover have "lk_locked (spinlocks t l) = 0" if "lk_locked (spinlocks s l) = 0" for l
    using that eq(2) by (simp add: eq(1))
  ultimately show ?thesis using inv c unfolding locks_inv_def by metis
qed

lemma sys_set_priority:
  assumes inv: "sys_inv (s, ph)" and c: "c < length (cpus s)" and ph: "ph c = User p" and k: "level_ok k"
  shows "wp (set_priority p k) (\<lambda>_ t. sys_inv (t, ph) \<and> length (cpus t) = length (cpus s)) (on c s)"
proof -
  note D = sys_invD [OF inv]
  note P = procs_invD [OF D(4)]
  have p: "p < NPROC" "p_state (pt_proc s ! p) = RUNNING" using P(3) [OF c, of p] ph by auto
  obtain Q where Q: "table_inv s Q" using D(1) by blast
  have len: "length (pt_proc s) = NPROC" by (rule table_invD(4) [OF Q])
  let ?r = "(pt_proc s ! p)\<lparr>p_current_level := k\<rparr>"
  let ?u = "(on c s)\<lparr>pt_proc := (pt_proc s)[p := ?r]\<rparr>"
  have "table_inv (s\<lparr>pt_proc := (pt_proc s)[p := ?r]\<rparr>) Q"
    by (rule table_inv_live [OF Q p(1)]) (use p k in \<open>simp_all add: level_ok_def\<close>)
  then have u: "table_inv ?u Q" by (simp add: table_inv_def)
  have onu: "on c ?u = ?u" by simp
  have nc: "c_ncli (thecpu ?u) = 0" using D(3) c ph by (auto simp: locks_inv_def)
  have fc: "lk_locked (spinlocks ?u ConsLock) = 0"
  proof (cases "\<exists>d < length (cpus s). locking (ph d)")
    case True
    then obtain d where "d < length (cpus s)" "locking (ph d)" by blast
    then have "lks {PtableLock} (on d s)" using D(3) by (simp add: locks_inv_def)
    then show ?thesis using lksD(6) [of "{PtableLock}" "on d s" ConsLock] by simp
  next
    case False
    then show ?thesis using D(3) by (auto simp: locks_inv_def)
  qed
  have "wp (cprintf ''----> name proc set_priority: %s \<newline>'' [ArgStr (Some (p_name (pt_proc s ! p)))])
      (\<lambda>_ t. printed ?u t \<and> con_ok t) ?u"
    by (rule wp_cprintf_printed) (use c nc fc D(2) set_priority_fmt_ok in \<open>simp_all add: con_ok_def crt_ok_def\<close>)
  moreover have "sys_inv (t, ph) \<and> length (cpus t) = length (cpus s)" if t: "printed ?u t" "con_ok t" for t
  proof -
    obtain i k ser m q where eq: "t = ?u\<lparr>cpus := (cpus s)[c := (cpus s ! c)\<lparr>c_intena := i\<rparr>], spinlocks := (spinlocks s)(ConsLock := k),
        serial := ser, crt := m, crtpos := q\<rparr>"
      using t(1) unfolding printed_def by auto
    have "table_inv t Q" using u by (simp add: eq table_inv_def)
    moreover have "lks H (on d ?u) = lks H (on d s)" for H d by (simp add: lks_def holding_def)
    then have "locks_inv ?u ph" using D(3) by (simp add: locks_inv_def)
    then have "locks_inv t ph"
      by (rule locks_inv_printed [where c = c]) (use c ph t(1) in \<open>simp_all only: onu\<close>, simp_all)
    moreover have "procs_inv (pt_proc t) (cpus t) ph"
      by (rule procs_inv_same [OF D(4)]) (use c len p P(6) in \<open>auto simp: eq nth_list_update split: if_splits\<close>)
    ultimately have "sys_inv (t, ph)" using t(2) by (auto simp: sys_inv_def)
    then show ?thesis by (simp add: eq)
  qed
  ultimately have "wp (cprintf ''----> name proc set_priority: %s \<newline>'' [ArgStr (Some (p_name (pt_proc s ! p)))])
      (\<lambda>_ t. sys_inv (t, ph) \<and> length (cpus t) = length (cpus s)) ?u" by (auto elim: wp_mono)
  then show ?thesis using len p by (simp add: set_priority_def wp_rules wp_table)
qed

text \<open>A process that gives up the CPU: the lock stays with the CPU's scheduler.\<close>

lemma sys_inv_leave:
  assumes inv: "sys_inv (s, ph)" and c: "c < length (cpus s)" and ph: "ph c = User p"
    and free: "\<forall>d < length (cpus s). d \<noteq> c \<longrightarrow> \<not> locking (ph d)"
    and fr: "kframe (on c s) t" and t: "ptab {PtableLock} t Q"
    and st: "p_state (pt_proc t ! p) \<noteq> RUNNING" "\<And>r. p_pgdir (pt_proc t ! r) = p_pgdir (pt_proc s ! r)"
      "\<And>r. r \<noteq> p \<Longrightarrow> p_state (pt_proc t ! r) = p_state (pt_proc s ! r) \<or>
        p_state (pt_proc s ! r) = SLEEPING \<and> p_state (pt_proc t ! r) = RUNNABLE"
  shows "sys_inv (t, ph(c := Back p))"
proof -
  note P = procs_invD [OF sys_invD(4) [OF inv]]
  have p: "p < NPROC" "p_state (pt_proc s ! p) = RUNNING" using P(3) [OF c, of p] ph by auto
  have "procs_inv (pt_proc t) (cpus t) (ph(c := Back p))"
    using sys_invD(4) [OF inv] kframe_on(1) [OF fr] c kframe_on(2) [OF fr] ph st(1)
  proof (rule procs_inv_leave)
    show "(p_state (pt_proc t ! r) = RUNNING) = (p_state (pt_proc s ! r) = RUNNING)" if "r \<noteq> p" for r
      using st(3) [OF that] by auto
    show "p_pgdir (pt_proc t ! r) \<noteq> 0" if "r < NPROC" "p_state (pt_proc t ! r) \<in> {SLEEPING, RUNNABLE, RUNNING}" for r
      using P(6) [of r] P(6) [of p] st(2) [of r] st(3) [of r] that p by (cases "r = p") auto
  qed
  then show ?thesis
    by (intro sys_inv_after [OF inv c free kframe_sframe [OF fr]]) (use t in simp_all)
qed

lemma sys_user:
  assumes inv: "sys_inv (s, ph)" and c: "c < length (cpus s)" and ph: "ph c = User p" and fr: "table_free s"
  obtains Q where "ptab {} (on c s) Q" and "\<forall>d < length (cpus s). d \<noteq> c \<longrightarrow> \<not> locking (ph d)"
    and "c_proc (thecpu (on c s)) = Some p" and "p < NPROC" and "p_state (pt_proc (on c s) ! p) = RUNNING"
proof -
  note P = procs_invD [OF sys_invD(4) [OF inv]]
  have "\<not> locking (ph c)" using ph by simp
  then show ?thesis
    using that sys_free [OF inv c _ fr] P(1) [OF c] P(3) [OF c, of p] ph by auto
qed

lemma sys_yield:
  assumes inv: "sys_inv (s, ph)" and c: "c < length (cpus s)" and ph: "ph c = User p" and fr: "table_free s"
  shows "wpa (yield :: (_, unit) kop) (\<lambda>_ _. False) (\<lambda>t. sys_inv (t, ph(c := Back p))) (on c s)"
proof (rule sys_user [OF assms])
  fix Q
  assume Q: "ptab {} (on c s) Q" and free: "\<forall>d < length (cpus s). d \<noteq> c \<longrightarrow> \<not> locking (ph d)"
    and p: "c_proc (thecpu (on c s)) = Some p" "p < NPROC" "p_state (pt_proc (on c s) ! p) = RUNNING"
  show ?thesis
    by (rule wpa_yield [OF Q p], rule sys_inv_leave [OF inv c ph free]) (auto simp: restate_def)
qed

lemma sys_block:
  assumes inv: "sys_inv (s, ph)" and c: "c < length (cpus s)" and ph: "ph c = User p" and fr: "table_free s"
  shows "wpa (andthen (acquire l) (sleep ch (Some l) :: (_, unit) kop)) (\<lambda>_ _. False) (\<lambda>t. sys_inv (t, ph(c := Back p))) (on c s)"
proof (rule sys_user [OF assms])
  fix Q
  assume Q: "ptab {} (on c s) Q" and free: "\<forall>d < length (cpus s). d \<noteq> c \<longrightarrow> \<not> locking (ph d)"
    and p: "c_proc (thecpu (on c s)) = Some p" "p < NPROC" "p_state (pt_proc (on c s) ! p) = RUNNING"
  show ?thesis
    unfolding wpa_andthen
  proof (rule wpa_wp, rule wp_acquire_table [OF Q])
    fix t
    assume kt: "kframe (on c s) t" and t: "ptab {l} t Q" and same: "same_table (on c s) t"
    have eq: "pt_proc t = pt_proc s" using same by (simp add: same_table_def)
    have cp: "c_proc (thecpu t) = Some p" using kframe_cproc(1) [OF kt] p by simp
    have st: "p_state (pt_proc t ! p) = RUNNING" using p eq by simp
    show "wpa (sleep ch (Some l)) (\<lambda>_ _. False) (\<lambda>t. sys_inv (t, ph(c := Back p))) t"
      by (rule wpa_sleep [OF t cp p(2) st], rule sys_inv_leave [OF inv c ph free kframe_trans [OF kt]])
        (auto simp: restate_def eq)
  qed simp
qed

lemma sys_exit:
  assumes inv: "sys_inv (s, ph)" and c: "c < length (cpus s)" and ph: "ph c = User p" and fr: "table_free s"
  shows "wpa (exit_table :: (_, unit) kop) (\<lambda>_ _. False) (\<lambda>t. sys_inv (t, ph(c := Back p))) (on c s)"
proof (rule sys_user [OF assms])
  fix Q
  assume Q: "ptab {} (on c s) Q" and free: "\<forall>d < length (cpus s). d \<noteq> c \<longrightarrow> \<not> locking (ph d)"
    and p: "c_proc (thecpu (on c s)) = Some p" "p < NPROC" "p_state (pt_proc (on c s) ! p) = RUNNING"
  show ?thesis
  proof (rule wpa_exit_table [OF Q p])
    fix t Q'
    assume t: "kframe (on c s) t" "ptab {PtableLock} t Q'"
      and e: "exited p (initproc (on c s)) (pt_proc (on c s)) (pt_proc t)"
    show "sys_inv (t, ph(c := Back p))"
      using inv c ph free t by (rule sys_inv_leave) (use e in \<open>simp_all add: exited_def\<close>)
  qed
qed

text \<open>A process that got the CPU lets go of the lock.\<close>

lemma sys_enter:
  assumes inv: "sys_inv (s, ph)" and c: "c < length (cpus s)" and ph: "ph c = Enter p"
  obtains Q where "ptab {PtableLock} (on c s) Q" and "\<forall>d < length (cpus s). d \<noteq> c \<longrightarrow> \<not> locking (ph d)"
    and "c_proc (thecpu (on c s)) = Some p" and "p < NPROC" and "p_state (pt_proc (on c s) ! p) = RUNNING"
proof -
  note P = procs_invD [OF sys_invD(4) [OF inv]]
  have "locking (ph c)" using ph by simp
  then show ?thesis
    using that sys_locked [OF inv c] P(1) [OF c] P(3) [OF c, of p] ph by auto
qed

lemma sys_inv_user:
  assumes inv: "sys_inv (s, ph)" and c: "c < length (cpus s)" and ph: "ph c = Enter p"
    and free: "\<forall>d < length (cpus s). d \<noteq> c \<longrightarrow> \<not> locking (ph d)"
    and fr: "kframe (on c s) t" and t: "ptab {} t Q"
    and st: "\<And>r. p_state (pt_proc t ! r) = p_state (pt_proc s ! r) \<and> p_pgdir (pt_proc t ! r) = p_pgdir (pt_proc s ! r)"
  shows "sys_inv (t, ph(c := User p))"
proof -
  note P = sys_invD(4) [OF inv]
  have "procs_inv (pt_proc t) (cpus t) (ph(c := User p))"
    using P by (rule procs_inv_same) (use kframe_on [OF fr] st procs_invD(6) [OF P] ph in auto)
  then show ?thesis
    by (intro sys_inv_after [OF inv c free kframe_sframe [OF fr]]) (use t in simp_all)
qed

lemma sys_forkret:
  assumes inv: "sys_inv (s, ph)" and c: "c < length (cpus s)" and ph: "ph c = Enter p"
  shows "wp (release PtableLock) (\<lambda>_ t. sys_inv (t, ph(c := User p))) (on c s)"
proof (rule sys_enter [OF assms])
  fix Q
  assume Q: "ptab {PtableLock} (on c s) Q" and free: "\<forall>d < length (cpus s). d \<noteq> c \<longrightarrow> \<not> locking (ph d)"
  show ?thesis
    by (rule wp_release_table [OF Q], simp, rule sys_inv_user [OF inv c ph free])
      (simp_all add: same_table_def)
qed

lemma wp_sched_return:
  assumes s: "ptab H s Q" and p: "c_proc (thecpu s) = Some p" "p < NPROC"
    and R: "\<And>t. kframe s t \<Longrightarrow> ptab H t Q \<Longrightarrow> same_table s t \<Longrightarrow> R () t"
  shows "wp sched_return R s"
proof -
  let ?t = "s\<lparr>cpus := (cpus s)[mycpu s := (thecpu s)\<lparr>c_intena := p_intena (pt_proc s ! p)\<rparr>]\<rparr>"
  have "ptab H ?t Q" by (rule ptab_cpu [OF s]) simp_all
  then have "R () ?t" by (intro R) (simp_all add: kframe_cpus cpu_frame_update same_table_def)
  then show ?thesis
    using p ptabD(4) [OF s] by (simp add: sched_return_def wp_rules myproc_def curproc_def wp_pget upd_cpu_def)
qed

lemma sys_yield_return:
  assumes inv: "sys_inv (s, ph)" and c: "c < length (cpus s)" and ph: "ph c = Enter p"
  shows "wp yield_return (\<lambda>_ t. sys_inv (t, ph(c := User p))) (on c s)"
proof (rule sys_enter [OF assms])
  fix Q
  assume Q: "ptab {PtableLock} (on c s) Q" and free: "\<forall>d < length (cpus s). d \<noteq> c \<longrightarrow> \<not> locking (ph d)"
    and p: "c_proc (thecpu (on c s)) = Some p" "p < NPROC"
  show ?thesis
    unfolding yield_return_def wp_andthen
  proof (rule wp_sched_return [OF Q p])
    fix t
    assume t: "kframe (on c s) t" "ptab {PtableLock} t Q" "same_table (on c s) t"
    show "wp (release PtableLock) (\<lambda>_ t. sys_inv (t, ph(c := User p))) t"
      by (rule wp_release_table [OF t(2)], simp, rule sys_inv_user [OF inv c ph free kframe_trans [OF t(1)]])
        (use t(3) in \<open>simp_all add: same_table_def\<close>)
  qed
qed

lemma wp_swap_locks:
  assumes s: "ptab {PtableLock} s Q"
    and R: "\<And>t. kframe s t \<Longrightarrow> ptab {} t Q \<Longrightarrow> same_table s t \<Longrightarrow> R () t"
  shows "wp (whenever (l \<noteq> PtableLock) (andthen (release PtableLock) (acquire l))) (\<lambda>_. wp (release l) R) s"
proof -
  have rel: "wp (release l) R t" if "kframe s t" "ptab {l} t Q" "same_table s t" for t
    by (rule wp_release_table [OF that(2)], simp, rule R [OF kframe_trans [OF that(1)]])
      (use that(3) in \<open>simp_all add: same_table_def\<close>)
  show ?thesis
  proof (cases "l = PtableLock")
    case False
    have "wp (release PtableLock) (\<lambda>_. wp (acquire l) (\<lambda>_. wp (release l) R)) s"
    proof (rule wp_release_table [OF s])
      fix t
      assume t: "kframe s t" "ptab {} t Q" "same_table s t"
      show "wp (acquire l) (\<lambda>_. wp (release l) R) t"
        by (rule wp_acquire_table [OF t(2)], simp, rule rel [OF kframe_trans [OF t(1)]])
          (use t(3) in \<open>simp_all add: same_table_def\<close>)
    qed simp
    then show ?thesis using False by (simp add: wp_whenever wp_andthen)
  qed (use rel s in \<open>simp add: wp_whenever\<close>)
qed

lemma sys_unblock:
  assumes inv: "sys_inv (s, ph)" and c: "c < length (cpus s)" and ph: "ph c = Enter p"
  shows "wp (andthen (sleep_return l) (release l)) (\<lambda>_ t. sys_inv (t, ph(c := User p))) (on c s)"
proof (rule sys_enter [OF assms])
  fix Q
  assume Q: "ptab {PtableLock} (on c s) Q" and free: "\<forall>d < length (cpus s). d \<noteq> c \<longrightarrow> \<not> locking (ph d)"
    and p: "c_proc (thecpu (on c s)) = Some p" "p < NPROC"
  show ?thesis
    unfolding sleep_return_def wp_andthen wp_bnd
  proof (rule wp_sched_return [OF Q p])
    fix t
    assume t: "kframe (on c s) t" "ptab {PtableLock} t Q" "same_table (on c s) t"
    let ?u = "t\<lparr>pt_proc := (pt_proc t)[p := (pt_proc t ! p)\<lparr>p_chan := None\<rparr>]\<rparr>"
    have u: "ptab {PtableLock} ?u Q" by (rule ptab_same [OF t(2) p(2)]) simp_all
    have ku: "kframe (on c s) ?u" using t(1) by simp
    have len: "p < length (pt_proc t)" using ptabD(4) [OF t(2)] p by simp
    have "wp (whenever (l \<noteq> PtableLock) (andthen (release PtableLock) (acquire l)))
        (\<lambda>_. wp (release l) (\<lambda>_ t. sys_inv (t, ph(c := User p)))) ?u"
      by (rule wp_swap_locks [OF u], rule sys_inv_user [OF inv c ph free kframe_trans [OF ku]])
        (use t(3) len in \<open>simp_all add: same_table_def\<close>)
    then show "wp myproc (\<lambda>me. wp (pset me (\<lambda>r. r\<lparr>p_chan := None\<rparr>))
       (\<lambda>_. wp (whenever (l \<noteq> PtableLock) (andthen (release PtableLock) (acquire l)))
         (\<lambda>_. wp (release l) (\<lambda>_ t. sys_inv (t, ph(c := User p)))))) t"
      using kframe_cproc(1) [OF t(1)] p len by (simp add: myproc_def curproc_def wp_rules wp_pset)
  qed
qed

text \<open>The pieces of the scheduler's loop.\<close>

lemma ptab_cpu_free:
  assumes "ptab {} s Q" and "c_ncli c = c_ncli (thecpu s)"
  shows "ptab {} (s\<lparr>cpus := (cpus s)[mycpu s := c]\<rparr>) Q"
  using assms lksD(2) [OF ptabD(1) [OF assms(1)]] by (simp add: ptab_def lks_def)

lemma sframe_kframe: "sframe s t \<Longrightarrow> kframe t u \<Longrightarrow> sframe s u"
  using kframe_sframe [of t u] by (simp add: sframe_def)

lemma procs_inv_idle:
  assumes inv: "procs_inv ps cs ph" and len: "length cs' = length cs" and ph: "has_proc (ph c) = None" "has_proc f = None"
    and cpu: "\<And>d. d \<noteq> c \<Longrightarrow> cs' ! d = cs ! d" "c_proc (cs' ! c) = c_proc (cs ! c)"
  shows "procs_inv ps cs' (ph(c := f))"
proof -
  note D = procs_invD [OF inv]
  have runs: "runs g = None" if "has_proc g = None" for g using that by (cases g) auto
  have eq: "runs ((ph(c := f)) d) = runs (ph d)" "has_proc ((ph(c := f)) d) = has_proc (ph d)" for d
    using runs ph by auto
  have cp: "c_proc (cs' ! d) = c_proc (cs ! d)" for d using cpu by (cases "d = c") auto
  have ci: "c_indice (cs' ! d) = c_indice (cs ! d)" if "has_proc (ph d) \<noteq> None" for d
    using cpu(1) [of d] that ph by (cases "d = c") auto
  show ?thesis using D ci by (intro procs_invI) (auto simp only: len cp eq not_False_eq_True)
qed

lemma sys_top:
  assumes inv: "sys_inv (s, ph)" and c: "c < length (cpus s)" and ph: "ph c = Outer" and fr: "table_free s"
  shows "wp scheduler_top (\<lambda>_ t. sys_inv (t, ph(c := Inner))) (on c s)"
proof -
  have nl: "\<not> locking (ph c)" using ph by simp
  obtain Q where Q: "ptab {} (on c s) Q" and free: "\<forall>d < length (cpus s). d \<noteq> c \<longrightarrow> \<not> locking (ph d)"
    by (rule sys_free [OF inv c nl fr])
  let ?c = "(cpus s ! c)\<lparr>c_indice := 0, c_if := True\<rparr>"
  let ?u = "(on c s)\<lparr>cpus := (cpus (on c s))[mycpu (on c s) := ?c]\<rparr>"
  have u: "ptab {} ?u Q" by (rule ptab_cpu_free [OF Q]) simp
  have su: "sframe (on c s) ?u" by (simp add: sframe_def)
  have "wp (acquire PtableLock) (\<lambda>_ t. sys_inv (t, ph(c := Inner))) ?u"
  proof (rule wp_acquire_table [OF u])
    fix t
    assume t: "kframe ?u t" "ptab {PtableLock} t Q" "same_table ?u t"
    have sf: "sframe (on c s) t" by (rule sframe_kframe [OF su t(1)])
    have cp: "c_proc (cpus t ! c) = c_proc (cpus s ! c)" using kframe_cproc(1,3) [OF t(1)] c by simp
    have "procs_inv (pt_proc t) (cpus t) (ph(c := Inner))"
      using procs_inv_idle [OF sys_invD(4) [OF inv], of "cpus t" c Inner] sf cp ph t(3)
      by (simp add: sframe_def same_table_def)
    then show "sys_inv (t, ph(c := Inner))"
      by (intro sys_inv_after [OF inv c free sf]) (use t in simp_all)
  qed simp
  then show ?thesis using c by (simp add: scheduler_top_def sti_def wp_rules upd_cpu_def)
qed

lemma sys_out:
  assumes inv: "sys_inv (s, ph)" and c: "c < length (cpus s)" and ph: "ph c = Inner"
  shows "wp scheduler_out (\<lambda>_ t. sys_inv (t, ph(c := Outer))) (on c s)"
proof -
  have l: "locking (ph c)" using ph by simp
  obtain Q where Q: "ptab {PtableLock} (on c s) Q" and free: "\<forall>d < length (cpus s). d \<noteq> c \<longrightarrow> \<not> locking (ph d)"
    by (rule sys_locked [OF inv c l])
  show ?thesis
    unfolding scheduler_out_def
  proof (rule wp_release_table [OF Q])
    fix t
    assume t: "kframe (on c s) t" "ptab {} t Q" "same_table (on c s) t"
    have "procs_inv (pt_proc t) (cpus t) (ph(c := Outer))"
      using procs_inv_idle [OF sys_invD(4) [OF inv], of "cpus t" c Outer] kframe_sframe [OF t(1)]
        kframe_on [OF t(1)] ph t(3) by (simp add: sframe_def same_table_def)
    then show "sys_inv (t, ph(c := Outer))"
      by (intro sys_inv_after [OF inv c free kframe_sframe [OF t(1)]]) (use t in simp_all)
  qed simp
qed

text \<open>The inner loop's body: a process found in the queue is switched to, or the scan goes on.\<close>

lemma sys_pick:
  assumes inv: "sys_inv (s, ph)" and c: "c < length (cpus s)" and ph: "ph c = Inner"
    and i: "c_indice (cpus s ! c) < MLF_LEVELS"
  shows "wp scheduler_pick (\<lambda>r t. case r of Some p \<Rightarrow> sys_inv (t, ph(c := Enter p)) | None \<Rightarrow> t = on c s) (on c s)"
proof -
  have l: "locking (ph c)" using ph by simp
  obtain Q where Q: "ptab {PtableLock} (on c s) Q" and free: "\<forall>d < length (cpus s). d \<noteq> c \<longrightarrow> \<not> locking (ph d)"
    by (rule sys_locked [OF inv c l])
  note P = sys_invD(4) [OF inv]
  show ?thesis
  proof (rule wp_scheduler_pick [OF Q refl])
    show "c_indice (thecpu (on c s)) < MLF_LEVELS" using i by simp
    show "p_pgdir (pt_proc (on c s) ! p) \<noteq> 0" if "p < NPROC" "p_state (pt_proc (on c s) ! p) = RUNNABLE" for p
      using procs_invD(6) [OF P that(1)] that(2) by simp
    show "case None of Some p \<Rightarrow> sys_inv (on c s, ph(c := Enter p)) | None \<Rightarrow> on c s = on c s" by simp
    fix p xs t
    assume p: "p < NPROC" "p_state (pt_proc (on c s) ! p) = RUNNABLE" and sf: "sframe (on c s) t"
      and t: "ptab {PtableLock} t (Q[c_indice (thecpu (on c s)) := xs])"
      and st: "restate p RUNNING (pt_proc (on c s)) (pt_proc t)"
      and cp: "c_proc (thecpu t) = Some p" "c_indice (thecpu t) = c_indice (thecpu (on c s))"
    have "procs_inv (pt_proc t) (cpus t) (ph(c := Enter p))"
      using P by (rule procs_inv_enter) (use sf c ph p cp i st in \<open>simp_all add: sframe_def\<close>)
    then have "sys_inv (t, ph(c := Enter p))"
      by (intro sys_inv_after [OF inv c free sf]) (use t in simp_all)
    then show "case Some p of Some p \<Rightarrow> sys_inv (t, ph(c := Enter p)) | None \<Rightarrow> t = on c s" by simp
  qed
qed

lemma scheduler_pick_head:
  assumes inv: "sys_inv (s, ph)" and c: "c < length (cpus s)" and ph: "ph c = Inner"
    and i: "c_indice (cpus s ! c) < MLF_LEVELS"
  shows "\<exists>t. scheduler_pick (on c s) = Done (q_first (pt_mlf s ! c_indice (cpus s ! c))) t \<and> length (cpus t) = length (cpus s)"
proof -
  have l: "locking (ph c)" using ph by simp
  obtain Q where Q: "ptab {PtableLock} (on c s) Q" by (rule sys_locked [OF inv c l])
  have q: "q_first (pt_mlf s ! i) = (if Q ! i = [] then None else Some (hd (Q ! i)))" if "i < MLF_LEVELS" for i
    using mlf_invD(4) [OF table_invD(1) [OF ptabD(3) [OF Q]] that] by (simp add: qrep_def)
  have "wp scheduler_pick (\<lambda>r t. r = q_first (pt_mlf s ! c_indice (cpus s ! c)) \<and> length (cpus t) = length (cpus s)) (on c s)"
    by (rule wp_scheduler_pick [OF Q refl])
      (use i procs_invD(6) [OF sys_invD(4) [OF inv]] q [OF i] in \<open>auto simp: sframe_def\<close>)
  then show ?thesis by (auto simp: wp_iff_Done)
qed

lemma wp_scheduler_advance:
  assumes s: "ptab {PtableLock} s Q" and i: "c_indice (thecpu s) < MLF_LEVELS"
    and R: "\<And>n. ptab {PtableLock} (s\<lparr>cpus := (cpus s)[mycpu s := (thecpu s)\<lparr>c_indice := n\<rparr>]\<rparr>) Q \<Longrightarrow>
      R () (s\<lparr>cpus := (cpus s)[mycpu s := (thecpu s)\<lparr>c_indice := n\<rparr>]\<rparr>)"
  shows "wp scheduler_advance R s"
proof -
  let ?n = "c_indice (thecpu s)"
  have R': "R () (s\<lparr>cpus := (cpus s)[mycpu s := (thecpu s)\<lparr>c_indice := n\<rparr>]\<rparr>)" for n
    by (intro R ptab_cpu [OF s]) simp_all
  have eq: "s\<lparr>cpus := (cpus s)[mycpu s := (thecpu s)\<lparr>c_indice := ?n\<rparr>]\<rparr> = s" by simp
  show ?thesis
    using R' [of ?n] R' [of "Suc ?n"] i ptabD(5) [OF s]
    by (simp add: scheduler_advance_def wp_rules wp_mlf_get upd_cpu_def)
qed

lemma sys_advance:
  assumes inv: "sys_inv (s, ph)" and c: "c < length (cpus s)" and ph: "ph c = Inner"
    and i: "c_indice (cpus s ! c) < MLF_LEVELS"
  shows "wp scheduler_advance (\<lambda>_ t. sys_inv (t, ph(c := Inner))) (on c s)"
proof -
  have l: "locking (ph c)" using ph by simp
  obtain Q where Q: "ptab {PtableLock} (on c s) Q" and free: "\<forall>d < length (cpus s). d \<noteq> c \<longrightarrow> \<not> locking (ph d)"
    by (rule sys_locked [OF inv c l])
  show ?thesis
  proof (rule wp_scheduler_advance [OF Q])
    fix n
    let ?t = "(on c s)\<lparr>cpus := (cpus (on c s))[mycpu (on c s) := (thecpu (on c s))\<lparr>c_indice := n\<rparr>]\<rparr>"
    assume t: "ptab {PtableLock} ?t Q"
    have "procs_inv (pt_proc ?t) (cpus ?t) (ph(c := Inner))"
      using procs_inv_idle [OF sys_invD(4) [OF inv], of "cpus ?t" c Inner] ph c by simp
    then show "sys_inv (?t, ph(c := Inner))"
      by (intro sys_inv_after [OF inv c free]) (use t in \<open>simp_all add: sframe_def\<close>)
  qed (use i in simp)
qed

lemma sys_back:
  assumes inv: "sys_inv (s, ph)" and c: "c < length (cpus s)" and ph: "ph c = Back p"
  shows "wp (andthen scheduler_back scheduler_advance) (\<lambda>_ t. sys_inv (t, ph(c := Inner))) (on c s)"
proof -
  have l: "locking (ph c)" using ph by simp
  obtain Q where Q: "ptab {PtableLock} (on c s) Q" and free: "\<forall>d < length (cpus s). d \<noteq> c \<longrightarrow> \<not> locking (ph d)"
    by (rule sys_locked [OF inv c l])
  note P = sys_invD(4) [OF inv]
  let ?c = "(cpus s ! c)\<lparr>c_cr3 := V2P (kpgdir s), c_proc := None\<rparr>"
  let ?u = "(on c s)\<lparr>cpus := (cpus (on c s))[mycpu (on c s) := ?c]\<rparr>"
  have u: "ptab {PtableLock} ?u Q" by (rule ptab_cpu [OF Q]) simp_all
  have "wp scheduler_advance (\<lambda>_ t. sys_inv (t, ph(c := Inner))) ?u"
  proof (rule wp_scheduler_advance [OF u])
    show "c_indice (thecpu ?u) < MLF_LEVELS" using procs_invD(2) [OF P c] ph c by simp
    fix n
    let ?t = "?u\<lparr>cpus := (cpus ?u)[mycpu ?u := (thecpu ?u)\<lparr>c_indice := n\<rparr>]\<rparr>"
    assume t: "ptab {PtableLock} ?t Q"
    have "procs_inv (pt_proc ?t) (cpus ?t) (ph(c := Inner))"
      using procs_inv_back [OF P, of "cpus ?t" c p] ph c by simp
    then show "sys_inv (?t, ph(c := Inner))"
      by (intro sys_inv_after [OF inv c free]) (use t in \<open>simp_all add: sframe_def\<close>)
  qed
  then show ?thesis
    using c by (simp add: scheduler_back_def switchkvm_def wp_rules upd_cpu_def)
qed

lemma sched_step_inv:
  assumes "sched_step x ks y" and "sys_inv x" and "list_all level_ok ks"
  shows "sys_inv y"
  using assms(1)
proof (cases rule: sched_step.cases)
  case (miss c s ph t u)
  have "wp scheduler_pick (\<lambda>r t. case r of Some p \<Rightarrow> sys_inv (t, ph(c := Enter p)) | None \<Rightarrow> t = on c s) (on c s)"
    using sys_pick [of s ph c] assms(2) miss by simp
  then have "t = on c s" using miss by (simp add: wp_Done)
  then show ?thesis using sys_advance [of s ph c] assms(2) miss by (simp add: wp_Done)
next
  case (pick c s ph p t)
  have "wp scheduler_pick (\<lambda>r t. case r of Some p \<Rightarrow> sys_inv (t, ph(c := Enter p)) | None \<Rightarrow> t = on c s) (on c s)"
    using sys_pick [of s ph c] assms(2) pick by simp
  then show ?thesis using pick by (simp add: wp_Done)
next
  case (top c s ph t)
  then show ?thesis using sys_top [of s ph c] assms(2) by (simp add: wp_Done)
next
  case (out c s ph t)
  then show ?thesis using sys_out [of s ph c] assms(2) by (simp add: wp_Done)
next
  case (swtched c s ph p t)
  then show ?thesis using sys_back [of s ph c p] assms(2) by (simp add: wp_Done)
next
  case (forkret c s ph p t)
  then show ?thesis using sys_forkret [of s ph c p] assms(2) by (simp add: wp_Done)
next
  case (yielded c s ph p t)
  then show ?thesis using sys_yield_return [of s ph c p] assms(2) by (simp add: wp_Done)
next
  case (slept c s ph p l t)
  then show ?thesis using sys_unblock [of s ph c p l] assms(2) by (simp add: wp_Done)
next
  case (yields c s ph p t)
  then show ?thesis using sys_yield [of s ph c p] assms(2) by (simp add: wpa_def)
next
  case (sleeps c s ph p ch l t)
  then show ?thesis using sys_block [of s ph c p ch l] assms(2) by (simp add: wpa_def)
next
  case (exits c s ph p t)
  then show ?thesis using sys_exit [of s ph c p] assms(2) by (simp add: wpa_def)
next
  case (wakes c s ph ch t)
  then show ?thesis using sys_wakeup [of s ph c ch] assms(2) by (simp add: wp_Done)
next
  case (kills c s ph p pid v t)
  then show ?thesis using sys_kill [of s ph c pid] assms(2) by (simp add: wp_Done)
next
  case (allocs c s ph p q t)
  then show ?thesis using sys_alloc [of s ph c q t] assms(2) by (simp add: wp_Done)
next
  case (fills c s ph p q r t)
  then show ?thesis using sys_fill [of s ph c q r t] assms(2) by simp
next
  case (publishes c s ph p q t)
  then show ?thesis using sys_publish [of s ph c q] assms(2) by (simp add: wp_Done)
next
  case (reaps c s ph p q t)
  then show ?thesis using sys_reap [of s ph c q] assms(2) by (simp add: wp_Done)
next
  case (sets c s ph p k t)
  then show ?thesis using sys_set_priority [of s ph c p k] assms(2,3) by (simp add: wp_Done)
qed

lemma sched_run_inv: "sched_run x ks y \<Longrightarrow> sys_inv x \<Longrightarrow> list_all level_ok ks \<Longrightarrow> sys_inv y"
  by (induction rule: sched_run.induct) (auto intro: sched_step_inv)

section \<open>The system after \<open>userinit\<close>\<close>

text \<open>\<open>userinit\<close> leaves one process, in the first queue; the CPUs enter \<open>scheduler\<close>.\<close>

definition no_trapframe :: trapframe where
  "no_trapframe = \<lparr>tf_edi = 0, tf_esi = 0, tf_ebp = 0, tf_oesp = 0, tf_ebx = 0, tf_edx = 0, tf_ecx = 0,
     tf_eax = 0, tf_gs = 0, tf_fs = 0, tf_es = 0, tf_ds = 0, tf_trapno = 0, tf_err = 0, tf_eip = 0,
     tf_cs = 0, tf_eflags = 0, tf_esp = 0, tf_ss = 0\<rparr>"

definition no_context :: kcontext where
  "no_context = \<lparr>ctx_edi = 0, ctx_esi = 0, ctx_ebx = 0, ctx_ebp = 0, ctx_eip = 0\<rparr>"

definition no_proc :: proc where
  "no_proc = \<lparr>p_sz = 0, p_pgdir = 0, p_kstack = 0, p_state = UNUSED, p_pid = 0, p_parent = None,
     p_tf = no_trapframe, p_context = no_context, p_chan = None, p_killed = False,
     p_ofile = replicate NOFILE None, p_cwd = None, p_name = [], p_quantum = 0, p_next = None,
     p_current_level = 0, p_intena = False\<rparr>"

definition init_proc :: proc where
  "init_proc = no_proc\<lparr>p_sz := 4096, p_pgdir := 0x8dffe000, p_kstack := 0x8dfff000, p_state := RUNNABLE,
     p_pid := 1, p_name := ''initcode'', p_cwd := Some 0\<rparr>"

definition empty_queue :: queue where
  "empty_queue = \<lparr>q_first = None, q_last = None, q_size = 0\<rparr>"

definition boot_procs :: "proc list" where
  "boot_procs = init_proc # replicate (NPROC - 1) no_proc"

definition boot_table :: kproc where
  "boot_table = kcons.extend boot_cons \<lparr>pt_proc = boot_procs,
     pt_mlf = [\<lparr>q_first = Some 0, q_last = Some 0, q_size = 1\<rparr>, empty_queue, empty_queue, empty_queue],
     pt_size = 1, initproc = Some 0, nextpid = 2, ticks = 0, kpgdir = 0x803ff000\<rparr>"

lemma boot_proc_fields:
  "p_state init_proc = RUNNABLE" "p_state no_proc = UNUSED" "p_current_level init_proc = 0"
  "p_current_level no_proc = 0" "p_pid init_proc = 1" "p_pid no_proc = 0" "p_pgdir init_proc \<noteq> 0"
  by (simp_all add: init_proc_def no_proc_def)

lemma boot_procs_nth: "p < NPROC \<Longrightarrow> boot_procs ! p = (if p = 0 then init_proc else no_proc)"
  by (cases p) (auto simp: boot_procs_def)

lemma boot_table_inv: "table_inv boot_table [[0], [], [], []]"
proof -
  have four: "l < MLF_LEVELS \<longleftrightarrow> l = 0 \<or> l = 1 \<or> l = 2 \<or> l = 3" for l by (auto simp: MLF_LEVELS_def)
  have pos: "0 < NPROC" by (simp add: NPROC_def)
  have "mlf_inv boot_procs
      [\<lparr>q_first = Some 0, q_last = Some 0, q_size = 1\<rparr>, empty_queue, empty_queue, empty_queue] 1 [[0], [], [], []]"
    unfolding mlf_inv_def
  proof (intro conjI allI impI)
    fix l
    assume "l < MLF_LEVELS"
    then show "qrep (nexts boot_procs) ([\<lparr>q_first = Some 0, q_last = Some 0, q_size = 1\<rparr>, empty_queue, empty_queue,
        empty_queue] ! l) ([[0], [], [], []] ! l)"
      by (auto simp: four qrep_def empty_queue_def)
  next
    fix l
    assume "l < MLF_LEVELS"
    then show "\<forall>p \<in> set ([[0], [], [], []] ! l).
        p < NPROC \<and> p_state (boot_procs ! p) = RUNNABLE \<and> p_current_level (boot_procs ! p) = int l"
      using pos by (auto simp: four boot_procs_nth boot_proc_fields)
  next
    fix p
    assume "p < NPROC" "p_state (boot_procs ! p) = RUNNABLE"
    then show "p \<in> set (concat [[0], [], [], []])" by (cases "p = 0") (auto simp: boot_procs_nth boot_proc_fields)
  qed (simp_all add: boot_procs_def NPROC_def MLF_LEVELS_def)
  moreover have "levels_ok boot_procs"
    by (simp add: levels_ok_def boot_procs_nth boot_proc_fields MLF_LEVELS_def)
  moreover have "pids_ok boot_procs 2"
    by (simp add: pids_ok_def boot_procs_nth boot_proc_fields INT_MAX_def)
  ultimately show ?thesis by (simp add: table_inv_def boot_table_def kcons.defs)
qed

lemma boot_table_simps:
  "cpus boot_table = replicate NCPU boot_cpu" "mycpu boot_table = 0" "spinlocks boot_table = (\<lambda>_. free_lock)"
  "pt_proc boot_table = boot_procs"
  by (simp_all add: boot_table_def kcons.defs boot_cons_def kbase.defs boot_base_def)

lemma boot_table_con: "con_ok boot_table"
  using boot_cons_simps(2) by (simp add: boot_table_def kcons.defs con_ok_def crt_ok_def)

lemma boot_sys_inv: "sys_inv (boot_table, \<lambda>_. Outer)"
proof -
  have "locks_inv boot_table (\<lambda>_. Outer)"
    by (simp add: locks_inv_def boot_table_simps boot_cpu_def free_lock_def)
  moreover have "procs_inv (pt_proc boot_table) (cpus boot_table) (\<lambda>_. Outer)"
    unfolding boot_table_simps
    by (rule procs_invI) (auto simp: boot_procs_nth boot_cpu_def boot_proc_fields split: if_splits)
  ultimately show ?thesis using boot_table_inv boot_table_con by (auto simp: sys_inv_def)
qed

section \<open>Properties\<close>

text \<open>
  C2. However the CPUs' steps interleave, from the state \<open>userinit\<close> leaves, as long as the processes give \<open>set_priority\<close> only levels
  there are (0 to 3, which the code does not check; C18 shows what happens otherwise): the four queues are sound
  linked lists that hold every runnable process exactly once, at the level the process records, and the
  counters count them (\<open>mlf_inv\<close>); a process is \<open>RUNNING\<close> exactly when some CPU runs it, and no two
  CPUs ever run the same process. \<open>set_priority\<close> may run without the table's lock while another CPU works on the table.
\<close>

theorem mlf_scheduler_invariant:
  assumes "sched_run (boot_table, \<lambda>_. Outer) ks (s, ph)" and "\<forall>k \<in> set ks. 0 \<le> k \<and> k < int MLF_LEVELS"
  shows "(\<exists>Q. mlf_inv (pt_proc s) (pt_mlf s) (pt_size s) Q) \<and>
    (\<forall>p < NPROC. p_state (pt_proc s ! p) = RUNNING \<longleftrightarrow> (\<exists>c < length (cpus s). runs (ph c) = Some p)) \<and>
    (\<forall>p. \<forall>c < length (cpus s). \<forall>d < length (cpus s). runs (ph c) = Some p \<longrightarrow> runs (ph d) = Some p \<longrightarrow> c = d)"
proof (intro conjI allI impI)
  have "list_all level_ok ks" using assms(2) by (simp add: list_all_iff level_ok_def)
  note inv = sched_run_inv [OF assms(1) boot_sys_inv this]
  note P = procs_invD [OF sys_invD(4) [OF inv]]
  show "\<exists>Q. mlf_inv (pt_proc s) (pt_mlf s) (pt_size s) Q"
    using sys_invD(1) [OF inv] table_invD(1) by blast
  show "p_state (pt_proc s ! p) = RUNNING \<longleftrightarrow> (\<exists>c < length (cpus s). runs (ph c) = Some p)" if "p < NPROC" for p
    using P(3) P(5) that by blast
  show "c = d" if "c < length (cpus s)" "d < length (cpus s)" "runs (ph c) = Some p" "runs (ph d) = Some p" for c d p
    using P(4) that by blast
qed

text \<open>
  A run: CPU 0 enters the scheduler's loop, takes init from the first queue and lets it run, and init asks for level 2.
\<close>

lemma sched_run_snoc: "sched_run x ks y \<Longrightarrow> sched_step y ls z \<Longrightarrow> ms = ks @ ls \<Longrightarrow> sched_run x ms z"
  using sched_run.step by blast

lemma boot_first_step:
  obtains s where "sched_run (boot_table, \<lambda>_. Outer) [] (s, (\<lambda>_. Outer)(0 := Inner))"
    and "0 < length (cpus s)" and "c_indice (cpus s ! 0) = 0" and "pt_mlf s = pt_mlf boot_table"
proof -
  have c: "0 < length (cpus boot_table)" by (simp add: boot_table_simps NCPU_def)
  have fr: "table_free boot_table" by (simp add: table_free_def boot_table_simps free_lock_def)
  have Q: "ptab {} (on 0 boot_table) [[0], [], [], []]"
    using c boot_table_inv boot_table_con
    by (simp add: ptab_def lks_def boot_table_simps boot_cpu_def free_lock_def con_ok_def crt_ok_def)
  let ?u = "(on 0 boot_table)\<lparr>cpus := (cpus boot_table)[0 := boot_cpu\<lparr>c_indice := 0, c_if := True\<rparr>]\<rparr>"
  let ?R = "\<lambda>t. 0 < length (cpus t) \<and> c_indice (cpus t ! 0) = 0 \<and> pt_mlf t = pt_mlf boot_table"
  have u: "ptab {} ?u [[0], [], [], []]"
    using ptab_cpu_free [OF Q, of "boot_cpu\<lparr>c_indice := 0, c_if := True\<rparr>"] c by (simp add: boot_table_simps boot_cpu_def)
  have "wp (acquire PtableLock) (\<lambda>_. ?R) ?u"
  proof (rule wp_acquire_table [OF u])
    fix t
    assume k: "kframe ?u t" and t: "same_table ?u t"
    have "c_indice (cpus t ! 0) = 0" using kframe_cproc(2,3) [OF k] c by simp
    then show "?R t" using kframe_sframe [OF k] c t by (simp add: sframe_def same_table_def)
  qed simp
  then have "wp scheduler_top (\<lambda>_. ?R) (on 0 boot_table)"
    using c by (simp add: scheduler_top_def sti_def wp_rules upd_cpu_def boot_table_simps)
  then obtain t where t: "scheduler_top (on 0 boot_table) = Done () t" "?R t"
    by (auto simp: wp_iff_Done)
  have "sched_step (boot_table, \<lambda>_. Outer) [] (t, (\<lambda>_. Outer)(0 := Inner))"
    using c fr t(1) by (intro sched_step.top) simp_all
  then have "sched_run (boot_table, \<lambda>_. Outer) [] (t, (\<lambda>_. Outer)(0 := Inner))" by (rule sched_run_snoc [OF sched_run.start]) simp
  then show ?thesis using that t by blast
qed

lemma boot_runs_init:
  obtains s where "sched_run (boot_table, \<lambda>_. Outer) [2] (s, (\<lambda>_. Outer)(0 := User 0))" and "0 < length (cpus s)"
proof (rule boot_first_step)
  fix s
  let ?in = "(\<lambda>_. Outer)(0 := Inner)" and ?en = "(\<lambda>_. Outer)(0 := Enter 0)" and ?us = "(\<lambda>_. Outer)(0 := User 0)"
  assume s: "sched_run (boot_table, \<lambda>_. Outer) [] (s, ?in)" "0 < length (cpus s)" "c_indice (cpus s ! 0) = 0"
    "pt_mlf s = pt_mlf boot_table"
  have lev: "0 < MLF_LEVELS" by (simp add: MLF_LEVELS_def)
  have inv: "sys_inv (s, ?in)" by (rule sched_run_inv [OF s(1) boot_sys_inv]) simp
  have "q_first (pt_mlf s ! 0) = Some 0" using s(4) by (simp add: boot_table_def kcons.defs)
  then obtain t where t: "scheduler_pick (on 0 s) = Done (Some 0) t" "length (cpus t) = length (cpus s)"
    using scheduler_pick_head [OF inv s(2)] s(3) lev by auto
  have lt: "0 < length (cpus t)" using s(2) by (simp only: t(2))
  have 1: "sched_step (s, ?in) [] (t, ?en)"
    using sched_step.pick [of 0 s ?in 0 t] s t lev by simp
  have inv1: "sys_inv (t, ?en)" by (rule sched_step_inv [OF 1 inv]) simp
  obtain Q where "ptab {PtableLock} (on 0 t) Q" by (rule sys_locked [OF inv1 lt]) simp_all
  then have "wp (release PtableLock) (\<lambda>_ u. length (cpus u) = length (cpus t)) (on 0 t)"
    by (rule wp_release_table) (auto dest: kframe_sframe simp: sframe_def)
  then obtain u where u: "release PtableLock (on 0 t) = Done () u" "length (cpus u) = length (cpus t)" by (auto simp: wp_iff_Done)
  have lu: "0 < length (cpus u)" using lt by (simp only: u(2))
  have 2: "sched_step (t, ?en) [] (u, ?us)"
    using sched_step.forkret [of 0 t ?en 0 u] lt u by simp
  have inv2: "sys_inv (u, ?us)" by (rule sched_step_inv [OF 2 inv1]) simp
  have "wp (set_priority 0 2) (\<lambda>_ v. sys_inv (v, ?us) \<and> length (cpus v) = length (cpus u)) (on 0 u)"
    by (rule sys_set_priority [OF inv2 lu]) (simp_all add: level_ok_def MLF_LEVELS_def)
  then obtain v where v: "set_priority 0 2 (on 0 u) = Done () v" "length (cpus v) = length (cpus u)" by (auto simp: wp_iff_Done)
  have lv: "0 < length (cpus v)" using lu by (simp only: v(2))
  have 3: "sched_step (u, ?us) [2] (v, ?us)" using sched_step.sets [of 0 u ?us 0 2 v] lu v by simp
  have "sched_run (boot_table, \<lambda>_. Outer) [2] (v, ?us)"
    using sched_run.step [OF sched_run.step [OF sched_run.step [OF s(1) 1] 2] 3] by simp
  then show ?thesis using that lv by blast
qed

theorem mlf_scheduler_invariant_witness:
  "\<exists>s. sched_run (boot_table, \<lambda>_. Outer) [2] (s, (\<lambda>_. Outer)(0 := User 0)) \<and> (\<exists>Q. mlf_inv (pt_proc s) (pt_mlf s) (pt_size s) Q) \<and>
     p_state (pt_proc s ! 0) = RUNNING"
proof (rule boot_runs_init)
  fix s
  assume s: "sched_run (boot_table, \<lambda>_. Outer) [2] (s, (\<lambda>_. Outer)(0 := User 0))" "0 < length (cpus s)"
  have n: "0 < NPROC" and "\<forall>k \<in> set [2]. 0 \<le> k \<and> k < int MLF_LEVELS" by (simp_all add: NPROC_def MLF_LEVELS_def)
  note inv = mlf_scheduler_invariant [OF s(1) this(2)]
  have "runs (((\<lambda>_. Outer)(0 := User 0)) 0) = Some 0" by simp
  then have "p_state (pt_proc s ! 0) = RUNNING" using inv n s(2) by blast
  then show ?thesis using s(1) inv by blast
qed

text \<open>
  C3. In every state the CPUs can reach while \<open>set_priority\<close> is given only levels there are, the scheduler's scan of a level returns: it
  never meets the panic ``This proces is not RUNNABLE'' nor follows a bad pointer; it takes the process at the head of the
  level's queue, if there is one. And a process that calls \<open>yield\<close>, or takes a lock and calls \<open>sleep\<close> with it, when the table's lock is
  free, gives up the CPU without meeting a panic of \<open>sched\<close>.
\<close>

theorem scheduler_never_stuck:
  assumes "sched_run (boot_table, \<lambda>_. Outer) ks (s, ph)" and "\<forall>k \<in> set ks. 0 \<le> k \<and> k < int MLF_LEVELS" and "c < length (cpus s)"
  shows "(ph c = Inner \<and> c_indice (cpus s ! c) < MLF_LEVELS \<longrightarrow>
      (\<exists>r t. scheduler_pick (on c s) = Done r t \<and> r = q_first (pt_mlf s ! c_indice (cpus s ! c)))) \<and>
    (ph c = User p \<and> table_free s \<longrightarrow>
      (\<exists>t. (yield :: (_, unit) kop) (on c s) = Asleep t) \<and>
      (\<exists>t. andthen (acquire l) (sleep ch (Some l) :: (_, unit) kop) (on c s) = Asleep t))"
proof -
  have "list_all level_ok ks" using assms(2) by (simp add: list_all_iff level_ok_def)
  note inv = sched_run_inv [OF assms(1) boot_sys_inv this]
  show ?thesis
    using scheduler_pick_head [OF inv assms(3)] sys_yield [OF inv assms(3), of p] sys_block [OF inv assms(3), of p l ch]
    by (auto elim: wpa_AsleepE)
qed

theorem scheduler_never_stuck_witness:
  "\<exists>s. sched_run (boot_table, \<lambda>_. Outer) [] (s, (\<lambda>_. Outer)(0 := Inner)) \<and>
     (\<exists>t. scheduler_pick (on 0 s) = Done (Some 0) t)"
proof (rule boot_first_step)
  fix s
  assume s: "sched_run (boot_table, \<lambda>_. Outer) [] (s, (\<lambda>_. Outer)(0 := Inner))" "0 < length (cpus s)"
    "c_indice (cpus s ! 0) = 0" "pt_mlf s = pt_mlf boot_table"
  have "q_first (pt_mlf s ! 0) = Some 0" "0 < MLF_LEVELS" using s(4) by (simp_all add: boot_table_def kcons.defs MLF_LEVELS_def)
  then show ?thesis using scheduler_never_stuck [OF s(1) _ s(2)] s by auto
qed

end
