(* ===== verification/Sched_Props.thy ===== *)
theory Sched_Props
  imports Sched_Sys
begin

text \<open>
  What the single operations on the process table promise: \<open>wakeup\<close>, \<open>kill\<close> and \<open>exit\<close>; and what the
  code does where it takes no care: a level out of range given to \<open>set_priority\<close>, \<open>kill\<close> of pid 0, and
  the scan of the levels that never returns to the first.
\<close>

section \<open>A running system\<close>

text \<open>Two processes beside init: process 2 runs on CPU 0, its child 3 sleeps on the clock.\<close>

definition runner :: proc where
  "runner = init_proc\<lparr>p_state := RUNNING, p_pid := 2, p_parent := Some 0, p_name := ''sh'', p_current_level := 3\<rparr>"

definition sleeper :: proc where
  "sleeper = init_proc\<lparr>p_state := SLEEPING, p_chan := Some TicksChan, p_pid := 3, p_parent := Some 2,
     p_name := ''ls'', p_current_level := 2\<rparr>"

definition demo_table :: kproc where
  "demo_table = boot_table\<lparr>cpus := (cpus boot_table)[0 := boot_cpu\<lparr>c_proc := Some 2\<rparr>],
     pt_proc := boot_procs[2 := runner, 3 := sleeper], nextpid := 4\<rparr>"

lemma boot_procs_length: "length boot_procs = NPROC"
  by (simp add: boot_procs_def NPROC_def)

lemma demo_procs:
  "boot_procs[2 := runner, 3 := sleeper] ! 2 = runner" "boot_procs[2 := runner, 3 := sleeper] ! 3 = sleeper"
  by (simp_all add: boot_procs_def NPROC_def numeral_eq_Suc)

lemma demo_ptab: "ptab {} demo_table [[0], [], [], []]"
proof -
  let ?Q = "[[0], [], [], []] :: nat list list"
  have n: "(2::nat) < NPROC" "(3::nat) < NPROC" "length boot_procs = NPROC" "(3::int) < int MLF_LEVELS"
    by (simp_all add: NPROC_def boot_procs_def MLF_LEVELS_def)
  have pids: "pids_ok boot_procs 2" using table_invD(3) [OF boot_table_inv] by (simp add: boot_table_def kcons.defs)
  then have pids1: "pids_ok (boot_procs[2 := runner]) 3" using pids_ok_new [OF pids n(3,1), of runner] by (simp add: runner_def INT_MAX_def)
  then have pids2: "pids_ok (boot_procs[2 := runner, 3 := sleeper]) 4"
    using pids_ok_new [OF pids1 _ n(2), of sleeper] n by (simp add: sleeper_def INT_MAX_def)
  let ?s = "boot_table\<lparr>cpus := (cpus boot_table)[0 := boot_cpu\<lparr>c_proc := Some 2\<rparr>]\<rparr>"
  have s: "ptab {} ?s ?Q"
    using boot_table_inv boot_table_con
    by (simp add: ptab_def lks_def boot_table_simps boot_cpu_def free_lock_def NCPU_def)
  let ?t = "?s\<lparr>pt_proc := boot_procs[2 := runner], nextpid := 3\<rparr>"
  have "ptab {} (?s\<lparr>pt_proc := (pt_proc ?s)[2 := runner], nextpid := 3\<rparr>) ?Q"
    by (rule ptab_other [OF s n(1)])
      (use pids1 n in \<open>simp_all add: boot_table_simps boot_procs_nth boot_proc_fields runner_def MLF_LEVELS_def\<close>)
  then have t: "ptab {} ?t ?Q" by (simp add: boot_table_simps)
  have "ptab {} (?t\<lparr>pt_proc := (pt_proc ?t)[3 := sleeper], nextpid := 4\<rparr>) ?Q"
    by (rule ptab_other [OF t n(2)])
      (use pids2 n in \<open>simp_all add: boot_procs_nth boot_proc_fields sleeper_def MLF_LEVELS_def\<close>)
  then show ?thesis by (simp add: demo_table_def)
qed

lemma demo_simps:
  "c_proc (thecpu demo_table) = Some 2" "(2::nat) < NPROC" "(3::nat) < NPROC" "pt_proc demo_table ! 2 = runner"
  "pt_proc demo_table ! 3 = sleeper" "initproc demo_table = Some 0"
proof -
  show "c_proc (thecpu demo_table) = Some 2" by (simp add: demo_table_def boot_table_simps NCPU_def)
  show "(2::nat) < NPROC" "(3::nat) < NPROC" by (simp_all add: NPROC_def)
  show "pt_proc demo_table ! 2 = runner" "pt_proc demo_table ! 3 = sleeper"
    by (simp_all add: demo_table_def demo_procs)
  show "initproc demo_table = Some 0" by (simp add: demo_table_def boot_table_def kcons.defs)
qed

section \<open>Properties\<close>

text \<open>
  C13. \<open>wakeup\<close> makes runnable exactly the processes asleep on the channel: each goes up one level (from
  the first it stays there), to the end of that level's queue, in the order of the table. It returns,
  keeps the table's invariant and the locks, and touches no other component.
\<close>

theorem wakeup_wakes_sleepers:
  assumes "ptab H s Q" and "PtableLock \<notin> H"
  shows "\<exists>t. wakeup ch s = Done () t \<and> ptab H t (woken_queues (Some ch) (pt_proc s) Q) \<and>
    woken (Some ch) {..<NPROC} (pt_proc t) (pt_proc s) \<and> kframe s t"
proof -
  have "wp (wakeup ch) (\<lambda>_ t. ptab H t (woken_queues (Some ch) (pt_proc s) Q) \<and>
      woken (Some ch) {..<NPROC} (pt_proc t) (pt_proc s) \<and> kframe s t) s"
    using assms by (rule wp_wakeup) auto
  then show ?thesis by (auto simp: wp_iff_Done)
qed

theorem wakeup_wakes_sleepers_witness:
  "\<exists>t. wakeup TicksChan demo_table = Done () t \<and> p_state (pt_proc t ! 3) = RUNNABLE \<and>
     p_current_level (pt_proc t ! 3) = 1"
proof -
  obtain t where t: "wakeup TicksChan demo_table = Done () t"
    and w: "woken (Some TicksChan) {..<NPROC} (pt_proc t) (pt_proc demo_table)"
    using wakeup_wakes_sleepers [OF demo_ptab, of TicksChan] by auto
  have "sleeps_on (Some TicksChan) (pt_proc demo_table ! 3)" "p_current_level (pt_proc demo_table ! 3) = 2"
    by (simp_all add: demo_simps sleeps_on_def sleeper_def)
  then show ?thesis using t w demo_simps(3) by (auto simp: woken_def)
qed

text \<open>
  C14. \<open>kill\<close> marks the first process of the table with the given pid and returns 0; if that process
  sleeps it becomes runnable at the end of the queue of its own level. With no such process it
  changes nothing and returns -1. It keeps the table's invariant and leaves its lock free.
\<close>

theorem kill_marks_and_wakes:
  assumes "ptab {} s Q"
  shows "\<exists>v t Q'. kill pid s = Done v t \<and> ptab {} t Q' \<and> kill_post pid (pt_proc s) Q v (pt_proc t) Q' \<and> kframe s t"
proof -
  have "wp (kill pid) (\<lambda>v t. \<exists>Q'. ptab {} t Q' \<and> kill_post pid (pt_proc s) Q v (pt_proc t) Q' \<and> kframe s t) s"
    using assms by (rule wp_kill) auto
  then show ?thesis by (auto simp: wp_iff_Done)
qed

theorem kill_marks_and_wakes_witness:
  "\<exists>v t Q'. kill 3 demo_table = Done v t \<and> ptab {} t Q' \<and>
     kill_post 3 (pt_proc demo_table) [[0], [], [], []] v (pt_proc t) Q'"
  using kill_marks_and_wakes [OF demo_ptab, of 3] by blast

text \<open>
  C15. The end of \<open>exit\<close>: the process becomes a zombie and gives up the CPU with the table's lock held;
  its children belong to init; whoever waits on its parent's channel is runnable; nobody else changes
  state except sleepers that are woken. The queues stay sound.
\<close>

theorem exit_leaves_zombie:
  assumes "ptab {} s Q" and "c_proc (thecpu s) = Some p" and "p < NPROC" and "p_state (pt_proc s ! p) = RUNNING"
  shows "\<exists>t Q'. (exit_table :: (_, unit) kop) s = Asleep t \<and> ptab {PtableLock} t Q' \<and>
    exited p (initproc s) (pt_proc s) (pt_proc t) \<and> kframe s t"
proof -
  have "wpa (exit_table :: (_, unit) kop) (\<lambda>_ _. False)
      (\<lambda>t. \<exists>Q'. ptab {PtableLock} t Q' \<and> exited p (initproc s) (pt_proc s) (pt_proc t) \<and> kframe s t) s"
    using assms by (rule wpa_exit_table) auto
  then show ?thesis by (rule wpa_AsleepE) blast
qed

theorem exit_leaves_zombie_witness:
  "\<exists>t. (exit_table :: (_, unit) kop) demo_table = Asleep t \<and> p_state (pt_proc t ! 2) = ZOMBIE \<and>
     p_parent (pt_proc t ! 3) = Some 0"
proof -
  have "p_state (pt_proc demo_table ! 2) = RUNNING" by (simp add: demo_simps runner_def)
  from exit_leaves_zombie [OF demo_ptab demo_simps(1,2) this]
  obtain t where "(exit_table :: (_, unit) kop) demo_table = Asleep t"
    and e: "exited 2 (Some 0) (pt_proc demo_table) (pt_proc t)" by (auto simp: demo_simps)
  moreover have "p_parent (pt_proc demo_table ! 3) = Some 2" by (simp add: demo_simps sleeper_def)
  ultimately show ?thesis using demo_simps(3) by (auto simp: exited_def)
qed

lemma wp_set_priority:
  assumes s: "ptab {} s Q" and p: "p < NPROC"
    and R: "\<And>t. lks {} t \<Longrightarrow> cpu_frame (mycpu s) (cpus t) (cpus s) \<Longrightarrow> mycpu t = mycpu s \<Longrightarrow> pt_mlf t = pt_mlf s \<Longrightarrow>
      pt_proc t = (pt_proc s)[p := (pt_proc s ! p)\<lparr>p_current_level := k\<rparr>] \<Longrightarrow> R () t"
  shows "wp (set_priority p k) R s"
proof -
  let ?u = "s\<lparr>pt_proc := (pt_proc s)[p := (pt_proc s ! p)\<lparr>p_current_level := k\<rparr>]\<rparr>"
  have len: "p < length (pt_proc s)" using ptabD(4) [OF s] p by simp
  have l: "lks {} ?u" and con: "con_ok ?u" using ptabD(1,2) [OF s] by simp_all
  have "wp (cprintf ''----> name proc set_priority: %s \<newline>'' [ArgStr (Some (p_name (pt_proc s ! p)))]) R ?u"
    by (rule wp_cprintf [OF l _ con set_priority_fmt_ok]) (auto intro!: R)
  then show ?thesis using len by (simp add: set_priority_def wp_rules wp_table)
qed

text \<open>
  C17. \<open>set_priority\<close> does not check its argument: given a level past the last queue, or below -1, it
  returns; but when the process next gives up the CPU, \<open>yield\<close> indexes \<open>ptable.mlf\<close> out of bounds.
\<close>

theorem set_priority_out_of_range:
  assumes "ptab {} s Q" and "c_proc (thecpu s) = Some p" and "p < NPROC"
    and "k < - 1 \<or> int MLF_LEVELS \<le> k"
  shows "\<exists>t. set_priority p k s = Done () t \<and> (yield :: (_, unit) kop) t = Fault ''mlf''"
proof -
  have "wp (set_priority p k) (\<lambda>_ t. (yield :: (_, unit) kop) t = Fault ''mlf'') s"
  proof (rule wp_set_priority [OF assms(1,3)])
    fix t
    assume l: "lks {} t" and cf: "cpu_frame (mycpu s) (cpus t) (cpus s)" and my: "mycpu t = mycpu s"
      and m: "pt_mlf t = pt_mlf s" and ps: "pt_proc t = (pt_proc s)[p := (pt_proc s ! p)\<lparr>p_current_level := k\<rparr>]"
    have len: "length (pt_proc s) = NPROC" "length (pt_mlf s) = MLF_LEVELS" using ptabD(4,5) [OF assms(1)] by simp_all
    have cp: "c_proc (thecpu t) = Some p" using cpu_frameD(1) [OF cf] assms(2) my by simp
    have "wp (acquire PtableLock) (\<lambda>_ u. pt_proc u = pt_proc t \<and> pt_mlf u = pt_mlf t \<and> c_proc (thecpu u) = Some p) t"
      by (rule wp_acquire [OF l]) (use cp cpu_frameD(1) in auto)
    then obtain u where a: "acquire PtableLock t = Done () u" and u: "pt_proc u = pt_proc t" "pt_mlf u = pt_mlf t"
        "c_proc (thecpu u) = Some p" by (auto simp: wp_iff_Done)
    have d: "down (pt_proc u ! p) < 0 \<or> int MLF_LEVELS \<le> down (pt_proc u ! p)"
      using assms(3,4) len u(1) ps by (auto simp: down_def)
    then show "(yield :: (_, unit) kop) t = Fault ''mlf''"
      using a u assms(3) len m ps
      by (auto simp: yield_def kop_defs myproc_def curproc_def pget_def make_runnable_def encolar_def mlf_get_def)
  qed
  then show ?thesis by (auto simp: wp_iff_Done)
qed

theorem set_priority_out_of_range_witness:
  "\<exists>t. set_priority 2 100 demo_table = Done () t \<and> (yield :: (_, unit) kop) t = Fault ''mlf''"
  by (rule set_priority_out_of_range [OF demo_ptab demo_simps(1,2)]) (simp add: MLF_LEVELS_def)

text \<open>One round of a CPU: the scheduler picks a process, which runs until it yields.\<close>

definition cpu_round :: "'z kproc_scheme \<Rightarrow> 'z kproc_scheme option" where
  "cpu_round s = (case andthen scheduler_pick yield_return s of
      Done _ t \<Rightarrow> (case (yield :: (_, unit) kop) t of
        Asleep u \<Rightarrow> (case andthen scheduler_back scheduler_advance u of Done _ v \<Rightarrow> Some v | _ \<Rightarrow> None)
      | _ \<Rightarrow> None)
    | _ \<Rightarrow> None)"

fun cpu_rounds :: "nat \<Rightarrow> 'z kproc_scheme \<Rightarrow> 'z kproc_scheme option" where
  "cpu_rounds 0 s = Some s"
| "cpu_rounds (Suc n) s = Option.bind (cpu_round s) (cpu_rounds n)"

definition starving :: "nat \<Rightarrow> nat list list \<Rightarrow> 'z kproc_scheme \<Rightarrow> bool" where
  "starving p Q s \<longleftrightarrow> ptab {PtableLock} s Q \<and> c_indice (thecpu s) = MLF_LEVELS - 1 \<and> Q ! (MLF_LEVELS - 1) = [p] \<and>
     (\<forall>q < NPROC. p_state (pt_proc s ! q) = RUNNABLE \<longrightarrow> p_pgdir (pt_proc s ! q) \<noteq> 0)"

lemma scheduler_back_advance_stays:
  assumes s: "ptab {PtableLock} s Q" and i: "c_indice (thecpu s) = i" "i < MLF_LEVELS" and Q: "Q ! i \<noteq> []"
  shows "\<exists>t. andthen scheduler_back scheduler_advance s = Done () t \<and> ptab {PtableLock} t Q \<and>
    c_indice (thecpu t) = i \<and> pt_proc t = pt_proc s"
proof -
  have cl: "mycpu s < length (cpus s)" using lksD(2) [OF ptabD(1) [OF s]] .
  let ?c = "(thecpu s)\<lparr>c_cr3 := V2P (kpgdir s), c_proc := None\<rparr>"
  let ?t = "s\<lparr>cpus := (cpus s)[mycpu s := ?c]\<rparr>"
  have t: "ptab {PtableLock} ?t Q" by (rule ptab_cpu [OF s]) simp_all
  obtain q where "q_first (pt_mlf s ! i) = Some q"
    using mlf_invD(4) [OF table_invD(1) [OF ptabD(3) [OF s]] i(2)] Q by (simp add: qrep_def)
  then have "andthen scheduler_back scheduler_advance s = Done () ?t"
    using cl i ptabD(5) [OF s]
    by (simp add: scheduler_back_def switchkvm_def scheduler_advance_def mlf_get_def kop_defs upd_cpu_def)
  then show ?thesis using t cl i by simp
qed

lemma wp_yield_return:
  assumes s: "ptab {PtableLock} s Q" and p: "c_proc (thecpu s) = Some p" "p < NPROC"
    and R: "\<And>t. kframe s t \<Longrightarrow> ptab {} t Q \<Longrightarrow> same_table s t \<Longrightarrow> R () t"
  shows "wp yield_return R s"
  unfolding yield_return_def wp_andthen
proof (rule wp_sched_return [OF s p])
  fix t
  assume t: "kframe s t" "ptab {PtableLock} t Q" "same_table s t"
  show "wp (release PtableLock) R t"
    by (rule wp_release_table [OF t(2)], simp, rule R [OF kframe_trans [OF t(1)]])
      (use t(3) in \<open>simp_all add: same_table_def\<close>)
qed

definition picked :: "nat \<Rightarrow> nat \<Rightarrow> nat list list \<Rightarrow> 'z kproc_scheme \<Rightarrow> 'z kproc_scheme \<Rightarrow> bool" where
  "picked p i Q s t \<longleftrightarrow> ptab {} t (Q[i := []]) \<and> c_proc (thecpu t) = Some p \<and> p < NPROC \<and> c_indice (thecpu t) = i \<and>
     p_current_level (pt_proc t ! p) = int i \<and> p_state (pt_proc s ! p) = RUNNABLE \<and>
     restate p RUNNING (pt_proc s) (pt_proc t)"

lemma starvingD:
  assumes "starving p Q s"
  shows "ptab {PtableLock} s Q" "c_indice (thecpu s) = MLF_LEVELS - 1" "MLF_LEVELS - 1 < MLF_LEVELS"
    "Q ! (MLF_LEVELS - 1) = [p]" "q < NPROC \<Longrightarrow> p_state (pt_proc s ! q) = RUNNABLE \<Longrightarrow> p_pgdir (pt_proc s ! q) \<noteq> 0"
  using assms by (auto simp: starving_def MLF_LEVELS_def)

lemma starving_pick:
  fixes s :: "'a kproc_scheme"
  assumes "starving p Q s"
  shows "wp (andthen scheduler_pick yield_return) (\<lambda>_. picked p (MLF_LEVELS - 1) Q s) s"
  unfolding wp_andthen
proof (rule wp_scheduler_pick [OF starvingD(1-3) [OF assms] starvingD(5) [OF assms]])
  fix q xs and t :: "'a kproc_scheme"
  assume q: "Q ! (MLF_LEVELS - 1) = q # xs" "q < NPROC" "p_state (pt_proc s ! q) = RUNNABLE"
    and t: "ptab {PtableLock} t (Q[MLF_LEVELS - 1 := xs])" "restate q RUNNING (pt_proc s) (pt_proc t)"
      "c_proc (thecpu t) = Some q" "c_indice (thecpu t) = MLF_LEVELS - 1"
      "p_current_level (pt_proc t ! q) = int (MLF_LEVELS - 1)"
  have qp: "q = p" "xs = []" using q starvingD(4) [OF assms] by auto
  show "wp yield_return (\<lambda>_. picked p (MLF_LEVELS - 1) Q s) t"
  proof (rule wp_yield_return [OF t(1,3) q(2)])
    fix u :: "'a kproc_scheme"
    assume u: "kframe t u" "ptab {} u (Q[MLF_LEVELS - 1 := xs])" "same_table t u"
    then show "picked p (MLF_LEVELS - 1) Q s u"
      using t(2-) q(2,3) qp kframe_cproc [OF u(1)] by (simp add: picked_def same_table_def)
  qed
next
  assume "Q ! (MLF_LEVELS - 1) = []"
  then show "wp yield_return (\<lambda>_. picked p (MLF_LEVELS - 1) Q s) s" using starvingD(4) [OF assms] by simp
qed

lemma picked_yield:
  assumes t: "picked p i Q s t" and i: "i = MLF_LEVELS - 1" and Q: "length Q = MLF_LEVELS" "Q ! i = [p]"
  shows "wpa (yield :: (_, unit) kop) (\<lambda>_ _. False) (\<lambda>u. ptab {PtableLock} u Q \<and> c_indice (thecpu u) = i \<and>
      restate p RUNNABLE (pt_proc t) (pt_proc u)) t"
proof -
  have D: "ptab {} t (Q[i := []])" "c_proc (thecpu t) = Some p" "p < NPROC" "p_state (pt_proc t ! p) = RUNNING"
    and ti: "c_indice (thecpu t) = i" and lv: "p_current_level (pt_proc t ! p) = int i"
    using t by (auto simp: picked_def restate_def)
  have dn: "nat (down (pt_proc t ! p)) = i" using lv i by (simp add: down_def MLF_LEVELS_def)
  have eq: "(Q[i := []])[i := (Q[i := []]) ! i @ [p]] = Q"
    using Q i by (simp add: MLF_LEVELS_def) (metis list_update_id)
  show ?thesis
    using D
  proof (rule wpa_yield)
    fix u
    assume u: "kframe t u" "restate p RUNNABLE (pt_proc t) (pt_proc u)"
      "ptab {PtableLock} u (let l = nat (down (pt_proc t ! p)) in (Q[i := []])[l := (Q[i := []]) ! l @ [p]])"
    show "ptab {PtableLock} u Q \<and> c_indice (thecpu u) = i \<and> restate p RUNNABLE (pt_proc t) (pt_proc u)"
      using u ti kframe_cproc(2) [OF u(1)] unfolding dn Let_def eq by simp
  qed
qed

lemma cpu_round_starving:
  assumes "starving p Q s"
  shows "\<exists>t. cpu_round s = Some t \<and> starving p Q t"
proof -
  let ?i = "MLF_LEVELS - 1"
  note S = starvingD [OF assms]
  have lenQ: "length Q = MLF_LEVELS" using mlf_invD(3) [OF table_invD(1) [OF ptabD(3) [OF S(1)]]] .
  obtain a t where at: "andthen scheduler_pick yield_return s = Done a t" and t: "picked p ?i Q s t"
    using starving_pick [OF assms] unfolding wp_iff_Done by blast
  obtain u where yu: "(yield :: (_, unit) kop) t = Asleep u"
    and u: "ptab {PtableLock} u Q \<and> c_indice (thecpu u) = ?i \<and> restate p RUNNABLE (pt_proc t) (pt_proc u)"
    using picked_yield [OF t refl lenQ S(4)] by (rule wpa_AsleepE)
  obtain v where v: "andthen scheduler_back scheduler_advance u = Done () v" "ptab {PtableLock} v Q"
      "c_indice (thecpu v) = ?i" "pt_proc v = pt_proc u"
    using scheduler_back_advance_stays [of u Q ?i] u S(3,4) by auto
  have "p_pgdir (pt_proc v ! q) \<noteq> 0" if "q < NPROC" "p_state (pt_proc v ! q) = RUNNABLE" for q
    using that S(5) [of q] S(5) [of p] t u v(4) by (cases "q = p") (auto simp: restate_def picked_def)
  then have "starving p Q v" using v S(4) by (simp add: starving_def)
  then show ?thesis using at yu v(1) by (auto simp: cpu_round_def)
qed

text \<open>
  C18. The scan of \<open>scheduler\<close> starves the upper levels. While one process that never sleeps is alone on
  the last level, a CPU that has come to that level picks it, is given the CPU back by \<open>yield\<close>, and
  picks it again, for any number of rounds: \<open>indice\<close> returns to the first level only when the last
  level's queue is empty. Processes of higher priority stay in their queues all the while.
\<close>

theorem scheduler_starves_upper_levels:
  assumes "starving p Q s"
  shows "\<exists>t. cpu_rounds n s = Some t \<and> starving p Q t"
  using assms
proof (induction n arbitrary: s)
  case (Suc n)
  then obtain t where "cpu_round s = Some t" "starving p Q t" using cpu_round_starving by blast
  then show ?case using Suc.IH by auto
qed auto

lemma demo_pgdir: "q < NPROC \<Longrightarrow> p_state (pt_proc demo_table ! q) \<noteq> UNUSED \<Longrightarrow> p_pgdir (pt_proc demo_table ! q) \<noteq> 0"
proof -
  assume q: "q < NPROC" and u: "p_state (pt_proc demo_table ! q) \<noteq> UNUSED"
  have "pt_proc demo_table ! q = (if q = 2 then runner else if q = 3 then sleeper else boot_procs ! q)"
    using q by (simp only: demo_table_def) (simp add: boot_procs_length)
  then show ?thesis using q u by (auto simp: runner_def sleeper_def boot_procs_nth init_proc_def no_proc_def split: if_splits)
qed

lemma demo_starving: "\<exists>s :: kproc. starving 2 [[0], [], [], [2]] s"
proof -
  have st: "p_state (pt_proc demo_table ! 2) = RUNNING" by (simp add: demo_simps runner_def)
  have "wpa (yield :: (_, unit) kop) (\<lambda>_ _. False) (\<lambda>u. ptab {PtableLock} u [[0], [], [], [2]] \<and>
      restate 2 RUNNABLE (pt_proc demo_table) (pt_proc u)) demo_table"
    by (rule wpa_yield [OF demo_ptab demo_simps(1,2) st])
      (simp_all add: demo_simps runner_def down_def MLF_LEVELS_def)
  then obtain u where "(yield :: (_, unit) kop) demo_table = Asleep u"
    and u: "ptab {PtableLock} u [[0], [], [], [2]] \<and> restate 2 RUNNABLE (pt_proc demo_table) (pt_proc u)"
    by (rule wpa_AsleepE)
  let ?v = "u\<lparr>cpus := (cpus u)[mycpu u := (thecpu u)\<lparr>c_indice := 3\<rparr>]\<rparr>"
  have "ptab {PtableLock} ?v [[0], [], [], [2]]" using u by (intro ptab_cpu) simp_all
  moreover have "mycpu u < length (cpus u)" using u lksD(2) ptabD(1) by blast
  moreover have "p_pgdir (pt_proc u ! q) \<noteq> 0" if "q < NPROC" "p_state (pt_proc u ! q) = RUNNABLE" for q
    using that u demo_pgdir [OF that(1)] st by (cases "q = 2") (auto simp: restate_def)
  ultimately have "starving 2 [[0], [], [], [2]] ?v" by (simp add: starving_def MLF_LEVELS_def)
  then show ?thesis by blast
qed

theorem scheduler_starves_upper_levels_witness:
  "\<exists>s t :: kproc. starving 2 [[0], [], [], [2]] s \<and> cpu_rounds 1000 s = Some t \<and> starving 2 [[0], [], [], [2]] t"
  using demo_starving scheduler_starves_upper_levels by blast

text \<open>
  C19. \<open>kill\<close> does not look at the state of the slot. A pid of 0 is that of every slot that has never
  been used: \<open>kill(0)\<close> marks the first unused slot and reports success, and since \<open>allocproc\<close> does not
  clear the mark, the next process created in that slot is born killed.
\<close>

theorem kill_zero_marks_free_slot:
  assumes "ptab {} s Q" and "q < NPROC" and "p_state (pt_proc s ! q) = UNUSED" and "p_pid (pt_proc s ! q) = 0"
    and "\<forall>r < q. p_state (pt_proc s ! r) \<noteq> UNUSED" and "nextpid s < INT_MAX"
  shows "\<exists>t u. kill 0 s = Done 0 t \<and> alloc_slot t = Done (Some q) u \<and> p_killed (pt_proc u ! q)"
proof -
  have first: "find P [0..<NPROC] = Some q" if "P q" "\<And>r. r < q \<Longrightarrow> \<not> P r" for P
    using assms(2) that by (auto simp: find_Some_iff intro!: exI [of _ q])
  have pid: "p_pid (pt_proc s ! r) \<noteq> 0" if "r < q" for r
  proof -
    have "r < NPROC" "p_state (pt_proc s ! r) \<noteq> UNUSED" using assms(2,5) that by auto
    then have "0 < p_pid (pt_proc s ! r)"
      using table_invD(3) [OF ptabD(3) [OF assms(1)]] by (simp add: pids_ok_def)
    then show ?thesis by simp
  qed
  have "find (\<lambda>p. p_pid (pt_proc s ! p) = 0) [0..<NPROC] = Some q" by (rule first) (use assms(4) pid in auto)
  then have "wp (kill 0) (\<lambda>v t. v = 0 \<and> (\<exists>Q'. ptab {} t Q' \<and> nextpid t = nextpid s \<and> killed_in q (pt_proc s) Q (pt_proc t) Q')) s"
    by (intro wp_kill [OF assms(1)]) (auto simp: kill_post_def)
  then obtain t Q' where t: "kill 0 s = Done 0 t" "ptab {} t Q'" "nextpid t = nextpid s"
    and k: "killed_in q (pt_proc s) Q (pt_proc t) Q'" by (auto simp: wp_iff_Done)
  have uq: "p_state (pt_proc t ! r) = p_state (pt_proc s ! r) \<or> p_state (pt_proc t ! r) \<noteq> UNUSED" for r
    using k by (cases "r = q") (auto simp: killed_in_def split: if_splits)
  have kq: "p_state (pt_proc t ! q) = UNUSED" "p_killed (pt_proc t ! q)"
    using k assms(3) pcoreD(7) [of "pt_proc t ! q"] by (auto simp: killed_in_def)
  have others: "p_state (pt_proc t ! r) \<noteq> UNUSED" if "r < q" for r using uq [of r] assms(5) that by auto
  have len: "length (pt_proc t) = NPROC" using ptabD(4) [OF t(2)] .
  have "wp alloc_slot (\<lambda>v u. v = Some q \<and> p_killed (pt_proc u ! q)) t"
  proof (rule wp_alloc_slot [OF t(2)])
    show "nextpid t < INT_MAX" using t(3) assms(6) by simp
  next
    fix u
    assume "\<forall>p < NPROC. p_state (pt_proc t ! p) \<noteq> UNUSED"
    then show "None = Some q \<and> p_killed (pt_proc u ! q)" using kq(1) assms(2) by simp
  next
    fix u p
    assume p: "p_state (pt_proc t ! p) = UNUSED" "\<forall>r < p. p_state (pt_proc t ! r) \<noteq> UNUSED"
      and u: "pt_proc u = (pt_proc t)[p := (pt_proc t ! p)\<lparr>p_state := EMBRYO, p_pid := nextpid t\<rparr>]"
    have "p = q" using p kq(1) others by (metis linorder_neqE_nat)
    then show "Some p = Some q \<and> p_killed (pt_proc u ! q)" using u kq(2) assms(2) len by simp
  qed
  then show ?thesis using t by (auto simp: wp_iff_Done)
qed

theorem kill_zero_marks_free_slot_witness:
  "\<exists>t u. kill 0 boot_table = Done 0 t \<and> alloc_slot t = Done (Some 1) u \<and> p_killed (pt_proc u ! 1)"
proof (rule kill_zero_marks_free_slot)
  show "ptab {} boot_table [[0], [], [], []]"
    using boot_table_inv boot_table_con
    by (simp add: ptab_def lks_def boot_table_simps boot_cpu_def free_lock_def NCPU_def)
  have n: "(1::nat) < NPROC" by (simp add: NPROC_def)
  then show "(1::nat) < NPROC" .
  show "p_state (pt_proc boot_table ! 1) = UNUSED" "p_pid (pt_proc boot_table ! 1) = 0"
    using boot_procs_nth [OF n] by (simp_all add: boot_table_simps boot_proc_fields)
  show "\<forall>r < 1. p_state (pt_proc boot_table ! r) \<noteq> UNUSED"
    using boot_procs_nth [of 0] n by (simp add: boot_table_simps boot_proc_fields)
  show "nextpid boot_table < INT_MAX" by (simp add: boot_table_def kcons.defs INT_MAX_def)
qed

end
