(* ===== verification/Kernel_Frame.thy ===== *)
theory Kernel_Frame
  imports Sched_Inv
begin

text \<open>
  What the components above the process table use of it: rules for \<open>acquire\<close>, \<open>release\<close>, \<open>cprintf\<close>,
  \<open>wakeup\<close> and \<open>sleep\<close> that speak only of the locks held (\<open>kst\<close>) and of what code below leaves alone
  (\<open>kstep\<close>).
\<close>

definition kst :: "lockid set \<Rightarrow> 'z kproc_scheme \<Rightarrow> bool" where
  "kst H s \<longleftrightarrow> (\<exists>Q. ptab H s Q)"

text \<open>\<open>kstep s t\<close>: locks, console output and the states of processes that do not run may differ.\<close>

definition kstep :: "'z kproc_scheme \<Rightarrow> 'z kproc_scheme \<Rightarrow> bool" where
  "kstep s t \<longleftrightarrow> kframe s t \<and> (\<forall>r. pcore (pt_proc t ! r) = pcore (pt_proc s ! r) \<and>
     (p_state (pt_proc s ! r) = RUNNING \<longrightarrow> p_state (pt_proc t ! r) = RUNNING))"

text \<open>\<open>klow\<close> is \<open>kstep\<close> with nothing said of the components above the process table.\<close>

definition klow :: "'z kproc_scheme \<Rightarrow> 'z kproc_scheme \<Rightarrow> bool" where
  "klow s t \<longleftrightarrow> mycpu t = mycpu s \<and> cpu_frame (mycpu s) (cpus t) (cpus s) \<and>
     stackmem t = stackmem s \<and> stackarg t = stackarg s \<and> con_locking t = con_locking s \<and>
     con_panicked t = con_panicked s \<and> uart t = uart s \<and> initproc t = initproc s \<and>
     ticks t = ticks s \<and> kpgdir t = kpgdir s \<and>
     (\<forall>r. pcore (pt_proc t ! r) = pcore (pt_proc s ! r) \<and>
       (p_state (pt_proc s ! r) = RUNNING \<longrightarrow> p_state (pt_proc t ! r) = RUNNING))"

text \<open>The process this CPU runs.\<close>

definition running :: "nat \<Rightarrow> 'z kproc_scheme \<Rightarrow> bool" where
  "running p s \<longleftrightarrow> c_proc (thecpu s) = Some p \<and> p < NPROC \<and> p_state (pt_proc s ! p) = RUNNING"

lemma kstep_refl [simp]: "kstep s s"
  by (simp add: kstep_def)

lemma kstep_trans: "kstep s t \<Longrightarrow> kstep t u \<Longrightarrow> kstep s u"
  by (auto simp: kstep_def intro: kframe_trans)

lemma kstep_more: "kstep s t \<Longrightarrow> kproc.more t = kproc.more s"
  by (simp add: kstep_def kframe_def)

lemma kstep_klow: "kstep s t \<longleftrightarrow> klow s t \<and> kproc.more t = kproc.more s"
  by (auto simp: kstep_def klow_def kframe_def)

lemma klow_same:
  "mycpu t = mycpu s \<Longrightarrow> cpus t = cpus s \<Longrightarrow> stackmem t = stackmem s \<Longrightarrow> stackarg t = stackarg s \<Longrightarrow>
   con_locking t = con_locking s \<Longrightarrow> con_panicked t = con_panicked s \<Longrightarrow> uart t = uart s \<Longrightarrow>
   initproc t = initproc s \<Longrightarrow> ticks t = ticks s \<Longrightarrow> kpgdir t = kpgdir s \<Longrightarrow> pt_proc t = pt_proc s \<Longrightarrow> klow s t"
  by (simp add: klow_def)

lemma klow_refl [simp]: "klow s s"
  by (simp add: klow_same)

lemma klow_trans: "klow s t \<Longrightarrow> klow t u \<Longrightarrow> klow s u"
  by (auto simp: klow_def intro: cpu_frame_trans)

lemma klow_proc:
  assumes "klow s t"
  shows "p_ofile (pt_proc t ! r) = p_ofile (pt_proc s ! r)" "p_cwd (pt_proc t ! r) = p_cwd (pt_proc s ! r)"
    "p_pgdir (pt_proc t ! r) = p_pgdir (pt_proc s ! r)" "p_sz (pt_proc t ! r) = p_sz (pt_proc s ! r)"
    "p_killed (pt_proc t ! r) = p_killed (pt_proc s ! r)" "p_tf (pt_proc t ! r) = p_tf (pt_proc s ! r)"
    "p_pid (pt_proc t ! r) = p_pid (pt_proc s ! r)" "p_name (pt_proc t ! r) = p_name (pt_proc s ! r)"
    "p_parent (pt_proc t ! r) = p_parent (pt_proc s ! r)"
proof -
  have "pcore (pt_proc t ! r) = pcore (pt_proc s ! r)" using assms by (simp add: klow_def)
  note e = pcoreD [OF this]
  show "p_ofile (pt_proc t ! r) = p_ofile (pt_proc s ! r)" "p_cwd (pt_proc t ! r) = p_cwd (pt_proc s ! r)"
    "p_pgdir (pt_proc t ! r) = p_pgdir (pt_proc s ! r)" "p_sz (pt_proc t ! r) = p_sz (pt_proc s ! r)"
    "p_killed (pt_proc t ! r) = p_killed (pt_proc s ! r)" "p_tf (pt_proc t ! r) = p_tf (pt_proc s ! r)"
    "p_pid (pt_proc t ! r) = p_pid (pt_proc s ! r)" "p_name (pt_proc t ! r) = p_name (pt_proc s ! r)"
    "p_parent (pt_proc t ! r) = p_parent (pt_proc s ! r)"
    by (simp_all only: e)
qed

lemma klow_misc:
  assumes "klow s t"
  shows "c_proc (thecpu t) = c_proc (thecpu s)" "mycpu t = mycpu s" "ticks t = ticks s" "initproc t = initproc s"
    "kpgdir t = kpgdir s"
  using assms cpu_frameD(1) [of "mycpu s" "cpus t" "cpus s" "mycpu s"] by (auto simp: klow_def)

lemma klow_running: "klow s t \<Longrightarrow> running p s \<Longrightarrow> running p t"
  using klow_misc(1,2) [of s t] by (simp add: klow_def running_def)

lemma kstep_running: "kstep s t \<Longrightarrow> running p s \<Longrightarrow> running p t"
  using klow_running kstep_klow by blast

lemmas kstep_proc = klow_proc [OF kstep_klow [THEN iffD1, THEN conjunct1]]
lemmas kstep_misc = klow_misc [OF kstep_klow [THEN iffD1, THEN conjunct1]]

lemma same_table_kstep: "kframe s t \<Longrightarrow> same_table s t \<Longrightarrow> kstep s t"
  by (simp add: kstep_def same_table_def)

lemma woken_kstep: "kframe s t \<Longrightarrow> woken ch D (pt_proc t) (pt_proc s) \<Longrightarrow> kstep s t"
  by (auto simp: kstep_def woken_def sleeps_on_def)

lemma kst_eqI:
  fixes s :: "'z kproc_scheme" and t :: "'y kproc_scheme"
  assumes "spinlocks t = spinlocks s" "cpus t = cpus s" "mycpu t = mycpu s" "crtpos t = crtpos s"
    "crt t = crt s" "con_panicked t = con_panicked s" "pt_proc t = pt_proc s" "pt_mlf t = pt_mlf s"
    "pt_size t = pt_size s" "nextpid t = nextpid s"
  shows "kst H t = kst H s"
  using assms by (simp add: kst_def ptab_def lks_def holding_def con_ok_def crt_ok_def table_inv_def)

lemma running_eqI:
  "cpus t = cpus s \<Longrightarrow> mycpu t = mycpu s \<Longrightarrow> pt_proc t = pt_proc s \<Longrightarrow> running p t = running p s"
  by (simp add: running_def)

lemma kstD: "kst H s \<Longrightarrow> lks H s" "kst H s \<Longrightarrow> con_ok s" "kst H s \<Longrightarrow> length (pt_proc s) = NPROC"
  using ptabD by (auto simp: kst_def)

lemma wp_acquire_k:
  assumes "kst H s" and "l \<notin> H" and "\<And>t. kstep s t \<Longrightarrow> kst (insert l H) t \<Longrightarrow> pt_proc t = pt_proc s \<Longrightarrow> R () t"
  shows "wp (acquire l) R s"
proof -
  obtain Q where "ptab H s Q" using assms(1) by (auto simp: kst_def)
  then show ?thesis
    using assms(2) by (rule wp_acquire_table) (auto intro!: assms(3) same_table_kstep simp: kst_def same_table_def)
qed

lemma wp_release_k:
  assumes "kst (insert l H) s" and "l \<notin> H" and "\<And>t. kstep s t \<Longrightarrow> kst H t \<Longrightarrow> pt_proc t = pt_proc s \<Longrightarrow> R () t"
  shows "wp (release l) R s"
proof -
  obtain Q where "ptab (insert l H) s Q" using assms(1) by (auto simp: kst_def)
  then show ?thesis
    using assms(2) by (rule wp_release_table) (auto intro!: assms(3) same_table_kstep simp: kst_def same_table_def)
qed

lemma wp_cprintf_k:
  assumes "kst H s" and "fmt_ok fmt args" and "ConsLock \<notin> H"
    and "\<And>t. kstep s t \<Longrightarrow> kst H t \<Longrightarrow> pt_proc t = pt_proc s \<Longrightarrow> R () t"
  shows "wp (cprintf fmt args) R s"
proof -
  obtain Q where "ptab H s Q" using assms(1) by (auto simp: kst_def)
  then show ?thesis
    using assms(2,3) by (rule wp_cprintf_table) (auto intro!: assms(4) same_table_kstep simp: kst_def same_table_def)
qed

lemma wp_wakeup_k:
  assumes "kst H s" and "PtableLock \<notin> H" and "\<And>t. kstep s t \<Longrightarrow> kst H t \<Longrightarrow> R () t"
  shows "wp (wakeup ch) R s"
proof -
  obtain Q where "ptab H s Q" using assms(1) by (auto simp: kst_def)
  then show ?thesis
    using assms(2) by (rule wp_wakeup) (auto intro!: assms(3) woken_kstep simp: kst_def)
qed

text \<open>\<open>sleep\<close> gives up the CPU; the state it leaves keeps the rest of the kernel as it was.\<close>

lemma wpa_sleep_k:
  assumes "kst {l} s" and "running p s"
    and "\<And>t. kproc.more t = kproc.more s \<Longrightarrow> kst {PtableLock} t \<Longrightarrow> p_state (pt_proc t ! p) = SLEEPING \<Longrightarrow>
      p_chan (pt_proc t ! p) = Some ch \<Longrightarrow> R t"
  shows "wpa (sleep ch (Some l)) P R s"
proof -
  obtain Q where "ptab {l} s Q" using assms(1) by (auto simp: kst_def)
  moreover have "c_proc (thecpu s) = Some p" "p < NPROC" "p_state (pt_proc s ! p) = RUNNING"
    using assms(2) by (simp_all add: running_def)
  ultimately show ?thesis
    by (rule wpa_sleep) (auto intro!: assms(3) simp: kst_def kframe_def restate_def)
qed

lemma wp_myproc: "running p s \<Longrightarrow> wp myproc R s = R p s"
  by (simp add: myproc_def curproc_def running_def wp_rules)

lemma wp_pget_k: "kst H s \<Longrightarrow> p < NPROC \<Longrightarrow> wp (pget p) R s = R (pt_proc s ! p) s"
  using kstD(3) [of H s] by (simp add: wp_pget)

end
