(* ===== verification/Kalloc.thy ===== *)
theory Kalloc
  imports Kernel_Frame Sched_Props StringC
begin

text \<open>
  kalloc.c: the allocator of physical pages. The free pages are a linked list whose links are in the
  pages themselves, so the state is the kernel's memory (\<open>mem\<close>, by kernel virtual address) and the head of the
  list. \<open>kend\<close> and \<open>kdata\<close> are the symbols \<open>end\<close> and \<open>data\<close> the linker defines.
\<close>

section \<open>The state and the operations\<close>

record kmem = kproc +
  mem :: memory
  kmem_use_lock :: bool
  freelist :: uint
  kend :: uint
  kdata :: uint

definition PGSIZE :: uint where
  "PGSIZE = 4096"

definition EXTMEM :: uint where
  "EXTMEM = 0x100000"

definition PHYSTOP :: uint where
  "PHYSTOP = 0xE000000"

definition PGROUNDUP :: "uint \<Rightarrow> uint" where
  "PGROUNDUP sz = (sz + PGSIZE - 1) AND NOT (PGSIZE - 1)"

definition PGROUNDDOWN :: "uint \<Rightarrow> uint" where
  "PGROUNDDOWN a = a AND NOT (PGSIZE - 1)"

definition store32 :: "uint \<Rightarrow> uint \<Rightarrow> ('z kmem_scheme, unit) kop" where
  "store32 a v = upd (\<lambda>s. s\<lparr>mem := wr32 (mem s) a v\<rparr>)"

definition load32 :: "uint \<Rightarrow> ('z kmem_scheme, uint) kop" where
  "load32 a = gets (\<lambda>s. rd32 (mem s) a)"

definition kmemset :: "uint \<Rightarrow> uint \<Rightarrow> uint \<Rightarrow> ('z kmem_scheme, unit) kop" where
  "kmemset dst c n = upd (\<lambda>s. s\<lparr>mem := memset (mem s) dst c n\<rparr>)"

definition kmemmove :: "uint \<Rightarrow> uint \<Rightarrow> uint \<Rightarrow> ('z kmem_scheme, unit) kop" where
  "kmemmove dst src n = upd (\<lambda>s. s\<lparr>mem := memmove (mem s) dst src n\<rparr>)"

definition kfree :: "uint \<Rightarrow> ('z kmem_scheme, unit) kop" where
  "kfree v =
     bnd (gets kend) (\<lambda>e.
     if v mod PGSIZE \<noteq> 0 \<or> v < e \<or> V2P v \<ge> PHYSTOP then panic ''kfree''
     else
       andthen (kmemset v 1 PGSIZE)
       (bnd (gets kmem_use_lock) (\<lambda>ul.
       andthen (whenever ul (acquire KmemLock))
       (bnd (gets freelist) (\<lambda>f.
       andthen (store32 v f)
       (andthen (upd (\<lambda>s. s\<lparr>freelist := v\<rparr>))
       (bnd (gets kmem_use_lock) (\<lambda>ul. whenever ul (release KmemLock)))))))))"

definition kalloc :: "('z kmem_scheme, uint) kop" where
  "kalloc =
     bnd (gets kmem_use_lock) (\<lambda>ul.
     andthen (whenever ul (acquire KmemLock))
     (bnd (gets freelist) (\<lambda>r.
     andthen (whenever (r \<noteq> 0) (bnd (load32 r) (\<lambda>nx. upd (\<lambda>s. s\<lparr>freelist := nx\<rparr>))))
     (bnd (gets kmem_use_lock) (\<lambda>ul.
     andthen (whenever ul (release KmemLock)) (ret r))))))"

text \<open>The loop of \<open>freerange\<close>; a pointer past the end of the address space is undefined in C.\<close>

function freerange_loop :: "uint \<Rightarrow> uint \<Rightarrow> ('z kmem_scheme, unit) kop" where
  "freerange_loop p vend =
     (if p + PGSIZE < p then fault ''freerange''
      else if p + PGSIZE \<le> vend then andthen (kfree p) (freerange_loop (p + PGSIZE) vend)
      else ret ())"
  by pat_completeness auto

termination freerange_loop
proof (relation "measure (\<lambda>(p, vend). unat vend - unat p)")
  fix p vend :: uint
  assume a: "\<not> p + PGSIZE < p" "p + PGSIZE \<le> vend"
  have "p + PGSIZE \<noteq> p" by (simp add: PGSIZE_def)
  then have "unat p < unat (p + PGSIZE)" using a(1) by (metis linorder_neqE_nat word_less_nat_alt word_unat_eq_iff)
  then show "((p + PGSIZE, vend), (p, vend)) \<in> measure (\<lambda>(p, vend). unat vend - unat p)"
    using a(2) by (simp add: word_le_nat_alt)
qed simp

declare freerange_loop.simps [simp del]

definition freerange :: "uint \<Rightarrow> uint \<Rightarrow> ('z kmem_scheme, unit) kop" where
  "freerange vstart vend = freerange_loop (PGROUNDUP vstart) vend"

definition kinit1 :: "uint \<Rightarrow> uint \<Rightarrow> ('z kmem_scheme, unit) kop" where
  "kinit1 vstart vend =
     andthen (initlock KmemLock ''kmem'')
     (andthen (upd (\<lambda>s. s\<lparr>kmem_use_lock := False\<rparr>))
     (freerange vstart vend))"

definition kinit2 :: "uint \<Rightarrow> uint \<Rightarrow> ('z kmem_scheme, unit) kop" where
  "kinit2 vstart vend =
     andthen (freerange vstart vend) (upd (\<lambda>s. s\<lparr>kmem_use_lock := True\<rparr>))"

section \<open>The free list\<close>

text \<open>\<open>flrep m a xs\<close>: the links in memory from \<open>a\<close> lead through exactly the pages \<open>xs\<close>.\<close>

fun flrep :: "memory \<Rightarrow> uint \<Rightarrow> uint list \<Rightarrow> bool" where
  "flrep m a [] \<longleftrightarrow> a = 0"
| "flrep m a (x # xs) \<longleftrightarrow> a = x \<and> x \<noteq> 0 \<and> flrep m (rd32 m x) xs"

definition page_ok :: "'z kmem_scheme \<Rightarrow> uint \<Rightarrow> bool" where
  "page_ok s v \<longleftrightarrow> v mod PGSIZE = 0 \<and> kend s \<le> v \<and> V2P v < PHYSTOP \<and> v \<noteq> 0"

definition kmem_inv :: "'z kmem_scheme \<Rightarrow> uint list \<Rightarrow> bool" where
  "kmem_inv s fl \<longleftrightarrow> flrep (mem s) (freelist s) fl \<and> distinct fl \<and> (\<forall>v \<in> set fl. page_ok s v)"

text \<open>A client that allocates, and frees pages it holds.\<close>

datatype page_op = AllocPage | FreePage nat

fun page_client :: "('s, uint) kop \<Rightarrow> (uint \<Rightarrow> ('s, unit) kop) \<Rightarrow> page_op list \<Rightarrow> uint list \<Rightarrow> ('s, uint list) kop" where
  "page_client al fr [] held = ret held"
| "page_client al fr (AllocPage # ops) held =
     bnd al (\<lambda>v. page_client al fr ops (if v = 0 then held else v # held))"
| "page_client al fr (FreePage i # ops) held =
     (if i < length held
      then andthen (fr (held ! i)) (page_client al fr ops (take i held @ drop (Suc i) held))
      else page_client al fr ops held)"

text \<open>The pages \<open>freerange\<close> frees.\<close>

fun page_range :: "uint \<Rightarrow> nat \<Rightarrow> uint list" where
  "page_range p 0 = []"
| "page_range p (Suc n) = p # page_range (p + PGSIZE) n"

text \<open>The bytes of a page.\<close>

definition in_page :: "uint \<Rightarrow> uint \<Rightarrow> bool" where
  "in_page v x \<longleftrightarrow> x - v < PGSIZE"

text \<open>What the allocator may change besides locks: the memory and the head of the list.\<close>

definition kmstep :: "'z kmem_scheme \<Rightarrow> 'z kmem_scheme \<Rightarrow> bool" where
  "kmstep s t \<longleftrightarrow> klow s t \<and> kmem_use_lock t = kmem_use_lock s \<and> kend t = kend s \<and> kdata t = kdata s \<and>
     kmem.more t = kmem.more s"

section \<open>Pages\<close>

lemma unat_PGSIZE [simp]: "unat PGSIZE = 4096"
  by (simp add: PGSIZE_def)

lemma PGSIZE_nonzero [simp]: "PGSIZE \<noteq> 0" "0 < PGSIZE"
  by (simp_all add: PGSIZE_def)

lemma aligned_unat: "v mod PGSIZE = 0 \<longleftrightarrow> unat v mod 4096 = 0"
  by (metis unat_PGSIZE unat_eq_zero unat_mod)

lemma in_page_unat:
  assumes "v mod PGSIZE = 0"
  shows "in_page v x \<longleftrightarrow> unat x div 4096 = unat v div 4096"
proof -
  obtain k where k: "unat v = 4096 * k" using assms by (auto simp: aligned_unat)
  have "unat v < 2 ^ 32" using unsigned_less [of v, where ?'a = nat] by simp
  then have lt: "unat v + 4096 \<le> 2 ^ 32" using k by simp
  have "unat x div 4096 = k \<longleftrightarrow> 4096 * k \<le> unat x \<and> unat x < 4096 * k + 4096"
    by linarith
  moreover have "in_page v x \<longleftrightarrow> unat v \<le> unat x \<and> unat x < unat v + 4096"
  proof
    assume "in_page v x"
    then have d: "unat (x - v) < 4096" by (simp add: in_page_def word_less_nat_alt)
    then have "unat (v + (x - v)) = unat v + unat (x - v)"
      using lt by (subst unat_plus_if') simp
    then show "unat v \<le> unat x \<and> unat x < unat v + 4096" using d by simp
  next
    assume "unat v \<le> unat x \<and> unat x < unat v + 4096"
    then show "in_page v x" by (auto simp: in_page_def word_less_nat_alt unat_sub word_le_nat_alt)
  qed
  ultimately show ?thesis using k by simp
qed

lemma pages_disjoint:
  assumes "v mod PGSIZE = 0" and "w mod PGSIZE = 0" and "in_page v x" and "in_page w x"
  shows "v = w"
proof -
  have "unat v div 4096 = unat w div 4096" using assms in_page_unat by metis
  moreover have "unat v mod 4096 = 0" "unat w mod 4096 = 0" using assms aligned_unat by simp_all
  ultimately have "unat v = unat w" by (metis div_mult_mod_eq)
  then show ?thesis by (rule word_unat_eq_iff [THEN iffD2])
qed

lemma in_page_offset: "d < PGSIZE \<Longrightarrow> in_page v (v + d)"
  by (simp add: in_page_def)

lemma in_page_self [simp]: "in_page v v"
  by (simp add: in_page_def)

text \<open>A word at an offset that leaves room for it is in the page.\<close>

lemma word_in_page:
  assumes "i \<in> {0, 1, 2, 3}" and "d \<le> PGSIZE - 4"
  shows "in_page v (v + d + i)"
proof -
  have "unat d \<le> 4092" using assms(2) by (simp add: word_le_nat_alt PGSIZE_def)
  moreover have "unat i \<le> 3" using assms(1) by auto
  ultimately have "unat (d + i) < 4096" by (simp add: unat_plus_if')
  then have "d + i < PGSIZE" by (simp add: word_less_nat_alt)
  then show ?thesis by (simp add: add.assoc in_page_offset)
qed

lemma rd32_page_cong:
  assumes "\<And>x. in_page v x \<Longrightarrow> m x = m' x" and "d \<le> PGSIZE - 4"
  shows "rd32 m (v + d) = rd32 m' (v + d)"
  by (rule rd32_cong) (use assms word_in_page in blast)

lemma rd32_page_cong0: "(\<And>x. in_page v x \<Longrightarrow> m x = m' x) \<Longrightarrow> rd32 m v = rd32 m' v"
  using rd32_page_cong [of v m m' 0] by (simp add: PGSIZE_def)

lemma wr32_page_other:
  assumes "\<not> in_page v x" and "d \<le> PGSIZE - 4"
  shows "wr32 m (v + d) w x = m x"
proof (rule wr32_other)
  show "x - (v + d) \<notin> {0, 1, 2, 3}"
  proof
    assume "x - (v + d) \<in> {0, 1, 2, 3}"
    then have "in_page v (v + d + (x - (v + d)))" using assms(2) by (rule word_in_page)
    then show False using assms(1) by simp
  qed
qed

lemma wr32_page_other0: "\<not> in_page v x \<Longrightarrow> wr32 m v w x = m x"
  using wr32_page_other [of v x 0] by (simp add: PGSIZE_def)

lemma memset_page: "memset m v c PGSIZE x = (if in_page v x then ucast c else m x)"
  by (simp add: memset_spec in_page_def)

section \<open>The free list, laws\<close>

lemma flrep_cong:
  "(\<And>v. v \<in> set xs \<Longrightarrow> rd32 m v = rd32 m' v) \<Longrightarrow> flrep m a xs = flrep m' a xs"
  by (induction xs arbitrary: a) auto

lemma kmem_invD:
  assumes "kmem_inv s fl"
  shows "flrep (mem s) (freelist s) fl" "distinct fl" "v \<in> set fl \<Longrightarrow> page_ok s v"
  using assms by (simp_all add: kmem_inv_def)

lemma kmem_inv_outside:
  assumes "kmem_inv s fl" and "freelist t = freelist s" and "kend t = kend s"
    and "\<And>v x. v \<in> set fl \<Longrightarrow> in_page v x \<Longrightarrow> mem t x = mem s x"
  shows "kmem_inv t fl"
proof -
  have "flrep (mem t) (freelist s) fl = flrep (mem s) (freelist s) fl"
    by (rule flrep_cong) (rule rd32_page_cong0, rule assms(4))
  then show ?thesis using assms by (simp add: kmem_inv_def page_ok_def)
qed

section \<open>Frames\<close>

lemma kst_kmem [simp]:
  "kst H (s\<lparr>mem := m\<rparr>) = kst H s" "kst H (s\<lparr>freelist := f\<rparr>) = kst H s" "kst H (s\<lparr>kmem_use_lock := u\<rparr>) = kst H s"
  by (rule kst_eqI; simp)+

lemma kstep_kmem:
  assumes "kstep s t"
  shows "mem t = mem s" "freelist t = freelist s" "kmem_use_lock t = kmem_use_lock s" "kend t = kend s"
    "kdata t = kdata s" "kmem.more t = kmem.more s"
  using kstep_more [OF assms] by (cases s; cases t; simp)+

lemma kmstep_refl [simp]: "kmstep s s"
  by (simp add: kmstep_def)

lemma kmstep_klow: "kmstep s t \<Longrightarrow> klow s t"
  by (simp add: kmstep_def)

lemma kstep_kmstep: "kstep s t \<Longrightarrow> kmstep s t"
  using kstep_kmem [of s t] kstep_klow [of s t] by (simp add: kmstep_def)

lemma kmstep_trans: "kmstep s t \<Longrightarrow> kmstep t u \<Longrightarrow> kmstep s u"
  by (auto simp: kmstep_def intro: klow_trans)

lemma kmstep_upd: "kmstep s (s\<lparr>mem := m\<rparr>)" "kmstep s (s\<lparr>freelist := f\<rparr>)"
  by (simp_all add: kmstep_def klow_same)

lemma kmstep_kmem:
  assumes "kmstep s t"
  shows "kmem_use_lock t = kmem_use_lock s" "kend t = kend s" "kdata t = kdata s" "kmem.more t = kmem.more s"
  using assms by (simp_all add: kmstep_def)

lemmas kmstep_running = klow_running [OF kmstep_klow]
lemmas kmstep_proc = klow_proc [OF kmstep_klow]
lemmas kmstep_misc = klow_misc [OF kmstep_klow]

section \<open>The operations\<close>

lemma wp_mem_ops [wp_rules]:
  "wp (store32 a v) R s = R () (s\<lparr>mem := wr32 (mem s) a v\<rparr>)"
  "wp (load32 a) R2 s = R2 (rd32 (mem s) a) s"
  "wp (kmemset dst c n) R s = R () (s\<lparr>mem := memset (mem s) dst c n\<rparr>)"
  "wp (kmemmove dst src n) R s = R () (s\<lparr>mem := memmove (mem s) dst src n\<rparr>)"
  by (simp_all add: store32_def load32_def kmemset_def kmemmove_def wp_rules)

text \<open>The lock of the allocator, which boot runs without.\<close>

lemma wp_kmem_lock:
  assumes "kst H s" and "KmemLock \<notin> H"
    and "\<And>t. kstep s t \<Longrightarrow> kst (if kmem_use_lock s then insert KmemLock H else H) t \<Longrightarrow> R () t"
  shows "wp (whenever (kmem_use_lock s) (acquire KmemLock)) R s"
  by (cases "kmem_use_lock s")
    (use assms in \<open>auto simp: wp_rules intro: wp_acquire_k\<close>)

lemma wp_kmem_unlock:
  assumes "kst (if kmem_use_lock s then insert KmemLock H else H) s" and "KmemLock \<notin> H"
    and "\<And>t. kstep s t \<Longrightarrow> kst H t \<Longrightarrow> R () t"
  shows "wp (whenever (kmem_use_lock s) (release KmemLock)) R s"
  by (cases "kmem_use_lock s")
    (use assms in \<open>auto simp: wp_rules intro: wp_release_k\<close>)

lemma wp_kalloc:
  assumes H: "kst H s" "KmemLock \<notin> H" and inv: "kmem_inv s fl"
    and R: "\<And>t. kmstep s t \<Longrightarrow> kst H t \<Longrightarrow> mem t = mem s \<Longrightarrow> kmem_inv t (tl fl) \<Longrightarrow>
      R (if fl = [] then 0 else hd fl) t"
  shows "wp kalloc R s"
proof -
  let ?rest = "bnd (gets freelist) (\<lambda>r.
     andthen (whenever (r \<noteq> 0) (bnd (load32 r) (\<lambda>nx. upd (\<lambda>s. s\<lparr>freelist := nx\<rparr>))))
     (bnd (gets kmem_use_lock) (\<lambda>ul. andthen (whenever ul (release KmemLock)) (ret r))))"
  have "wp (whenever (kmem_use_lock s) (acquire KmemLock)) (\<lambda>_. wp ?rest R) s"
  proof (rule wp_kmem_lock [OF H])
    fix t1
    assume t1: "kstep s t1" "kst (if kmem_use_lock s then insert KmemLock H else H) t1"
    note e1 = kstep_kmem [OF t1(1)]
    define t2 where "t2 = (if freelist t1 = 0 then t1 else t1\<lparr>freelist := rd32 (mem t1) (freelist t1)\<rparr>)"
    have t2: "kmstep s t2" "kst (if kmem_use_lock t2 then insert KmemLock H else H) t2" "mem t2 = mem s"
      using t1 e1 by (auto simp: t2_def intro: kmstep_trans kstep_kmstep kmstep_upd)
    have f: "freelist t1 = (if fl = [] then 0 else hd fl)" "freelist t1 = 0 \<longleftrightarrow> fl = []"
      using kmem_invD(1) [OF inv] e1 by (cases fl; simp)+
    have inv2: "kmem_inv t2 (tl fl)"
      using inv e1 by (cases fl) (auto simp: kmem_inv_def t2_def page_ok_def)
    have "wp (whenever (kmem_use_lock t2) (release KmemLock)) (\<lambda>_. wp (ret (freelist t1)) R) t2"
    proof (rule wp_kmem_unlock [OF t2(2) H(2)])
      fix t assume t: "kstep t2 t" "kst H t"
      note e = kstep_kmem [OF t(1)]
      have "kmem_inv t (tl fl)" using inv2 e by (simp add: kmem_inv_def page_ok_def)
      then show "wp (ret (freelist t1)) R t"
        using R [OF kmstep_trans [OF t2(1) kstep_kmstep [OF t(1)]] t(2)] e(1) t2(3) f(1) by (simp add: wp_rules)
    qed
    then show "wp ?rest R t1" by (simp add: wp_rules t2_def split: if_splits)
  qed
  then show ?thesis by (simp add: kalloc_def wp_rules)
qed

lemma wp_kfree:
  assumes H: "kst H s" "KmemLock \<notin> H" and inv: "kmem_inv s fl" and v: "page_ok s v" "v \<notin> set fl"
    and R: "\<And>t. kmstep s t \<Longrightarrow> kst H t \<Longrightarrow> (\<forall>x. \<not> in_page v x \<longrightarrow> mem t x = mem s x) \<Longrightarrow>
      kmem_inv t (v # fl) \<Longrightarrow> R () t"
  shows "wp (kfree v) R s"
proof -
  let ?s = "s\<lparr>mem := memset (mem s) v 1 PGSIZE\<rparr>"
  have "wp (whenever (kmem_use_lock ?s) (acquire KmemLock))
     (\<lambda>_. wp (bnd (gets freelist) (\<lambda>f. andthen (store32 v f)
       (andthen (upd (\<lambda>s. s\<lparr>freelist := v\<rparr>))
       (bnd (gets kmem_use_lock) (\<lambda>ul. whenever ul (release KmemLock)))))) R) ?s"
  proof (rule wp_kmem_lock [of H])
    show "kst H ?s" "KmemLock \<notin> H" using H by simp_all
    fix t1
    assume t1: "kstep ?s t1" "kst (if kmem_use_lock ?s then insert KmemLock H else H) t1"
    note e1 = kstep_kmem [OF t1(1)]
    let ?t2 = "t1\<lparr>mem := wr32 (mem t1) v (freelist t1), freelist := v\<rparr>"
    have t2: "kmstep s ?t2" "kst (if kmem_use_lock ?t2 then insert KmemLock H else H) ?t2"
      using t1 e1 by (auto intro!: kmstep_trans [OF kmstep_upd(1) kmstep_trans [OF kstep_kmstep [OF t1(1)]]]
          intro: kmstep_trans kmstep_upd)
    have out: "\<forall>x. \<not> in_page v x \<longrightarrow> mem ?t2 x = mem s x"
      using e1 by (simp add: wr32_page_other0 memset_page)
    have "flrep (mem ?t2) (freelist s) fl = flrep (mem s) (freelist s) fl"
    proof (rule flrep_cong, rule rd32_page_cong0)
      fix w x assume w: "w \<in> set fl" "in_page w x"
      have "\<not> in_page v x"
        using pages_disjoint [of v w x] w v kmem_invD(3) [OF inv w(1)] by (auto simp: page_ok_def)
      then show "mem ?t2 x = mem s x" using out by blast
    qed
    then have inv2: "kmem_inv ?t2 (v # fl)"
      using inv v e1 by (auto simp: kmem_inv_def page_ok_def)
    have "wp (whenever (kmem_use_lock ?t2) (release KmemLock)) R ?t2"
    proof (rule wp_kmem_unlock [OF t2(2) H(2)])
      fix t assume t: "kstep ?t2 t" "kst H t"
      note e = kstep_kmem [OF t(1)]
      have "kmem_inv t (v # fl)" using inv2 e by (simp add: kmem_inv_def page_ok_def)
      then show "R () t" using R [OF kmstep_trans [OF t2(1) kstep_kmstep [OF t(1)]] t(2)] e(1) out by simp
    qed
    then show "wp (bnd (gets freelist) (\<lambda>f. andthen (store32 v f)
       (andthen (upd (\<lambda>s. s\<lparr>freelist := v\<rparr>))
       (bnd (gets kmem_use_lock) (\<lambda>ul. whenever ul (release KmemLock)))))) R t1"
      by (simp add: wp_rules)
  qed
  then show ?thesis using v(1) by (auto simp: kfree_def wp_rules page_ok_def not_le)
qed

section \<open>The contract of a page allocator\<close>

text \<open>\<open>pool s fl\<close>: the allocator has the pages \<open>fl\<close> to give, in this order.\<close>

locale page_allocator =
  fixes alloc :: "('s, uint) kop" and release_page :: "uint \<Rightarrow> ('s, unit) kop"
    and pool :: "'s \<Rightarrow> uint list \<Rightarrow> bool" and good :: "'s \<Rightarrow> uint \<Rightarrow> bool" and bytes :: "'s \<Rightarrow> memory"
  assumes alloc_law: "pool s fl \<Longrightarrow>
      wp alloc (\<lambda>v t. pool t (tl fl) \<and> bytes t = bytes s \<and> good t = good s \<and> v = (if fl = [] then 0 else hd fl)) s"
    and free_law: "pool s fl \<Longrightarrow> good s v \<Longrightarrow> v \<notin> set fl \<Longrightarrow>
      wp (release_page v) (\<lambda>_ t. pool t (v # fl) \<and> good t = good s \<and>
        (\<forall>x. \<not> in_page v x \<longrightarrow> bytes t x = bytes s x)) s"
    and pool_good: "pool s fl \<Longrightarrow> distinct fl \<and> (\<forall>v \<in> set fl. good s v)"
    and good_nonzero: "good s v \<Longrightarrow> v \<noteq> 0"
begin

text \<open>Every page is at any time either free or held by the client, and by no one twice; bytes outside
  the pages are not touched.\<close>

lemma client_conserves:
  assumes "pool s fl" and "distinct (held @ fl)" and "\<And>v. v \<in> set held \<Longrightarrow> good s v"
    and "\<And>held' fl' t. pool t fl' \<Longrightarrow> distinct (held' @ fl') \<Longrightarrow> set (held' @ fl') = set (held @ fl) \<Longrightarrow>
      (\<forall>x. (\<forall>v \<in> set (held @ fl). \<not> in_page v x) \<longrightarrow> bytes t x = bytes s x) \<Longrightarrow> R held' t"
  shows "wp (page_client alloc release_page ops held) R s"
  using assms
proof (induction ops arbitrary: s fl held)
  case Nil
  then show ?case by (auto simp: wp_rules)
next
  case (Cons op ops)
  have g: "distinct fl" "\<forall>v \<in> set fl. good s v" using pool_good [OF Cons.prems(1)] by simp_all
  show ?case
  proof (cases op)
    case AllocPage
    have "wp alloc (\<lambda>v. wp (page_client alloc release_page ops (if v = 0 then held else v # held)) R) s"
    proof (rule wp_mono [OF alloc_law [OF Cons.prems(1)]], elim conjE)
      fix v t
      let ?held = "if v = 0 then held else v # held"
      assume t: "pool t (tl fl)" "bytes t = bytes s" "good t = good s" and v: "v = (if fl = [] then 0 else hd fl)"
      have vz: "v = 0 \<longleftrightarrow> fl = []" using v g good_nonzero by (cases fl) auto
      have d: "distinct (?held @ tl fl)" "set (?held @ tl fl) = set (held @ fl)"
        using Cons.prems(2) v vz by (cases fl; auto)+
      have gd: "w \<in> set ?held \<Longrightarrow> good t w" for w
        using Cons.prems(3) v vz g t(3) by (cases fl) (auto split: if_splits)
      show "wp (page_client alloc release_page ops ?held) R t"
        by (rule Cons.IH [OF t(1) d(1) gd]) (use Cons.prems(4) d(2) t(2) in auto)
    qed
    then show ?thesis by (simp add: AllocPage wp_rules)
  next
    case (FreePage i)
    show ?thesis
    proof (cases "i < length held")
      case True
      then obtain pre v post where h: "held = pre @ v # post" "i = length pre"
        using id_take_nth_drop [OF True] by (metis length_take less_imp_le_nat min.absorb4 min.commute)
      have d: "distinct ((pre @ post) @ v # fl)" "v \<notin> set fl" "good s v"
        using Cons.prems(2,3) h by auto
      have "wp (release_page v) (\<lambda>_. wp (page_client alloc release_page ops (pre @ post)) R) s"
      proof (rule wp_mono [OF free_law [OF Cons.prems(1) d(3,2)]], elim conjE)
        fix u t
        assume t: "pool t (v # fl)" "good t = good s" "\<forall>x. \<not> in_page v x \<longrightarrow> bytes t x = bytes s x"
        have gd: "w \<in> set (pre @ post) \<Longrightarrow> good t w" for w using Cons.prems(3) h t(2) by auto
        show "wp (page_client alloc release_page ops (pre @ post)) R t"
          by (rule Cons.IH [OF t(1) d(1) gd]) (use Cons.prems(4) h t(3) in auto)
      qed
      then show ?thesis using True h by (simp add: FreePage wp_rules)
    next
      case False
      then show ?thesis using Cons.IH [OF Cons.prems(1-3)] Cons.prems(4) by (simp add: FreePage)
    qed
  qed
qed

end

interpretation pages: page_allocator kalloc kfree
  "\<lambda>s fl. kst {} s \<and> kmem_inv s fl" page_ok "mem :: 'z kmem_scheme \<Rightarrow> memory"
proof
  fix s :: "'z kmem_scheme" and fl v
  assume s: "kst {} s \<and> kmem_inv s fl"
  have e: "page_ok t = page_ok s" if "kmstep s t" for t :: "'z kmem_scheme"
    using kmstep_kmem [OF that] by (simp add: fun_eq_iff page_ok_def)
  show "wp kalloc (\<lambda>v t. (kst {} t \<and> kmem_inv t (tl fl)) \<and> mem t = mem s \<and> page_ok t = page_ok s \<and>
      v = (if fl = [] then 0 else hd fl)) s"
    using s by (auto intro!: wp_kalloc [of "{}" s fl] e)
  show "distinct fl \<and> (\<forall>v \<in> set fl. page_ok s v)" using s by (simp add: kmem_inv_def)
  assume v: "page_ok s v" "v \<notin> set fl"
  show "wp (kfree v) (\<lambda>_ t. (kst {} t \<and> kmem_inv t (v # fl)) \<and> page_ok t = page_ok s \<and>
      (\<forall>x. \<not> in_page v x \<longrightarrow> mem t x = mem s x)) s"
    using s by (auto intro!: wp_kfree [OF _ _ _ v, of "{}"] e)
next
  fix s :: "'z kmem_scheme" and v
  assume "page_ok s v"
  then show "v \<noteq> 0" by (simp add: page_ok_def)
qed

section \<open>Filling the free list at boot\<close>

lemma page_ok_next:
  assumes "KERNBASE \<le> p" and "p \<le> vend" and "vend \<le> KERNBASE + PHYSTOP"
  shows "unat (p + PGSIZE) = unat p + 4096" and "p + PGSIZE \<le> vend \<Longrightarrow> V2P p < PHYSTOP" and "p \<le> p + PGSIZE"
proof -
  have b: "2147483648 \<le> unat p" "unat vend \<le> 2147483648 + 0xE000000" "unat p \<le> unat vend"
    using assms by (simp_all add: word_le_nat_alt KERNBASE_def PHYSTOP_def)
  show c: "unat (p + PGSIZE) = unat p + 4096"
    using b by (subst unat_plus_if') simp
  then show "p \<le> p + PGSIZE" by (simp add: word_le_nat_alt)
  assume "p + PGSIZE \<le> vend"
  then have "unat p + 4096 \<le> unat vend" using c by (simp add: word_le_nat_alt)
  then have "unat p - 2147483648 < 0xE000000" using b by simp
  moreover have "unat (V2P p) = unat p - 2147483648"
    using assms(1) by (simp add: V2P_def KERNBASE_def unat_sub)
  ultimately show "V2P p < PHYSTOP" by (simp add: word_less_nat_alt PHYSTOP_def)
qed

lemma round_down_eq: "PGROUNDDOWN a = a div PGSIZE * PGSIZE"
proof -
  have "a AND NOT (mask 12) = push_bit 12 (drop_bit 12 a)"
    by (rule bit_word_eqI) (auto simp: bit_simps)
  then show ?thesis
    by (simp add: PGROUNDDOWN_def PGSIZE_def push_bit_eq_mult drop_bit_eq_div mask_eq_exp_minus_1)
qed

lemma unat_round_down: "unat (PGROUNDDOWN a) = unat a div 4096 * 4096"
proof -
  have "unat a div 4096 * 4096 \<le> unat a" by simp
  moreover have "unat a < 2 ^ 32" using unsigned_less [of a, where ?'a = nat] by simp
  ultimately show ?thesis
    by (simp add: round_down_eq unat_word_ariths unat_div)
qed

lemma round_down_page: "PGROUNDDOWN a mod PGSIZE = 0" "PGROUNDDOWN a \<le> a" "in_page (PGROUNDDOWN a) a"
proof -
  show al: "PGROUNDDOWN a mod PGSIZE = 0" by (simp add: aligned_unat unat_round_down)
  show "PGROUNDDOWN a \<le> a" by (simp add: word_le_nat_alt unat_round_down)
  show "in_page (PGROUNDDOWN a) a" by (simp add: in_page_unat [OF al] unat_round_down)
qed

lemma round_up_down: "PGROUNDUP a = PGROUNDDOWN (a + 4095)"
  by (simp add: PGROUNDUP_def PGROUNDDOWN_def PGSIZE_def add.commute)

lemma round_up_page:
  assumes "unat a \<le> 2 ^ 32 - 4096"
  shows "PGROUNDUP a mod PGSIZE = 0" "unat (PGROUNDUP a) = (unat a + 4095) div 4096 * 4096" "a \<le> PGROUNDUP a"
proof -
  have u: "unat (a + 4095) = unat a + 4095" using assms by (simp add: unat_plus_if')
  show "PGROUNDUP a mod PGSIZE = 0" by (simp add: round_up_down round_down_page)
  show e: "unat (PGROUNDUP a) = (unat a + 4095) div 4096 * 4096" by (simp add: round_up_down unat_round_down u)
  have "unat a \<le> (unat a + 4095) div 4096 * 4096" by linarith
  then show "a \<le> PGROUNDUP a" by (simp add: word_le_nat_alt e)
qed

lemma wp_freerange_loop:
  assumes "kst H s" and "KmemLock \<notin> H" and "kmem_inv s fl" and "\<forall>v \<in> set fl. v < p"
    and "p mod PGSIZE = 0" and "KERNBASE \<le> p" and "kend s \<le> p" and "p \<le> vend" and "vend \<le> KERNBASE + PHYSTOP"
    and "n = (unat vend - unat p) div 4096"
    and "\<And>t. kmstep s t \<Longrightarrow> kst H t \<Longrightarrow> kmem_inv t (rev (page_range p n) @ fl) \<Longrightarrow>
      (\<forall>x. x < p \<or> vend \<le> x \<longrightarrow> mem t x = mem s x) \<Longrightarrow> R () t"
  shows "wp (freerange_loop p vend) R s"
  using assms
proof (induction n arbitrary: s fl p)
  case 0
  have "\<not> p + PGSIZE \<le> vend"
    using 0(10) page_ok_next(1) [OF 0(6,8,9)] by (simp add: word_le_nat_alt div_eq_0_iff)
  then show ?case
    using 0 page_ok_next(3) [OF 0(6,8,9)] by (subst freerange_loop.simps) (simp add: wp_rules not_less)
next
  case (Suc n)
  note nx = page_ok_next [OF Suc.prems(6,8,9)]
  have le: "p + PGSIZE \<le> vend" using Suc.prems(10) nx(1) by (simp add: word_le_nat_alt)
  have n: "n = (unat vend - unat (p + PGSIZE)) div 4096" using Suc.prems(10) nx(1) by simp
  have lt: "p < p + PGSIZE" using nx(1) by (simp add: word_less_nat_alt)
  have nz: "p \<noteq> 0" using Suc.prems(6) by (auto simp: KERNBASE_def)
  have ok: "page_ok s p" "p \<notin> set fl" using Suc.prems nx(2) [OF le] nz by (auto simp: page_ok_def)
  have "wp (kfree p) (\<lambda>_. wp (freerange_loop (p + PGSIZE) vend) R) s"
  proof (rule wp_kfree [OF Suc.prems(1-3) ok])
    fix t
    assume t: "kmstep s t" "kst H t" "\<forall>x. \<not> in_page p x \<longrightarrow> mem t x = mem s x" "kmem_inv t (p # fl)"
    have out: "\<not> in_page p x" if "x < p \<or> p + PGSIZE \<le> x" for x
      using that nx(1) Suc.prems(5)
      by (auto simp: in_page_unat word_less_nat_alt word_le_nat_alt aligned_unat dest!: div_eq_dividend_iff)
    show "wp (freerange_loop (p + PGSIZE) vend) R t"
    proof (rule Suc.IH [OF t(2) Suc.prems(2) t(4)])
      show "\<forall>v \<in> set (p # fl). v < p + PGSIZE" using Suc.prems(4) lt by auto
      show "(p + PGSIZE) mod PGSIZE = 0" using Suc.prems(5) nx(1) by (simp add: aligned_unat)
      show "KERNBASE \<le> p + PGSIZE" "kend t \<le> p + PGSIZE"
        using Suc.prems(6,7) lt kmstep_kmem(2) [OF t(1)] by auto
      show "p + PGSIZE \<le> vend" "vend \<le> KERNBASE + PHYSTOP" "n = (unat vend - unat (p + PGSIZE)) div 4096"
        using le Suc.prems(9) n by simp_all
      fix u
      assume u: "kmstep t u" "kst H u" "kmem_inv u (rev (page_range (p + PGSIZE) n) @ p # fl)"
        "\<forall>x. x < p + PGSIZE \<or> vend \<le> x \<longrightarrow> mem u x = mem t x"
      show "R () u"
      proof (rule Suc.prems(11))
        show "kmstep s u" using t(1) u(1) by (rule kmstep_trans)
        show "\<forall>x. x < p \<or> vend \<le> x \<longrightarrow> mem u x = mem s x"
          using u(4) t(3) out lt le by (metis less_trans order_trans)
      qed (use u in simp_all)
    qed
  qed
  then show ?case using le nx(3) by (subst freerange_loop.simps) (simp add: wp_rules not_less)
qed

section \<open>A state with two free pages\<close>

definition demo_mem :: kmem where
  "demo_mem = kproc.extend demo_table \<lparr>mem = wr32 (\<lambda>_. 0) 0x80400000 0x80401000, kmem_use_lock = True,
     freelist = 0x80400000, kend = 0x80112000, kdata = 0x8010B000\<rparr>"

lemma demo_mem_simps [simp]:
  "mem demo_mem = wr32 (\<lambda>_. 0) 0x80400000 0x80401000" "freelist demo_mem = 0x80400000" "kend demo_mem = 0x80112000"
  by (simp_all add: demo_mem_def kproc.defs)

lemma demo_mem_kst: "kst {} demo_mem"
proof -
  have "kst {} demo_table" using demo_ptab by (auto simp: kst_def)
  then show ?thesis by (subst kst_eqI [of _ demo_table]) (simp_all add: demo_mem_def kproc.defs)
qed

lemma demo_mem_inv: "kmem_inv demo_mem [0x80400000, 0x80401000]"
  by (simp add: kmem_inv_def page_ok_def PGSIZE_def V2P_def PHYSTOP_def KERNBASE_def wr32_other rd32_def wr32_def)

section \<open>Properties\<close>

text \<open>
  C24. A kernel that allocates pages and frees pages it holds, in any order, never panics and never waits;
  the pages it ends with and those on the free list are, each once, the pages it began with, so no page is
  handed out twice or lost; the free list stays a sound list of aligned pages of the range the kernel
  manages; and no byte outside these pages changes.
\<close>

theorem kalloc_conserves_pages:
  fixes s :: "'z kmem_scheme"
  assumes "kst {} s" and "kmem_inv s fl" and "distinct (held @ fl)" and "\<And>v. v \<in> set held \<Longrightarrow> page_ok s v"
  shows "\<exists>held' t fl'. page_client kalloc kfree ops held s = Done held' t \<and> kst {} t \<and> kmem_inv t fl' \<and>
    distinct (held' @ fl') \<and> set (held' @ fl') = set (held @ fl) \<and>
    (\<forall>x. (\<forall>v \<in> set (held @ fl). \<not> in_page v x) \<longrightarrow> mem t x = mem s x)"
proof -
  have "wp (page_client kalloc kfree ops held) (\<lambda>held' t. \<exists>fl'. kst {} t \<and> kmem_inv t fl' \<and>
    distinct (held' @ fl') \<and> set (held' @ fl') = set (held @ fl) \<and>
    (\<forall>x. (\<forall>v \<in> set (held @ fl). \<not> in_page v x) \<longrightarrow> mem t x = mem s x)) s"
    by (rule pages.client_conserves [of s fl held]) (use assms in auto)
  then show ?thesis unfolding wp_iff_Done by blast
qed

theorem kalloc_conserves_pages_witness:
  "\<exists>held' t fl'. page_client kalloc kfree [AllocPage, AllocPage, AllocPage, FreePage 1, AllocPage] [] demo_mem
      = Done held' t \<and> kst {} t \<and> kmem_inv t fl' \<and>
    distinct (held' @ fl') \<and> set (held' @ fl') = set ([] @ [0x80400000, 0x80401000]) \<and>
    (\<forall>x. (\<forall>v \<in> set ([] @ [0x80400000, 0x80401000]). \<not> in_page v x) \<longrightarrow> mem t x = mem demo_mem x)"
  by (rule kalloc_conserves_pages [OF demo_mem_kst demo_mem_inv]) simp_all

text \<open>
  C25. At boot \<open>kinit1\<close> puts on the free list exactly the whole pages of the range it is given, the highest
  first, touching no byte outside the range.
\<close>

theorem kinit1_frees_range:
  fixes s :: "'z kmem_scheme"
  assumes "kst {} s" and "freelist s = 0" and "KERNBASE \<le> vstart" and "kend s \<le> vstart"
    and "vstart \<le> vend" and "PGROUNDUP vstart \<le> vend" and "vend \<le> KERNBASE + PHYSTOP"
  shows "\<exists>t. kinit1 vstart vend s = Done () t \<and> kst {} t \<and> \<not> kmem_use_lock t \<and>
    kmem_inv t (rev (page_range (PGROUNDUP vstart) ((unat vend - unat (PGROUNDUP vstart)) div 4096))) \<and>
    (\<forall>x. x < PGROUNDUP vstart \<or> vend \<le> x \<longrightarrow> mem t x = mem s x)"
proof -
  let ?s = "(upd_lock KmemLock (\<lambda>k. k\<lparr>lk_name := ''kmem'', lk_locked := 0, lk_cpu := None\<rparr>) s)
    \<lparr>kmem_use_lock := False\<rparr>"
  have k: "kst {} ?s" using assms(1) by (simp add: kst_def ptab_def lks_def upd_lock_def con_ok_def crt_ok_def table_inv_def)
  have inv: "kmem_inv ?s []" using assms(2) by (simp add: kmem_inv_def upd_lock_def)
  have up: "unat vstart \<le> 2 ^ 32 - 4096"
    using assms(5,7) by (simp add: word_le_nat_alt KERNBASE_def PHYSTOP_def)
  note pg = round_up_page [OF up]
  have "wp (kinit1 vstart vend) (\<lambda>_ t. kst {} t \<and> \<not> kmem_use_lock t \<and>
    kmem_inv t (rev (page_range (PGROUNDUP vstart) ((unat vend - unat (PGROUNDUP vstart)) div 4096))) \<and>
    (\<forall>x. x < PGROUNDUP vstart \<or> vend \<le> x \<longrightarrow> mem t x = mem s x)) s"
    unfolding kinit1_def initlock_def freerange_def wp_andthen wp_upd
  proof (rule wp_freerange_loop [OF k _ inv])
    show "KERNBASE \<le> PGROUNDUP vstart" "kend ?s \<le> PGROUNDUP vstart" using assms(3,4) pg(3) by (auto simp: upd_lock_def)
  qed (use assms(6,7) pg in \<open>auto simp: upd_lock_def dest: kmstep_kmem(1)\<close>)
  then show ?thesis unfolding wp_iff_Done by auto
qed

theorem kinit1_frees_range_witness:
  "\<exists>t. kinit1 0x80112345 0x80115000 (demo_mem\<lparr>freelist := 0\<rparr>) = Done () t \<and>
    kmem_inv t [0x80114000, 0x80113000]"
proof -
  have r: "PGROUNDUP 0x80112345 = 0x80113000" by (simp add: PGROUNDUP_def PGSIZE_def)
  have n: "page_range p 2 = [p, p + PGSIZE]" for p by (simp add: eval_nat_numeral)
  show ?thesis
    using kinit1_frees_range [of "demo_mem\<lparr>freelist := 0\<rparr>" "0x80112345" "0x80115000"] demo_mem_kst
    by (auto simp: r n KERNBASE_def PHYSTOP_def PGSIZE_def)
qed

end
