(* ===== verification/Vm.thy ===== *)
theory Vm
  imports Kalloc
begin

text \<open>
  vm.c: two-level page tables in the kernel's memory, and the operations that build, grow, copy and free
  address spaces. A page directory is the kernel address of its page, a page-table entry the kernel
  address of its word; 0 is the null pointer. \<open>loaduvm\<close>, which reads from an inode, is in the theory of
  \<open>exec\<close>. The loops below step through page-aligned addresses under \<open>KERNBASE\<close>; a counter that would
  wrap around the address space is a \<open>Fault\<close>, which the lemmas show is not reached.
\<close>

section \<open>Page-table entries\<close>

definition DEVSPACE :: uint where
  "DEVSPACE = 0xFE000000"

definition KERNLINK :: uint where
  "KERNLINK = KERNBASE + EXTMEM"

definition P2V :: "uint \<Rightarrow> uint" where
  "P2V a = a + KERNBASE"

definition PDX :: "uint \<Rightarrow> uint" where
  "PDX va = drop_bit 22 va AND 0x3FF"

definition PTX :: "uint \<Rightarrow> uint" where
  "PTX va = drop_bit 12 va AND 0x3FF"

definition PTE_P :: uint where
  "PTE_P = 1"

definition PTE_W :: uint where
  "PTE_W = 2"

definition PTE_U :: uint where
  "PTE_U = 4"

definition PTE_ADDR :: "uint \<Rightarrow> uint" where
  "PTE_ADDR pte = pte AND NOT 0xFFF"

definition NPTENTRIES :: uint where
  "NPTENTRIES = 1024"

definition NPDENTRIES :: nat where
  "NPDENTRIES = 1024"

section \<open>The operations\<close>

definition walkpgdir :: "uint \<Rightarrow> uint \<Rightarrow> bool \<Rightarrow> ('z kmem_scheme, uint) kop" where
  "walkpgdir pgdir va alloc =
     (let pde = pgdir + 4 * PDX va in
      bnd (load32 pde) (\<lambda>e.
      if e AND PTE_P \<noteq> 0 then ret (P2V (PTE_ADDR e) + 4 * PTX va)
      else if \<not> alloc then ret 0
      else bnd kalloc (\<lambda>pgtab.
        if pgtab = 0 then ret 0
        else
          andthen (kmemset pgtab 0 PGSIZE)
          (andthen (store32 pde (V2P pgtab OR PTE_P OR PTE_W OR PTE_U))
          (ret (pgtab + 4 * PTX va))))))"

text \<open>\<open>a\<close> and \<open>lst\<close> (\<open>last\<close>) are multiples of the page size, so that a whole page is left when they differ.\<close>

function mappages_loop :: "uint \<Rightarrow> uint \<Rightarrow> uint \<Rightarrow> uint \<Rightarrow> uint \<Rightarrow> ('z kmem_scheme, int) kop" where
  "mappages_loop pgdir a lst pa perm =
     bnd (walkpgdir pgdir a True) (\<lambda>pte.
     if pte = 0 then ret (-1)
     else bnd (load32 pte) (\<lambda>e.
       if e AND PTE_P \<noteq> 0 then panic ''remap''
       else andthen (store32 pte (pa OR perm OR PTE_P))
         (if a = lst then ret 0
          else if lst - a < PGSIZE then fault ''mappages''
          else mappages_loop pgdir (a + PGSIZE) lst (pa + PGSIZE) perm)))"
  by pat_completeness auto

termination mappages_loop
proof (relation "measure (\<lambda>(pgdir, a, lst, pa, perm). unat (lst - a))")
  fix pgdir a lst pa perm e pte :: uint
  assume "a \<noteq> lst" "\<not> lst - a < PGSIZE"
  then have "unat (lst - a - PGSIZE) < unat (lst - a)" by (simp add: unat_sub not_less word_le_nat_alt)
  then show "((pgdir, a + PGSIZE, lst, pa + PGSIZE, perm), pgdir, a, lst, pa, perm)
      \<in> measure (\<lambda>(pgdir, a, lst, pa, perm). unat (lst - a))"
    by (simp add: diff_diff_eq)
qed simp

declare mappages_loop.simps [simp del]

definition mappages :: "uint \<Rightarrow> uint \<Rightarrow> uint \<Rightarrow> uint \<Rightarrow> uint \<Rightarrow> ('z kmem_scheme, int) kop" where
  "mappages pgdir va sz pa perm =
     mappages_loop pgdir (PGROUNDDOWN va) (PGROUNDDOWN (va + sz - 1)) pa perm"

record kmap_entry =
  km_virt :: uint
  km_phys_start :: uint
  km_phys_end :: uint
  km_perm :: uint

definition kmap :: "uint \<Rightarrow> kmap_entry list" where
  "kmap data =
     [\<lparr>km_virt = KERNBASE, km_phys_start = 0, km_phys_end = EXTMEM, km_perm = PTE_W\<rparr>,
      \<lparr>km_virt = KERNLINK, km_phys_start = V2P KERNLINK, km_phys_end = V2P data, km_perm = 0\<rparr>,
      \<lparr>km_virt = data, km_phys_start = V2P data, km_phys_end = PHYSTOP, km_perm = PTE_W\<rparr>,
      \<lparr>km_virt = DEVSPACE, km_phys_start = DEVSPACE, km_phys_end = 0, km_perm = PTE_W\<rparr>]"

fun setupkvm_loop :: "uint \<Rightarrow> kmap_entry list \<Rightarrow> ('z kmem_scheme, uint) kop" where
  "setupkvm_loop pgdir [] = ret pgdir"
| "setupkvm_loop pgdir (k # ks) =
     bnd (mappages pgdir (km_virt k) (km_phys_end k - km_phys_start k) (km_phys_start k) (km_perm k)) (\<lambda>r.
     if r < 0 then ret 0 else setupkvm_loop pgdir ks)"

definition setupkvm :: "('z kmem_scheme, uint) kop" where
  "setupkvm =
     bnd kalloc (\<lambda>pgdir.
     if pgdir = 0 then ret 0
     else
       andthen (kmemset pgdir 0 PGSIZE)
       (if P2V PHYSTOP > DEVSPACE then panic ''PHYSTOP too high''
        else bnd (gets kdata) (\<lambda>data. setupkvm_loop pgdir (kmap data))))"

definition kvmalloc :: "('z kmem_scheme, unit) kop" where
  "kvmalloc = bnd setupkvm (\<lambda>d. andthen (upd (\<lambda>s. s\<lparr>kpgdir := d\<rparr>)) switchkvm)"

text \<open>\<open>inituvm\<close> writes through what \<open>kalloc\<close> returns without a test.\<close>

definition inituvm :: "uint \<Rightarrow> uint \<Rightarrow> uint \<Rightarrow> ('z kmem_scheme, unit) kop" where
  "inituvm pgdir init sz =
     (if sz \<ge> PGSIZE then panic ''inituvm: more than a page''
      else
        bnd kalloc (\<lambda>p.
        if p = 0 then fault ''inituvm''
        else
          andthen (kmemset p 0 PGSIZE)
          (bnd (mappages pgdir 0 PGSIZE (V2P p) (PTE_W OR PTE_U)) (\<lambda>_.
          kmemmove p init sz))))"

function deallocuvm_loop :: "uint \<Rightarrow> uint \<Rightarrow> uint \<Rightarrow> ('z kmem_scheme, unit) kop" where
  "deallocuvm_loop pgdir a oldsz =
     (if \<not> a < oldsz then ret ()
      else
        bnd (walkpgdir pgdir a False) (\<lambda>pte.
        if pte = 0
        then (if a + (NPTENTRIES - 1) * PGSIZE + PGSIZE \<le> a then fault ''deallocuvm''
              else deallocuvm_loop pgdir (a + (NPTENTRIES - 1) * PGSIZE + PGSIZE) oldsz)
        else
          bnd (load32 pte) (\<lambda>e.
          andthen
            (whenever (e AND PTE_P \<noteq> 0)
              (if PTE_ADDR e = 0 then panic ''kfree''
               else andthen (kfree (P2V (PTE_ADDR e))) (store32 pte 0)))
            (if a + PGSIZE \<le> a then fault ''deallocuvm'' else deallocuvm_loop pgdir (a + PGSIZE) oldsz))))"
  by pat_completeness auto

lemma loop_measure:
  fixes a b n :: uint
  assumes "a < n" and "\<not> b \<le> a"
  shows "unat n - unat b < unat n - unat a"
  using assms by (simp add: word_less_nat_alt not_le)

termination deallocuvm_loop
  by (relation "measure (\<lambda>(pgdir, a, oldsz). unat oldsz - unat a)") (auto intro: loop_measure)

declare deallocuvm_loop.simps [simp del]

definition deallocuvm :: "uint \<Rightarrow> uint \<Rightarrow> uint \<Rightarrow> ('z kmem_scheme, uint) kop" where
  "deallocuvm pgdir oldsz newsz =
     (if newsz \<ge> oldsz then ret oldsz
      else andthen (deallocuvm_loop pgdir (PGROUNDUP newsz) oldsz) (ret newsz))"

function allocuvm_loop :: "uint \<Rightarrow> uint \<Rightarrow> uint \<Rightarrow> uint \<Rightarrow> ('z kmem_scheme, uint) kop" where
  "allocuvm_loop pgdir oldsz a newsz =
     (if \<not> a < newsz then ret newsz
      else
        bnd kalloc (\<lambda>p.
        if p = 0 then
          andthen (cprintf ''allocuvm out of memory\<newline>'' [])
          (andthen (deallocuvm pgdir newsz oldsz) (ret 0))
        else
          andthen (kmemset p 0 PGSIZE)
          (andthen (mappages pgdir a PGSIZE (V2P p) (PTE_W OR PTE_U))
          (if a + PGSIZE \<le> a then fault ''allocuvm'' else allocuvm_loop pgdir oldsz (a + PGSIZE) newsz))))"
  by pat_completeness auto

termination allocuvm_loop
  by (relation "measure (\<lambda>(pgdir, oldsz, a, newsz). unat newsz - unat a)") (auto intro: loop_measure)

declare allocuvm_loop.simps [simp del]

definition allocuvm :: "uint \<Rightarrow> uint \<Rightarrow> uint \<Rightarrow> ('z kmem_scheme, uint) kop" where
  "allocuvm pgdir oldsz newsz =
     (if newsz \<ge> KERNBASE then ret 0
      else if newsz < oldsz then ret oldsz
      else allocuvm_loop pgdir oldsz (PGROUNDUP oldsz) newsz)"

definition freevm :: "uint \<Rightarrow> ('z kmem_scheme, unit) kop" where
  "freevm pgdir =
     (if pgdir = 0 then panic ''freevm: no pgdir''
      else
        andthen (deallocuvm pgdir KERNBASE 0)
        (andthen
          (for_each [0..<NPDENTRIES] (\<lambda>i.
            bnd (load32 (pgdir + 4 * of_nat i)) (\<lambda>e.
            whenever (e AND PTE_P \<noteq> 0) (kfree (P2V (PTE_ADDR e))))))
          (kfree pgdir)))"

definition clearpteu :: "uint \<Rightarrow> uint \<Rightarrow> ('z kmem_scheme, unit) kop" where
  "clearpteu pgdir uva =
     bnd (walkpgdir pgdir uva False) (\<lambda>pte.
     if pte = 0 then panic ''clearpteu''
     else bnd (load32 pte) (\<lambda>e. store32 pte (e AND NOT PTE_U)))"

text \<open>The loop of \<open>copyuvm\<close> returns false where the code goes to \<open>bad\<close>.\<close>

function copyuvm_loop :: "uint \<Rightarrow> uint \<Rightarrow> uint \<Rightarrow> uint \<Rightarrow> ('z kmem_scheme, bool) kop" where
  "copyuvm_loop pgdir d i sz =
     (if \<not> i < sz then ret True
      else
        bnd (walkpgdir pgdir i False) (\<lambda>pte.
        if pte = 0 then panic ''copyuvm: pte should exist''
        else
          bnd (load32 pte) (\<lambda>e.
          if e AND PTE_P = 0 then panic ''copyuvm: page not present''
          else
            bnd kalloc (\<lambda>p.
            if p = 0 then ret False
            else
              andthen (kmemmove p (P2V (PTE_ADDR e)) PGSIZE)
              (bnd (mappages d i PGSIZE (V2P p) (PTE_W OR PTE_U)) (\<lambda>r.
              if r < 0 then ret False
              else if i + PGSIZE \<le> i then fault ''copyuvm''
              else copyuvm_loop pgdir d (i + PGSIZE) sz))))))"
  by pat_completeness auto

termination copyuvm_loop
  by (relation "measure (\<lambda>(pgdir, d, i, sz). unat sz - unat i)") (auto intro: loop_measure)

declare copyuvm_loop.simps [simp del]

definition copyuvm :: "uint \<Rightarrow> uint \<Rightarrow> ('z kmem_scheme, uint) kop" where
  "copyuvm pgdir sz =
     bnd setupkvm (\<lambda>d.
     if d = 0 then ret 0
     else bnd (copyuvm_loop pgdir d 0 sz) (\<lambda>ok. if ok then ret d else andthen (freevm d) (ret 0)))"

text \<open>\<open>uva2ka\<close> follows what \<open>walkpgdir\<close> returns without a test.\<close>

definition uva2ka :: "uint \<Rightarrow> uint \<Rightarrow> ('z kmem_scheme, uint) kop" where
  "uva2ka pgdir uva =
     bnd (walkpgdir pgdir uva False) (\<lambda>pte.
     if pte = 0 then fault ''uva2ka''
     else
       bnd (load32 pte) (\<lambda>e.
       if e AND PTE_P = 0 then ret 0
       else if e AND PTE_U = 0 then ret 0
       else ret (P2V (PTE_ADDR e))))"

function copyout :: "uint \<Rightarrow> uint \<Rightarrow> uint \<Rightarrow> uint \<Rightarrow> ('z kmem_scheme, int) kop" where
  "copyout pgdir va buf len =
     (if \<not> len > 0 then ret 0
      else
        (let va0 = PGROUNDDOWN va in
         bnd (uva2ka pgdir va0) (\<lambda>pa0.
         if pa0 = 0 then ret (-1)
         else
           (let n = PGSIZE - (va - va0); n = (if n > len then len else n) in
            andthen (kmemmove (pa0 + (va - va0)) buf n)
            (copyout pgdir (va0 + PGSIZE) (buf + n) (len - n))))))"
  by pat_completeness auto

lemma copyout_chunk:
  fixes va len :: uint
  assumes "0 < len"
  defines "n \<equiv> if PGSIZE - (va - PGROUNDDOWN va) > len then len else PGSIZE - (va - PGROUNDDOWN va)"
  shows "0 < n" and "n \<le> len" and "unat (len - n) < unat len"
proof -
  have "va - PGROUNDDOWN va < PGSIZE" using round_down_page(3) [of va] by (simp add: in_page_def)
  then have "0 < unat (PGSIZE - (va - PGROUNDDOWN va))" by (simp add: unat_sub word_less_nat_alt word_le_nat_alt)
  then show pos: "0 < n" using assms(1) by (simp add: n_def word_less_nat_alt)
  show le: "n \<le> len" by (simp add: n_def not_less)
  show "unat (len - n) < unat len" using pos le by (simp add: unat_sub word_less_nat_alt word_le_nat_alt)
qed

lemma copyout_chunk_whole:
  fixes va len :: uint
  shows "\<not> len < PGSIZE - (va - PGROUNDDOWN va) \<Longrightarrow> 0 < len \<Longrightarrow>
    unat (len - (PGSIZE - (va - PGROUNDDOWN va))) < unat len"
  using copyout_chunk(3) [of len va] by simp

termination copyout
  by (relation "measure (\<lambda>(pgdir, va, buf, len). unat len)") (auto simp: word_less_nat_alt [of 0] intro: copyout_chunk_whole)

declare copyout.simps [simp del]

section \<open>What a page directory maps\<close>

text \<open>\<open>ptes m pgdir va\<close> is the entry for the page of \<open>va\<close>; it is 0, not present, where there is no page
  table. \<open>slot\<close> is where the entry is when there is one.\<close>

definition pde_at :: "memory \<Rightarrow> uint \<Rightarrow> uint \<Rightarrow> uint" where
  "pde_at m pgdir i = rd32 m (pgdir + 4 * i)"

definition table_at :: "memory \<Rightarrow> uint \<Rightarrow> uint \<Rightarrow> uint" where
  "table_at m pgdir i = P2V (PTE_ADDR (pde_at m pgdir i))"

definition present :: "uint \<Rightarrow> bool" where
  "present e \<longleftrightarrow> e AND PTE_P \<noteq> 0"

definition slot :: "memory \<Rightarrow> uint \<Rightarrow> uint \<Rightarrow> uint" where
  "slot m pgdir va = table_at m pgdir (PDX va) + 4 * PTX va"

definition ptes :: "memory \<Rightarrow> uint \<Rightarrow> uint \<Rightarrow> uint" where
  "ptes m pgdir va = (if present (pde_at m pgdir (PDX va)) then rd32 m (slot m pgdir va) else 0)"

text \<open>The directory and its tables are pages of their own, apart from the free ones.\<close>

definition entries :: "memory \<Rightarrow> uint \<Rightarrow> uint set" where
  "entries m pgdir = {i. i < 1024 \<and> present (pde_at m pgdir i)}"

definition tables :: "memory \<Rightarrow> uint \<Rightarrow> uint set" where
  "tables m pgdir = table_at m pgdir ` entries m pgdir"

definition pgdir_ok :: "'z kmem_scheme \<Rightarrow> uint \<Rightarrow> uint list \<Rightarrow> bool" where
  "pgdir_ok s pgdir fl \<longleftrightarrow> (\<forall>v \<in> insert pgdir (tables (mem s) pgdir). page_ok s v \<and> v \<notin> set fl) \<and>
     pgdir \<notin> tables (mem s) pgdir \<and> inj_on (table_at (mem s) pgdir) (entries (mem s) pgdir)"

section \<open>Arithmetic of entries\<close>

lemma aligned_bits:
  assumes "p mod PGSIZE = 0" and "n < 12"
  shows "\<not> bit p n"
proof -
  have "take_bit 12 p = p mod 4096" by (simp add: take_bit_eq_mod)
  then have "take_bit 12 p = 0" using assms(1) by (simp add: PGSIZE_def)
  then have "\<not> bit (take_bit 12 p) n" by simp
  then show ?thesis using assms(2) by (simp add: bit_take_bit_iff)
qed

lemma PTE_ADDR_or:
  assumes "p mod PGSIZE = 0" and "f < PGSIZE"
  shows "PTE_ADDR (p OR f) = p"
proof (rule bit_word_eqI)
  fix n assume n: "n < LENGTH(32)"
  have f: "take_bit 12 f = f"
    using assms(2) by (simp add: take_bit_eq_mod PGSIZE_def word_unat_eq_iff unat_mod word_less_nat_alt)
  have hi: "\<not> bit f n" if "12 \<le> n" using that f by (metis bit_take_bit_iff not_less)
  have m: "bit (0xFFF :: uint) n \<longleftrightarrow> n < 12"
    using n bit_mask_iff [of 12 n, where ?'a = uint] by (simp add: mask_eq_exp_minus_1)
  show "bit (PTE_ADDR (p OR f)) n = bit p n"
    using n hi aligned_bits [OF assms(1)] m by (auto simp: PTE_ADDR_def bit_simps not_less)
qed

lemma present_odd: "present e \<longleftrightarrow> odd e"
  by (simp add: present_def PTE_P_def and_one_eq mod_2_eq_odd)

lemma present_simps [simp]:
  "present (x OR y) \<longleftrightarrow> present x \<or> present y" "present PTE_P" "\<not> present 0" "\<not> present PTE_W" "\<not> present PTE_U"
  by (auto simp: present_odd even_or_iff PTE_P_def PTE_W_def PTE_U_def)

lemma P2V_V2P [simp]: "P2V (V2P p) = p" "V2P (P2V p) = p"
  by (simp_all add: P2V_def V2P_def)

lemma V2P_aligned [simp]: "V2P p mod PGSIZE = 0 \<longleftrightarrow> p mod PGSIZE = 0"
proof -
  have "unat (p - KERNBASE) mod 4096 = unat p mod 4096"
  proof (cases "2147483648 \<le> unat p")
    case True
    then have "unat p = unat (p - KERNBASE) + 4096 * 524288" by (simp add: unat_sub_if' KERNBASE_def)
    then show ?thesis by (metis mod_mult_self2)
  next
    case False
    then have "unat (p - KERNBASE) = unat p + 4096 * 524288" by (simp add: unat_sub_if' KERNBASE_def)
    then show ?thesis by (metis mod_mult_self2)
  qed
  then show ?thesis by (simp add: aligned_unat V2P_def)
qed

lemma and_1023: "unat ((x :: uint) AND 0x3FF) = unat x mod 1024"
proof -
  have "x AND 0x3FF = take_bit 10 x" by (simp add: take_bit_eq_mask mask_eq_exp_minus_1)
  then show ?thesis by (simp add: take_bit_eq_mod unat_mod)
qed

lemma unat_PDX: "unat (PDX va) = unat va div 4194304"
proof -
  have "unat va < 2 ^ 32" using unsigned_less [of va, where ?'a = nat] by simp
  then have "unat va div 4194304 < 1024" by (simp add: div_less_iff_less_mult)
  then show ?thesis by (simp add: PDX_def and_1023 drop_bit_eq_div unat_div)
qed

lemma unat_PTX: "unat (PTX va) = unat va div 4096 mod 1024"
  by (simp add: PTX_def and_1023 drop_bit_eq_div unat_div)

lemma PDX_PTX_less [simp]: "PDX va < 1024" "PTX va < 1024"
  by (simp_all add: word_less_nat_alt PDX_def PTX_def and_1023)

text \<open>The two indices determine the page.\<close>

lemma same_page_iff: "PDX va = PDX vb \<and> PTX va = PTX vb \<longleftrightarrow> unat va div 4096 = unat vb div 4096"
proof -
  have e: "unat v div 4096 = unat (PDX v) * 1024 + unat (PTX v)" for v
  proof -
    have "unat v div 4096 = (unat v div 4096 div 1024) * 1024 + unat v div 4096 mod 1024" by simp
    then show ?thesis by (simp add: unat_PDX unat_PTX div_mult2_eq [symmetric])
  qed
  have d: "(unat (PDX v) * 1024 + unat (PTX v)) div 1024 = unat (PDX v)"
    "(unat (PDX v) * 1024 + unat (PTX v)) mod 1024 = unat (PTX v)" for v by (simp_all add: unat_PTX)
  show ?thesis
    unfolding e word_unat_eq_iff using d [of va] d [of vb] by metis
qed

lemma index_offset: "(i :: uint) < 1024 \<Longrightarrow> 4 * i \<le> PGSIZE - 4"
  by (simp add: PGSIZE_def word_less_nat_alt word_le_nat_alt unat_word_ariths)

text \<open>Entries of one table do not overlap.\<close>

lemma rd32_wr32_entry:
  assumes "i \<noteq> j" and "i < 1024" and "j < 1024"
  shows "rd32 (wr32 m (t + 4 * j) e) (t + 4 * i) = rd32 m (t + 4 * i)"
proof (rule rd32_cong, rule wr32_other)
  fix k :: uint assume k: "k \<in> {0, 1, 2, 3}"
  show "t + 4 * i + k - (t + 4 * j) \<notin> {0, 1, 2, 3}"
  proof
    assume "t + 4 * i + k - (t + 4 * j) \<in> {0, 1, 2, 3}"
    moreover have "4 * i + k = 4 * j + (t + 4 * i + k - (t + 4 * j))" by (simp add: algebra_simps)
    ultimately obtain l where l: "l \<in> {0, 1, 2, 3}" "4 * i + k = 4 * j + l" by blast
    have b: "unat i < 1024" "unat j < 1024" "unat k \<le> 3" "unat l \<le> 3"
      using assms k l(1) by (auto simp: word_less_nat_alt)
    have "unat (4 * i + k) = 4 * unat i + unat k" "unat (4 * j + l) = 4 * unat j + unat l"
      using b by (simp_all add: unat_word_ariths)
    then have "4 * unat i + unat k = 4 * unat j + unat l" using l(2) by simp
    then have "unat i = unat j" using b by linarith
    then show False using assms(1) by (simp add: word_unat_eq_iff)
  qed
qed

section \<open>Walking\<close>

definition same_page :: "memory \<Rightarrow> memory \<Rightarrow> uint \<Rightarrow> bool" where
  "same_page m' m v \<longleftrightarrow> (\<forall>x. in_page v x \<longrightarrow> m' x = m x)"

lemma same_page_rd32: "same_page m' m v \<Longrightarrow> i < 1024 \<Longrightarrow> rd32 m' (v + 4 * i) = rd32 m (v + 4 * i)"
  by (rule rd32_page_cong) (simp_all add: index_offset same_page_def)

lemma pde_at_cong: "same_page m' m pgdir \<Longrightarrow> i < 1024 \<Longrightarrow> pde_at m' pgdir i = pde_at m pgdir i"
  by (simp add: pde_at_def same_page_rd32)

lemma tables_cong:
  assumes "same_page m' m pgdir"
  shows "entries m' pgdir = entries m pgdir" "i < 1024 \<Longrightarrow> table_at m' pgdir i = table_at m pgdir i"
    "tables m' pgdir = tables m pgdir"
proof -
  show e: "entries m' pgdir = entries m pgdir" using pde_at_cong [OF assms] by (auto simp: entries_def)
  show "table_at m' pgdir i = table_at m pgdir i" if "i < 1024" for i
    using pde_at_cong [OF assms that] by (simp add: table_at_def)
  then show "tables m' pgdir = tables m pgdir" unfolding tables_def e by (auto simp: entries_def)
qed

lemma ptes_cong:
  assumes "same_page m' m pgdir" and "\<And>v. v \<in> tables m pgdir \<Longrightarrow> same_page m' m v"
  shows "ptes m' pgdir = ptes m pgdir"
proof
  fix va
  have e: "pde_at m' pgdir (PDX va) = pde_at m pgdir (PDX va)" by (rule pde_at_cong [OF assms(1)]) simp_all
  show "ptes m' pgdir va = ptes m pgdir va"
  proof (cases "present (pde_at m pgdir (PDX va))")
    case True
    then have "table_at m pgdir (PDX va) \<in> tables m pgdir" by (auto simp: tables_def entries_def)
    then have "rd32 m' (slot m pgdir va) = rd32 m (slot m pgdir va)"
      unfolding slot_def by (intro same_page_rd32 assms(2)) simp_all
    then show ?thesis using e by (simp add: ptes_def slot_def table_at_def)
  qed (simp add: ptes_def e)
qed

lemma pgdir_okD:
  assumes "pgdir_ok s pgdir fl"
  shows "page_ok s pgdir" "pgdir \<notin> set fl" "v \<in> tables (mem s) pgdir \<Longrightarrow> page_ok s v \<and> v \<notin> set fl \<and> v \<noteq> pgdir"
  using assms by (auto simp: pgdir_ok_def)

lemma pgdir_ok_cong:
  assumes "pgdir_ok s pgdir fl" and "same_page (mem t) (mem s) pgdir" and "kend t = kend s"
    and "set fl' \<subseteq> set fl"
  shows "pgdir_ok t pgdir fl'"
proof -
  note c = tables_cong [OF assms(2)]
  have "inj_on (table_at (mem t) pgdir) (entries (mem t) pgdir) =
      inj_on (table_at (mem s) pgdir) (entries (mem s) pgdir)"
    unfolding c(1) by (rule inj_on_cong) (simp add: c(2) entries_def)
  then show ?thesis using assms(1,4) c(3) unfolding pgdir_ok_def page_ok_def assms(3) by auto
qed

text \<open>Storing an entry where \<open>walkpgdir\<close> found it.\<close>

lemma store_entry:
  fixes e :: uint
  assumes ok: "pgdir_ok s pgdir fl" and pr: "present (pde_at (mem s) pgdir (PDX va))"
  defines "m' \<equiv> wr32 (mem s) (slot (mem s) pgdir va) e"
  shows "pgdir_ok (s\<lparr>mem := m'\<rparr>) pgdir fl"
    and "ptes m' pgdir vb = (if unat vb div 4096 = unat va div 4096 then e else ptes (mem s) pgdir vb)"
    and "\<not> in_page (table_at (mem s) pgdir (PDX va)) x \<Longrightarrow> m' x = mem s x"
proof -
  let ?t = "table_at (mem s) pgdir (PDX va)"
  have idx: "PDX va \<in> entries (mem s) pgdir" using pr by (simp add: entries_def)
  then have t: "?t \<in> tables (mem s) pgdir" by (simp add: tables_def)
  note tk = pgdir_okD(3) [OF ok t]
  show out: "m' x = mem s x" if "\<not> in_page ?t x" for x
    unfolding m'_def slot_def using that by (rule wr32_page_other) (simp add: index_offset)
  have apart: "same_page m' (mem s) v" if "v \<noteq> ?t" "page_ok s v" for v
    unfolding same_page_def using out pages_disjoint [of ?t v] that tk by (auto simp: page_ok_def)
  have dir: "same_page m' (mem s) pgdir" by (rule apart) (use tk pgdir_okD(1) [OF ok] in auto)
  show "pgdir_ok (s\<lparr>mem := m'\<rparr>) pgdir fl"
    by (rule pgdir_ok_cong [OF ok]) (simp_all add: dir)
  note c = tables_cong [OF dir]
  have pd: "pde_at m' pgdir (PDX vb) = pde_at (mem s) pgdir (PDX vb)" by (rule pde_at_cong [OF dir]) simp_all
  have sl: "slot m' pgdir vb = slot (mem s) pgdir vb" by (simp add: slot_def c(2))
  show "ptes m' pgdir vb = (if unat vb div 4096 = unat va div 4096 then e else ptes (mem s) pgdir vb)"
  proof (cases "PDX vb = PDX va")
    case True
    then have "rd32 m' (slot (mem s) pgdir vb) = (if PTX vb = PTX va then e else rd32 (mem s) (slot (mem s) pgdir vb))"
      by (simp add: m'_def slot_def rd32_wr32_entry)
    then show ?thesis using True pr sl pd same_page_iff [of vb va] by (simp add: ptes_def)
  next
    case False
    have "rd32 m' (slot (mem s) pgdir vb) = rd32 (mem s) (slot (mem s) pgdir vb)"
      if b: "present (pde_at (mem s) pgdir (PDX vb))"
    proof -
      have ib: "PDX vb \<in> entries (mem s) pgdir" using b by (simp add: entries_def)
      let ?u = "table_at (mem s) pgdir (PDX vb)"
      have "?u \<noteq> ?t" using False ok idx ib by (auto simp: pgdir_ok_def dest: inj_onD)
      moreover have "?u \<in> tables (mem s) pgdir" using ib by (simp add: tables_def)
      ultimately have "same_page m' (mem s) ?u" using apart pgdir_okD(3) [OF ok] by blast
      then show ?thesis unfolding slot_def by (rule same_page_rd32) simp
    qed
    then show ?thesis using False sl pd same_page_iff [of vb va] by (auto simp: ptes_def)
  qed
qed

lemma store_entry_free:
  assumes "pgdir_ok s pgdir fl" and "present (pde_at (mem s) pgdir (PDX va))" and "kmem_inv s fl"
  shows "kmem_inv (s\<lparr>mem := wr32 (mem s) (slot (mem s) pgdir va) e\<rparr>) fl"
proof (rule kmem_inv_outside [OF assms(3)])
  fix v x assume v: "v \<in> set fl" "in_page v x"
  have t: "table_at (mem s) pgdir (PDX va) \<in> tables (mem s) pgdir" using assms(2) by (auto simp: tables_def entries_def)
  have "\<not> in_page (table_at (mem s) pgdir (PDX va)) x"
    using pgdir_okD(3) [OF assms(1) t] v kmem_invD(3) [OF assms(3) v(1)]
      pages_disjoint [of "table_at (mem s) pgdir (PDX va)" v x] by (auto simp: page_ok_def)
  then show "mem (s\<lparr>mem := wr32 (mem s) (slot (mem s) pgdir va) e\<rparr>) x = mem s x"
    using store_entry(3) [OF assms(1,2)] by simp
qed simp_all

lemma wp_walkpgdir_look:
  assumes "pgdir_ok s pgdir fl"
    and "present (pde_at (mem s) pgdir (PDX va)) \<Longrightarrow> R (slot (mem s) pgdir va) s"
    and "\<not> present (pde_at (mem s) pgdir (PDX va)) \<Longrightarrow> R 0 s"
  shows "wp (walkpgdir pgdir va False) R s"
  using assms(2,3)
  by (simp add: walkpgdir_def wp_rules Let_def pde_at_def present_def slot_def table_at_def)

lemma slot_nonzero:
  assumes "pgdir_ok s pgdir fl" and "present (pde_at (mem s) pgdir (PDX va))"
  shows "slot (mem s) pgdir va \<noteq> 0"
proof
  let ?t = "table_at (mem s) pgdir (PDX va)"
  assume z: "slot (mem s) pgdir va = 0"
  have "?t \<in> tables (mem s) pgdir" using assms(2) by (auto simp: tables_def entries_def)
  then have t: "?t mod PGSIZE = 0" "?t \<noteq> 0" using pgdir_okD(3) [OF assms(1)] by (auto simp: page_ok_def)
  have "in_page ?t (?t + 4 * PTX va + 0)" by (rule word_in_page) (simp_all add: index_offset)
  then have "in_page ?t 0" using z by (simp add: slot_def)
  moreover have "in_page 0 (0 :: uint)" by simp
  ultimately show False using pages_disjoint [of ?t 0 0] t by simp
qed

text \<open>A new, empty page table changes nothing of what the directory maps.\<close>

lemma new_table:
  fixes s :: "'z kmem_scheme"
  assumes ok: "pgdir_ok s pgdir (p # fl)" and inv: "kmem_inv s (p # fl)"
    and ab: "\<not> present (pde_at (mem s) pgdir (PDX va))"
  defines "m' \<equiv> wr32 (memset (mem s) p 0 PGSIZE) (pgdir + 4 * PDX va) (V2P p OR PTE_P OR PTE_W OR PTE_U)"
  shows "pgdir_ok (s\<lparr>mem := m'\<rparr>) pgdir fl" "ptes m' pgdir = ptes (mem s) pgdir"
    "present (pde_at m' pgdir (PDX va))" "table_at m' pgdir (PDX va) = p"
    "\<not> in_page p x \<Longrightarrow> \<not> in_page pgdir x \<Longrightarrow> m' x = mem s x"
    "tables m' pgdir = insert p (tables (mem s) pgdir)"
proof -
  have p: "page_ok s p" "p \<notin> set fl" "p \<noteq> pgdir" "page_ok s pgdir"
    using inv pgdir_okD(1,2) [OF ok] by (auto simp: kmem_inv_def)
  have off: "4 * PDX va \<le> PGSIZE - 4" by (simp add: index_offset)
  show out: "m' x = mem s x" if "\<not> in_page p x" "\<not> in_page pgdir x" for x
    using that by (simp add: m'_def wr32_page_other [OF _ off] memset_page)
  have nd: "\<not> in_page p x" if "in_page pgdir x" for x
    using that p pages_disjoint [of p pgdir x] by (auto simp: page_ok_def)
  have zero: "m' x = 0" if "in_page p x" for x
    using that nd [of x] by (cases "in_page pgdir x") (simp_all add: m'_def wr32_page_other [OF _ off] memset_page)
  have pd: "pde_at m' pgdir i = (if i = PDX va then V2P p OR PTE_P OR PTE_W OR PTE_U else pde_at (mem s) pgdir i)"
    if "i < 1024" for i
  proof -
    have "same_page (memset (mem s) p 0 PGSIZE) (mem s) pgdir" using nd by (simp add: same_page_def memset_page)
    from same_page_rd32 [OF this that] show ?thesis
      using that by (simp add: m'_def pde_at_def rd32_wr32_entry)
  qed
  have fl: "PTE_P OR PTE_W OR PTE_U < PGSIZE" by (simp add: PTE_P_def PTE_W_def PTE_U_def PGSIZE_def)
  have bits: "PTE_ADDR (V2P p OR PTE_P OR PTE_W OR PTE_U) = V2P p"
    using p(1) PTE_ADDR_or [OF _ fl, of "V2P p"] by (simp add: page_ok_def or.assoc)
  show pr: "present (pde_at m' pgdir (PDX va))"
    by (simp add: pd)
  show ta: "table_at m' pgdir (PDX va) = p" by (simp add: table_at_def pd bits)
  have ta': "table_at m' pgdir i = table_at (mem s) pgdir i" if "i < 1024" "i \<noteq> PDX va" for i
    using that by (simp add: table_at_def pd)
  have en: "entries m' pgdir = insert (PDX va) (entries (mem s) pgdir)"
    using pr pd by (auto simp: entries_def split: if_splits)
  have ni: "PDX va \<notin> entries (mem s) pgdir" using ab by (simp add: entries_def)
  have same: "table_at m' pgdir i = table_at (mem s) pgdir i" if "i \<in> entries (mem s) pgdir" for i
    using that ni by (intro ta') (auto simp: entries_def)
  show tb: "tables m' pgdir = insert p (tables (mem s) pgdir)"
    using same ta by (auto simp: tables_def en image_iff)
  have pt: "p \<notin> tables (mem s) pgdir" using ok by (auto simp: pgdir_ok_def)
  have inj: "inj_on (table_at m' pgdir) (insert (PDX va) (entries (mem s) pgdir))"
    using ok pt same ta ni by (auto simp: pgdir_ok_def inj_on_def tables_def)
  show "pgdir_ok (s\<lparr>mem := m'\<rparr>) pgdir fl"
    using ok p inj unfolding pgdir_ok_def by (auto simp: tb en page_ok_def)
  show "ptes m' pgdir = ptes (mem s) pgdir"
  proof
    fix vb
    show "ptes m' pgdir vb = ptes (mem s) pgdir vb"
    proof (cases "PDX vb = PDX va")
      case True
      have "rd32 m' (p + 4 * PTX vb) = rd32 (\<lambda>_. 0) (p + 4 * PTX vb)"
        by (rule same_page_rd32) (simp_all add: same_page_def zero)
      then show ?thesis using True pr ta ab by (simp add: ptes_def slot_def rd32_def)
    next
      case False
      show ?thesis
      proof (cases "present (pde_at (mem s) pgdir (PDX vb))")
        case True
        then have i: "PDX vb \<in> entries (mem s) pgdir" by (simp add: entries_def)
        let ?u = "table_at (mem s) pgdir (PDX vb)"
        have u: "?u \<in> tables (mem s) pgdir" using i by (simp add: tables_def)
        have "same_page m' (mem s) ?u"
          unfolding same_page_def using out pages_disjoint [of ?u p] pages_disjoint [of ?u pgdir] u pt p
            pgdir_okD(3) [OF ok u] by (auto simp: page_ok_def)
        from same_page_rd32 [OF this, of "PTX vb"] True False show ?thesis
          by (simp add: ptes_def slot_def pd same [OF i])
      qed (use False pd in \<open>simp add: ptes_def\<close>)
    qed
  qed
qed

text \<open>What building a table may change: the directory, its tables and the pages \<open>used\<close> from the free list.\<close>

definition vm_post :: "'z kmem_scheme \<Rightarrow> uint \<Rightarrow> uint list \<Rightarrow> 'z kmem_scheme \<Rightarrow> bool" where
  "vm_post s pgdir used t \<longleftrightarrow> kmstep s t \<and> tables (mem t) pgdir \<subseteq> tables (mem s) pgdir \<union> set used \<and>
     (\<forall>x. (\<forall>v \<in> insert pgdir (tables (mem s) pgdir \<union> set used). \<not> in_page v x) \<longrightarrow> mem t x = mem s x)"

lemma vm_post_trans: "vm_post s pgdir u t \<Longrightarrow> vm_post t pgdir w z \<Longrightarrow> vm_post s pgdir (u @ w) z"
  unfolding vm_post_def using kmstep_trans [of s t z] by (auto 0 4)

text \<open>With allocation, \<open>walkpgdir\<close> fails only when no page is left.\<close>

lemma wp_walkpgdir_alloc:
  fixes s :: "'z kmem_scheme"
  assumes k: "kst H s" "KmemLock \<notin> H" and inv: "kmem_inv s fl" and ok: "pgdir_ok s pgdir fl"
    and none: "\<And>t. fl = [] \<Longrightarrow> kst H t \<Longrightarrow> kmstep s t \<Longrightarrow> mem t = mem s \<Longrightarrow> kmem_inv t [] \<Longrightarrow> pgdir_ok t pgdir [] \<Longrightarrow> R 0 t"
    and some: "\<And>t used fl'. fl = used @ fl' \<Longrightarrow> length used \<le> 1 \<Longrightarrow> kst H t \<Longrightarrow> kmem_inv t fl' \<Longrightarrow> pgdir_ok t pgdir fl' \<Longrightarrow>
      vm_post s pgdir used t \<Longrightarrow> ptes (mem t) pgdir = ptes (mem s) pgdir \<Longrightarrow>
      present (pde_at (mem t) pgdir (PDX va)) \<Longrightarrow> R (slot (mem t) pgdir va) t"
  shows "wp (walkpgdir pgdir va True) R s"
proof (cases "present (pde_at (mem s) pgdir (PDX va))")
  case True
  have "R (slot (mem s) pgdir va) s" by (rule some [of "[]"]) (use k inv ok True in \<open>auto simp: vm_post_def\<close>)
  then show ?thesis
    using True by (simp add: walkpgdir_def wp_rules Let_def pde_at_def present_def slot_def table_at_def)
next
  case False
  let ?rest = "\<lambda>pgtab. if pgtab = 0 then ret 0 else andthen (kmemset pgtab 0 PGSIZE)
      (andthen (store32 (pgdir + 4 * PDX va) (V2P pgtab OR PTE_P OR PTE_W OR PTE_U)) (ret (pgtab + 4 * PTX va)))"
  have "wp kalloc (\<lambda>p. wp (?rest p) R) s"
  proof (rule wp_kalloc [OF k inv])
    fix t assume t: "kmstep s t" "kst H t" "mem t = mem s" "kmem_inv t (tl fl)"
    show "wp (?rest (if fl = [] then 0 else hd fl)) R t"
    proof (cases fl)
      case Nil
      then have "R 0 t" using none t ok pgdir_ok_cong [OF ok, of t "[]"] kmstep_kmem(2) [OF t(1)]
        by (simp add: same_page_def)
      then show ?thesis using Nil by (simp add: wp_rules)
    next
      case (Cons p fl')
      let ?m = "wr32 (memset (mem s) p 0 PGSIZE) (pgdir + 4 * PDX va) (V2P p OR PTE_P OR PTE_W OR PTE_U)"
      let ?u = "t\<lparr>mem := ?m\<rparr>"
      note ke = kmstep_kmem(2) [OF t(1)]
      note nt = new_table [OF ok [unfolded Cons] inv [unfolded Cons] False]
      have p: "page_ok s p" "p \<notin> set fl'" "\<And>v. v \<in> set fl' \<Longrightarrow> page_ok s v" using inv Cons by (simp_all add: kmem_inv_def)
      have pd: "page_ok s pgdir" "pgdir \<notin> set fl'" using pgdir_okD(1,2) [OF ok] Cons by simp_all
      have "kmem_inv ?u fl'"
      proof (rule kmem_inv_outside)
        show "kmem_inv t fl'" using t(4) Cons by simp
        fix v x assume v: "v \<in> set fl'" "in_page v x"
        have "\<not> in_page p x" "\<not> in_page pgdir x"
          using pages_disjoint [of v p x] pages_disjoint [of v pgdir x] v p pd by (auto simp: page_ok_def)
        then show "mem ?u x = mem t x" using nt(5) t(3) by simp
      qed simp_all
      moreover have "pgdir_ok ?u pgdir fl'" by (rule pgdir_ok_cong [OF nt(1)]) (simp_all add: same_page_def ke)
      moreover have "vm_post s pgdir [p] ?u"
        using nt(5,6) kmstep_trans [OF t(1) kmstep_upd(1)] by (auto simp: vm_post_def)
      ultimately have "R (slot ?m pgdir va) ?u"
        using some [of "[p]" fl' ?u] t(2) nt(2,3) Cons by simp
      then show ?thesis using Cons t(3) p(1) nt(4) by (simp add: wp_rules page_ok_def slot_def)
    qed
  qed
  then show ?thesis using False by (simp add: walkpgdir_def wp_rules Let_def pde_at_def present_def)
qed

end
