(* ===== verification/Vm_Map.thy ===== *)
theory Vm_Map
  imports Vm
begin

text \<open>
  What the operations of vm.c do to an address space, seen as the entries of its page tables.
\<close>

section \<open>Mapping a range\<close>

text \<open>\<open>k\<close> pages from \<open>a\<close> mapped to \<open>pa\<close> and on.\<close>

definition mapped :: "(uint \<Rightarrow> uint) \<Rightarrow> uint \<Rightarrow> nat \<Rightarrow> uint \<Rightarrow> uint \<Rightarrow> uint \<Rightarrow> uint" where
  "mapped f a k pa perm vb =
     (let d = PGROUNDDOWN vb - a in if unat d < 4096 * k then (pa + d) OR perm OR PTE_P else f vb)"

lemma mapped_0 [simp]: "mapped f a 0 pa perm = f"
  by (simp add: mapped_def fun_eq_iff)

lemma round_down_same: "PGROUNDDOWN vb = PGROUNDDOWN va \<longleftrightarrow> unat vb div 4096 = unat va div 4096"
  by (simp add: word_unat_eq_iff unat_round_down)

lemma round_down_aligned: "a mod PGSIZE = 0 \<Longrightarrow> PGROUNDDOWN a = a"
  unfolding aligned_unat by (auto simp: word_unat_eq_iff [of _ a] unat_round_down)

lemma aligned_diff:
  fixes a b :: uint
  assumes "a mod PGSIZE = 0" and "b mod PGSIZE = 0"
  shows "(b - a) mod PGSIZE = 0" "(a + PGSIZE) mod PGSIZE = 0"
proof -
  obtain i where i: "unat a = 4096 * i" using assms(1) by (auto simp: aligned_unat)
  obtain j where j: "unat b = 4096 * j" using assms(2) by (auto simp: aligned_unat)
  have "unat (b - a) = (if unat a \<le> unat b then unat b - unat a else unat b + 2 ^ 32 - unat a)"
    by (simp add: unat_sub_if')
  moreover have "4096 * j + 2 ^ 32 - 4096 * i = 4096 * (j + 1048576 - i)" by (simp add: diff_mult_distrib2)
  ultimately show "(b - a) mod PGSIZE = 0"
    unfolding aligned_unat i j by (auto simp: diff_mult_distrib2 [symmetric])
  have "unat (a + PGSIZE) = (4096 * i + 4096) mod 2 ^ 32" by (simp add: unat_word_ariths i)
  then have "unat (a + PGSIZE) mod 4096 = (4096 * i + 4096) mod 4096" by (simp add: mod_mod_cancel)
  then show "(a + PGSIZE) mod PGSIZE = 0" by (simp add: aligned_unat)
qed

lemma aligned_steps:
  fixes d :: uint
  assumes "d mod PGSIZE = 0"
  shows "d = 0 \<or> 4096 \<le> unat d" and "d \<noteq> 0 \<Longrightarrow> unat (d - PGSIZE) = unat d - 4096"
proof -
  obtain i where i: "unat d = 4096 * i" using assms by (auto simp: aligned_unat)
  show c: "d = 0 \<or> 4096 \<le> unat d"
  proof (cases "i = 0")
    case True
    then show ?thesis using i unat_eq_zero [of d] by simp
  qed (use i in simp)
  show "unat (d - PGSIZE) = unat d - 4096" if "d \<noteq> 0"
  proof -
    have "4096 \<le> unat d" using c that by blast
    then have "PGSIZE \<le> d" by (simp add: word_le_nat_alt)
    then show ?thesis by (simp only: unat_sub unat_PGSIZE)
  qed
qed

lemma mapped_Suc:
  fixes f :: "uint \<Rightarrow> uint"
  assumes "a mod PGSIZE = 0" and "k < 2 ^ 20"
  shows "mapped (\<lambda>vb. if unat vb div 4096 = unat a div 4096 then pa OR perm OR PTE_P else f vb) (a + PGSIZE) k (pa + PGSIZE) perm
    = mapped f a (Suc k) pa perm"
proof (rule ext)
  fix vb
  let ?d = "PGROUNDDOWN vb - a"
  have al: "?d mod PGSIZE = 0" by (rule aligned_diff(1) [OF assms(1) round_down_page(1)])
  have d: "PGROUNDDOWN vb - (a + PGSIZE) = ?d - PGSIZE" by simp
  have z: "unat vb div 4096 = unat a div 4096 \<longleftrightarrow> ?d = 0"
    using round_down_same [of vb a] round_down_aligned [OF assms(1)] by simp
  show "mapped (\<lambda>vb. if unat vb div 4096 = unat a div 4096 then pa OR perm OR PTE_P else f vb) (a + PGSIZE) k (pa + PGSIZE) perm vb
    = mapped f a (Suc k) pa perm vb"
  proof (cases "?d = 0")
    case True
    have "unat (0 - PGSIZE) = 2 ^ 32 - 4096" by (simp add: PGSIZE_def)
    then have "\<not> unat (0 - PGSIZE) < 4096 * k" using assms(2) by simp
    then show ?thesis using True unfolding mapped_def Let_def d z by simp
  next
    case False
    have c: "unat (?d - PGSIZE) < 4096 * k \<longleftrightarrow> unat ?d < 4096 * Suc k"
      using aligned_steps [OF al] False by auto
    have v: "pa + PGSIZE + (?d - PGSIZE) = pa + ?d" by simp
    show ?thesis unfolding mapped_def Let_def d z c v using False by simp
  qed
qed

lemma page_shift:
  assumes a: "a mod PGSIZE = 0" and n: "n < 2 ^ 20" and v: "unat (PGROUNDDOWN vb - (a + PGSIZE)) < 4096 * n"
  shows "unat (PGROUNDDOWN vb - a) < 4096 * Suc n" and "unat vb div 4096 \<noteq> unat a div 4096"
proof -
  let ?d = "PGROUNDDOWN vb - a"
  have e: "PGROUNDDOWN vb - (a + PGSIZE) = ?d - PGSIZE" by simp
  have ald: "?d mod PGSIZE = 0" by (rule aligned_diff(1) [OF a round_down_page(1)])
  have z: "unat (0 - PGSIZE) = 2 ^ 32 - 4096" by (simp add: PGSIZE_def)
  have nz: "?d \<noteq> 0"
  proof
    assume "?d = 0"
    then have "unat (0 - PGSIZE) < 4096 * n" using v e by simp
    then show False using n z by simp
  qed
  then show "unat ?d < 4096 * Suc n" using v e aligned_steps(2) [OF ald nz] by simp
  show "unat vb div 4096 \<noteq> unat a div 4096"
    using nz round_down_same [of vb a] round_down_aligned [OF a] by simp
qed

text \<open>One round of the loop.\<close>

lemma wp_map_one:
  fixes s :: "'z kmem_scheme"
  assumes k: "kst H s" "KmemLock \<notin> H" and inv: "kmem_inv s fl" and ok: "pgdir_ok s pgdir fl"
    and np: "\<not> present (ptes (mem s) pgdir a)"
    and fail: "\<And>t. fl = [] \<Longrightarrow> kst H t \<Longrightarrow> kmstep s t \<Longrightarrow> mem t = mem s \<Longrightarrow> kmem_inv t [] \<Longrightarrow> pgdir_ok t pgdir [] \<Longrightarrow> R (-1) t"
    and go: "\<And>t used fl'. fl = used @ fl' \<Longrightarrow> length used \<le> 1 \<Longrightarrow> kst H t \<Longrightarrow> kmem_inv t fl' \<Longrightarrow> pgdir_ok t pgdir fl' \<Longrightarrow> vm_post s pgdir used t \<Longrightarrow>
      ptes (mem t) pgdir = (\<lambda>vb. if unat vb div 4096 = unat a div 4096 then e else ptes (mem s) pgdir vb) \<Longrightarrow> wp rest R t"
  shows "wp (bnd (walkpgdir pgdir a True) (\<lambda>pte. if pte = 0 then ret (-1) else bnd (load32 pte) (\<lambda>e'.
      if e' AND PTE_P \<noteq> 0 then panic ''remap'' else andthen (store32 pte e) rest))) R s"
  unfolding wp_bnd
proof (rule wp_walkpgdir_alloc [OF k inv ok])
  fix t assume "fl = []" "kst H t" "kmstep s t" "mem t = mem s" "kmem_inv t []" "pgdir_ok t pgdir []"
  then show "wp (if (0::uint) = 0 then ret (- 1) else bnd (load32 0) (\<lambda>e'.
      if e' AND PTE_P \<noteq> 0 then panic ''remap'' else andthen (store32 0 e) rest)) R t"
    by (simp add: wp_rules fail)
next
  fix t used fl'
  assume t: "fl = used @ fl'" "kst H t" "kmem_inv t fl'" "pgdir_ok t pgdir fl'" "vm_post s pgdir used t"
    "ptes (mem t) pgdir = ptes (mem s) pgdir" "present (pde_at (mem t) pgdir (PDX a))" and ul: "length used \<le> 1"
  let ?p = "slot (mem t) pgdir a" and ?u = "t\<lparr>mem := wr32 (mem t) (slot (mem t) pgdir a) e\<rparr>"
  note st = store_entry [OF t(4,7), where e = e]
  have "rd32 (mem t) ?p = ptes (mem s) pgdir a" using t(6,7) by (metis ptes_def)
  moreover have "vm_post t pgdir [] ?u"
  proof -
    have tb: "table_at (mem t) pgdir (PDX a) \<in> tables (mem t) pgdir" using t(7) by (auto simp: tables_def entries_def)
    have "same_page (mem ?u) (mem t) pgdir"
      using st(3) pages_disjoint [of "table_at (mem t) pgdir (PDX a)" pgdir] pgdir_okD [OF t(4)] tb
      by (auto simp: same_page_def page_ok_def)
    note tables_cong(3) [OF this]
    then show ?thesis using st(3) tb by (auto simp: vm_post_def kmstep_upd)
  qed
  then have "vm_post s pgdir used ?u" using vm_post_trans [OF t(5)] by fastforce
  moreover have "ptes (mem ?u) pgdir = (\<lambda>vb. if unat vb div 4096 = unat a div 4096 then e else ptes (mem s) pgdir vb)"
    using st(2) t(6) by (simp add: fun_eq_iff)
  ultimately show "wp (if ?p = 0 then ret (- 1) else bnd (load32 ?p) (\<lambda>e'.
      if e' AND PTE_P \<noteq> 0 then panic ''remap'' else andthen (store32 ?p e) rest)) R t"
    using np go [of used fl' ?u] t ul st(1) slot_nonzero [OF t(4,7)] store_entry_free [OF t(4,7,3)]
    by (simp add: wp_rules present_def)
qed

lemma wp_mappages_loop:
  fixes s :: "'z kmem_scheme"
  assumes "kst H s" "KmemLock \<notin> H" and "kmem_inv s fl" and "pgdir_ok s pgdir fl"
    and "a mod PGSIZE = 0" and "lst mod PGSIZE = 0" and "k = unat (lst - a) div 4096"
    and "\<And>vb. unat (PGROUNDDOWN vb - a) < 4096 * Suc k \<Longrightarrow> \<not> present (ptes (mem s) pgdir vb)"
    and "\<And>t used fl' r j. fl = used @ fl' \<Longrightarrow> kst H t \<Longrightarrow> kmem_inv t fl' \<Longrightarrow> pgdir_ok t pgdir fl' \<Longrightarrow> vm_post s pgdir used t \<Longrightarrow>
      ptes (mem t) pgdir = mapped (ptes (mem s) pgdir) a j pa perm \<Longrightarrow>
      r = 0 \<and> j = Suc k \<or> r = - 1 \<and> j \<le> k \<and> fl' = [] \<Longrightarrow> R r t"
  shows "wp (mappages_loop pgdir a lst pa perm) R s"
  using assms
proof (induction k arbitrary: s fl a pa R)
  case 0
  have al: "(lst - a) mod PGSIZE = 0" by (rule aligned_diff [OF 0(5,6)])
  have eq: "a = lst" using aligned_steps(1) [OF al] 0(7) by auto
  have np: "\<not> present (ptes (mem s) pgdir a)" using 0(8) [of a] round_down_aligned [OF 0(5)] by simp
  show ?case
    unfolding mappages_loop.simps [of pgdir a] using 0(1-4) np
  proof (rule wp_map_one)
    fix t assume t: "fl = []" "kst H t" "kmstep s t" "mem t = mem s" "kmem_inv t []" "pgdir_ok t pgdir []"
    show "R (- 1) t" by (rule 0(9) [of "[]" "[]" t 0]) (use t in \<open>auto simp: vm_post_def\<close>)
  next
    fix t used fl'
    assume t: "fl = used @ fl'" "kst H t" "kmem_inv t fl'" "pgdir_ok t pgdir fl'" "vm_post s pgdir used t"
      "ptes (mem t) pgdir = (\<lambda>vb. if unat vb div 4096 = unat a div 4096 then pa OR perm OR PTE_P else ptes (mem s) pgdir vb)"
    have "ptes (mem t) pgdir = mapped (ptes (mem s) pgdir) a 1 pa perm"
      using mapped_Suc [OF 0(5), of 0 pa perm] t(6) by simp
    then have "R 0 t" using 0(9) [OF t(1-5), of 1 0] by simp
    then show "wp (if a = lst then ret 0 else if lst - a < PGSIZE then fault ''mappages''
        else mappages_loop pgdir (a + PGSIZE) lst (pa + PGSIZE) perm) R t" using eq by (simp add: wp_rules)
  qed
next
  case (Suc k)
  have al: "(lst - a) mod PGSIZE = 0" by (rule aligned_diff [OF Suc.prems(5,6)])
  have ne: "a \<noteq> lst" using Suc.prems(7) by auto
  then have d: "4096 \<le> unat (lst - a)" "unat (lst - a - PGSIZE) = unat (lst - a) - 4096"
    using aligned_steps [OF al] by auto
  have ge: "\<not> lst - a < PGSIZE" using d(1) by (simp add: word_less_nat_alt)
  have k: "k = unat (lst - (a + PGSIZE)) div 4096" using d Suc.prems(7) by (simp add: diff_diff_eq)
  have kb: "Suc k < 2 ^ 20"
    using Suc.prems(7) unsigned_less [of "lst - a", where ?'a = nat] by (simp add: less_mult_imp_div_less)
  have np: "\<not> present (ptes (mem s) pgdir a)" using Suc.prems(8) [of a] round_down_aligned [OF Suc.prems(5)] by simp
  show ?case
    unfolding mappages_loop.simps [of pgdir a] using Suc.prems(1-4) np
  proof (rule wp_map_one)
    fix t assume t: "fl = []" "kst H t" "kmstep s t" "mem t = mem s" "kmem_inv t []" "pgdir_ok t pgdir []"
    show "R (- 1) t" by (rule Suc.prems(9) [of "[]" "[]" t 0]) (use t in \<open>auto simp: vm_post_def\<close>)
  next
    fix t used fl'
    assume t: "fl = used @ fl'" "kst H t" "kmem_inv t fl'" "pgdir_ok t pgdir fl'" "vm_post s pgdir used t"
      "ptes (mem t) pgdir = (\<lambda>vb. if unat vb div 4096 = unat a div 4096 then pa OR perm OR PTE_P else ptes (mem s) pgdir vb)"
    have "wp (mappages_loop pgdir (a + PGSIZE) lst (pa + PGSIZE) perm) R t"
    proof (rule Suc.IH [OF t(2) Suc.prems(2) t(3,4) aligned_diff(2) [OF Suc.prems(5,5)] Suc.prems(6) k])
      fix vb assume v: "unat (PGROUNDDOWN vb - (a + PGSIZE)) < 4096 * Suc k"
      note sh = page_shift [OF Suc.prems(5) kb v]
      have "\<not> present (ptes (mem s) pgdir vb)" using Suc.prems(8) [OF sh(1)] .
      then show "\<not> present (ptes (mem t) pgdir vb)" using t(6) sh(2) by simp
    next
      fix u w gl j and r :: int
      assume u: "fl' = w @ gl" "kst H u" "kmem_inv u gl" "pgdir_ok u pgdir gl" "vm_post t pgdir w u"
        "ptes (mem u) pgdir = mapped (ptes (mem t) pgdir) (a + PGSIZE) j (pa + PGSIZE) perm"
        "r = 0 \<and> j = Suc k \<or> r = - 1 \<and> j \<le> k \<and> gl = []"
      have "j < 2 ^ 20" using u(7) kb by auto
      then have "ptes (mem u) pgdir = mapped (ptes (mem s) pgdir) a (Suc j) pa perm"
        using mapped_Suc [OF Suc.prems(5), of j pa perm] t(6) u(6) by simp
      moreover have "fl = (used @ w) @ gl" using t(1) u(1) by simp
      ultimately show "R r u"
        using Suc.prems(9) [OF _ u(2-4) vm_post_trans [OF t(5) u(5)], of "Suc j" r] u(7) by auto
    qed
    then show "wp (if a = lst then ret 0 else if lst - a < PGSIZE then fault ''mappages''
        else mappages_loop pgdir (a + PGSIZE) lst (pa + PGSIZE) perm) R t" using ne ge by (simp add: wp_rules)
  qed
qed

lemma round_down_last:
  assumes "a mod PGSIZE = 0"
  shows "PGROUNDDOWN (a + PGSIZE - 1) = a"
proof -
  have "in_page a (a + 4095)" by (rule in_page_offset) (simp add: PGSIZE_def)
  then have "unat (a + 4095) div 4096 = unat a div 4096" using in_page_unat [OF assms] by blast
  then have "PGROUNDDOWN (a + 4095) = PGROUNDDOWN a" by (simp add: round_down_same)
  then show ?thesis by (simp add: round_down_aligned [OF assms] PGSIZE_def add_diff_eq [symmetric])
qed

lemma wp_mappages_page:
  fixes s :: "'z kmem_scheme"
  assumes "kst H s" "KmemLock \<notin> H" and "kmem_inv s fl" and "pgdir_ok s pgdir fl" and "a mod PGSIZE = 0"
    and "\<not> present (ptes (mem s) pgdir a)"
    and "\<And>t. fl = [] \<Longrightarrow> kst H t \<Longrightarrow> kmstep s t \<Longrightarrow> mem t = mem s \<Longrightarrow> kmem_inv t [] \<Longrightarrow> pgdir_ok t pgdir [] \<Longrightarrow> R (-1) t"
    and "\<And>t used fl'. fl = used @ fl' \<Longrightarrow> kst H t \<Longrightarrow> kmem_inv t fl' \<Longrightarrow> pgdir_ok t pgdir fl' \<Longrightarrow> vm_post s pgdir used t \<Longrightarrow>
      length used \<le> 1 \<Longrightarrow> ptes (mem t) pgdir = (\<lambda>vb. if unat vb div 4096 = unat a div 4096 then pa OR perm OR PTE_P else ptes (mem s) pgdir vb) \<Longrightarrow>
      R 0 t"
  shows "wp (mappages pgdir a PGSIZE pa perm) R s"
  unfolding mappages_def round_down_aligned [OF assms(5)] round_down_last [OF assms(5)] mappages_loop.simps [of pgdir a]
  by (rule wp_map_one [OF assms(1-4,6)]) (use assms(7,8) in \<open>auto simp: wp_rules\<close>)

text \<open>The pages \<open>ps\<close> placed from \<open>a\<close> on.\<close>

definition user_pte :: "uint \<Rightarrow> uint" where
  "user_pte p = V2P p OR (PTE_W OR PTE_U) OR PTE_P"

definition placed :: "(uint \<Rightarrow> uint) \<Rightarrow> uint \<Rightarrow> uint list \<Rightarrow> uint \<Rightarrow> uint" where
  "placed f a ps vb =
     (let i = unat (PGROUNDDOWN vb - a) div 4096 in if i < length ps then user_pte (ps ! i) else f vb)"

lemma placed_Nil [simp]: "placed f a [] = f"
  by (simp add: placed_def fun_eq_iff)

lemma placed_Cons:
  assumes "a mod PGSIZE = 0" and "length ps < 2 ^ 20"
  shows "placed (\<lambda>vb. if unat vb div 4096 = unat a div 4096 then user_pte p else f vb) (a + PGSIZE) ps = placed f a (p # ps)"
proof (rule ext)
  fix vb
  let ?d = "PGROUNDDOWN vb - a"
  have al: "?d mod PGSIZE = 0" by (rule aligned_diff(1) [OF assms(1) round_down_page(1)])
  have d: "PGROUNDDOWN vb - (a + PGSIZE) = ?d - PGSIZE" by simp
  have z: "unat vb div 4096 = unat a div 4096 \<longleftrightarrow> ?d = 0"
    using round_down_same [of vb a] round_down_aligned [OF assms(1)] by simp
  show "placed (\<lambda>vb. if unat vb div 4096 = unat a div 4096 then user_pte p else f vb) (a + PGSIZE) ps vb = placed f a (p # ps) vb"
  proof (cases "?d = 0")
    case True
    have "unat (0 - PGSIZE) = 2 ^ 32 - 4096" by (simp add: PGSIZE_def)
    then have "\<not> unat (0 - PGSIZE) div 4096 < length ps" using assms(2) by simp
    then show ?thesis using True unfolding placed_def Let_def d z by simp
  next
    case False
    then have u: "unat ?d = unat (?d - PGSIZE) + 4096" using aligned_steps [OF al] by auto
    then have "unat ?d div 4096 = Suc (unat (?d - PGSIZE) div 4096)" by simp
    then show ?thesis using False unfolding placed_def Let_def d z by simp
  qed
qed

text \<open>What growing an address space by the pages \<open>ps\<close>, with \<open>used\<close> for page tables, does.\<close>

definition grown :: "'z kmem_scheme \<Rightarrow> uint \<Rightarrow> uint \<Rightarrow> uint list \<Rightarrow> uint list \<Rightarrow> 'z kmem_scheme \<Rightarrow> bool" where
  "grown s pgdir a ps used t \<longleftrightarrow> kmstep s t \<and> ptes (mem t) pgdir = placed (ptes (mem s) pgdir) a ps \<and>
     (\<forall>p \<in> set ps. \<forall>x. in_page p x \<longrightarrow> mem t x = 0) \<and>
     tables (mem t) pgdir \<subseteq> tables (mem s) pgdir \<union> set used \<and>
     (\<forall>x. (\<forall>v \<in> insert pgdir (tables (mem s) pgdir \<union> set used \<union> set ps). \<not> in_page v x) \<longrightarrow> mem t x = mem s x)"

lemma vm_postD:
  assumes "vm_post s pgdir used t"
  shows "kmstep s t" "v \<in> tables (mem t) pgdir \<Longrightarrow> v \<in> tables (mem s) pgdir \<or> v \<in> set used"
    "(\<And>v. v = pgdir \<or> v \<in> tables (mem s) pgdir \<or> v \<in> set used \<Longrightarrow> \<not> in_page v x) \<Longrightarrow> mem t x = mem s x"
  using assms unfolding vm_post_def by auto

lemma grownD:
  assumes "grown s pgdir a ps used t"
  shows "kmstep s t" "v \<in> tables (mem t) pgdir \<Longrightarrow> v \<in> tables (mem s) pgdir \<or> v \<in> set used"
    "(\<And>v. v = pgdir \<or> v \<in> tables (mem s) pgdir \<or> v \<in> set used \<or> v \<in> set ps \<Longrightarrow> \<not> in_page v x) \<Longrightarrow> mem t x = mem s x"
    "ptes (mem t) pgdir = placed (ptes (mem s) pgdir) a ps" "p \<in> set ps \<Longrightarrow> in_page p x \<Longrightarrow> mem t x = 0"
  using assms unfolding grown_def by auto

lemma grown_step:
  assumes g1: "kmstep s t" "vm_post t pgdir used u" "ptes (mem u) pgdir = (\<lambda>vb. if unat vb div 4096 = unat a div 4096
      then user_pte p else ptes (mem s) pgdir vb)"
    and t: "\<And>x. mem t x = (if in_page p x then 0 else mem s x)" "tables (mem t) pgdir = tables (mem s) pgdir"
    and p: "page_ok s p" "\<And>v. v \<in> insert pgdir (tables (mem s) pgdir \<union> set used \<union> set ws \<union> set ps) \<Longrightarrow> page_ok s v \<and> v \<noteq> p"
    and g2: "grown u pgdir (a + PGSIZE) ps ws z" and a: "a mod PGSIZE = 0" "length ps < 2 ^ 20"
  shows "grown s pgdir a (p # ps) (used @ ws) z"
proof -
  have off: "\<not> in_page v x" if "in_page p x" "v \<in> insert pgdir (tables (mem s) pgdir \<union> set used \<union> set ws \<union> set ps)" for v x
    using p(1) p(2) [OF that(2)] that(1) pages_disjoint [of p v x] by (auto simp: page_ok_def)
  have tb: "v \<in> tables (mem u) pgdir \<Longrightarrow> v \<in> tables (mem s) pgdir \<or> v \<in> set used" for v
    using vm_postD(2) [OF g1(2)] t(2) by blast
  have out: "mem z x = mem t x"
    if x: "\<And>v. v \<in> insert pgdir (tables (mem s) pgdir \<union> set used \<union> set ws \<union> set ps) \<Longrightarrow> \<not> in_page v x" for x
  proof -
    have "mem u x = mem t x" by (rule vm_postD(3) [OF g1(2)]) (use x t(2) in auto)
    moreover have "mem z x = mem u x" by (rule grownD(3) [OF g2]) (use x tb in auto)
    ultimately show ?thesis by simp
  qed
  show ?thesis
    unfolding grown_def
  proof (intro conjI ballI allI impI)
    show "kmstep s z" by (intro kmstep_trans [OF g1(1)] kmstep_trans [OF vm_postD(1) [OF g1(2)]] grownD(1) [OF g2])
    show "ptes (mem z) pgdir = placed (ptes (mem s) pgdir) a (p # ps)"
      using grownD(4) [OF g2] g1(3) placed_Cons [OF a, of p "ptes (mem s) pgdir"] by simp
    show "tables (mem z) pgdir \<subseteq> tables (mem s) pgdir \<union> set (used @ ws)"
      using grownD(2) [OF g2] tb by auto
    show "mem z x = 0" if q: "q \<in> set (p # ps)" and x: "in_page q x" for q x
    proof (cases "q = p")
      case True
      then show ?thesis using out [of x] off [of x] t(1) x by simp
    next
      case False
      then show ?thesis using grownD(5) [OF g2] q x by simp
    qed
    show "mem z x = mem s x"
      if x: "\<forall>v \<in> insert pgdir (tables (mem s) pgdir \<union> set (used @ ws) \<union> set (p # ps)). \<not> in_page v x" for x
    proof -
      have "mem z x = mem t x" by (rule out) (use x in auto)
      then show ?thesis using t(1) x by simp
    qed
  qed
qed

lemma kalloc_pgdir:
  assumes ok: "pgdir_ok s pgdir (p # fl)" and inv: "kmem_inv s (p # fl)" and t: "kmem_inv t fl" "mem t = mem s" "kend t = kend s"
  defines "u \<equiv> t\<lparr>mem := memset (mem t) p 0 PGSIZE\<rparr>"
  shows "pgdir_ok u pgdir fl" "kmem_inv u fl" "mem u x = (if in_page p x then 0 else mem s x)"
    "tables (mem u) pgdir = tables (mem s) pgdir" "ptes (mem u) pgdir = ptes (mem s) pgdir"
proof -
  show m: "mem u x = (if in_page p x then 0 else mem s x)" for x by (simp add: u_def memset_page t(2))
  have p: "page_ok s p" "p \<notin> set fl" "\<And>v. v \<in> set fl \<Longrightarrow> page_ok s v" using inv by (simp_all add: kmem_inv_def)
  have apart: "same_page (mem u) (mem s) v" if "page_ok s v" "v \<noteq> p" for v
    unfolding same_page_def using m that p(1) pages_disjoint [of p v] by (auto simp: page_ok_def)
  have pd: "same_page (mem u) (mem s) pgdir" using pgdir_okD(1,2) [OF ok] by (intro apart) auto
  have tb: "same_page (mem u) (mem s) v" if "v \<in> tables (mem s) pgdir" for v
    using pgdir_okD(3) [OF ok that] by (intro apart) auto
  show "pgdir_ok u pgdir fl" by (rule pgdir_ok_cong [OF ok pd]) (use t(3) in \<open>auto simp: u_def\<close>)
  show "tables (mem u) pgdir = tables (mem s) pgdir" by (rule tables_cong(3) [OF pd])
  show "ptes (mem u) pgdir = ptes (mem s) pgdir" by (rule ptes_cong [OF pd tb])
  show "kmem_inv u fl"
  proof (rule kmem_inv_outside [OF t(1)])
    fix v x assume v: "v \<in> set fl" "in_page v x"
    then have "same_page (mem u) (mem s) v" using p by (intro apart) auto
    then show "mem u x = mem t x" using v(2) t(2) by (simp add: same_page_def)
  qed (simp_all add: u_def)
qed

lemma wp_allocuvm_loop:
  fixes s :: "'z kmem_scheme"
  assumes "kst H s" "KmemLock \<notin> H" and "kmem_inv s fl" and "pgdir_ok s pgdir fl" and "a mod PGSIZE = 0" and "newsz < KERNBASE"
    and "n = (unat newsz + 4095 - unat a) div 4096" and "2 * n \<le> length fl"
    and "\<And>vb. unat (PGROUNDDOWN vb - a) < 4096 * n \<Longrightarrow> \<not> present (ptes (mem s) pgdir vb)"
    and "\<And>ps used fl' t. length ps = n \<Longrightarrow> set (ps @ used @ fl') \<subseteq> set fl \<Longrightarrow> distinct (ps @ used @ fl') \<Longrightarrow> kst H t \<Longrightarrow> kmem_inv t fl' \<Longrightarrow>
      pgdir_ok t pgdir fl' \<Longrightarrow> grown s pgdir a ps used t \<Longrightarrow> R newsz t"
  shows "wp (allocuvm_loop pgdir oldsz a newsz) R s"
  using assms
proof (induction n arbitrary: s fl a R)
  case 0
  then have "\<not> a < newsz" by (simp add: word_less_nat_alt div_eq_0_iff) 
  moreover have "R newsz s"
    by (rule 0(10) [of "[]" "[]" fl]) (use 0 in \<open>auto simp: grown_def kmem_inv_def\<close>)
  ultimately show ?case by (subst allocuvm_loop.simps) (simp add: wp_rules)
next
  case (Suc n)
  obtain p fl1 where fl: "fl = p # fl1" "2 * n < length fl1" using Suc.prems(8) by (cases fl) auto
  have "0 < (unat newsz + 4095 - unat a) div 4096" using Suc.prems(7) by simp
  then have lt: "a < newsz" by (simp add: word_less_nat_alt div_greater_zero_iff)
  have ua: "unat a < 2 ^ 31" using lt Suc.prems(6) by (simp add: word_less_nat_alt KERNBASE_def)
  then have un: "unat (a + PGSIZE) = unat a + 4096" by (simp add: unat_plus_if')
  have wrap: "\<not> a + PGSIZE \<le> a" using un by (simp add: word_le_nat_alt)
  have n: "n = (unat newsz + 4095 - unat (a + PGSIZE)) div 4096" using Suc.prems(7) un by simp
  have "unat newsz < 2147483648" using Suc.prems(6) by (simp add: word_less_nat_alt KERNBASE_def)
  then have nb: "n < 2 ^ 20" using n by (simp add: div_less_iff_less_mult)
  have np: "\<not> present (ptes (mem s) pgdir a)" using Suc.prems(9) [of a] round_down_aligned [OF Suc.prems(5)] by simp
  have pk: "page_ok s p" "p \<notin> set fl1" "\<And>v. v \<in> set fl1 \<Longrightarrow> page_ok s v" using Suc.prems(3) fl by (simp_all add: kmem_inv_def)
  let ?next = "\<lambda>p. andthen (kmemset p 0 PGSIZE) (andthen (mappages pgdir a PGSIZE (V2P p) (PTE_W OR PTE_U))
          (if a + PGSIZE \<le> a then fault ''allocuvm'' else allocuvm_loop pgdir oldsz (a + PGSIZE) newsz))"
  have "wp kalloc (\<lambda>p. wp (if p = 0 then andthen (cprintf ''allocuvm out of memory\<newline>'' [])
      (andthen (deallocuvm pgdir newsz oldsz) (ret 0)) else ?next p) R) s"
  proof (rule wp_kalloc [OF Suc.prems(1-3)])
    fix t assume t: "kmstep s t" "kst H t" "mem t = mem s" "kmem_inv t (tl fl)"
    have t4: "kmem_inv t fl1" using t(4) fl by simp
    let ?u = "t\<lparr>mem := memset (mem t) p 0 PGSIZE\<rparr>"
    note ku = kalloc_pgdir [OF Suc.prems(4) [unfolded fl] Suc.prems(3) [unfolded fl] t4 t(3) kmstep_kmem(2) [OF t(1)]]
    have st: "kmstep s ?u" using kmstep_trans [OF t(1) kmstep_upd(1)] .
    have "wp (mappages pgdir a PGSIZE (V2P p) (PTE_W OR PTE_U)) (\<lambda>_. wp (allocuvm_loop pgdir oldsz (a + PGSIZE) newsz) R) ?u"
    proof (rule wp_mappages_page [OF _ Suc.prems(2) ku(2,1) Suc.prems(5)])
      show "kst H ?u" using t(2) by simp
      show "\<not> present (ptes (mem ?u) pgdir a)" using np ku(5) by simp
    next
      fix z used fl'
      assume z: "fl1 = used @ fl'" "kst H z" "kmem_inv z fl'" "pgdir_ok z pgdir fl'" "vm_post ?u pgdir used z" "length used \<le> 1"
        "ptes (mem z) pgdir = (\<lambda>vb. if unat vb div 4096 = unat a div 4096 then V2P p OR (PTE_W OR PTE_U) OR PTE_P else ptes (mem ?u) pgdir vb)"
      have z7: "ptes (mem z) pgdir = (\<lambda>vb. if unat vb div 4096 = unat a div 4096 then user_pte p else ptes (mem s) pgdir vb)"
        unfolding z(7) ku(5) user_pte_def ..
      show "wp (allocuvm_loop pgdir oldsz (a + PGSIZE) newsz) R z"
      proof (rule Suc.IH [OF z(2) Suc.prems(2) z(3,4) aligned_diff(2) [OF Suc.prems(5,5)] Suc.prems(6) n])
        show "2 * n \<le> length fl'" using fl z(1,6) by simp
        show "\<not> present (ptes (mem z) pgdir vb)" if "unat (PGROUNDDOWN vb - (a + PGSIZE)) < 4096 * n" for vb
          using page_shift [OF Suc.prems(5) nb that] Suc.prems(9) [of vb] unfolding z7 by auto
      next
        fix ps ws gl w
        assume w: "length ps = n" "set (ps @ ws @ gl) \<subseteq> set fl'" "distinct (ps @ ws @ gl)" "kst H w" "kmem_inv w gl"
          "pgdir_ok w pgdir gl" "grown z pgdir (a + PGSIZE) ps ws w"
        have d: "distinct fl1" using Suc.prems(3) fl by (simp add: kmem_inv_def)
        have "grown s pgdir a (p # ps) (used @ ws) w"
        proof (rule grown_step [OF st z(5) z7 ku(3,4) pk(1) _ w(7) Suc.prems(5)])
          fix v assume v: "v \<in> insert pgdir (tables (mem s) pgdir \<union> set used \<union> set ws \<union> set ps)"
          then show "page_ok s v \<and> v \<noteq> p"
            using pgdir_okD [OF Suc.prems(4)] pk w(2) z(1) fl(1) by auto
        qed (use w(1) nb in simp)
        then show "R newsz w"
          by (rule Suc.prems(10) [of "p # ps" "used @ ws" gl w, rotated -1])
            (use w z(1) d pk(2) fl(1) in auto)
      qed
    qed (use fl in auto)
    then show "wp (if (if fl = [] then 0 else hd fl) = 0 then andthen (cprintf ''allocuvm out of memory\<newline>'' [])
      (andthen (deallocuvm pgdir newsz oldsz) (ret 0)) else ?next (if fl = [] then 0 else hd fl)) R t"
      using fl pk(1) wrap by (simp add: wp_rules page_ok_def)
  qed
  then show ?case using lt by (subst allocuvm_loop.simps) (simp add: wp_rules)
qed

section \<open>Copying out to user addresses\<close>

text \<open>The kernel address of a user byte.\<close>

definition user_byte :: "memory \<Rightarrow> uint \<Rightarrow> uint \<Rightarrow> uint" where
  "user_byte m pgdir va = P2V (PTE_ADDR (ptes m pgdir va)) + (va - PGROUNDDOWN va)"

definition user_ok :: "memory \<Rightarrow> uint \<Rightarrow> uint \<Rightarrow> bool" where
  "user_ok m pgdir va \<longleftrightarrow> present (ptes m pgdir va) \<and> ptes m pgdir va AND PTE_U \<noteq> 0 \<and> P2V (PTE_ADDR (ptes m pgdir va)) \<noteq> 0"

text \<open>The \<open>len\<close> bytes at \<open>va\<close> are the user's, each its own byte of memory, and none is a byte of the
  page tables or of the buffer.\<close>

definition copyout_ok :: "memory \<Rightarrow> uint \<Rightarrow> uint \<Rightarrow> uint \<Rightarrow> nat \<Rightarrow> bool" where
  "copyout_ok m pgdir va buf len \<longleftrightarrow> unat buf + len \<le> 2 ^ 32 \<and>
     (\<forall>i < len. user_ok m pgdir (va + of_nat i) \<and>
        (\<forall>v \<in> insert pgdir (tables m pgdir). \<not> in_page v (user_byte m pgdir (va + of_nat i))) \<and>
        (\<forall>j < len. user_byte m pgdir (va + of_nat i) \<noteq> buf + of_nat j \<and>
          (user_byte m pgdir (va + of_nat i) = user_byte m pgdir (va + of_nat j) \<longrightarrow> i = j)))"

lemma ptes_page: "unat va div 4096 = unat vb div 4096 \<Longrightarrow> ptes m pgdir va = ptes m pgdir vb"
  using same_page_iff [of va vb] by (simp add: ptes_def slot_def)

lemma user_byte_page:
  assumes "va - PGROUNDDOWN va + of_nat i < PGSIZE" and "i < 4096"
  shows "user_byte m pgdir (va + of_nat i) = user_byte m pgdir va + of_nat i"
proof -
  let ?v = "PGROUNDDOWN va"
  have "in_page ?v (?v + (va - ?v + of_nat i))" using assms(1) by (rule in_page_offset)
  then have "in_page ?v (va + of_nat i)" by (simp add: add.assoc [symmetric])
  then have "unat (va + of_nat i) div 4096 = unat va div 4096"
    using in_page_unat [OF round_down_page(1)] round_down_page(3) [of va] by metis
  then have "PGROUNDDOWN (va + of_nat i) = ?v" "ptes m pgdir (va + of_nat i) = ptes m pgdir va"
    using round_down_same ptes_page by blast+
  then show ?thesis by (simp add: user_byte_def)
qed

lemma copyout_chunk_less:
  fixes va len :: uint
  assumes "0 < len" and "i < unat (if PGSIZE - (va - PGROUNDDOWN va) > len then len else PGSIZE - (va - PGROUNDDOWN va))"
  shows "va - PGROUNDDOWN va + of_nat i < PGSIZE" "i < 4096" "i < unat len"
proof -
  let ?o = "va - PGROUNDDOWN va"
  have "?o < PGSIZE" using round_down_page(3) [of va] by (simp add: in_page_def)
  then have o: "unat ?o < 4096" "unat (PGSIZE - ?o) = 4096 - unat ?o"
    by (simp_all add: word_less_nat_alt unat_sub word_le_nat_alt)
  have i: "i < unat (PGSIZE - ?o)" "i < unat len"
    using assms(2) by (auto simp: word_less_nat_alt split: if_splits)
  then show "i < 4096" "i < unat len" using o by simp_all
  have "unat (?o + of_nat i) = unat ?o + i"
    using i o by (subst unat_plus_if') (simp add: unat_of_nat take_bit_nat_eq_self)
  then show "?o + of_nat i < PGSIZE" using i(1) o by (simp add: word_less_nat_alt)
qed

lemma PTE_ADDR_round: "PTE_ADDR e = PGROUNDDOWN e"
  by (simp add: PTE_ADDR_def PGROUNDDOWN_def PGSIZE_def)

lemma P2V_aligned: "P2V (PTE_ADDR e) mod PGSIZE = 0"
  using V2P_aligned [of "P2V (PTE_ADDR e)"] round_down_page(1) [of e] by (simp add: PTE_ADDR_round)

text \<open>One chunk of \<open>copyout\<close>: \<open>n\<close> bytes within a page.\<close>

lemma copyout_step:
  fixes s :: "'z kmem_scheme" and va len :: uint
  assumes ok: "pgdir_ok s pgdir fl" and c: "copyout_ok (mem s) pgdir va buf (unat len)" and len: "0 < len"
  defines "n \<equiv> if PGSIZE - (va - PGROUNDDOWN va) > len then len else PGSIZE - (va - PGROUNDDOWN va)"
  defines "m1 \<equiv> memmove (mem s) (user_byte (mem s) pgdir va) buf n"
  shows "m1 x = (if \<exists>i < unat n. x = user_byte (mem s) pgdir (va + of_nat i)
      then mem s (buf + (x - user_byte (mem s) pgdir va)) else mem s x)"
    and "i < unat n \<Longrightarrow> m1 (user_byte (mem s) pgdir (va + of_nat i)) = mem s (buf + of_nat i)"
    and "pgdir_ok (s\<lparr>mem := m1\<rparr>) pgdir fl" and "ptes m1 pgdir = ptes (mem s) pgdir"
    and "tables m1 pgdir = tables (mem s) pgdir"
proof -
  let ?b = "user_byte (mem s) pgdir va" and ?o = "va - PGROUNDDOWN va"
  let ?f = "P2V (PTE_ADDR (ptes (mem s) pgdir va))"
  note ck = copyout_chunk [OF len, of va, folded n_def] and cl = copyout_chunk_less [OF len, of _ va, folded n_def]
  have ub: "user_byte (mem s) pgdir (va + of_nat i) = ?b + of_nat i" if "i < unat n" for i
    by (rule user_byte_page) (use cl [OF that] in auto)
  have "?o < PGSIZE" using round_down_page(3) [of va] by (simp add: in_page_def)
  then have o: "unat ?o < 4096" "unat (PGSIZE - ?o) = 4096 - unat ?o"
    by (simp_all add: word_less_nat_alt unat_sub word_le_nat_alt)
  have n: "unat n \<le> 4096 - unat ?o" unfolding n_def using o by (simp add: word_less_nat_alt)
  obtain k where k: "unat ?f = 4096 * k" using P2V_aligned by (auto simp: aligned_unat)
  have "unat ?f < 2 ^ 32" using unsigned_less [of ?f, where ?'a = nat] by simp
  then have f: "unat ?f + 4096 \<le> 2 ^ 32" using k by simp
  then have "unat ?b = unat ?f + unat ?o" unfolding user_byte_def using o by (subst unat_plus_if') simp
  then have bd: "unat ?b + unat n \<le> 2 ^ 32" using f n o by simp
  have "unat buf + unat len \<le> 2 ^ 32" using c by (simp add: copyout_ok_def)
  then have bs: "unat buf + unat n \<le> 2 ^ 32" using ck(2) by (simp add: word_le_nat_alt)
  have mv: "m1 x = (if unat (x - ?b) < unat n then mem s (buf + (x - ?b)) else mem s x)" for x
    unfolding m1_def memmove_spec [OF bs bd] by (simp add: moved_bytes_def)
  have small: "unat (of_nat i :: uint) = i" if "i < unat n" for i
    using cl(2) [OF that] by (simp add: unat_of_nat take_bit_nat_eq_self)
  have ex: "(\<exists>i < unat n. x = user_byte (mem s) pgdir (va + of_nat i)) \<longleftrightarrow> unat (x - ?b) < unat n" for x
  proof
    assume "\<exists>i < unat n. x = user_byte (mem s) pgdir (va + of_nat i)"
    then show "unat (x - ?b) < unat n" using ub small by auto
  next
    assume a: "unat (x - ?b) < unat n"
    have "x = user_byte (mem s) pgdir (va + of_nat (unat (x - ?b)))" using ub [OF a] by simp
    then show "\<exists>i < unat n. x = user_byte (mem s) pgdir (va + of_nat i)" using a by blast
  qed
  show "m1 x = (if \<exists>i < unat n. x = user_byte (mem s) pgdir (va + of_nat i)
      then mem s (buf + (x - ?b)) else mem s x)" for x
    unfolding ex mv ..
  show "m1 (user_byte (mem s) pgdir (va + of_nat i)) = mem s (buf + of_nat i)" if "i < unat n" for i
    using that by (simp add: ub mv small)
  have sp: "same_page m1 (mem s) v" if v: "v \<in> insert pgdir (tables (mem s) pgdir)" for v
    unfolding same_page_def
  proof (intro allI impI)
    fix x assume x: "in_page v x"
    have "\<not> (\<exists>i < unat n. x = user_byte (mem s) pgdir (va + of_nat i))"
      using c x v cl(3) by (auto simp: copyout_ok_def)
    then show "m1 x = mem s x" unfolding mv ex by simp
  qed
  show "pgdir_ok (s\<lparr>mem := m1\<rparr>) pgdir fl" by (rule pgdir_ok_cong [OF ok]) (use sp in simp_all)
  show "ptes m1 pgdir = ptes (mem s) pgdir" by (rule ptes_cong) (use sp in simp_all)
  show "tables m1 pgdir = tables (mem s) pgdir" by (rule tables_cong) (use sp in simp)
qed

lemma copyout_ok_next:
  assumes c: "copyout_ok m pgdir va buf len" and n: "n \<le> len" "n < 2 ^ 32"
    and e: "ptes m1 pgdir = ptes m pgdir" "tables m1 pgdir = tables m pgdir"
  shows "copyout_ok m1 pgdir (va + of_nat n) (buf + of_nat n) (len - n)"
proof -
  have ub: "user_byte m1 pgdir = user_byte m pgdir" "user_ok m1 pgdir = user_ok m pgdir"
    by (simp_all add: fun_eq_iff user_byte_def user_ok_def e(1))
  have sh: "va + of_nat n + of_nat i = va + of_nat (n + i)" "buf + of_nat n + of_nat i = buf + of_nat (n + i)" for i
    by simp_all
  have b: "unat (buf + of_nat n) + (len - n) \<le> 2 ^ 32"
  proof (cases "n = len")
    case True
    then show ?thesis using unsigned_less [of "buf + of_nat n", where ?'a = nat] by simp
  next
    case False
    have "unat (of_nat n :: uint) = n" using n(2) by (simp add: unat_of_nat take_bit_nat_eq_self)
    then have "unat (buf + of_nat n) = unat buf + n"
      using c n False by (subst unat_plus_if') (simp add: copyout_ok_def)
    then show ?thesis using c n by (simp add: copyout_ok_def)
  qed
  have idx: "i < len - n \<Longrightarrow> n + i < len" for i by simp
  show ?thesis
    unfolding copyout_ok_def ub e(2) sh using b c [unfolded copyout_ok_def] idx by (metis add_left_cancel)
qed

lemma wp_uva2ka:
  assumes "pgdir_ok s pgdir fl" and "user_ok (mem s) pgdir va"
  shows "wp (uva2ka pgdir va) R s = R (P2V (PTE_ADDR (ptes (mem s) pgdir va))) s"
proof -
  let ?e = "ptes (mem s) pgdir va"
  have u: "present ?e" "?e AND PTE_U \<noteq> 0" using assms(2) by (simp_all add: user_ok_def)
  then have pr: "present (pde_at (mem s) pgdir (PDX va))" by (simp add: ptes_def split: if_splits)
  then have sl: "rd32 (mem s) (slot (mem s) pgdir va) = ?e" "slot (mem s) pgdir va \<noteq> 0"
    using slot_nonzero [OF assms(1)] by (simp_all add: ptes_def)
  show ?thesis
    using pr u sl by (simp add: uva2ka_def walkpgdir_def wp_rules Let_def pde_at_def present_def slot_def table_at_def)
qed

lemma wp_copyout:
  fixes s :: "'z kmem_scheme"
  assumes "pgdir_ok s pgdir fl" and "copyout_ok (mem s) pgdir va buf (unat len)"
    and "\<And>m. (\<forall>i < unat len. m (user_byte (mem s) pgdir (va + of_nat i)) = mem s (buf + of_nat i)) \<Longrightarrow>
      (\<forall>x. (\<forall>i < unat len. x \<noteq> user_byte (mem s) pgdir (va + of_nat i)) \<longrightarrow> m x = mem s x) \<Longrightarrow> R 0 (s\<lparr>mem := m\<rparr>)"
  shows "wp (copyout pgdir va buf len) R s"
  using assms
proof (induction "unat len" arbitrary: va buf len s R rule: less_induct)
  case less
  show ?case
  proof (cases "0 < len")
    case False
    then have "len = 0" by (simp add: word_gt_0)
    then have "R 0 (s\<lparr>mem := mem s\<rparr>)" by (intro less.prems(3)) auto
    then show ?thesis using False by (subst copyout.simps) (simp add: wp_rules)
  next
    case True
    define n where "n = (if PGSIZE - (va - PGROUNDDOWN va) > len then len else PGSIZE - (va - PGROUNDDOWN va))"
    define m1 where "m1 = memmove (mem s) (user_byte (mem s) pgdir va) buf n"
    note ck = copyout_chunk [OF True, of va, folded n_def]
    note st = copyout_step [OF less.prems(1,2) True, folded n_def, folded m1_def]
    have u0: "user_ok (mem s) pgdir va"
      using less.prems(2) True by (auto simp: copyout_ok_def word_less_nat_alt dest: spec [of _ 0])
    have nl: "unat n \<le> unat len" "unat (len - n) = unat len - unat n" using ck(2) by (simp_all add: word_le_nat_alt unat_sub)
    have n32: "unat n < 2 ^ 32" using unsigned_less [of n, where ?'a = nat] by simp
    let ?s = "s\<lparr>mem := m1\<rparr>"
    define ub where "ub i = user_byte (mem s) pgdir (va + of_nat i)" for i
    note st = st [folded ub_def]
    note cn = copyout_ok_next [OF less.prems(2) nl(1) n32 st(4,5)]
    let ?w = "PGROUNDDOWN va + PGSIZE"
    have w: "?w = va + n" if "n \<noteq> len" using that by (auto simp: n_def)
    have sh: "?w + of_nat i = va + of_nat (unat n + i)" "buf + n + of_nat i = buf + of_nat (unat n + i)"
      if "i < unat (len - n)" for i
    proof -
      have "n \<noteq> len" using that by auto
      then show "?w + of_nat i = va + of_nat (unat n + i)" using w by simp
    qed simp
    have ub1: "user_byte m1 pgdir = user_byte (mem s) pgdir" by (simp add: fun_eq_iff user_byte_def st(4))
    have nxt: "copyout_ok m1 pgdir ?w (buf + n) (unat (len - n))"
    proof (cases "n = len")
      case True
      then show ?thesis using unsigned_less [of "buf + n", where ?'a = nat] by (simp add: copyout_ok_def)
    qed (use cn w nl in simp)
    have "wp (copyout pgdir ?w (buf + n) (len - n)) R ?s"
    proof (rule less.hyps [OF ck(3) st(3)])
      show "copyout_ok (mem ?s) pgdir ?w (buf + n) (unat (len - n))" using nxt by simp
      fix m
      assume "\<forall>i < unat (len - n). m (user_byte (mem ?s) pgdir (?w + of_nat i)) = mem ?s (buf + n + of_nat i)"
        "\<forall>x. (\<forall>i < unat (len - n). x \<noteq> user_byte (mem ?s) pgdir (?w + of_nat i)) \<longrightarrow> m x = mem ?s x"
      then have m: "\<And>i. i < unat (len - n) \<Longrightarrow> m (ub (unat n + i)) = m1 (buf + of_nat (unat n + i))"
        "\<And>x. (\<forall>i < unat (len - n). x \<noteq> ub (unat n + i)) \<Longrightarrow> m x = m1 x"
        unfolding ub_def using sh by (simp_all add: ub1)
      have c: "\<And>i j. i < unat len \<Longrightarrow> j < unat len \<Longrightarrow> ub i \<noteq> buf + of_nat j"
        "\<And>i j. i < unat len \<Longrightarrow> j < unat len \<Longrightarrow> ub i = ub j \<Longrightarrow> i = j"
        unfolding ub_def using less.prems(2) by (auto simp: copyout_ok_def)
      have "m (ub i) = mem s (buf + of_nat i)" if i: "i < unat len" for i
      proof (cases "i < unat n")
        case True
        then have "m (ub i) = m1 (ub i)" using c(2) [OF i] nl by (intro m(2)) (metis add.commute less_diff_conv not_add_less1)
        then show ?thesis using st(2) [OF True] by simp
      next
        case False
        then obtain j where j: "i = unat n + j" "j < unat (len - n)" using i nl by (auto simp: not_less le_iff_add)
        have "m1 (buf + of_nat i) = mem s (buf + of_nat i)" using st(1) c(1) [OF _ i] nl by (metis order.strict_trans2)
        then show ?thesis using m(1) [OF j(2)] j(1) by simp
      qed
      moreover have "m x = mem s x" if x: "\<forall>i < unat len. x \<noteq> ub i" for x
      proof -
        have "m x = m1 x" using x nl by (intro m(2)) auto
        also have "\<dots> = mem s x" using st(1) x nl by (metis order.strict_trans2)
        finally show ?thesis .
      qed
      ultimately have "R 0 (s\<lparr>mem := m\<rparr>)" by (intro less.prems(3)) (auto simp: ub_def)
      then show "R 0 (?s\<lparr>mem := m\<rparr>)" by simp
    qed
    moreover have e: "ptes (mem s) pgdir (PGROUNDDOWN va) = ptes (mem s) pgdir va"
      by (rule ptes_page) (simp add: unat_round_down)
    moreover have "user_ok (mem s) pgdir (PGROUNDDOWN va)" using u0 e by (simp add: user_ok_def)
    ultimately show ?thesis
      using u0 True wp_uva2ka [OF less.prems(1), of "PGROUNDDOWN va"] unfolding m1_def
      by (subst copyout.simps) (simp add: wp_rules Let_def user_ok_def user_byte_def n_def)
  qed
qed

end
