(* ===== verification/Vm_Props.thy ===== *)
theory Vm_Props
  imports Vm_Map
begin

text \<open>The properties of vm.c, with an address space to show that their hypotheses can hold.\<close>

section \<open>A small address space\<close>

text \<open>A directory with one table, which maps the page at 0 for the user, and eight bytes elsewhere.\<close>

definition demo_vm :: kmem where
  "demo_vm = demo_mem\<lparr>mem := wr32 (wr32 (wr32 (mem demo_mem) 0x80300000 0x301007) 0x80301000 0x302007) 0x80303000 0x6F6C6C65\<rparr>"

lemma demo_vm_kst: "kst {} demo_vm"
  using demo_mem_kst by (simp add: demo_vm_def)

lemma demo_page_apart:
  fixes v w :: uint
  assumes "v mod PGSIZE = 0" and "w mod PGSIZE = 0" and "v \<noteq> w"
  shows "same_page (wr32 m v e) m w"
  unfolding same_page_def
proof (intro allI impI, rule wr32_page_other0, rule notI)
  fix x assume "in_page w x" "in_page v x"
  then show False using pages_disjoint [OF assms(1,2)] assms(3) by blast
qed

lemma demo_empty:
  assumes "same_page m (\<lambda>_. 0) pgdir"
  shows "entries m pgdir = {}" "tables m pgdir = {}"
proof -
  have "pde_at m pgdir i = 0" if "i < 1024" for i
    using pde_at_cong [OF assms that] by (simp add: pde_at_def rd32_def)
  then show "entries m pgdir = {}" by (auto simp: entries_def)
  then show "tables m pgdir = {}" by (simp add: tables_def)
qed

lemma demo_mem_pgdir: "pgdir_ok demo_mem 0x80300000 [0x80400000, 0x80401000]" "ptes (mem demo_mem) 0x80300000 va = 0"
  "\<not> present (pde_at (mem demo_mem) 0x80300000 (PDX va))" "i < 1024 \<Longrightarrow> pde_at (mem demo_mem) 0x80300000 i = 0"
proof -
  have z: "same_page (mem demo_mem) (\<lambda>_. 0) 0x80300000"
    unfolding demo_mem_simps by (rule demo_page_apart) (simp_all add: PGSIZE_def)
  note em = demo_empty [OF z]
  show "pgdir_ok demo_mem 0x80300000 [0x80400000, 0x80401000]"
    unfolding pgdir_ok_def em by (simp add: page_ok_def PGSIZE_def V2P_def KERNBASE_def PHYSTOP_def)
  show "pde_at (mem demo_mem) 0x80300000 i = 0" if "i < 1024" for i
    using pde_at_cong [OF z that] by (simp add: pde_at_def rd32_def)
  have "PDX va \<notin> entries (mem demo_mem) 0x80300000" using em by simp
  then show n: "\<not> present (pde_at (mem demo_mem) 0x80300000 (PDX va))" by (simp add: entries_def del: demo_mem_simps)
  then show "ptes (mem demo_mem) 0x80300000 va = 0" by (simp add: ptes_def del: demo_mem_simps)
qed

lemma demo_vm_entries:
  "entries (mem demo_vm) 0x80300000 = {0}" "table_at (mem demo_vm) 0x80300000 0 = 0x80301000"
  "unat va < 4096 \<Longrightarrow> ptes (mem demo_vm) 0x80300000 va = 0x302007"
proof -
  let ?m = "mem demo_vm" and ?d = "0x80300000 :: uint" and ?t = "0x80301000 :: uint"
  define m1 where "m1 = wr32 (mem demo_mem) 0x80300000 0x301007"
  define m2 where "m2 = wr32 m1 0x80301000 0x302007"
  have m: "?m = wr32 m2 0x80303000 0x6F6C6C65" by (simp add: demo_vm_def m1_def m2_def)
  have "same_page ?m m2 v" if "v mod PGSIZE = 0" "v \<noteq> 0x80303000" for v
    unfolding m by (rule demo_page_apart) (use that in \<open>simp_all add: PGSIZE_def\<close>)
  then have sd: "same_page ?m m2 ?d" and st: "same_page ?m m2 ?t" by (simp_all add: PGSIZE_def)
  have s1: "same_page m2 m1 ?d" unfolding m2_def by (rule demo_page_apart) (simp_all add: PGSIZE_def)
  have pd: "pde_at ?m ?d i = (if i = 0 then 0x301007 else 0)" if i: "i < 1024" for i
  proof -
    have "pde_at ?m ?d i = pde_at m1 ?d i" using pde_at_cong [OF sd i] pde_at_cong [OF s1 i] by simp
    also have "\<dots> = (if i = 0 then 0x301007 else pde_at (mem demo_mem) ?d i)"
      using rd32_wr32_entry [OF _ i, of 0 "mem demo_mem" ?d] by (simp add: pde_at_def m1_def)
    finally show ?thesis using demo_mem_pgdir(4) [OF i] by simp
  qed
  show en: "entries ?m ?d = {0}" using pd by (auto simp: entries_def present_odd split: if_splits)
  show ta: "table_at ?m ?d 0 = ?t" by (simp add: table_at_def pd P2V_def PTE_ADDR_def KERNBASE_def)
  assume va: "unat va < 4096"
  then have x: "PDX va = 0" "PTX va = 0" by (simp_all add: word_unat_eq_iff unat_PDX unat_PTX)
  have "rd32 ?m (?t + 4 * 0) = rd32 m2 (?t + 4 * 0)" by (rule same_page_rd32 [OF st]) simp
  then show "ptes ?m ?d va = 0x302007" using ta pd [of 0] x by (simp add: ptes_def slot_def m2_def present_odd)
qed

lemma demo_vm_pgdir: "pgdir_ok demo_vm 0x80300000 [0x80400000, 0x80401000]"
proof -
  have "tables (mem demo_vm) 0x80300000 = {0x80301000}" by (simp add: tables_def demo_vm_entries)
  then show ?thesis
    unfolding pgdir_ok_def demo_vm_entries(1) by (simp add: demo_vm_def page_ok_def PGSIZE_def V2P_def KERNBASE_def PHYSTOP_def)
qed

lemma demo_vm_byte:
  assumes "i < 5"
  shows "user_byte (mem demo_vm) 0x80300000 (0x10 + of_nat i) = 0x80302010 + of_nat i" "user_ok (mem demo_vm) 0x80300000 (0x10 + of_nat i)"
proof -
  have u: "unat (0x10 + of_nat i :: uint) = 16 + i" using assms by (simp add: unat_word_ariths unat_of_nat take_bit_nat_eq_self)
  then have p: "ptes (mem demo_vm) 0x80300000 (0x10 + of_nat i) = 0x302007" using assms by (intro demo_vm_entries(3)) simp
  have "PGROUNDDOWN (0x10 + of_nat i) = 0" using u assms by (simp add: word_unat_eq_iff [of _ 0] unat_round_down)
  then show "user_byte (mem demo_vm) 0x80300000 (0x10 + of_nat i) = 0x80302010 + of_nat i"
    unfolding user_byte_def p by (simp add: P2V_def PTE_ADDR_def KERNBASE_def)
  show "user_ok (mem demo_vm) 0x80300000 (0x10 + of_nat i)"
    unfolding user_ok_def p by (simp add: present_odd PTE_U_def P2V_def PTE_ADDR_def KERNBASE_def)
qed

lemma demo_copyout: "copyout_ok (mem demo_vm) 0x80300000 0x10 0x80303000 5"
proof -
  have five: "i < 5 \<longleftrightarrow> i = 0 \<or> i = 1 \<or> i = 2 \<or> i = 3 \<or> i = (4 :: nat)" for i by auto
  have "tables (mem demo_vm) 0x80300000 = {0x80301000}" by (simp add: tables_def demo_vm_entries)
  moreover have "user_byte (mem demo_vm) 0x80300000 (0x10 + of_nat i) \<noteq> 0x80303000 + of_nat j"
    "user_byte (mem demo_vm) 0x80300000 (0x10 + of_nat i) = user_byte (mem demo_vm) 0x80300000 (0x10 + of_nat j) \<longrightarrow> i = j"
    "\<not> in_page 0x80300000 (user_byte (mem demo_vm) 0x80300000 (0x10 + of_nat i))"
    "\<not> in_page 0x80301000 (user_byte (mem demo_vm) 0x80300000 (0x10 + of_nat i))"
    if i: "i < 5" and j: "j < 5" for i j
    unfolding demo_vm_byte(1) [OF i] demo_vm_byte(1) [OF j] using i j unfolding five
    by (auto simp: in_page_def PGSIZE_def)
  ultimately show ?thesis using demo_vm_byte(2) by (auto simp: copyout_ok_def)
qed

section \<open>Properties\<close>

text \<open>
  C26. \<open>mappages\<close> on a range of which no page is mapped returns, and what it returns says what it did: 0 when
  it mapped every page of the range to the physical pages in order, with the permissions asked for; -1 when
  the allocator had no page left for a page table, with a part of the range, from its start, mapped. No
  other entry of the address space changes, and outside the directory, its tables and the pages it took
  from the allocator no byte does.
\<close>

theorem mappages_maps:
  fixes s :: "'z kmem_scheme"
  assumes "kst H s" "KmemLock \<notin> H" and "kmem_inv s fl" and "pgdir_ok s pgdir fl"
    and k: "k = unat (PGROUNDDOWN (va + sz - 1) - PGROUNDDOWN va) div 4096"
    and "\<And>vb. unat (PGROUNDDOWN vb - PGROUNDDOWN va) < 4096 * Suc k \<Longrightarrow> \<not> present (ptes (mem s) pgdir vb)"
  shows "\<exists>r t used fl' j. mappages pgdir va sz pa perm s = Done r t \<and> kst H t \<and> kmem_inv t fl' \<and> pgdir_ok t pgdir fl' \<and>
    fl = used @ fl' \<and> (r = 0 \<and> j = Suc k \<or> r = -1 \<and> j \<le> k \<and> fl' = []) \<and>
    ptes (mem t) pgdir = mapped (ptes (mem s) pgdir) (PGROUNDDOWN va) j pa perm \<and> vm_post s pgdir used t"
proof -
  have "wp (mappages_loop pgdir (PGROUNDDOWN va) (PGROUNDDOWN (va + sz - 1)) pa perm)
    (\<lambda>r t. \<exists>used fl' j. kst H t \<and> kmem_inv t fl' \<and> pgdir_ok t pgdir fl' \<and>
    fl = used @ fl' \<and> (r = 0 \<and> j = Suc k \<or> r = -1 \<and> j \<le> k \<and> fl' = []) \<and>
    ptes (mem t) pgdir = mapped (ptes (mem s) pgdir) (PGROUNDDOWN va) j pa perm \<and> vm_post s pgdir used t) s"
    by (rule wp_mappages_loop [OF assms(1-4) round_down_page(1,1) k assms(6)]) (assumption | (intro exI conjI, assumption+))+
  then show ?thesis unfolding wp_iff_Done mappages_def by blast
qed

theorem mappages_maps_witness:
  "\<exists>r t used fl' j. mappages 0x80300000 0x1234 0x2000 0xFE000000 PTE_W demo_mem = Done r t \<and> kst {} t \<and> kmem_inv t fl' \<and>
    pgdir_ok t 0x80300000 fl' \<and> [0x80400000, 0x80401000] = used @ fl' \<and> (r = 0 \<and> j = Suc 2 \<or> r = -1 \<and> j \<le> 2 \<and> fl' = []) \<and>
    ptes (mem t) 0x80300000 = mapped (ptes (mem demo_mem) 0x80300000) (PGROUNDDOWN 0x1234) j 0xFE000000 PTE_W \<and>
    vm_post demo_mem 0x80300000 used t"
  by (rule mappages_maps [OF demo_mem_kst _ demo_mem_inv demo_mem_pgdir(1)])
    (simp_all add: PGROUNDDOWN_def PGSIZE_def demo_mem_pgdir(2) del: demo_mem_simps)

text \<open>
  C27. \<open>allocuvm\<close>, with two free pages for each page it adds, returns the new size and gives the process new
  pages: the addresses from the old size, rounded up, to the new size map, in order, to distinct pages taken
  from the allocator, user-writable and filled with zeroes; no other entry changes, and no byte outside the
  page tables and the pages taken.
\<close>

theorem allocuvm_grows:
  fixes s :: "'z kmem_scheme"
  assumes "kst H s" "KmemLock \<notin> H" and "kmem_inv s fl" and "pgdir_ok s pgdir fl"
    and "oldsz \<le> newsz" and "newsz < KERNBASE"
    and n: "n = (unat newsz + 4095 - unat (PGROUNDUP oldsz)) div 4096" and "2 * n \<le> length fl"
    and "\<And>vb. unat (PGROUNDDOWN vb - PGROUNDUP oldsz) < 4096 * n \<Longrightarrow> \<not> present (ptes (mem s) pgdir vb)"
  shows "\<exists>t ps used fl'. allocuvm pgdir oldsz newsz s = Done newsz t \<and> kst H t \<and> kmem_inv t fl' \<and> pgdir_ok t pgdir fl' \<and>
    length ps = n \<and> set (ps @ used @ fl') \<subseteq> set fl \<and> distinct (ps @ used @ fl') \<and>
    grown s pgdir (PGROUNDUP oldsz) ps used t"
proof -
  have al: "PGROUNDUP oldsz mod PGSIZE = 0" by (simp add: round_up_down round_down_page)
  have "wp (allocuvm_loop pgdir oldsz (PGROUNDUP oldsz) newsz) (\<lambda>r t. \<exists>ps used fl'. r = newsz \<and> kst H t \<and> kmem_inv t fl' \<and>
    pgdir_ok t pgdir fl' \<and> length ps = n \<and> set (ps @ used @ fl') \<subseteq> set fl \<and> distinct (ps @ used @ fl') \<and>
    grown s pgdir (PGROUNDUP oldsz) ps used t) s"
    by (rule wp_allocuvm_loop [OF assms(1-4) al assms(6) n assms(8,9)])
      (assumption | (intro exI conjI, (rule refl | assumption)+))+
  then show ?thesis using assms(5,6) unfolding wp_iff_Done allocuvm_def by (auto simp: not_le not_less)
qed

theorem allocuvm_grows_witness:
  "\<exists>t ps used fl'. allocuvm 0x80300000 0 0x800 demo_mem = Done 0x800 t \<and> kst {} t \<and> kmem_inv t fl' \<and> pgdir_ok t 0x80300000 fl' \<and>
    length ps = 1 \<and> set (ps @ used @ fl') \<subseteq> set [0x80400000, 0x80401000] \<and> distinct (ps @ used @ fl') \<and>
    grown demo_mem 0x80300000 (PGROUNDUP 0) ps used t"
  by (rule allocuvm_grows [OF demo_mem_kst _ demo_mem_inv demo_mem_pgdir(1)])
    (simp_all add: PGROUNDUP_def PGSIZE_def KERNBASE_def demo_mem_pgdir(2) del: demo_mem_simps)

text \<open>
  C28. When the last free page goes to the new memory and none is left for its page table, \<open>allocuvm\<close>
  ignores the failure of \<open>mappages\<close>: it returns the new size although the page is not mapped, and the page
  is lost, neither free nor mapped.
\<close>

theorem allocuvm_loses_page:
  fixes s :: "'z kmem_scheme"
  assumes k: "kst H s" "KmemLock \<notin> H" and inv: "kmem_inv s [p]" and ok: "pgdir_ok s pgdir [p]"
    and sz: "oldsz \<le> newsz" "newsz < KERNBASE" "PGROUNDUP oldsz < newsz" "newsz \<le> PGROUNDUP oldsz + PGSIZE"
    and ab: "\<not> present (pde_at (mem s) pgdir (PDX (PGROUNDUP oldsz)))"
  shows "\<exists>t. allocuvm pgdir oldsz newsz s = Done newsz t \<and> kmem_inv t [] \<and> ptes (mem t) pgdir = ptes (mem s) pgdir \<and>
    p \<notin> insert pgdir (tables (mem t) pgdir)"
proof -
  let ?a = "PGROUNDUP oldsz"
  have al: "?a mod PGSIZE = 0" by (simp add: round_up_down round_down_page)
  have ua: "unat ?a < 2 ^ 31" using sz(2,3) by (simp add: word_less_nat_alt KERNBASE_def)
  then have "unat (?a + PGSIZE) = unat ?a + 4096" by (simp add: unat_plus_if')
  then have wrap: "\<not> ?a + PGSIZE \<le> ?a" by (simp add: word_le_nat_alt)
  let ?R = "\<lambda>r t. r = newsz \<and> kmem_inv t [] \<and> ptes (mem t) pgdir = ptes (mem s) pgdir \<and> p \<notin> insert pgdir (tables (mem t) pgdir)"
  let ?next = "\<lambda>p. andthen (kmemset p 0 PGSIZE) (andthen (mappages pgdir ?a PGSIZE (V2P p) (PTE_W OR PTE_U))
      (if ?a + PGSIZE \<le> ?a then fault ''allocuvm'' else allocuvm_loop pgdir oldsz (?a + PGSIZE) newsz))"
  have "wp kalloc (\<lambda>p. wp (if p = 0 then andthen (cprintf ''allocuvm out of memory\<newline>'' [])
      (andthen (deallocuvm pgdir newsz oldsz) (ret 0)) else ?next p) ?R) s"
  proof (rule wp_kalloc [OF k inv])
    fix t assume t: "kmstep s t" "kst H t" "mem t = mem s" "kmem_inv t (tl [p])"
    let ?u = "t\<lparr>mem := memset (mem t) p 0 PGSIZE\<rparr>"
    have t4: "kmem_inv t []" using t(4) by simp
    note ku = kalloc_pgdir [OF ok inv t4 t(3) kmstep_kmem(2) [OF t(1)]]
    have p: "page_ok s p" using inv by (simp add: kmem_inv_def)
    have ab': "\<not> present (pde_at (mem ?u) pgdir (PDX ?a))"
    proof -
      have "ptes (mem ?u) pgdir = ptes (mem s) pgdir" by (rule ku(5))
      have "same_page (mem ?u) (mem s) pgdir"
        using ku(3) pages_disjoint [of p pgdir] p pgdir_okD(1,2) [OF ok] by (auto simp: same_page_def page_ok_def)
      then show ?thesis using ab pde_at_cong [of "mem ?u" "mem s" pgdir "PDX ?a"] by simp
    qed
    let ?Q = "\<lambda>r t. mem t = mem ?u \<and> kmem_inv t []"
    have ka: "wp kalloc (\<lambda>q t. q = 0 \<and> ?Q q t) ?u"
      by (rule wp_kalloc [OF _ k(2) ku(2)]) (use t(2) in auto)
    have "wp kalloc (\<lambda>q. wp (if q = 0 then ret 0 else andthen (kmemset q 0 PGSIZE)
        (andthen (store32 (pgdir + 4 * PDX ?a) (V2P q OR PTE_P OR PTE_W OR PTE_U)) (ret (q + 4 * PTX ?a)))) (\<lambda>r t. r = 0 \<and> ?Q r t)) ?u"
      by (rule wp_mono [OF ka]) (simp add: wp_rules)
    then have wk: "wp (walkpgdir pgdir ?a True) (\<lambda>r t. r = 0 \<and> ?Q r t) ?u"
      using ab' by (simp add: walkpgdir_def Let_def wp_rules pde_at_def present_def)
    have m: "wp (mappages pgdir ?a PGSIZE (V2P p) (PTE_W OR PTE_U)) ?Q ?u"
      unfolding mappages_def round_down_aligned [OF al] mappages_loop.simps [of pgdir ?a] wp_bnd
      by (rule wp_mono [OF wk]) (simp add: wp_rules)
    have np: "p \<notin> tables (mem s) pgdir" using pgdir_okD(3) [OF ok, of p] by auto
    have "wp (mappages pgdir ?a PGSIZE (V2P p) (PTE_W OR PTE_U)) (\<lambda>_. wp (allocuvm_loop pgdir oldsz (?a + PGSIZE) newsz) ?R) ?u"
    proof (rule wp_mono [OF m], elim conjE)
      fix r :: int and w :: "'z kmem_scheme"
      assume w: "mem w = mem ?u" "kmem_inv w []"
      have "?R newsz w" using w np ku(4,5) pgdir_okD(2) [OF ok] by simp
      then show "wp (allocuvm_loop pgdir oldsz (?a + PGSIZE) newsz) ?R w"
        using sz(4) by (subst allocuvm_loop.simps) (simp add: wp_rules not_less)
    qed
    then have "wp (?next p) ?R t" using wrap by (simp add: wp_rules)
    then show "wp (if (if [p] = [] then 0 else hd [p]) = 0 then andthen (cprintf ''allocuvm out of memory\<newline>'' [])
      (andthen (deallocuvm pgdir newsz oldsz) (ret 0)) else ?next (if [p] = [] then 0 else hd [p])) ?R t"
      using p by (simp add: page_ok_def)
  qed
  then have "wp (allocuvm pgdir oldsz newsz) ?R s"
    using sz unfolding allocuvm_def by (subst allocuvm_loop.simps) (auto simp: wp_rules not_le not_less)
  then show ?thesis unfolding wp_iff_Done by blast
qed

theorem allocuvm_loses_page_witness:
  "\<exists>t. allocuvm 0x80300000 0 0x800 (demo_mem\<lparr>mem := \<lambda>_. 0\<rparr>) = Done 0x800 t \<and> kmem_inv t [] \<and>
    ptes (mem t) 0x80300000 = ptes (mem (demo_mem\<lparr>mem := \<lambda>_. 0\<rparr>)) 0x80300000 \<and>
    0x80400000 \<notin> insert 0x80300000 (tables (mem t) 0x80300000)"
proof (rule allocuvm_loses_page [of "{}"])
  show "kst {} (demo_mem\<lparr>mem := \<lambda>_. 0\<rparr>)" using demo_mem_kst by simp
  show "kmem_inv (demo_mem\<lparr>mem := \<lambda>_. 0\<rparr>) [0x80400000]"
    by (simp add: kmem_inv_def page_ok_def PGSIZE_def V2P_def PHYSTOP_def KERNBASE_def rd32_def)
  note em = demo_empty [of "\<lambda>_. 0" "0x80300000"]
  show "pgdir_ok (demo_mem\<lparr>mem := \<lambda>_. 0\<rparr>) 0x80300000 [0x80400000]"
    using em by (simp add: pgdir_ok_def same_page_def page_ok_def PGSIZE_def V2P_def KERNBASE_def PHYSTOP_def)
  show "\<not> present (pde_at (mem (demo_mem\<lparr>mem := \<lambda>_. 0\<rparr>)) 0x80300000 (PDX (PGROUNDUP 0)))"
    by (simp add: pde_at_def rd32_def)
qed (simp_all add: PGROUNDUP_def PGSIZE_def KERNBASE_def)

text \<open>
  C29. \<open>copyout\<close> to addresses the user may write, whatever pages they cross, returns 0 and stores the
  buffer's bytes there, in order, and changes no other byte of memory.
\<close>

theorem copyout_copies:
  fixes s :: "'z kmem_scheme"
  assumes "pgdir_ok s pgdir fl" and "copyout_ok (mem s) pgdir va buf (unat len)"
  shows "\<exists>m. copyout pgdir va buf len s = Done 0 (s\<lparr>mem := m\<rparr>) \<and>
    (\<forall>i < unat len. m (user_byte (mem s) pgdir (va + of_nat i)) = mem s (buf + of_nat i)) \<and>
    (\<forall>x. (\<forall>i < unat len. x \<noteq> user_byte (mem s) pgdir (va + of_nat i)) \<longrightarrow> m x = mem s x)"
proof -
  have "wp (copyout pgdir va buf len) (\<lambda>r t. r = 0 \<and> (\<exists>m. t = s\<lparr>mem := m\<rparr> \<and>
    (\<forall>i < unat len. m (user_byte (mem s) pgdir (va + of_nat i)) = mem s (buf + of_nat i)) \<and>
    (\<forall>x. (\<forall>i < unat len. x \<noteq> user_byte (mem s) pgdir (va + of_nat i)) \<longrightarrow> m x = mem s x))) s"
    by (rule wp_copyout [OF assms]) blast
  then show ?thesis unfolding wp_iff_Done by blast
qed

theorem copyout_copies_witness:
  "\<exists>m. copyout 0x80300000 0x10 0x80303000 5 demo_vm = Done 0 (demo_vm\<lparr>mem := m\<rparr>) \<and>
    (\<forall>i < unat (5 :: uint). m (user_byte (mem demo_vm) 0x80300000 (0x10 + of_nat i)) = mem demo_vm (0x80303000 + of_nat i)) \<and>
    (\<forall>x. (\<forall>i < unat (5 :: uint). x \<noteq> user_byte (mem demo_vm) 0x80300000 (0x10 + of_nat i)) \<longrightarrow> m x = mem demo_vm x)"
  by (rule copyout_copies [OF demo_vm_pgdir]) (simp add: demo_copyout)

end
