(* ===== verification/Bio.thy ===== *)
theory Bio
  imports Kalloc
begin

text \<open>
  The buffer cache (bio.c) on the disk driver of memide.c, which keeps the disk in memory and answers at
  once. A pointer to a buffer is its index in
  \<open>bcache.buf\<close>; the list's head, a buffer of its own, is \<open>BHead\<close>.
\<close>

section \<open>The state\<close>

datatype bref = BHead | Buf nat

record buf =
  b_busy :: bool
  b_valid :: bool
  b_dirty :: bool
  b_dev :: uint
  b_sector :: uint
  b_prev :: bref
  b_next :: bref
  b_qnext :: "nat option"
  b_data :: "uchar list"

text \<open>\<open>disk\<close> is the disk's contents by sector; \<open>disk_trace\<close> records the sectors written to it, in order, so
  that the disk a crash leaves between two writes can be spoken of.\<close>

record kbio = kmem +
  bc_buf :: "buf list"
  bc_head_prev :: bref
  bc_head_next :: bref
  disk :: "uint \<Rightarrow> uchar list"
  disk_trace :: "(uint \<times> uchar list) list"
  disksize :: int

definition NBUF :: nat where
  "NBUF = 10"

definition BSIZE :: nat where
  "BSIZE = 512"

definition bufget :: "nat \<Rightarrow> ('z kbio_scheme, buf) kop" where
  "bufget b = bnd (gets bc_buf) (\<lambda>bs. if b < length bs then ret (bs ! b) else fault ''buf'')"

definition bufset :: "nat \<Rightarrow> (buf \<Rightarrow> buf) \<Rightarrow> ('z kbio_scheme, unit) kop" where
  "bufset b f = bnd (gets bc_buf) (\<lambda>bs.
     if b < length bs then upd (\<lambda>s. s\<lparr>bc_buf := (bc_buf s)[b := f (bc_buf s ! b)]\<rparr>) else fault ''buf'')"

text \<open>\<open>p->next\<close> and \<open>p->prev\<close> of a buffer or of the head.\<close>

definition set_next :: "bref \<Rightarrow> bref \<Rightarrow> ('z kbio_scheme, unit) kop" where
  "set_next p v = (case p of BHead \<Rightarrow> upd (\<lambda>s. s\<lparr>bc_head_next := v\<rparr>) | Buf b \<Rightarrow> bufset b (\<lambda>r. r\<lparr>b_next := v\<rparr>))"

definition set_prev :: "bref \<Rightarrow> bref \<Rightarrow> ('z kbio_scheme, unit) kop" where
  "set_prev p v = (case p of BHead \<Rightarrow> upd (\<lambda>s. s\<lparr>bc_head_prev := v\<rparr>) | Buf b \<Rightarrow> bufset b (\<lambda>r. r\<lparr>b_prev := v\<rparr>))"

section \<open>The driver of memide.c\<close>

definition mem_ideinit :: "nat \<Rightarrow> ('z kbio_scheme, unit) kop" where
  "mem_ideinit imgsize = upd (\<lambda>s. s\<lparr>disksize := int (imgsize div 512)\<rparr>)"

definition disk_write :: "uint \<Rightarrow> uchar list \<Rightarrow> ('z kbio_scheme, unit) kop" where
  "disk_write sec v = upd (\<lambda>s. s\<lparr>disk := (disk s)(sec := v), disk_trace := disk_trace s @ [(sec, v)]\<rparr>)"

definition mem_iderw :: "nat \<Rightarrow> ('z kbio_scheme, unit) kop" where
  "mem_iderw b =
     bnd (bufget b) (\<lambda>r.
     if \<not> b_busy r then panic ''iderw: buf not busy''
     else if b_valid r \<and> \<not> b_dirty r then panic ''iderw: nothing to do''
     else if b_dev r \<noteq> 1 then panic ''iderw: request not for disk 1''
     else
       bnd (gets disksize) (\<lambda>n.
       if b_sector r \<ge> word_of_int n then panic ''iderw: sector out of range''
       else
         andthen
           (if b_dirty r
            then andthen (bufset b (\<lambda>r. r\<lparr>b_dirty := False\<rparr>))
              (disk_write (b_sector r) (b_data r))
            else bnd (gets disk) (\<lambda>d. bufset b (\<lambda>q. q\<lparr>b_data := d (b_sector r)\<rparr>)))
           (bufset b (\<lambda>r. r\<lparr>b_valid := True\<rparr>))))"

section \<open>The cache\<close>

definition binit_one :: "nat \<Rightarrow> ('z kbio_scheme, unit) kop" where
  "binit_one b =
     bnd (gets bc_head_next) (\<lambda>n.
     andthen (bufset b (\<lambda>r. r\<lparr>b_next := n\<rparr>))
     (andthen (bufset b (\<lambda>r. r\<lparr>b_prev := BHead\<rparr>))
     (andthen (bufset b (\<lambda>r. r\<lparr>b_dev := - 1\<rparr>))
     (bnd (gets bc_head_next) (\<lambda>n.
     andthen (set_prev n (Buf b))
     (upd (\<lambda>s. s\<lparr>bc_head_next := Buf b\<rparr>)))))))"

definition binit :: "('z kbio_scheme, unit) kop" where
  "binit =
     andthen (initlock BcacheLock ''bcache'')
     (andthen (upd (\<lambda>s. s\<lparr>bc_head_prev := BHead\<rparr>))
     (andthen (upd (\<lambda>s. s\<lparr>bc_head_next := BHead\<rparr>))
     (for_each [0..<NBUF] binit_one)))"

text \<open>The two scans of \<open>bget\<close>; the list has at most \<open>NBUF\<close> buffers.\<close>

fun find_cached :: "nat \<Rightarrow> buf list \<Rightarrow> bref \<Rightarrow> uint \<Rightarrow> uint \<Rightarrow> nat option" where
  "find_cached 0 bs p dev sector = None"
| "find_cached (Suc n) bs p dev sector =
     (case p of BHead \<Rightarrow> None
      | Buf b \<Rightarrow>
          if b_dev (bs ! b) = dev \<and> b_sector (bs ! b) = sector then Some b
          else find_cached n bs (b_next (bs ! b)) dev sector)"

fun find_free :: "nat \<Rightarrow> buf list \<Rightarrow> bref \<Rightarrow> nat option" where
  "find_free 0 bs p = None"
| "find_free (Suc n) bs p =
     (case p of BHead \<Rightarrow> None
      | Buf b \<Rightarrow>
          if \<not> b_busy (bs ! b) \<and> \<not> b_dirty (bs ! b) then Some b
          else find_free n bs (b_prev (bs ! b)))"

text \<open>\<open>bget\<close> from \<open>loop\<close> on, with the lock held; a process that slept starts here again.\<close>

definition bget_loop :: "uint \<Rightarrow> uint \<Rightarrow> ('z kbio_scheme, nat) kop" where
  "bget_loop dev sector =
     bnd (gets (\<lambda>s. find_cached (NBUF + 1) (bc_buf s) (bc_head_next s) dev sector)) (\<lambda>r.
     case r of
       Some b \<Rightarrow>
         bnd (bufget b) (\<lambda>q.
         if \<not> b_busy q then
           andthen (bufset b (\<lambda>r. r\<lparr>b_busy := True\<rparr>)) (andthen (release BcacheLock) (ret b))
         else sleep (BufChan b) (Some BcacheLock))
     | None \<Rightarrow>
         bnd (gets (\<lambda>s. find_free (NBUF + 1) (bc_buf s) (bc_head_prev s))) (\<lambda>r.
         case r of
           None \<Rightarrow> panic ''bget: no buffers''
         | Some b \<Rightarrow>
             andthen (bufset b (\<lambda>r. r\<lparr>b_dev := dev\<rparr>))
             (andthen (bufset b (\<lambda>r. r\<lparr>b_sector := sector\<rparr>))
             (andthen (bufset b (\<lambda>r. r\<lparr>b_busy := True, b_valid := False, b_dirty := False\<rparr>))
             (andthen (release BcacheLock) (ret b))))))"

definition bget :: "uint \<Rightarrow> uint \<Rightarrow> ('z kbio_scheme, nat) kop" where
  "bget dev sector = andthen (acquire BcacheLock) (bget_loop dev sector)"

definition bread :: "uint \<Rightarrow> uint \<Rightarrow> ('z kbio_scheme, nat) kop" where
  "bread dev sector =
     bnd (bget dev sector) (\<lambda>b.
     bnd (bufget b) (\<lambda>r.
     andthen (whenever (\<not> b_valid r) (mem_iderw b)) (ret b)))"

definition bwrite :: "nat \<Rightarrow> ('z kbio_scheme, unit) kop" where
  "bwrite b =
     bnd (bufget b) (\<lambda>r.
     if \<not> b_busy r then panic ''bwrite''
     else andthen (bufset b (\<lambda>r. r\<lparr>b_dirty := True\<rparr>)) (mem_iderw b))"

definition brelse :: "nat \<Rightarrow> ('z kbio_scheme, unit) kop" where
  "brelse b =
     bnd (bufget b) (\<lambda>r.
     if \<not> b_busy r then panic ''brelse''
     else
       andthen (acquire BcacheLock)
       (bnd (bufget b) (\<lambda>r.
       andthen (set_prev (b_next r) (b_prev r))
       (bnd (bufget b) (\<lambda>r.
       andthen (set_next (b_prev r) (b_next r))
       (bnd (gets bc_head_next) (\<lambda>n.
       andthen (bufset b (\<lambda>r. r\<lparr>b_next := n\<rparr>))
       (andthen (bufset b (\<lambda>r. r\<lparr>b_prev := BHead\<rparr>))
       (bnd (gets bc_head_next) (\<lambda>n.
       andthen (set_prev n (Buf b))
       (andthen (upd (\<lambda>s. s\<lparr>bc_head_next := Buf b\<rparr>))
       (andthen (bufset b (\<lambda>r. r\<lparr>b_busy := False\<rparr>))
       (andthen (wakeup (BufChan b))
       (release BcacheLock))))))))))))))"

end
