(* ===== verification/Log.thy ===== *)
theory Log
  imports Bio
begin

text \<open>
  log.c: the write-ahead log that makes the writes of one system call reach the disk all or not at all.
  \<open>readsb\<close> of fs.c is here because \<open>initlog\<close> reads the super block.
\<close>

section \<open>The super block\<close>

record superblock =
  sb_size :: uint
  sb_nblocks :: uint
  sb_ninodes :: uint
  sb_nlog :: uint

definition sb_of :: "uchar list \<Rightarrow> superblock" where
  "sb_of d = \<lparr>sb_size = get32 d 0, sb_nblocks = get32 d 4, sb_ninodes = get32 d 8, sb_nlog = get32 d 12\<rparr>"

definition readsb :: "uint \<Rightarrow> ('z kbio_scheme, superblock) kop" where
  "readsb dev =
     bnd (bread dev 1) (\<lambda>bp.
     bnd (bufget bp) (\<lambda>r.
     andthen (brelse bp) (ret (sb_of (b_data r)))))"

section \<open>The log\<close>

definition LOGSIZE :: nat where
  "LOGSIZE = 10"

definition ROOTDEV :: uint where
  "ROOTDEV = 1"

record klog = kbio +
  log_start :: int
  log_size :: int
  log_busy :: bool
  log_dev :: uint
  lh_n :: int
  lh_sector :: "uint list"

definition lh_get :: "nat \<Rightarrow> ('z klog_scheme, uint) kop" where
  "lh_get i = bnd (gets lh_sector) (\<lambda>xs. if i < length xs then ret (xs ! i) else fault ''log.lh.sector'')"

definition lh_set :: "nat \<Rightarrow> uint \<Rightarrow> ('z klog_scheme, unit) kop" where
  "lh_set i v = bnd (gets lh_sector) (\<lambda>xs.
     if i < length xs then upd (\<lambda>s. s\<lparr>lh_sector := (lh_sector s)[i := v]\<rparr>) else fault ''log.lh.sector'')"

definition install_one :: "nat \<Rightarrow> ('z klog_scheme, unit) kop" where
  "install_one tail =
     bnd (gets log_dev) (\<lambda>dev.
     bnd (gets log_start) (\<lambda>st.
     bnd (bread dev (word_of_int (st + int tail + 1))) (\<lambda>lbuf.
     bnd (lh_get tail) (\<lambda>sec.
     bnd (bread dev sec) (\<lambda>dbuf.
     bnd (bufget lbuf) (\<lambda>l.
     andthen (bufset dbuf (\<lambda>r. r\<lparr>b_data := b_data l\<rparr>))
     (andthen (bwrite dbuf)
     (andthen (brelse lbuf)
     (brelse dbuf)))))))))"

definition install_trans :: "('z klog_scheme, unit) kop" where
  "install_trans = bnd (gets lh_n) (\<lambda>n. for_each [0..<nat n] install_one)"

definition read_head :: "('z klog_scheme, unit) kop" where
  "read_head =
     bnd (gets log_dev) (\<lambda>dev.
     bnd (gets log_start) (\<lambda>st.
     bnd (bread dev (word_of_int st)) (\<lambda>b.
     bnd (bufget b) (\<lambda>r.
     andthen (upd (\<lambda>s. s\<lparr>lh_n := sint (get32 (b_data r) 0)\<rparr>))
     (bnd (gets lh_n) (\<lambda>n.
     andthen (for_each [0..<nat n] (\<lambda>i. lh_set i (get32 (b_data r) (4 + 4 * i))))
     (brelse b)))))))"

definition write_head :: "('z klog_scheme, unit) kop" where
  "write_head =
     bnd (gets log_dev) (\<lambda>dev.
     bnd (gets log_start) (\<lambda>st.
     bnd (bread dev (word_of_int st)) (\<lambda>b.
     bnd (gets lh_n) (\<lambda>n.
     andthen (bufset b (\<lambda>r. r\<lparr>b_data := put32 (b_data r) 0 (word_of_int n)\<rparr>))
     (andthen
       (for_each [0..<nat n] (\<lambda>i.
         bnd (lh_get i) (\<lambda>sec. bufset b (\<lambda>r. r\<lparr>b_data := put32 (b_data r) (4 + 4 * i) sec\<rparr>))))
     (andthen (bwrite b)
     (brelse b)))))))"

definition recover_from_log :: "('z klog_scheme, unit) kop" where
  "recover_from_log =
     andthen read_head
     (andthen install_trans
     (andthen (upd (\<lambda>s. s\<lparr>lh_n := 0\<rparr>))
     write_head))"

definition initlog :: "('z klog_scheme, unit) kop" where
  "initlog =
     (if 4 + 4 * LOGSIZE \<ge> BSIZE then panic ''initlog: too big logheader''
      else
        andthen (initlock LogLock ''log'')
        (bnd (readsb ROOTDEV) (\<lambda>sb.
        andthen (upd (\<lambda>s. s\<lparr>log_start := sint (sb_size sb - sb_nlog sb)\<rparr>))
        (andthen (upd (\<lambda>s. s\<lparr>log_size := sint (sb_nlog sb)\<rparr>))
        (andthen (upd (\<lambda>s. s\<lparr>log_dev := ROOTDEV\<rparr>))
        recover_from_log)))))"

text \<open>The wait of \<open>begin_trans\<close>; a process that slept starts here again.\<close>

definition begin_trans_wait :: "('z klog_scheme, unit) kop" where
  "begin_trans_wait =
     bnd (gets log_busy) (\<lambda>busy.
     if busy then sleep LogChan (Some LogLock)
     else andthen (upd (\<lambda>s. s\<lparr>log_busy := True\<rparr>)) (release LogLock))"

definition begin_trans :: "('z klog_scheme, unit) kop" where
  "begin_trans = andthen (acquire LogLock) begin_trans_wait"

definition commit_trans :: "('z klog_scheme, unit) kop" where
  "commit_trans =
     bnd (gets lh_n) (\<lambda>n.
     andthen
       (whenever (n > 0)
         (andthen write_head
         (andthen install_trans
         (andthen (upd (\<lambda>s. s\<lparr>lh_n := 0\<rparr>))
         write_head))))
     (andthen (acquire LogLock)
     (andthen (upd (\<lambda>s. s\<lparr>log_busy := False\<rparr>))
     (andthen (wakeup LogChan)
     (release LogLock)))))"

text \<open>The scan of \<open>log_write\<close> for an entry of the same sector.\<close>

definition log_find :: "int \<Rightarrow> uint list \<Rightarrow> uint \<Rightarrow> nat" where
  "log_find n secs sec = length (takeWhile (\<lambda>x. x \<noteq> sec) (take (nat n) secs))"

definition log_write :: "nat \<Rightarrow> ('z klog_scheme, unit) kop" where
  "log_write b =
     bnd (gets lh_n) (\<lambda>n.
     bnd (gets log_size) (\<lambda>sz.
     if n \<ge> int LOGSIZE \<or> n \<ge> sz - 1 then panic ''too big a transaction''
     else
       bnd (gets log_busy) (\<lambda>busy.
       if \<not> busy then panic ''write outside of trans''
       else
         bnd (bufget b) (\<lambda>r.
         bnd (gets lh_sector) (\<lambda>secs.
         let i = log_find n secs (b_sector r) in
         andthen (lh_set i (b_sector r))
         (bnd (gets log_start) (\<lambda>st.
         bnd (bread (b_dev r) (word_of_int (st + int i + 1))) (\<lambda>lbuf.
         bnd (bufget b) (\<lambda>r.
         andthen (bufset lbuf (\<lambda>q. q\<lparr>b_data := b_data r\<rparr>))
         (andthen (bwrite lbuf)
         (andthen (brelse lbuf)
         (andthen (whenever (int i = n) (upd (\<lambda>s. s\<lparr>lh_n := lh_n s + 1\<rparr>)))
         (bufset b (\<lambda>r. r\<lparr>b_dirty := True\<rparr>))))))))))))))"

end
