(* ===== verification/Kbd.thy ===== *)
theory Kbd
  imports Kernel_Prelude
begin

text \<open>
  kbd.c and kbd.h: the decoding of scan codes. The tables are those of kbd.h: the entries given by
  position, then those given by index; every other entry is 0.
\<close>

definition table :: "nat list \<Rightarrow> (nat \<times> nat) list \<Rightarrow> nat \<Rightarrow> uint" where
  "table xs ps i = (case map_of ps i of Some v \<Rightarrow> of_nat v | None \<Rightarrow> if i < length xs then of_nat (xs ! i) else 0)"

definition SHIFT :: uint where "SHIFT = 1"
definition CTL :: uint where "CTL = 2"
definition CAPSLOCK :: uint where "CAPSLOCK = 8"
definition E0ESC :: uint where "E0ESC = 0x40"

definition shiftcode :: "nat \<Rightarrow> uint" where
  "shiftcode = table
    []
    [(0x1D, 0x02), (0x2A, 0x01), (0x36, 0x01), (0x38, 0x04), (0x9D, 0x02), (0xB8, 0x04)]"

definition togglecode :: "nat \<Rightarrow> uint" where
  "togglecode = table
    []
    [(0x3A, 0x08), (0x45, 0x10), (0x46, 0x20)]"

definition normalmap :: "nat \<Rightarrow> uint" where
  "normalmap = table
    [0x00, 0x1B, 0x31, 0x32, 0x33, 0x34, 0x35, 0x36, 0x37, 0x38, 0x39, 0x30, 0x2D, 0x3D, 0x08, 0x09,
     0x71, 0x77, 0x65, 0x72, 0x74, 0x79, 0x75, 0x69, 0x6F, 0x70, 0x5B, 0x5D, 0x0A, 0x00, 0x61, 0x73,
     0x64, 0x66, 0x67, 0x68, 0x6A, 0x6B, 0x6C, 0x3B, 0x27, 0x60, 0x00, 0x5C, 0x7A, 0x78, 0x63, 0x76,
     0x62, 0x6E, 0x6D, 0x2C, 0x2E, 0x2F, 0x00, 0x2A, 0x00, 0x20, 0x00, 0x00, 0x00, 0x00, 0x00, 0x00,
     0x00, 0x00, 0x00, 0x00, 0x00, 0x00, 0x00, 0x37, 0x38, 0x39, 0x2D, 0x34, 0x35, 0x36, 0x2B, 0x31,
     0x32, 0x33, 0x30, 0x2E, 0x00, 0x00, 0x00, 0x00]
    [(0x9C, 0x0A), (0xB5, 0x2F), (0xC8, 0xE2), (0xD0, 0xE3), (0xC9, 0xE6), (0xD1, 0xE7),
     (0xCB, 0xE4), (0xCD, 0xE5), (0x97, 0xE0), (0xCF, 0xE1), (0xD2, 0xE8), (0xD3, 0xE9)]"

definition shiftmap :: "nat \<Rightarrow> uint" where
  "shiftmap = table
    [0x00, 0x1B, 0x21, 0x40, 0x23, 0x24, 0x25, 0x5E, 0x26, 0x2A, 0x28, 0x29, 0x5F, 0x2B, 0x08, 0x09,
     0x51, 0x57, 0x45, 0x52, 0x54, 0x59, 0x55, 0x49, 0x4F, 0x50, 0x7B, 0x7D, 0x0A, 0x00, 0x41, 0x53,
     0x44, 0x46, 0x47, 0x48, 0x4A, 0x4B, 0x4C, 0x3A, 0x22, 0x7E, 0x00, 0x7C, 0x5A, 0x58, 0x43, 0x56,
     0x42, 0x4E, 0x4D, 0x3C, 0x3E, 0x3F, 0x00, 0x2A, 0x00, 0x20, 0x00, 0x00, 0x00, 0x00, 0x00, 0x00,
     0x00, 0x00, 0x00, 0x00, 0x00, 0x00, 0x00, 0x37, 0x38, 0x39, 0x2D, 0x34, 0x35, 0x36, 0x2B, 0x31,
     0x32, 0x33, 0x30, 0x2E, 0x00, 0x00, 0x00, 0x00]
    [(0x9C, 0x0A), (0xB5, 0x2F), (0xC8, 0xE2), (0xD0, 0xE3), (0xC9, 0xE6), (0xD1, 0xE7),
     (0xCB, 0xE4), (0xCD, 0xE5), (0x97, 0xE0), (0xCF, 0xE1), (0xD2, 0xE8), (0xD3, 0xE9)]"

definition ctlmap :: "nat \<Rightarrow> uint" where
  "ctlmap = table
    [0x00, 0x00, 0x00, 0x00, 0x00, 0x00, 0x00, 0x00, 0x00, 0x00, 0x00, 0x00, 0x00, 0x00, 0x00, 0x00,
     0x11, 0x17, 0x05, 0x12, 0x14, 0x19, 0x15, 0x09, 0x0F, 0x10, 0x00, 0x00, 0x0D, 0x00, 0x01, 0x13,
     0x04, 0x06, 0x07, 0x08, 0x0A, 0x0B, 0x0C, 0x00, 0x00, 0x00, 0x00, 0x1C, 0x1A, 0x18, 0x03, 0x16,
     0x02, 0x0E, 0x0D, 0x00, 0x00, 0xEF, 0x00, 0x00]
    [(0x9C, 0x0D), (0xB5, 0xEF), (0xC8, 0xE2), (0xD0, 0xE3), (0xC9, 0xE6), (0xD1, 0xE7),
     (0xCB, 0xE4), (0xCD, 0xE5), (0x97, 0xE0), (0xCF, 0xE1), (0xD2, 0xE8), (0xD3, 0xE9)]"

text \<open>\<open>charcode\<close>, the table for each state of the shift and control keys.\<close>

definition charcode :: "uint \<Rightarrow> nat \<Rightarrow> uint" where
  "charcode k = [normalmap, shiftmap, ctlmap, ctlmap] ! unat k"

text \<open>
  \<open>kbdgetc\<close> on the byte \<open>data\<close> read from the controller, with the static variable \<open>shift\<close>; without a byte
  it returns -1.
\<close>

definition kbd_decode :: "uint \<Rightarrow> uint \<Rightarrow> uint \<times> int" where
  "kbd_decode shift data =
     (if data = 0xE0 then (shift OR E0ESC, 0)
      else if data AND 0x80 \<noteq> 0 then
        let data = (if shift AND E0ESC \<noteq> 0 then data else data AND 0x7F)
        in (shift AND NOT (shiftcode (unat data) OR E0ESC), 0)
      else
        let (data, shift) = (if shift AND E0ESC \<noteq> 0 then (data OR 0x80, shift AND NOT E0ESC) else (data, shift));
            shift = shift OR shiftcode (unat data);
            shift = shift XOR togglecode (unat data);
            c = charcode (shift AND (CTL OR SHIFT)) (unat data);
            c = (if shift AND CAPSLOCK \<noteq> 0 then
                   if 0x61 \<le> c \<and> c \<le> 0x7A then c + (0x41 - 0x61)
                   else if 0x41 \<le> c \<and> c \<le> 0x5A then c + (0x61 - 0x41)
                   else c
                 else c)
        in (shift, sint c))"

definition kbdgetc :: "uint \<Rightarrow> uchar list \<Rightarrow> (uint \<times> uchar list) \<times> int" where
  "kbdgetc shift port =
     (case port of
        [] \<Rightarrow> ((shift, []), -1)
      | d # rest \<Rightarrow> (case kbd_decode shift (ucast d) of (shift', c) \<Rightarrow> ((shift', rest), c)))"

section \<open>The characters\<close>

text \<open>A scan code decodes to a character of one byte.\<close>

lemma table_bound:
  assumes "list_all (\<lambda>x. x < 256) xs" and "list_all (\<lambda>p. snd p < 256) ps"
  shows "table xs ps i < 256"
proof -
  have small: "(of_nat v :: uint) < 256" if "v < 256" for v using that by (simp add: word_less_nat_alt unat_of_nat)
  show ?thesis
  proof (cases "map_of ps i")
    case None
    then show ?thesis using assms(1) small by (simp add: table_def list_all_length)
  next
    case (Some v)
    then have "v < 256" using assms(2) map_of_SomeD by (fastforce simp: list_all_iff)
    then show ?thesis using Some small by (simp add: table_def)
  qed
qed

lemma charcode_bound: "unat k < 4 \<Longrightarrow> charcode k i < 256"
proof -
  assume "unat k < 4"
  then have "unat k = 0 \<or> unat k = 1 \<or> unat k = 2 \<or> unat k = 3" by linarith
  moreover have "normalmap i < 256" "shiftmap i < 256" "ctlmap i < 256"
    unfolding normalmap_def shiftmap_def ctlmap_def by (rule table_bound; simp)+
  ultimately show ?thesis by (auto simp: charcode_def)
qed

lemma shift_index: "unat (x AND (CTL OR SHIFT)) < 4"
proof -
  have "CTL OR SHIFT = mask 2" by (simp add: CTL_def SHIFT_def mask_eq_exp_minus_1)
  then have "unat (x AND (CTL OR SHIFT)) = unat x mod 4"
    by (simp add: take_bit_eq_mask [symmetric] take_bit_eq_mod unat_mod)
  then show ?thesis by simp
qed

lemma kbd_decode_range: "0 \<le> snd (kbd_decode shift data) \<and> snd (kbd_decode shift data) < 256"
proof -
  define caps :: "uint \<Rightarrow> uint \<Rightarrow> uint" where "caps sh c =
    (if sh AND CAPSLOCK \<noteq> 0 then if 0x61 \<le> c \<and> c \<le> 0x7A then c + (0x41 - 0x61)
       else if 0x41 \<le> c \<and> c \<le> 0x5A then c + (0x61 - 0x41) else c else c)" for sh c
  have up: "c + (0x41 - 0x61) < 256" if "0x61 \<le> c" "c \<le> 0x7A" for c :: uint
  proof -
    have "c + (0x41 - 0x61) = c - 0x20" by simp
    also have "\<dots> < 256" using that by (simp add: word_le_nat_alt word_less_nat_alt unat_sub)
    finally show ?thesis .
  qed
  have down: "c + (0x61 - 0x41) < 256" if "0x41 \<le> c" "c \<le> 0x5A" for c :: uint
    using that by (simp add: word_le_nat_alt word_less_nat_alt unat_word_ariths)
  have caps: "caps sh c < 256" if "c < 256" for sh c using that up [of c] down [of c] unfolding caps_def by (simp split: if_split)
  have small: "0 \<le> sint c \<and> sint c < 256" if "c < 256" for c :: uint
  proof -
    have "uint c < 256" using that by (simp add: word_less_def)
    then show ?thesis by (simp add: sint_uint32)
  qed
  have "snd (kbd_decode shift data) = 0 \<or> (\<exists>sh d. snd (kbd_decode shift data) = sint (caps sh (charcode (sh AND (CTL OR SHIFT)) d)))"
    unfolding kbd_decode_def caps_def [symmetric] Let_def by (simp split: if_split) blast
  then show ?thesis using small [OF caps [OF charcode_bound [OF shift_index]]] by (elim disjE exE) simp_all
qed

end
