(* ===== verification/Console_In.thy ===== *)
theory Console_In
  imports Log Kbd
begin

text \<open>
  The input side of console.c: the line editor that the keyboard and serial interrupts feed
  (\<open>consoleintr\<close>, \<open>kbdintr\<close>, \<open>uartintr\<close>), and \<open>procdump\<close> of proc.c, which control-P calls. The bytes the
  keyboard controller and the serial line have ready are \<open>kbd_port\<close> and \<open>uart_port\<close>.
\<close>

definition INPUT_BUF :: uint where
  "INPUT_BUF = 128"

record kcin = klog +
  in_buf :: "uchar list"
  in_r :: uint
  in_w :: uint
  in_e :: uint
  kbd_shift :: uint
  kbd_port :: "uchar list"
  uart_port :: "uchar list"

definition in_get :: "uint \<Rightarrow> ('z kcin_scheme, uchar) kop" where
  "in_get i = gets (\<lambda>s. in_buf s ! unat (i mod INPUT_BUF))"

definition in_put :: "uint \<Rightarrow> uchar \<Rightarrow> ('z kcin_scheme, unit) kop" where
  "in_put i c = upd (\<lambda>s. s\<lparr>in_buf := (in_buf s)[unat (i mod INPUT_BUF) := c]\<rparr>)"

section \<open>The process listing\<close>

definition state_name :: "procstate \<Rightarrow> string" where
  "state_name st =
     (case st of UNUSED \<Rightarrow> ''unused'' | EMBRYO \<Rightarrow> ''embryo'' | SLEEPING \<Rightarrow> ''sleep ''
      | RUNNABLE \<Rightarrow> ''runble'' | RUNNING \<Rightarrow> ''run   '' | ZOMBIE \<Rightarrow> ''zombie'')"

text \<open>\<open>"%d %s %s"\<close> and \<open>" %p"\<close>, then a newline.\<close>

definition procdump :: "('z kproc_scheme, unit) kop" where
  "procdump =
     for_each [0..<NPROC] (\<lambda>i.
       bnd (pget i) (\<lambda>p.
       if p_state p = UNUSED then ret ()
       else
         andthen (cprintf ''%d %s %s''
           [ArgInt (word_of_int (p_pid p)), ArgStr (Some (state_name (p_state p))), ArgStr (Some (p_name p))])
         (andthen
           (whenever (p_state p = SLEEPING)
             (bnd (gets stackmem) (\<lambda>m.
              for_each (takeWhile (\<lambda>pc. pc \<noteq> 0) (getcallerpcs m (ctx_ebp (p_context p) + 8)))
                (\<lambda>pc. cprintf '' %p'' [ArgInt pc]))))
         (cprintf [CHR 0x0A] []))))"

section \<open>The line editor\<close>

text \<open>Control-U; the argument bounds the characters there are to erase.\<close>

fun kill_line :: "nat \<Rightarrow> ('z kcin_scheme, unit) kop" where
  "kill_line 0 = fault ''consoleintr''"
| "kill_line (Suc n) =
     bnd (gets in_e) (\<lambda>e.
     bnd (gets in_w) (\<lambda>w.
     bnd (in_get (e - 1)) (\<lambda>c.
     if e \<noteq> w \<and> c \<noteq> 0x0A then
       andthen (upd (\<lambda>s. s\<lparr>in_e := e - 1\<rparr>))
       (andthen (consputc BACKSPACE) (kill_line n))
     else ret ())))"

definition erase_char :: "('z kcin_scheme, unit) kop" where
  "erase_char =
     bnd (gets in_e) (\<lambda>e.
     bnd (gets in_w) (\<lambda>w.
     whenever (e \<noteq> w) (andthen (upd (\<lambda>s. s\<lparr>in_e := e - 1\<rparr>)) (consputc BACKSPACE))))"

definition store_char :: "int \<Rightarrow> ('z kcin_scheme, unit) kop" where
  "store_char c =
     bnd (gets in_e) (\<lambda>e.
     bnd (gets in_r) (\<lambda>r.
     if c \<noteq> 0 \<and> e - r < INPUT_BUF then
       let c = (if c = 13 then 10 else c) in
       andthen (in_put e (word_of_int c))
       (andthen (upd (\<lambda>s. s\<lparr>in_e := e + 1\<rparr>))
       (andthen (consputc (nat c))
       (bnd (gets in_e) (\<lambda>e.
       bnd (gets in_r) (\<lambda>r.
       whenever (c = 10 \<or> c = 4 \<or> e = r + INPUT_BUF)
         (andthen (upd (\<lambda>s. s\<lparr>in_w := in_e s\<rparr>)) (wakeup InputChan)))))))
     else ret ()))"

definition consoleintr_char :: "int \<Rightarrow> ('z kcin_scheme, unit) kop" where
  "consoleintr_char c =
     (if c = 16 then procdump
      else if c = 21 then
        bnd (gets in_e) (\<lambda>e. bnd (gets in_w) (\<lambda>w. kill_line (unat (e - w) + 1)))
      else if c = 8 \<or> c = 127 then erase_char
      else store_char c)"

text \<open>The loop that takes characters from \<open>getc\<close>; the first argument bounds how many it has.\<close>

fun consoleintr_loop :: "nat \<Rightarrow> ('z kcin_scheme, int) kop \<Rightarrow> ('z kcin_scheme, unit) kop" where
  "consoleintr_loop 0 getc = fault ''consoleintr''"
| "consoleintr_loop (Suc n) getc =
     bnd getc (\<lambda>c.
     if c \<ge> 0 then andthen (consoleintr_char c) (consoleintr_loop n getc) else ret ())"

definition consoleintr :: "nat \<Rightarrow> ('z kcin_scheme, int) kop \<Rightarrow> ('z kcin_scheme, unit) kop" where
  "consoleintr n getc =
     andthen (acquire InputLock)
     (andthen (consoleintr_loop n getc)
     (release InputLock))"

definition kbd_getc :: "('z kcin_scheme, int) kop" where
  "kbd_getc =
     bnd (gets (\<lambda>s. kbdgetc (kbd_shift s) (kbd_port s))) (\<lambda>((shift, port), c).
     andthen (upd (\<lambda>s. s\<lparr>kbd_shift := shift, kbd_port := port\<rparr>)) (ret c))"

definition kbdintr :: "('z kcin_scheme, unit) kop" where
  "kbdintr = bnd (gets kbd_port) (\<lambda>port. consoleintr (length port + 1) kbd_getc)"

definition uartgetc :: "('z kcin_scheme, int) kop" where
  "uartgetc =
     bnd (gets uart) (\<lambda>u.
     bnd (gets uart_port) (\<lambda>port.
     if \<not> u then ret (-1)
     else
       case port of
         [] \<Rightarrow> ret (-1)
       | c # rest \<Rightarrow> andthen (upd (\<lambda>s. s\<lparr>uart_port := rest\<rparr>)) (ret (uint c))))"

definition uartintr :: "('z kcin_scheme, unit) kop" where
  "uartintr = bnd (gets uart_port) (\<lambda>port. consoleintr (length port + 1) uartgetc)"

end
