(* ===== verification/Fs.thy ===== *)
theory Fs
  imports Console_In
begin

text \<open>
  fs.c: the block allocator, the inode cache, the contents of inodes, directories and path names; with the
  device functions \<open>consoleread\<close> and \<open>consolewrite\<close> of console.c, which \<open>readi\<close> and \<open>writei\<close> call through
  \<open>devsw\<close>. A pointer to an inode is its index in \<open>icache.inode\<close>. What \<open>readi\<close> stores at \<open>dst\<close> is the list of
  bytes it returns, and \<open>writei\<close> gets the bytes at \<open>src\<close>.
\<close>

section \<open>The state\<close>

definition NINODE :: nat where "NINODE = 50"
definition NDEV :: nat where "NDEV = 10"
definition NDIRECT :: nat where "NDIRECT = 12"
definition NINDIRECT :: nat where "NINDIRECT = 128"
definition MAXFILE :: nat where "MAXFILE = NDIRECT + NINDIRECT"
definition ROOTINO :: uint where "ROOTINO = 1"
definition IPB :: nat where "IPB = 8"
definition BPB :: nat where "BPB = BSIZE * 8"
definition DIRSIZ :: nat where "DIRSIZ = 14"
definition CONSOLE :: nat where "CONSOLE = 1"

definition T_DIR :: ushort where "T_DIR = 1"
definition T_FILE :: ushort where "T_FILE = 2"
definition T_DEV :: ushort where "T_DEV = 3"

definition IBLOCK :: "uint \<Rightarrow> uint" where
  "IBLOCK i = i div of_nat IPB + 2"

definition BBLOCK :: "uint \<Rightarrow> uint \<Rightarrow> uint" where
  "BBLOCK b ninodes = b div of_nat BPB + ninodes div of_nat IPB + 3"

record inode =
  i_dev :: uint
  i_inum :: uint
  i_ref :: int
  i_busy :: bool
  i_valid :: bool
  i_type :: ushort
  i_major :: ushort
  i_minor :: ushort
  i_nlink :: ushort
  i_size :: uint
  i_addrs :: "uint list"

text \<open>The functions a device entry can hold: \<open>consoleread\<close> and \<open>consolewrite\<close> are the only ones.\<close>

datatype devfn = ConsoleDev

record kfs = kcin +
  icache :: "inode list"
  devsw_read :: "devfn option list"
  devsw_write :: "devfn option list"

definition inode_get :: "nat \<Rightarrow> ('z kfs_scheme, inode) kop" where
  "inode_get ip = bnd (gets icache) (\<lambda>is. if ip < length is then ret (is ! ip) else fault ''inode'')"

definition inode_set :: "nat \<Rightarrow> (inode \<Rightarrow> inode) \<Rightarrow> ('z kfs_scheme, unit) kop" where
  "inode_set ip f = bnd (gets icache) (\<lambda>is.
     if ip < length is then upd (\<lambda>s. s\<lparr>icache := (icache s)[ip := f (icache s ! ip)]\<rparr>) else fault ''inode'')"

definition addrs_set :: "nat \<Rightarrow> nat \<Rightarrow> uint \<Rightarrow> ('z kfs_scheme, unit) kop" where
  "addrs_set ip i a = inode_set ip (\<lambda>r. r\<lparr>i_addrs := (i_addrs r)[i := a]\<rparr>)"

text \<open>The kernel writes to \<open>bp->data\<close>.\<close>

definition bufdata :: "nat \<Rightarrow> (uchar list \<Rightarrow> uchar list) \<Rightarrow> ('z kbio_scheme, unit) kop" where
  "bufdata bp f = bufset bp (\<lambda>r. r\<lparr>b_data := f (b_data r)\<rparr>)"

text \<open>\<open>memmove(d + off, bs, length of bs)\<close> inside a block.\<close>

definition splice :: "uchar list \<Rightarrow> nat \<Rightarrow> uchar list \<Rightarrow> uchar list" where
  "splice d off bs = take off d @ bs @ drop (off + length bs) d"

section \<open>Blocks\<close>

definition bzero :: "uint \<Rightarrow> uint \<Rightarrow> ('z klog_scheme, unit) kop" where
  "bzero dev bno =
     bnd (bread dev bno) (\<lambda>bp.
     andthen (bufdata bp (\<lambda>d. replicate BSIZE 0))
     (andthen (log_write bp) (brelse bp)))"

definition bit_mask :: "nat \<Rightarrow> uchar" where
  "bit_mask bi = push_bit (bi mod 8) 1"

text \<open>The inner loop of \<open>balloc\<close>: the first clear bit of a bitmap block, below the end of the disk.\<close>

definition free_bit :: "uchar list \<Rightarrow> nat \<Rightarrow> nat \<Rightarrow> nat option" where
  "free_bit d b nblk = find (\<lambda>bi. d ! (bi div 8) AND bit_mask bi = 0) [0..<min BPB (nblk - b)]"

definition mark_bit :: "nat \<Rightarrow> uchar list \<Rightarrow> uchar list" where
  "mark_bit bi d = d[bi div 8 := d ! (bi div 8) OR bit_mask bi]"

definition clear_bit :: "nat \<Rightarrow> uchar list \<Rightarrow> uchar list" where
  "clear_bit bi d = d[bi div 8 := d ! (bi div 8) AND NOT (bit_mask bi)]"

fun balloc_scan :: "uint \<Rightarrow> superblock \<Rightarrow> nat list \<Rightarrow> ('z klog_scheme, uint) kop" where
  "balloc_scan dev sb [] = panic ''balloc: out of blocks''"
| "balloc_scan dev sb (b # bs) =
     bnd (bread dev (BBLOCK (of_nat b) (sb_ninodes sb))) (\<lambda>bp.
     bnd (bufget bp) (\<lambda>r.
     case free_bit (b_data r) b (unat (sb_size sb)) of
       Some bi \<Rightarrow>
         andthen (bufdata bp (mark_bit bi))
         (andthen (log_write bp)
         (andthen (brelse bp)
         (andthen (bzero dev (of_nat (b + bi)))
         (ret (of_nat (b + bi))))))
     | None \<Rightarrow> andthen (brelse bp) (balloc_scan dev sb bs)))"

definition balloc :: "uint \<Rightarrow> ('z klog_scheme, uint) kop" where
  "balloc dev =
     bnd (readsb dev) (\<lambda>sb.
     balloc_scan dev sb (map (\<lambda>k. k * BPB) [0..<(unat (sb_size sb) + BPB - 1) div BPB]))"

definition bfree :: "uint \<Rightarrow> uint \<Rightarrow> ('z klog_scheme, unit) kop" where
  "bfree dev b =
     bnd (readsb dev) (\<lambda>sb.
     bnd (bread dev (BBLOCK b (sb_ninodes sb))) (\<lambda>bp.
     let bi = unat b mod BPB in
     bnd (bufget bp) (\<lambda>r.
     if b_data r ! (bi div 8) AND bit_mask bi = 0 then panic ''freeing free block''
     else
       andthen (bufdata bp (clear_bit bi))
       (andthen (log_write bp) (brelse bp)))))"

section \<open>Inodes\<close>

text \<open>\<open>struct dinode\<close>: the fields of entry \<open>k\<close> of a block of inodes.\<close>

definition dinode_at :: "uint \<Rightarrow> nat" where
  "dinode_at inum = 64 * (unat inum mod IPB)"

definition di_type :: "uchar list \<Rightarrow> uint \<Rightarrow> ushort" where
  "di_type d inum = get16 d (dinode_at inum)"

definition dinode_load :: "uchar list \<Rightarrow> uint \<Rightarrow> inode \<Rightarrow> inode" where
  "dinode_load d inum r =
     (let k = dinode_at inum in
      r\<lparr>i_type := get16 d k, i_major := get16 d (k + 2), i_minor := get16 d (k + 4), i_nlink := get16 d (k + 6),
        i_size := get32 d (k + 8), i_addrs := map (\<lambda>i. get32 d (k + 12 + 4 * i)) [0..<NDIRECT + 1]\<rparr>)"

definition dinode_store :: "inode \<Rightarrow> uchar list \<Rightarrow> uchar list" where
  "dinode_store r d =
     (let k = dinode_at (i_inum r);
          d = put16 d k (i_type r);
          d = put16 d (k + 2) (i_major r);
          d = put16 d (k + 4) (i_minor r);
          d = put16 d (k + 6) (i_nlink r);
          d = put32 d (k + 8) (i_size r)
      in fold (\<lambda>i d. put32 d (k + 12 + 4 * i) (i_addrs r ! i)) [0..<NDIRECT + 1] d)"

definition iinit :: "('z kfs_scheme, unit) kop" where
  "iinit = initlock IcacheLock ''icache''"

definition iget :: "uint \<Rightarrow> uint \<Rightarrow> ('z kfs_scheme, nat) kop" where
  "iget dev inum =
     andthen (acquire IcacheLock)
     (bnd (gets icache) (\<lambda>is.
     case find (\<lambda>i. i_ref (is ! i) > 0 \<and> i_dev (is ! i) = dev \<and> i_inum (is ! i) = inum) [0..<NINODE] of
       Some ip \<Rightarrow>
         andthen (inode_set ip (\<lambda>r. r\<lparr>i_ref := i_ref r + 1\<rparr>))
         (andthen (release IcacheLock) (ret ip))
     | None \<Rightarrow>
         (case find (\<lambda>i. i_ref (is ! i) = 0) [0..<NINODE] of
            None \<Rightarrow> panic ''iget: no inodes''
          | Some ip \<Rightarrow>
              andthen (inode_set ip (\<lambda>r. r\<lparr>i_dev := dev, i_inum := inum, i_ref := 1, i_busy := False, i_valid := False\<rparr>))
              (andthen (release IcacheLock) (ret ip)))))"

fun ialloc_scan :: "uint \<Rightarrow> ushort \<Rightarrow> nat list \<Rightarrow> ('z kfs_scheme, nat) kop" where
  "ialloc_scan dev type [] = panic ''ialloc: no inodes''"
| "ialloc_scan dev type (inum # rest) =
     bnd (bread dev (IBLOCK (of_nat inum))) (\<lambda>bp.
     bnd (bufget bp) (\<lambda>r.
     if di_type (b_data r) (of_nat inum) = 0 then
       andthen (bufdata bp (\<lambda>d. splice d (dinode_at (of_nat inum)) (replicate 64 0)))
       (andthen (bufdata bp (\<lambda>d. put16 d (dinode_at (of_nat inum)) type))
       (andthen (log_write bp)
       (andthen (brelse bp)
       (iget dev (of_nat inum)))))
     else andthen (brelse bp) (ialloc_scan dev type rest)))"

definition ialloc :: "uint \<Rightarrow> ushort \<Rightarrow> ('z kfs_scheme, nat) kop" where
  "ialloc dev type = bnd (readsb dev) (\<lambda>sb. ialloc_scan dev type [1..<unat (sb_ninodes sb)])"

definition iupdate :: "nat \<Rightarrow> ('z kfs_scheme, unit) kop" where
  "iupdate ip =
     bnd (inode_get ip) (\<lambda>r.
     bnd (bread (i_dev r) (IBLOCK (i_inum r))) (\<lambda>bp.
     andthen (bufdata bp (dinode_store r))
     (andthen (log_write bp) (brelse bp))))"

definition idup :: "nat \<Rightarrow> ('z kfs_scheme, nat) kop" where
  "idup ip =
     andthen (acquire IcacheLock)
     (andthen (inode_set ip (\<lambda>r. r\<lparr>i_ref := i_ref r + 1\<rparr>))
     (andthen (release IcacheLock) (ret ip)))"

text \<open>\<open>ilock\<close> from its wait on; a process that slept starts here again.\<close>

definition ilock_wait :: "nat \<Rightarrow> ('z kfs_scheme, unit) kop" where
  "ilock_wait ip =
     bnd (inode_get ip) (\<lambda>r.
     if i_busy r then sleep (InodeChan ip) (Some IcacheLock)
     else
       andthen (inode_set ip (\<lambda>r. r\<lparr>i_busy := True\<rparr>))
       (andthen (release IcacheLock)
       (bnd (inode_get ip) (\<lambda>r.
       if i_valid r then ret ()
       else
         bnd (bread (i_dev r) (IBLOCK (i_inum r))) (\<lambda>bp.
         bnd (bufget bp) (\<lambda>q.
         andthen (inode_set ip (dinode_load (b_data q) (i_inum r)))
         (andthen (brelse bp)
         (andthen (inode_set ip (\<lambda>r. r\<lparr>i_valid := True\<rparr>))
         (bnd (inode_get ip) (\<lambda>r.
         if i_type r = 0 then panic ''ilock: no type'' else ret ()))))))))))"

definition ilock :: "nat \<Rightarrow> ('z kfs_scheme, unit) kop" where
  "ilock ip =
     bnd (inode_get ip) (\<lambda>r.
     if i_ref r < 1 then panic ''ilock''
     else andthen (acquire IcacheLock) (ilock_wait ip))"

definition iunlock :: "nat \<Rightarrow> ('z kfs_scheme, unit) kop" where
  "iunlock ip =
     bnd (inode_get ip) (\<lambda>r.
     if \<not> i_busy r \<or> i_ref r < 1 then panic ''iunlock''
     else
       andthen (acquire IcacheLock)
       (andthen (inode_set ip (\<lambda>r. r\<lparr>i_busy := False\<rparr>))
       (andthen (wakeup (InodeChan ip))
       (release IcacheLock))))"

section \<open>The contents of an inode\<close>

text \<open>The \<open>uint\<close> entries of an indirect block.\<close>

definition bmap :: "nat \<Rightarrow> nat \<Rightarrow> ('z kfs_scheme, uint) kop" where
  "bmap ip bn =
     bnd (inode_get ip) (\<lambda>r.
     if bn < NDIRECT then
       if i_addrs r ! bn = 0 then
         bnd (balloc (i_dev r)) (\<lambda>addr. andthen (addrs_set ip bn addr) (ret addr))
       else ret (i_addrs r ! bn)
     else if bn - NDIRECT < NINDIRECT then
       let bn = bn - NDIRECT in
       bnd (if i_addrs r ! NDIRECT = 0
            then bnd (balloc (i_dev r)) (\<lambda>addr. andthen (addrs_set ip NDIRECT addr) (ret addr))
            else ret (i_addrs r ! NDIRECT)) (\<lambda>addr.
       bnd (bread (i_dev r) addr) (\<lambda>bp.
       bnd (bufget bp) (\<lambda>q.
       bnd (if get32 (b_data q) (4 * bn) = 0
            then
              bnd (balloc (i_dev r)) (\<lambda>addr.
              andthen (bufdata bp (\<lambda>d. put32 d (4 * bn) addr))
              (andthen (log_write bp) (ret addr)))
            else ret (get32 (b_data q) (4 * bn))) (\<lambda>addr.
       andthen (brelse bp) (ret addr)))))
     else panic ''bmap: out of range'')"

definition itrunc :: "nat \<Rightarrow> ('z kfs_scheme, unit) kop" where
  "itrunc ip =
     andthen
       (for_each [0..<NDIRECT] (\<lambda>i.
          bnd (inode_get ip) (\<lambda>r.
          whenever (i_addrs r ! i \<noteq> 0)
            (andthen (bfree (i_dev r) (i_addrs r ! i)) (addrs_set ip i 0)))))
     (bnd (inode_get ip) (\<lambda>r.
     andthen
       (whenever (i_addrs r ! NDIRECT \<noteq> 0)
         (bnd (bread (i_dev r) (i_addrs r ! NDIRECT)) (\<lambda>bp.
         bnd (bufget bp) (\<lambda>q.
         andthen
           (for_each [0..<NINDIRECT] (\<lambda>j.
              whenever (get32 (b_data q) (4 * j) \<noteq> 0) (bfree (i_dev r) (get32 (b_data q) (4 * j)))))
         (andthen (brelse bp)
         (andthen (bfree (i_dev r) (i_addrs r ! NDIRECT))
         (addrs_set ip NDIRECT 0)))))))
     (andthen (inode_set ip (\<lambda>r. r\<lparr>i_size := 0\<rparr>))
     (iupdate ip))))"

definition iput :: "nat \<Rightarrow> ('z kfs_scheme, unit) kop" where
  "iput ip =
     andthen (acquire IcacheLock)
     (bnd (inode_get ip) (\<lambda>r.
     andthen
       (whenever (i_ref r = 1 \<and> i_valid r \<and> i_nlink r = 0)
         (if i_busy r then panic ''iput busy''
          else
            andthen (inode_set ip (\<lambda>r. r\<lparr>i_busy := True\<rparr>))
            (andthen (release IcacheLock)
            (andthen (itrunc ip)
            (andthen (inode_set ip (\<lambda>r. r\<lparr>i_type := 0\<rparr>))
            (andthen (iupdate ip)
            (andthen (acquire IcacheLock)
            (andthen (inode_set ip (\<lambda>r. r\<lparr>i_busy := False, i_valid := False\<rparr>))
            (wakeup (InodeChan ip))))))))))
     (andthen (inode_set ip (\<lambda>r. r\<lparr>i_ref := i_ref r - 1\<rparr>))
     (release IcacheLock))))"

definition iunlockput :: "nat \<Rightarrow> ('z kfs_scheme, unit) kop" where
  "iunlockput ip = andthen (iunlock ip) (iput ip)"

record stat =
  st_type :: ushort
  st_dev :: uint
  st_ino :: uint
  st_nlink :: ushort
  st_size :: uint

definition stati :: "nat \<Rightarrow> ('z kfs_scheme, stat) kop" where
  "stati ip =
     bnd (inode_get ip) (\<lambda>r.
     ret \<lparr>st_type = i_type r, st_dev = i_dev r, st_ino = i_inum r, st_nlink = i_nlink r, st_size = i_size r\<rparr>)"

section \<open>The console as a device\<close>

text \<open>
  The loop of \<open>consoleread\<close> with \<open>n\<close> characters still to read and those read so far; a process that slept
  starts here again. The result is what \<open>consoleread\<close> returns and the bytes it has stored by then: a killed reader gets -1.
\<close>

fun consoleread_loop :: "nat \<Rightarrow> uchar list \<Rightarrow> ('z kfs_scheme, int \<times> uchar list) kop" where
  "consoleread_loop 0 acc = ret (int (length acc), acc)"
| "consoleread_loop (Suc n) acc =
     bnd (gets in_r) (\<lambda>r.
     bnd (gets in_w) (\<lambda>w.
     if r = w then
       bnd myproc (\<lambda>p.
       bnd (pget p) (\<lambda>q.
       if p_killed q then ret (-1, acc) else sleep InputChan (Some InputLock)))
     else
       bnd (in_get r) (\<lambda>c.
       andthen (upd (\<lambda>s. s\<lparr>in_r := r + 1\<rparr>))
       (if c = 4 then
          andthen (whenever (acc \<noteq> []) (upd (\<lambda>s. s\<lparr>in_r := r\<rparr>))) (ret (int (length acc), acc))
        else if c = 0x0A then ret (int (length (acc @ [c])), acc @ [c])
        else consoleread_loop n (acc @ [c])))))"

text \<open>What follows the loop, and a process that slept in it when it is done.\<close>

definition consoleread_end :: "nat \<Rightarrow> int \<times> uchar list \<Rightarrow> ('z kfs_scheme, int \<times> uchar list) kop" where
  "consoleread_end ip r =
     andthen (release InputLock)
     (andthen (ilock ip)
     (ret r))"

definition consoleread :: "nat \<Rightarrow> int \<Rightarrow> ('z kfs_scheme, int \<times> uchar list) kop" where
  "consoleread ip n =
     andthen (iunlock ip)
     (andthen (acquire InputLock)
     (bnd (consoleread_loop (nat n) [])
     (consoleread_end ip)))"

definition consolewrite :: "nat \<Rightarrow> uchar list \<Rightarrow> int \<Rightarrow> ('z kfs_scheme, int) kop" where
  "consolewrite ip buf n =
     andthen (iunlock ip)
     (andthen (acquire ConsLock)
     (andthen (for_each (take (nat n) buf) (\<lambda>c. consputc (unat c)))
     (andthen (release ConsLock)
     (andthen (ilock ip)
     (ret n)))))"

definition consoleinit :: "('z kfs_scheme, unit) kop" where
  "consoleinit =
     andthen (initlock ConsLock ''console'')
     (andthen (initlock InputLock ''input'')
     (andthen (upd (\<lambda>s. s\<lparr>devsw_write := (devsw_write s)[CONSOLE := Some ConsoleDev]\<rparr>))
     (andthen (upd (\<lambda>s. s\<lparr>devsw_read := (devsw_read s)[CONSOLE := Some ConsoleDev]\<rparr>))
     (upd (\<lambda>s. s\<lparr>con_locking := True\<rparr>)))))"

section \<open>Reading and writing\<close>

text \<open>An entry of \<open>devsw\<close> for a major device number, if there is one.\<close>

definition dev_entry :: "devfn option list \<Rightarrow> ushort \<Rightarrow> devfn option" where
  "dev_entry tab major =
     (if sint major < 0 \<or> sint major \<ge> int NDEV then None else tab ! unat major)"

text \<open>The bytes one turn of the loops of \<open>readi\<close> and \<open>writei\<close> moves.\<close>

definition chunk :: "nat \<Rightarrow> nat \<Rightarrow> nat" where
  "chunk off n = min n (BSIZE - off mod BSIZE)"

lemma chunk_positive: "0 < n \<Longrightarrow> 0 < chunk off n"
  by (simp add: chunk_def BSIZE_def)

function readi_loop :: "nat \<Rightarrow> nat \<Rightarrow> nat \<Rightarrow> ('z kfs_scheme, uchar list) kop" where
  "readi_loop ip off n =
     (if n = 0 then ret []
      else
        bnd (inode_get ip) (\<lambda>r.
        bnd (bmap ip (off div BSIZE)) (\<lambda>addr.
        bnd (bread (i_dev r) addr) (\<lambda>bp.
        bnd (bufget bp) (\<lambda>q.
        andthen (brelse bp)
        (bnd (readi_loop ip (off + chunk off n) (n - chunk off n)) (\<lambda>rest.
        ret (take (chunk off n) (drop (off mod BSIZE) (b_data q)) @ rest))))))))"
  by pat_completeness auto

termination readi_loop
  by (relation "measure (\<lambda>(ip, off, n). n)") (simp_all add: chunk_positive)

declare readi_loop.simps [simp del]

definition readi :: "nat \<Rightarrow> uint \<Rightarrow> uint \<Rightarrow> ('z kfs_scheme, int \<times> uchar list) kop" where
  "readi ip off n =
     bnd (inode_get ip) (\<lambda>r.
     if i_type r = T_DEV then
       bnd (gets devsw_read) (\<lambda>tab.
       case dev_entry tab (i_major r) of
         None \<Rightarrow> ret (-1, [])
       | Some ConsoleDev \<Rightarrow> consoleread ip (sint n))
     else if off > i_size r \<or> off + n < off then ret (-1, [])
     else
       let n = (if off + n > i_size r then i_size r - off else n) in
       bnd (readi_loop ip (unat off) (unat n)) (\<lambda>bs. ret (sint n, bs)))"

function writei_loop :: "nat \<Rightarrow> uchar list \<Rightarrow> nat \<Rightarrow> nat \<Rightarrow> ('z kfs_scheme, unit) kop" where
  "writei_loop ip src off n =
     (if n = 0 then ret ()
      else
        bnd (inode_get ip) (\<lambda>r.
        bnd (bmap ip (off div BSIZE)) (\<lambda>addr.
        bnd (bread (i_dev r) addr) (\<lambda>bp.
        andthen (bufdata bp (\<lambda>d. splice d (off mod BSIZE) (take (chunk off n) src)))
        (andthen (log_write bp)
        (andthen (brelse bp)
        (writei_loop ip (drop (chunk off n) src) (off + chunk off n) (n - chunk off n))))))))"
  by pat_completeness auto

termination writei_loop
  by (relation "measure (\<lambda>(ip, src, off, n). n)") (simp_all add: chunk_positive)

declare writei_loop.simps [simp del]

definition writei :: "nat \<Rightarrow> uchar list \<Rightarrow> uint \<Rightarrow> uint \<Rightarrow> ('z kfs_scheme, int) kop" where
  "writei ip src off n =
     bnd (inode_get ip) (\<lambda>r.
     if i_type r = T_DEV then
       bnd (gets devsw_write) (\<lambda>tab.
       case dev_entry tab (i_major r) of
         None \<Rightarrow> ret (-1)
       | Some ConsoleDev \<Rightarrow> consolewrite ip src (sint n))
     else if off > i_size r \<or> off + n < off then ret (-1)
     else if off + n > of_nat (MAXFILE * BSIZE) then ret (-1)
     else
       andthen (writei_loop ip src (unat off) (unat n))
       (bnd (inode_get ip) (\<lambda>r.
       andthen
         (whenever (n > 0 \<and> off + n > i_size r)
           (andthen (inode_set ip (\<lambda>r. r\<lparr>i_size := off + n\<rparr>)) (iupdate ip)))
       (ret (sint n)))))"

section \<open>Directories\<close>

text \<open>A C string as a list of characters reads as zero past its end.\<close>

definition at0 :: "string \<Rightarrow> char" where
  "at0 p = (case p of [] \<Rightarrow> CHR 0x00 | c # _ \<Rightarrow> c)"

fun strncmp_s :: "nat \<Rightarrow> string \<Rightarrow> string \<Rightarrow> int" where
  "strncmp_s 0 p q = 0"
| "strncmp_s (Suc n) p q =
     (if at0 p \<noteq> CHR 0x00 \<and> at0 p = at0 q then strncmp_s n (tl p) (tl q)
      else of_char (at0 p) - of_char (at0 q))"

definition namecmp :: "string \<Rightarrow> string \<Rightarrow> int" where
  "namecmp s t = strncmp_s DIRSIZ s t"

text \<open>\<open>struct dirent\<close>: an inode number and \<open>DIRSIZ\<close> characters.\<close>

definition DIRENT :: nat where "DIRENT = 2 + DIRSIZ"

definition de_inum :: "uchar list \<Rightarrow> ushort" where
  "de_inum d = get16 d 0"

definition de_name :: "uchar list \<Rightarrow> string" where
  "de_name d = map (\<lambda>b. char_of (unat b)) (take DIRSIZ (drop 2 d))"

text \<open>\<open>strncpy(de.name, name, DIRSIZ); de.inum = inum\<close>.\<close>

definition dirent_of :: "string \<Rightarrow> ushort \<Rightarrow> uchar list" where
  "dirent_of name inum =
     put16 [0, 0] 0 inum @
     map (\<lambda>c. of_nat (of_char c)) (take DIRSIZ (takeWhile (\<lambda>c. c \<noteq> CHR 0x00) name @ replicate DIRSIZ (CHR 0x00)))"

fun dirlookup_scan :: "nat \<Rightarrow> string \<Rightarrow> nat list \<Rightarrow> ('z kfs_scheme, (nat \<times> nat) option) kop" where
  "dirlookup_scan dp name [] = ret None"
| "dirlookup_scan dp name (off # offs) =
     bnd (readi dp (of_nat off) (of_nat DIRENT)) (\<lambda>(n, de).
     if n \<noteq> int DIRENT then panic ''dirlink read''
     else if de_inum de = 0 then dirlookup_scan dp name offs
     else if namecmp name (de_name de) = 0 then
       bnd (inode_get dp) (\<lambda>r.
       bnd (iget (i_dev r) (ucast (de_inum de))) (\<lambda>ip. ret (Some (ip, off))))
     else dirlookup_scan dp name offs)"

text \<open>The offsets a scan of a directory visits.\<close>

definition dir_offsets :: "uint \<Rightarrow> nat list" where
  "dir_offsets sz = map (\<lambda>k. k * DIRENT) [0..<(unat sz + DIRENT - 1) div DIRENT]"

text \<open>The result is the inode and the offset of its entry.\<close>

definition dirlookup :: "nat \<Rightarrow> string \<Rightarrow> ('z kfs_scheme, (nat \<times> nat) option) kop" where
  "dirlookup dp name =
     bnd (inode_get dp) (\<lambda>r.
     if i_type r \<noteq> T_DIR then panic ''dirlookup not DIR''
     else dirlookup_scan dp name (dir_offsets (i_size r)))"

text \<open>The loop of \<open>dirlink\<close> that looks for an empty entry, or the end.\<close>

fun dirlink_scan :: "nat \<Rightarrow> nat \<Rightarrow> nat list \<Rightarrow> ('z kfs_scheme, nat) kop" where
  "dirlink_scan dp end [] = ret end"
| "dirlink_scan dp end (off # offs) =
     bnd (readi dp (of_nat off) (of_nat DIRENT)) (\<lambda>(n, de).
     if n \<noteq> int DIRENT then panic ''dirlink read''
     else if de_inum de = 0 then ret off
     else dirlink_scan dp (off + DIRENT) offs)"

definition dirlink :: "nat \<Rightarrow> string \<Rightarrow> uint \<Rightarrow> ('z kfs_scheme, int) kop" where
  "dirlink dp name inum =
     bnd (dirlookup dp name) (\<lambda>found.
     case found of
       Some (ip, _) \<Rightarrow> andthen (iput ip) (ret (-1))
     | None \<Rightarrow>
         bnd (inode_get dp) (\<lambda>r.
         bnd (dirlink_scan dp 0 (dir_offsets (i_size r))) (\<lambda>off.
         bnd (writei dp (dirent_of name (ucast inum)) (of_nat off) (of_nat DIRENT)) (\<lambda>n.
         if n \<noteq> int DIRENT then panic ''dirlink'' else ret 0))))"

section \<open>Path names\<close>

text \<open>The result is the rest of the path and the element, cut to \<open>DIRSIZ\<close> characters.\<close>

definition skipelem :: "string \<Rightarrow> (string \<times> string) option" where
  "skipelem path =
     (let path = dropWhile (\<lambda>c. c = CHR ''/'') path in
      if path = [] then None
      else Some (dropWhile (\<lambda>c. c = CHR ''/'') (dropWhile (\<lambda>c. c \<noteq> CHR ''/'') path),
        take DIRSIZ (takeWhile (\<lambda>c. c \<noteq> CHR ''/'') path)))"

lemma skipelem_shorter: "skipelem path = Some (rest, name) \<Longrightarrow> length rest < length path"
proof -
  assume "skipelem path = Some (rest, name)"
  then obtain c cs where p: "dropWhile (\<lambda>c. c = CHR ''/'') path = c # cs" and "c \<noteq> CHR ''/''"
    and r: "rest = dropWhile (\<lambda>c. c = CHR ''/'') (dropWhile (\<lambda>c. c \<noteq> CHR ''/'') (c # cs))"
    by (cases "dropWhile (\<lambda>c. c = CHR ''/'') path") (auto simp: skipelem_def dropWhile_eq_Cons_conv)
  then have "length rest \<le> length cs"
    using order.trans [OF length_dropWhile_le length_dropWhile_le] by simp
  also have "\<dots> < length path" using length_dropWhile_le [of "\<lambda>c. c = CHR ''/''" path] p by simp
  finally show ?thesis .
qed

function namex_loop :: "string \<Rightarrow> bool \<Rightarrow> string \<Rightarrow> nat \<Rightarrow> ('z kfs_scheme, (nat \<times> string) option) kop" where
  "namex_loop path nameiparent name ip =
     (case skipelem path of
        None \<Rightarrow>
          if nameiparent then andthen (iput ip) (ret None) else ret (Some (ip, name))
      | Some (rest, elem) \<Rightarrow>
          andthen (ilock ip)
          (bnd (inode_get ip) (\<lambda>r.
          if i_type r \<noteq> T_DIR then andthen (iunlockput ip) (ret None)
          else if nameiparent \<and> rest = [] then andthen (iunlock ip) (ret (Some (ip, elem)))
          else
            bnd (dirlookup ip elem) (\<lambda>next.
            case next of
              None \<Rightarrow> andthen (iunlockput ip) (ret None)
            | Some (ip', _) \<Rightarrow>
                andthen (iunlockput ip) (namex_loop rest nameiparent elem ip')))))"
  by pat_completeness auto

termination namex_loop
  by (relation "measure (\<lambda>(path, _). length path)") (auto dest: skipelem_shorter)

declare namex_loop.simps [simp del]

definition namex :: "string \<Rightarrow> bool \<Rightarrow> ('z kfs_scheme, (nat \<times> string) option) kop" where
  "namex path nameiparent =
     bnd (if path \<noteq> [] \<and> hd path = CHR ''/'' then iget ROOTDEV ROOTINO
          else
            bnd myproc (\<lambda>p.
            bnd (pget p) (\<lambda>q.
            bnd (deref ''cwd'' (p_cwd q)) idup)))
     (namex_loop path nameiparent [])"

definition namei :: "string \<Rightarrow> ('z kfs_scheme, nat option) kop" where
  "namei path = bnd (namex path False) (\<lambda>r. ret (map_option fst r))"

definition nameiparent :: "string \<Rightarrow> ('z kfs_scheme, (nat \<times> string) option) kop" where
  "nameiparent path = namex path True"

end
