(* ===== verification/File.thy ===== *)
theory File
  imports Fs Vm_Map
begin

text \<open>
  file.c and pipe.c: the table of open files, the operations on them, and pipes. A pointer to a file is its index in
  \<open>ftable.file\<close>; a pipe is the address of its page, and \<open>pipes\<close> gives the structure there.
\<close>

section \<open>The state\<close>

definition NFILE :: nat where "NFILE = 100"
definition PIPESIZE :: uint where "PIPESIZE = 512"

datatype ftype = FD_NONE | FD_PIPE | FD_INODE

record file_t =
  f_type :: ftype
  f_ref :: int
  f_readable :: bool
  f_writable :: bool
  f_pipe :: uint
  f_ip :: nat
  f_off :: uint

record pipe =
  pi_data :: "uchar list"
  pi_nread :: uint
  pi_nwrite :: uint
  pi_readopen :: bool
  pi_writeopen :: bool

record kfile = kfs +
  ftable :: "file_t list"
  pipes :: "uint \<Rightarrow> pipe"

definition file_get :: "nat \<Rightarrow> ('z kfile_scheme, file_t) kop" where
  "file_get f = bnd (gets ftable) (\<lambda>fs. if f < length fs then ret (fs ! f) else fault ''file'')"

definition file_set :: "nat \<Rightarrow> (file_t \<Rightarrow> file_t) \<Rightarrow> ('z kfile_scheme, unit) kop" where
  "file_set f g = bnd (gets ftable) (\<lambda>fs.
     if f < length fs then upd (\<lambda>s. s\<lparr>ftable := (ftable s)[f := g (ftable s ! f)]\<rparr>) else fault ''file'')"

definition pipe_get :: "uint \<Rightarrow> ('z kfile_scheme, pipe) kop" where
  "pipe_get p = gets (\<lambda>s. pipes s p)"

definition pipe_set :: "uint \<Rightarrow> (pipe \<Rightarrow> pipe) \<Rightarrow> ('z kfile_scheme, unit) kop" where
  "pipe_set p g = upd (\<lambda>s. s\<lparr>pipes := (pipes s)(p := g (pipes s p))\<rparr>)"

definition killed :: "('z kproc_scheme, bool) kop" where
  "killed = bnd myproc (\<lambda>p. bnd (pget p) (\<lambda>q. ret (p_killed q)))"

section \<open>Pipes\<close>

definition pipeclose :: "uint \<Rightarrow> bool \<Rightarrow> ('z kfile_scheme, unit) kop" where
  "pipeclose p writable =
     andthen (acquire (PipeLock p))
     (andthen
       (if writable
        then andthen (pipe_set p (\<lambda>q. q\<lparr>pi_writeopen := False\<rparr>)) (wakeup (PipeReadChan p))
        else andthen (pipe_set p (\<lambda>q. q\<lparr>pi_readopen := False\<rparr>)) (wakeup (PipeWriteChan p)))
     (bnd (pipe_get p) (\<lambda>q.
     if \<not> pi_readopen q \<and> \<not> pi_writeopen q
     then andthen (release (PipeLock p)) (kfree p)
     else release (PipeLock p))))"

text \<open>\<open>p->data[p->nwrite++ % PIPESIZE] = b\<close> and \<open>p->data[p->nread++ % PIPESIZE]\<close>.\<close>

definition pipe_put :: "uchar \<Rightarrow> pipe \<Rightarrow> pipe" where
  "pipe_put b q = q\<lparr>pi_data := (pi_data q)[unat (pi_nwrite q mod PIPESIZE) := b], pi_nwrite := pi_nwrite q + 1\<rparr>"

definition pipe_take :: "pipe \<Rightarrow> uchar \<times> pipe" where
  "pipe_take q = (pi_data q ! unat (pi_nread q mod PIPESIZE), q\<lparr>pi_nread := pi_nread q + 1\<rparr>)"

text \<open>
  The loop of \<open>pipewrite\<close> over the bytes still to write; the result is False when the reader is gone. A process
  that slept starts here again with the bytes it had left.
\<close>

fun pipewrite_loop :: "uint \<Rightarrow> uchar list \<Rightarrow> ('z kfile_scheme, bool) kop" where
  "pipewrite_loop p [] = ret True"
| "pipewrite_loop p (b # bs) =
     bnd (pipe_get p) (\<lambda>q.
     if pi_nwrite q = pi_nread q + PIPESIZE then
       bnd killed (\<lambda>k.
       if \<not> pi_readopen q \<or> k then ret False
       else andthen (wakeup (PipeReadChan p)) (sleep (PipeWriteChan p) (Some (PipeLock p))))
     else andthen (pipe_set p (pipe_put b)) (pipewrite_loop p bs))"

definition pipewrite :: "uint \<Rightarrow> uchar list \<Rightarrow> int \<Rightarrow> ('z kfile_scheme, int) kop" where
  "pipewrite p bs n =
     andthen (acquire (PipeLock p))
     (bnd (pipewrite_loop p (take (nat n) bs)) (\<lambda>ok.
     if ok then andthen (wakeup (PipeReadChan p)) (andthen (release (PipeLock p)) (ret n))
     else andthen (release (PipeLock p)) (ret (-1))))"

text \<open>The wait of \<open>piperead\<close>; False when the process has been killed.\<close>

definition piperead_wait :: "uint \<Rightarrow> ('z kfile_scheme, bool) kop" where
  "piperead_wait p =
     bnd (pipe_get p) (\<lambda>q.
     if pi_nread q = pi_nwrite q \<and> pi_writeopen q then
       bnd killed (\<lambda>k. if k then ret False else sleep (PipeReadChan p) (Some (PipeLock p)))
     else ret True)"

fun piperead_copy :: "uint \<Rightarrow> nat \<Rightarrow> ('z kfile_scheme, uchar list) kop" where
  "piperead_copy p 0 = ret []"
| "piperead_copy p (Suc n) =
     bnd (pipe_get p) (\<lambda>q.
     if pi_nread q = pi_nwrite q then ret []
     else
       andthen (pipe_set p (\<lambda>q. snd (pipe_take q)))
       (bnd (piperead_copy p n) (\<lambda>bs. ret (fst (pipe_take q) # bs))))"

definition piperead_end :: "uint \<Rightarrow> int \<Rightarrow> bool \<Rightarrow> ('z kfile_scheme, int \<times> uchar list) kop" where
  "piperead_end p n ok =
     (if \<not> ok then andthen (release (PipeLock p)) (ret (-1, []))
      else
        bnd (piperead_copy p (nat n)) (\<lambda>bs.
        andthen (wakeup (PipeWriteChan p))
        (andthen (release (PipeLock p))
        (ret (int (length bs), bs)))))"

definition piperead :: "uint \<Rightarrow> int \<Rightarrow> ('z kfile_scheme, int \<times> uchar list) kop" where
  "piperead p n =
     andthen (acquire (PipeLock p))
     (bnd (piperead_wait p) (piperead_end p n))"

section \<open>Open files\<close>

definition fileinit :: "('z kfile_scheme, unit) kop" where
  "fileinit = initlock FtableLock ''ftable''"

definition filealloc :: "('z kfile_scheme, nat option) kop" where
  "filealloc =
     andthen (acquire FtableLock)
     (bnd (gets ftable) (\<lambda>fs.
     case find (\<lambda>f. f_ref (fs ! f) = 0) [0..<NFILE] of
       Some f \<Rightarrow>
         andthen (file_set f (\<lambda>r. r\<lparr>f_ref := 1\<rparr>))
         (andthen (release FtableLock) (ret (Some f)))
     | None \<Rightarrow> andthen (release FtableLock) (ret None)))"

definition filedup :: "nat \<Rightarrow> ('z kfile_scheme, nat) kop" where
  "filedup f =
     andthen (acquire FtableLock)
     (bnd (file_get f) (\<lambda>r.
     if f_ref r < 1 then panic ''filedup''
     else
       andthen (file_set f (\<lambda>r. r\<lparr>f_ref := f_ref r + 1\<rparr>))
       (andthen (release FtableLock) (ret f))))"

definition fileclose :: "nat \<Rightarrow> ('z kfile_scheme, unit) kop" where
  "fileclose f =
     andthen (acquire FtableLock)
     (bnd (file_get f) (\<lambda>r.
     if f_ref r < 1 then panic ''fileclose''
     else
       andthen (file_set f (\<lambda>r. r\<lparr>f_ref := f_ref r - 1\<rparr>))
       (bnd (file_get f) (\<lambda>ff.
       if f_ref ff > 0 then release FtableLock
       else
         andthen (file_set f (\<lambda>r. r\<lparr>f_ref := 0, f_type := FD_NONE\<rparr>))
         (andthen (release FtableLock)
         (case f_type ff of
            FD_PIPE \<Rightarrow> pipeclose (f_pipe ff) (f_writable ff)
          | FD_INODE \<Rightarrow> andthen begin_trans (andthen (iput (f_ip ff)) commit_trans)
          | FD_NONE \<Rightarrow> ret ()))))))"

definition filestat :: "nat \<Rightarrow> ('z kfile_scheme, stat option) kop" where
  "filestat f =
     bnd (file_get f) (\<lambda>r.
     if f_type r = FD_INODE then
       andthen (ilock (f_ip r))
       (bnd (stati (f_ip r)) (\<lambda>st.
       andthen (iunlock (f_ip r)) (ret (Some st))))
     else ret None)"

definition fileread :: "nat \<Rightarrow> int \<Rightarrow> ('z kfile_scheme, int \<times> uchar list) kop" where
  "fileread f n =
     bnd (file_get f) (\<lambda>r.
     if \<not> f_readable r then ret (-1, [])
     else
       case f_type r of
         FD_PIPE \<Rightarrow> piperead (f_pipe r) n
       | FD_INODE \<Rightarrow>
           andthen (ilock (f_ip r))
           (bnd (readi (f_ip r) (f_off r) (word_of_int n)) (\<lambda>(m, bs).
           andthen (whenever (m > 0) (file_set f (\<lambda>r. r\<lparr>f_off := f_off r + word_of_int m\<rparr>)))
           (andthen (iunlock (f_ip r))
           (ret (m, bs)))))
       | FD_NONE \<Rightarrow> panic ''fileread'')"

text \<open>The most bytes one transaction of \<open>filewrite\<close> writes.\<close>

definition write_max :: nat where
  "write_max = ((LOGSIZE - 1 - 1 - 2) div 2) * 512"

function filewrite_loop :: "nat \<Rightarrow> uchar list \<Rightarrow> nat \<Rightarrow> nat \<Rightarrow> ('z kfile_scheme, nat) kop" where
  "filewrite_loop f bs i n =
     (if i < n then
        let n1 = min (n - i) write_max in
        bnd (file_get f) (\<lambda>r.
        andthen begin_trans
        (andthen (ilock (f_ip r))
        (bnd (file_get f) (\<lambda>r.
        bnd (writei (f_ip r) (take n1 (drop i bs)) (f_off r) (of_nat n1)) (\<lambda>m.
        andthen (whenever (m > 0) (file_set f (\<lambda>r. r\<lparr>f_off := f_off r + word_of_int m\<rparr>)))
        (andthen (iunlock (f_ip r))
        (andthen commit_trans
        (if m < 0 then ret i
         else if m \<noteq> int n1 then panic ''short filewrite''
         else filewrite_loop f bs (i + n1) n))))))))
      else ret i)"
  by pat_completeness auto

termination filewrite_loop
  by (relation "measure (\<lambda>(f, bs, i, n). n - i)") (auto simp: write_max_def LOGSIZE_def)

declare filewrite_loop.simps [simp del]

definition filewrite :: "nat \<Rightarrow> uchar list \<Rightarrow> int \<Rightarrow> ('z kfile_scheme, int) kop" where
  "filewrite f bs n =
     bnd (file_get f) (\<lambda>r.
     if \<not> f_writable r then ret (-1)
     else
       case f_type r of
         FD_PIPE \<Rightarrow> pipewrite (f_pipe r) bs n
       | FD_INODE \<Rightarrow>
           bnd (filewrite_loop f bs 0 (nat n)) (\<lambda>i. ret (if int i = n then n else -1))
       | FD_NONE \<Rightarrow> panic ''filewrite'')"

section \<open>Making a pipe\<close>

text \<open>The label \<open>bad\<close> of \<open>pipealloc\<close>, where the pipe's page has not been allocated.\<close>

definition pipealloc_bad :: "nat option \<Rightarrow> nat option \<Rightarrow> ('z kfile_scheme, (nat \<times> nat) option) kop" where
  "pipealloc_bad f0 f1 =
     andthen (case f0 of None \<Rightarrow> ret () | Some f \<Rightarrow> fileclose f)
     (andthen (case f1 of None \<Rightarrow> ret () | Some f \<Rightarrow> fileclose f)
     (ret None))"

definition pipealloc :: "('z kfile_scheme, (nat \<times> nat) option) kop" where
  "pipealloc =
     bnd filealloc (\<lambda>r0.
     case r0 of
       None \<Rightarrow> pipealloc_bad None None
     | Some f0 \<Rightarrow>
         bnd filealloc (\<lambda>r1.
         case r1 of
           None \<Rightarrow> pipealloc_bad (Some f0) None
         | Some f1 \<Rightarrow>
             bnd kalloc (\<lambda>p.
             if p = 0 then pipealloc_bad (Some f0) (Some f1)
             else
               andthen (pipe_set p (\<lambda>q. q\<lparr>pi_readopen := True, pi_writeopen := True, pi_nwrite := 0, pi_nread := 0\<rparr>))
               (andthen (initlock (PipeLock p) ''pipe'')
               (andthen (file_set f0 (\<lambda>r. r\<lparr>f_type := FD_PIPE, f_readable := True, f_writable := False, f_pipe := p\<rparr>))
               (andthen (file_set f1 (\<lambda>r. r\<lparr>f_type := FD_PIPE, f_readable := False, f_writable := True, f_pipe := p\<rparr>))
               (ret (Some (f0, f1)))))))))"

end
