(* ===== verification/Sysfile.thy ===== *)
theory Sysfile
  imports File
begin

text \<open>
  The arguments of system calls (syscall.c: \<open>fetchint\<close>, \<open>fetchstr\<close>, \<open>argint\<close>, \<open>argptr\<close>, \<open>argstr\<close>) and the
  file system calls of sysfile.c, apart from \<open>sys_exec\<close>. A failed fetch is \<open>None\<close>. User memory is reached
  through the page table of the running process; a kernel access to a page that is not mapped ends in
  \<open>panic("trap")\<close> (trap.c).
\<close>

section \<open>User memory\<close>

definition mypgdir :: "('z kproc_scheme, uint) kop" where
  "mypgdir = bnd myproc (\<lambda>p. bnd (pget p) (\<lambda>r. ret (p_pgdir r)))"

definition mysz :: "('z kproc_scheme, uint) kop" where
  "mysz = bnd myproc (\<lambda>p. bnd (pget p) (\<lambda>r. ret (p_sz r)))"

definition uload8 :: "uint \<Rightarrow> ('z kmem_scheme, uchar) kop" where
  "uload8 va =
     bnd mypgdir (\<lambda>pgdir.
     bnd (gets mem) (\<lambda>m.
     if present (ptes m pgdir va) then ret (m (user_byte m pgdir va)) else panic ''trap''))"

definition ustore8 :: "uint \<Rightarrow> uchar \<Rightarrow> ('z kmem_scheme, unit) kop" where
  "ustore8 va b =
     bnd mypgdir (\<lambda>pgdir.
     bnd (gets mem) (\<lambda>m.
     if present (ptes m pgdir va) \<and> ptes m pgdir va AND PTE_W \<noteq> 0
     then upd (\<lambda>s. s\<lparr>mem := (mem s)(user_byte m pgdir va := b)\<rparr>)
     else panic ''trap''))"

fun uload :: "uint \<Rightarrow> nat \<Rightarrow> ('z kmem_scheme, uchar list) kop" where
  "uload va 0 = ret []"
| "uload va (Suc n) = bnd (uload8 va) (\<lambda>b. bnd (uload (va + 1) n) (\<lambda>bs. ret (b # bs)))"

fun ustore :: "uint \<Rightarrow> uchar list \<Rightarrow> ('z kmem_scheme, unit) kop" where
  "ustore va [] = ret ()"
| "ustore va (b # bs) = andthen (ustore8 va b) (ustore (va + 1) bs)"

section \<open>The arguments of a system call\<close>

definition fetchint :: "uint \<Rightarrow> ('z kmem_scheme, uint option) kop" where
  "fetchint addr =
     bnd mysz (\<lambda>sz.
     if addr \<ge> sz \<or> addr + 4 > sz then ret None
     else bnd (uload addr 4) (\<lambda>bs. ret (Some (get32 bs 0))))"

text \<open>The bytes from \<open>s\<close> up to the end of the process's memory, until one is zero.\<close>

fun fetchstr_loop :: "nat \<Rightarrow> uint \<Rightarrow> ('z kmem_scheme, string option) kop" where
  "fetchstr_loop 0 s = ret None"
| "fetchstr_loop (Suc n) s =
     bnd (uload8 s) (\<lambda>b.
     if b = 0 then ret (Some [])
     else bnd (fetchstr_loop n (s + 1)) (\<lambda>r. ret (map_option (\<lambda>cs. char_of (unat b) # cs) r)))"

definition fetchstr :: "uint \<Rightarrow> ('z kmem_scheme, string option) kop" where
  "fetchstr addr =
     bnd mysz (\<lambda>sz.
     if addr \<ge> sz then ret None else fetchstr_loop (unat (sz - addr)) addr)"

definition argint :: "nat \<Rightarrow> ('z kmem_scheme, uint option) kop" where
  "argint n =
     bnd myproc (\<lambda>p. bnd (pget p) (\<lambda>r. fetchint (tf_esp (p_tf r) + 4 + 4 * of_nat n)))"

definition argptr :: "nat \<Rightarrow> int \<Rightarrow> ('z kmem_scheme, uint option) kop" where
  "argptr n sze =
     bnd (argint n) (\<lambda>r.
     case r of
       None \<Rightarrow> ret None
     | Some i \<Rightarrow>
         bnd mysz (\<lambda>sz.
         if i \<ge> sz \<or> i + word_of_int sze > sz then ret None else ret (Some i)))"

definition argstr :: "nat \<Rightarrow> ('z kmem_scheme, string option) kop" where
  "argstr n =
     bnd (argint n) (\<lambda>r. case r of None \<Rightarrow> ret None | Some addr \<Rightarrow> fetchstr addr)"

section \<open>File descriptors\<close>

text \<open>The result is the descriptor and the file.\<close>

definition argfd :: "nat \<Rightarrow> ('z kfile_scheme, (nat \<times> nat) option) kop" where
  "argfd n =
     bnd (argint n) (\<lambda>r.
     case r of
       None \<Rightarrow> ret None
     | Some w \<Rightarrow>
         if sint w < 0 \<or> sint w \<ge> int NOFILE then ret None
         else
           bnd myproc (\<lambda>p.
           bnd (pget p) (\<lambda>q.
           ret (map_option (\<lambda>f. (unat w, f)) (p_ofile q ! unat w)))))"

definition ofile_set :: "nat \<Rightarrow> nat option \<Rightarrow> ('z kproc_scheme, unit) kop" where
  "ofile_set fd f = bnd myproc (\<lambda>p. pset p (\<lambda>r. r\<lparr>p_ofile := (p_ofile r)[fd := f]\<rparr>))"

definition fdalloc :: "nat \<Rightarrow> ('z kproc_scheme, int) kop" where
  "fdalloc f =
     bnd myproc (\<lambda>p.
     bnd (pget p) (\<lambda>q.
     case find (\<lambda>fd. p_ofile q ! fd = None) [0..<NOFILE] of
       Some fd \<Rightarrow> andthen (ofile_set fd (Some f)) (ret (int fd))
     | None \<Rightarrow> ret (-1)))"

definition sys_dup :: "('z kfile_scheme, int) kop" where
  "sys_dup =
     bnd (argfd 0) (\<lambda>r.
     case r of
       None \<Rightarrow> ret (-1)
     | Some (_, f) \<Rightarrow>
         bnd (fdalloc f) (\<lambda>fd.
         if fd < 0 then ret (-1)
         else andthen (filedup f) (ret fd)))"

text \<open>The arguments of \<open>read\<close> and \<open>write\<close>: the file, the count and the address.\<close>

definition rw_args :: "('z kfile_scheme, (nat \<times> int \<times> uint) option) kop" where
  "rw_args =
     bnd (argfd 0) (\<lambda>r.
     case r of
       None \<Rightarrow> ret None
     | Some (_, f) \<Rightarrow>
         bnd (argint 2) (\<lambda>r.
         case r of
           None \<Rightarrow> ret None
         | Some w \<Rightarrow>
             bnd (argptr 1 (sint w)) (\<lambda>r. ret (map_option (\<lambda>p. (f, sint w, p)) r))))"

definition sys_read :: "('z kfile_scheme, int) kop" where
  "sys_read =
     bnd rw_args (\<lambda>r.
     case r of
       None \<Rightarrow> ret (-1)
     | Some (f, n, p) \<Rightarrow> bnd (fileread f n) (\<lambda>(m, bs). andthen (ustore p bs) (ret m)))"

text \<open>The bytes are read where \<open>filewrite\<close> reads them, after it has seen that the file is writable.\<close>

definition sys_write :: "('z kfile_scheme, int) kop" where
  "sys_write =
     bnd rw_args (\<lambda>r.
     case r of
       None \<Rightarrow> ret (-1)
     | Some (f, n, p) \<Rightarrow>
         bnd (file_get f) (\<lambda>q.
         if \<not> f_writable q then ret (-1) else bnd (uload p (nat n)) (\<lambda>bs. filewrite f bs n)))"

definition sys_close :: "('z kfile_scheme, int) kop" where
  "sys_close =
     bnd (argfd 0) (\<lambda>r.
     case r of
       None \<Rightarrow> ret (-1)
     | Some (fd, f) \<Rightarrow> andthen (ofile_set fd None) (andthen (fileclose f) (ret 0)))"

text \<open>\<open>struct stat\<close> in memory: 20 bytes, with padding after the two short fields.\<close>

definition stat_bytes :: "stat \<Rightarrow> uchar list \<Rightarrow> uchar list" where
  "stat_bytes st old =
     put32 (put16 (put32 (put32 (put16 old 0 (st_type st)) 4 (st_dev st)) 8 (st_ino st)) 12 (st_nlink st)) 16 (st_size st)"

definition sys_fstat :: "('z kfile_scheme, int) kop" where
  "sys_fstat =
     bnd (argfd 0) (\<lambda>r.
     case r of
       None \<Rightarrow> ret (-1)
     | Some (_, f) \<Rightarrow>
         bnd (argptr 1 20) (\<lambda>r.
         case r of
           None \<Rightarrow> ret (-1)
         | Some p \<Rightarrow>
             bnd (filestat f) (\<lambda>r.
             case r of
               None \<Rightarrow> ret (-1)
             | Some st \<Rightarrow> bnd (uload p 20) (\<lambda>old. andthen (ustore p (stat_bytes st old)) (ret 0)))))"

section \<open>Links\<close>

text \<open>The label \<open>bad\<close> of \<open>sys_link\<close>.\<close>

definition link_bad :: "nat \<Rightarrow> ('z kfile_scheme, int) kop" where
  "link_bad ip =
     andthen (ilock ip)
     (andthen (inode_set ip (\<lambda>r. r\<lparr>i_nlink := i_nlink r - 1\<rparr>))
     (andthen (iupdate ip)
     (andthen (iunlockput ip)
     (andthen commit_trans (ret (-1))))))"

definition link_to :: "nat \<Rightarrow> string \<Rightarrow> ('z kfile_scheme, int) kop" where
  "link_to ip new =
     andthen (inode_set ip (\<lambda>r. r\<lparr>i_nlink := i_nlink r + 1\<rparr>))
     (andthen (iupdate ip)
     (andthen (iunlock ip)
     (bnd (nameiparent new) (\<lambda>r.
     case r of
       None \<Rightarrow> link_bad ip
     | Some (dp, name) \<Rightarrow>
         andthen (ilock dp)
         (bnd (inode_get dp) (\<lambda>d.
         bnd (inode_get ip) (\<lambda>i.
         bnd (if i_dev d \<noteq> i_dev i then ret (-1) else dirlink dp name (i_inum i)) (\<lambda>e.
         if e < 0 then andthen (iunlockput dp) (link_bad ip)
         else
           andthen (iunlockput dp)
           (andthen (iput ip)
           (andthen commit_trans (ret 0)))))))))))"

definition sys_link :: "('z kfile_scheme, int) kop" where
  "sys_link =
     bnd (argstr 0) (\<lambda>old.
     case old of None \<Rightarrow> ret (-1) | Some old \<Rightarrow>
     bnd (argstr 1) (\<lambda>new.
     case new of None \<Rightarrow> ret (-1) | Some new \<Rightarrow>
     bnd (namei old) (\<lambda>r.
     case r of None \<Rightarrow> ret (-1) | Some ip \<Rightarrow>
       andthen begin_trans
       (andthen (ilock ip)
       (bnd (inode_get ip) (\<lambda>i.
       if i_type i = T_DIR then andthen (iunlockput ip) (andthen commit_trans (ret (-1)))
       else link_to ip new))))))"

fun isdirempty_scan :: "nat \<Rightarrow> nat list \<Rightarrow> ('z kfile_scheme, bool) kop" where
  "isdirempty_scan dp [] = ret True"
| "isdirempty_scan dp (off # offs) =
     bnd (readi dp (of_nat off) (of_nat DIRENT)) (\<lambda>(n, de).
     if n \<noteq> int DIRENT then panic ''isdirempty: readi''
     else if de_inum de \<noteq> 0 then ret False
     else isdirempty_scan dp offs)"

definition isdirempty :: "nat \<Rightarrow> ('z kfile_scheme, bool) kop" where
  "isdirempty dp = bnd (inode_get dp) (\<lambda>r. isdirempty_scan dp (drop 2 (dir_offsets (i_size r))))"

text \<open>The label \<open>bad\<close> of \<open>sys_unlink\<close>.\<close>

definition unlink_bad :: "nat \<Rightarrow> ('z kfile_scheme, int) kop" where
  "unlink_bad dp = andthen (iunlockput dp) (andthen commit_trans (ret (-1)))"

definition unlink_entry :: "nat \<Rightarrow> nat \<Rightarrow> nat \<Rightarrow> ('z kfile_scheme, int) kop" where
  "unlink_entry dp ip off =
     bnd (writei dp (replicate DIRENT 0) (of_nat off) (of_nat DIRENT)) (\<lambda>n.
     if n \<noteq> int DIRENT then panic ''unlink: writei''
     else
       bnd (inode_get ip) (\<lambda>i.
       andthen
         (whenever (i_type i = T_DIR)
           (andthen (inode_set dp (\<lambda>r. r\<lparr>i_nlink := i_nlink r - 1\<rparr>)) (iupdate dp)))
       (andthen (iunlockput dp)
       (andthen (inode_set ip (\<lambda>r. r\<lparr>i_nlink := i_nlink r - 1\<rparr>))
       (andthen (iupdate ip)
       (andthen (iunlockput ip)
       (andthen commit_trans (ret 0))))))))"

definition unlink_name :: "nat \<Rightarrow> string \<Rightarrow> ('z kfile_scheme, int) kop" where
  "unlink_name dp name =
     andthen (ilock dp)
     (if namecmp name ''.'' = 0 \<or> namecmp name ''..'' = 0 then unlink_bad dp
      else
        bnd (dirlookup dp name) (\<lambda>r.
        case r of
          None \<Rightarrow> unlink_bad dp
        | Some (ip, off) \<Rightarrow>
            andthen (ilock ip)
            (bnd (inode_get ip) (\<lambda>i.
            if sint (i_nlink i) < 1 then panic ''unlink: nlink < 1''
            else
              bnd (if i_type i = T_DIR then isdirempty ip else ret True) (\<lambda>empty.
              if \<not> empty then andthen (iunlockput ip) (unlink_bad dp)
              else unlink_entry dp ip off)))))"

definition sys_unlink :: "('z kfile_scheme, int) kop" where
  "sys_unlink =
     bnd (argstr 0) (\<lambda>path.
     case path of None \<Rightarrow> ret (-1) | Some path \<Rightarrow>
     bnd (nameiparent path) (\<lambda>r.
     case r of None \<Rightarrow> ret (-1) | Some (dp, name) \<Rightarrow>
     andthen begin_trans (unlink_name dp name)))"

section \<open>Making and opening files\<close>

definition create_new :: "nat \<Rightarrow> string \<Rightarrow> ushort \<Rightarrow> ushort \<Rightarrow> ushort \<Rightarrow> ('z kfile_scheme, nat option) kop" where
  "create_new dp name type major minor =
     bnd (inode_get dp) (\<lambda>d.
     bnd (ialloc (i_dev d) type) (\<lambda>ip.
     andthen (ilock ip)
     (andthen (inode_set ip (\<lambda>r. r\<lparr>i_major := major, i_minor := minor, i_nlink := 1\<rparr>))
     (andthen (iupdate ip)
     (bnd (inode_get ip) (\<lambda>i.
     andthen
       (whenever (type = T_DIR)
         (andthen (inode_set dp (\<lambda>r. r\<lparr>i_nlink := i_nlink r + 1\<rparr>))
         (andthen (iupdate dp)
         (bnd (dirlink ip ''.'' (i_inum i)) (\<lambda>e.
         if e < 0 then panic ''create dots''
         else
           bnd (dirlink ip ''..'' (i_inum d)) (\<lambda>e.
           if e < 0 then panic ''create dots'' else ret ()))))))
     (bnd (dirlink dp name (i_inum i)) (\<lambda>e.
     if e < 0 then panic ''create: dirlink''
     else andthen (iunlockput dp) (ret (Some ip))))))))))"

definition create :: "string \<Rightarrow> ushort \<Rightarrow> ushort \<Rightarrow> ushort \<Rightarrow> ('z kfile_scheme, nat option) kop" where
  "create path type major minor =
     bnd (nameiparent path) (\<lambda>r.
     case r of
       None \<Rightarrow> ret None
     | Some (dp, name) \<Rightarrow>
         andthen (ilock dp)
         (bnd (dirlookup dp name) (\<lambda>r.
         case r of
           Some (ip, _) \<Rightarrow>
             andthen (iunlockput dp)
             (andthen (ilock ip)
             (bnd (inode_get ip) (\<lambda>i.
             if type = T_FILE \<and> i_type i = T_FILE then ret (Some ip)
             else andthen (iunlockput ip) (ret None))))
         | None \<Rightarrow> create_new dp name type major minor)))"

definition O_RDONLY :: uint where "O_RDONLY = 0"
definition O_WRONLY :: uint where "O_WRONLY = 1"
definition O_RDWR :: uint where "O_RDWR = 2"
definition O_CREATE :: uint where "O_CREATE = 0x200"

text \<open>\<open>sys_open\<close> from \<open>filealloc\<close> on, with the inode locked.\<close>

definition open_file :: "nat \<Rightarrow> uint \<Rightarrow> ('z kfile_scheme, int) kop" where
  "open_file ip omode =
     bnd filealloc (\<lambda>r.
     case r of
       None \<Rightarrow> andthen (iunlockput ip) (ret (-1))
     | Some f \<Rightarrow>
         bnd (fdalloc f) (\<lambda>fd.
         if fd < 0 then andthen (fileclose f) (andthen (iunlockput ip) (ret (-1)))
         else
           andthen (iunlock ip)
           (andthen (file_set f (\<lambda>r. r\<lparr>f_type := FD_INODE, f_ip := ip, f_off := 0,
              f_readable := (omode AND O_WRONLY = 0),
              f_writable := (omode AND O_WRONLY \<noteq> 0 \<or> omode AND O_RDWR \<noteq> 0)\<rparr>))
           (ret fd))))"

definition sys_open :: "('z kfile_scheme, int) kop" where
  "sys_open =
     bnd (argstr 0) (\<lambda>path.
     case path of None \<Rightarrow> ret (-1) | Some path \<Rightarrow>
     bnd (argint 1) (\<lambda>omode.
     case omode of None \<Rightarrow> ret (-1) | Some omode \<Rightarrow>
       if omode AND O_CREATE \<noteq> 0 then
         andthen begin_trans
         (bnd (create path T_FILE 0 0) (\<lambda>r.
         andthen commit_trans
         (case r of None \<Rightarrow> ret (-1) | Some ip \<Rightarrow> open_file ip omode)))
       else
         bnd (namei path) (\<lambda>r.
         case r of
           None \<Rightarrow> ret (-1)
         | Some ip \<Rightarrow>
             andthen (ilock ip)
             (bnd (inode_get ip) (\<lambda>i.
             if i_type i = T_DIR \<and> omode \<noteq> O_RDONLY then andthen (iunlockput ip) (ret (-1))
             else open_file ip omode)))))"

definition sys_mkdir :: "('z kfile_scheme, int) kop" where
  "sys_mkdir =
     andthen begin_trans
     (bnd (argstr 0) (\<lambda>path.
     bnd (case path of None \<Rightarrow> ret None | Some path \<Rightarrow> create path T_DIR 0 0) (\<lambda>r.
     case r of
       None \<Rightarrow> andthen commit_trans (ret (-1))
     | Some ip \<Rightarrow> andthen (iunlockput ip) (andthen commit_trans (ret 0)))))"

definition sys_mknod :: "('z kfile_scheme, int) kop" where
  "sys_mknod =
     andthen begin_trans
     (bnd (argstr 0) (\<lambda>path.
     bnd (case path of None \<Rightarrow> ret None | Some path \<Rightarrow>
            bnd (argint 1) (\<lambda>major.
            case major of None \<Rightarrow> ret None | Some major \<Rightarrow>
              bnd (argint 2) (\<lambda>minor.
              case minor of None \<Rightarrow> ret None | Some minor \<Rightarrow>
                create path T_DEV (ucast major) (ucast minor)))) (\<lambda>r.
     case r of
       None \<Rightarrow> andthen commit_trans (ret (-1))
     | Some ip \<Rightarrow> andthen (iunlockput ip) (andthen commit_trans (ret 0)))))"

definition sys_chdir :: "('z kfile_scheme, int) kop" where
  "sys_chdir =
     bnd (argstr 0) (\<lambda>path.
     case path of None \<Rightarrow> ret (-1) | Some path \<Rightarrow>
     bnd (namei path) (\<lambda>r.
     case r of None \<Rightarrow> ret (-1) | Some ip \<Rightarrow>
       andthen (ilock ip)
       (bnd (inode_get ip) (\<lambda>i.
       if i_type i \<noteq> T_DIR then andthen (iunlockput ip) (ret (-1))
       else
         andthen (iunlock ip)
         (bnd myproc (\<lambda>p.
         bnd (pget p) (\<lambda>q.
         bnd (deref ''cwd'' (p_cwd q)) (\<lambda>cwd.
         andthen (iput cwd)
         (andthen (pset p (\<lambda>r. r\<lparr>p_cwd := Some ip\<rparr>))
         (ret 0))))))))))"

definition bytes32 :: "uint \<Rightarrow> uchar list" where
  "bytes32 w = put32 [0, 0, 0, 0] 0 w"

definition sys_pipe :: "('z kfile_scheme, int) kop" where
  "sys_pipe =
     bnd (argptr 0 8) (\<lambda>r.
     case r of None \<Rightarrow> ret (-1) | Some fd \<Rightarrow>
     bnd pipealloc (\<lambda>r.
     case r of None \<Rightarrow> ret (-1) | Some (rfile, wfile) \<Rightarrow>
       bnd (fdalloc rfile) (\<lambda>fd0.
       if fd0 < 0 then andthen (fileclose rfile) (andthen (fileclose wfile) (ret (-1)))
       else
         bnd (fdalloc wfile) (\<lambda>fd1.
         if fd1 < 0 then
           andthen (ofile_set (nat fd0) None)
           (andthen (fileclose rfile) (andthen (fileclose wfile) (ret (-1))))
         else
           andthen (ustore fd (bytes32 (word_of_int fd0)))
           (andthen (ustore (fd + 4) (bytes32 (word_of_int fd1)))
           (ret 0))))))"

end
