(* ===== verification/Exec.thy ===== *)
theory Exec
  imports Sysfile
begin

text \<open>
  exec.c with the formats of elf.h, \<open>loaduvm\<close> of vm.c and \<open>sys_exec\<close> of sysfile.c. The argument strings are
  passed as lists of characters; \<open>copyout_bytes\<close> is \<open>copyout\<close> of vm.c with the bytes it copies given.
\<close>

section \<open>ELF files\<close>

definition ELF_MAGIC :: uint where "ELF_MAGIC = 0x464C457F"
definition ELF_PROG_LOAD :: uint where "ELF_PROG_LOAD = 1"
definition MAXARG :: nat where "MAXARG = 32"

record elfhdr =
  elf_magic :: uint
  elf_entry :: uint
  elf_phoff :: uint
  elf_phnum :: ushort

record proghdr =
  ph_type :: uint
  ph_off :: uint
  ph_vaddr :: uint
  ph_filesz :: uint
  ph_memsz :: uint

definition elfhdr_of :: "uchar list \<Rightarrow> elfhdr" where
  "elfhdr_of d = \<lparr>elf_magic = get32 d 0, elf_entry = get32 d 24, elf_phoff = get32 d 28, elf_phnum = get16 d 44\<rparr>"

definition proghdr_of :: "uchar list \<Rightarrow> proghdr" where
  "proghdr_of d = \<lparr>ph_type = get32 d 0, ph_off = get32 d 4, ph_vaddr = get32 d 8, ph_filesz = get32 d 16, ph_memsz = get32 d 20\<rparr>"

section \<open>Loading\<close>

definition store_bytes :: "uint \<Rightarrow> uchar list \<Rightarrow> ('z kmem_scheme, unit) kop" where
  "store_bytes a bs = for_each (enumerate 0 bs) (\<lambda>(i, b). upd (\<lambda>s. s\<lparr>mem := (mem s)(a + of_nat i := b)\<rparr>))"

text \<open>The loop of \<open>loaduvm\<close> from \<open>i\<close> on.\<close>

function loaduvm_loop :: "uint \<Rightarrow> uint \<Rightarrow> nat \<Rightarrow> uint \<Rightarrow> nat \<Rightarrow> nat \<Rightarrow> ('z kfs_scheme, int) kop" where
  "loaduvm_loop pgdir addr ip offset sz i =
     (if i < sz then
        bnd (walkpgdir pgdir (addr + of_nat i) False) (\<lambda>pte.
        if pte = 0 then panic ''loaduvm: address should exist''
        else
          bnd (load32 pte) (\<lambda>e.
          let n = min (sz - i) 4096 in
          bnd (readi ip (offset + of_nat i) (of_nat n)) (\<lambda>(m, bs).
          andthen (store_bytes (P2V (PTE_ADDR e)) bs)
          (if m \<noteq> int n then ret (-1)
           else loaduvm_loop pgdir addr ip offset sz (i + 4096)))))
      else ret 0)"
  by pat_completeness auto

termination loaduvm_loop
  by (relation "measure (\<lambda>(_, _, _, _, sz, i). sz - i)") auto

declare loaduvm_loop.simps [simp del]

definition loaduvm :: "uint \<Rightarrow> uint \<Rightarrow> nat \<Rightarrow> uint \<Rightarrow> uint \<Rightarrow> ('z kfs_scheme, int) kop" where
  "loaduvm pgdir addr ip offset sz =
     (if addr mod PGSIZE \<noteq> 0 then panic ''loaduvm: addr must be page aligned''
      else loaduvm_loop pgdir addr ip offset (unat sz) 0)"

lemma page_left: "0 < (4096 :: nat) - k mod 4096"
  by simp

function copyout_bytes :: "uint \<Rightarrow> uint \<Rightarrow> uchar list \<Rightarrow> ('z kmem_scheme, int) kop" where
  "copyout_bytes pgdir va bs =
     (if bs = [] then ret 0
      else
        bnd (uva2ka pgdir (PGROUNDDOWN va)) (\<lambda>pa0.
        if pa0 = 0 then ret (-1)
        else
          let n = min (4096 - unat va mod 4096) (length bs) in
          andthen (store_bytes (pa0 + (va - PGROUNDDOWN va)) (take n bs))
          (copyout_bytes pgdir (PGROUNDDOWN va + PGSIZE) (drop n bs))))"
  by pat_completeness auto

termination copyout_bytes
  by (relation "measure (\<lambda>(_, _, bs). length bs)") (auto simp: page_left)

declare copyout_bytes.simps [simp del]

section \<open>Exec\<close>

text \<open>The label \<open>bad\<close>; \<open>pgdir\<close> is 0 before it is allocated and \<open>ip\<close> is \<open>None\<close> after it is put.\<close>

definition exec_bad :: "uint \<Rightarrow> nat option \<Rightarrow> ('z kfile_scheme, int) kop" where
  "exec_bad pgdir ip =
     andthen (whenever (pgdir \<noteq> 0) (freevm pgdir))
     (andthen (case ip of None \<Rightarrow> ret () | Some i \<Rightarrow> iunlockput i)
     (ret (-1)))"

text \<open>The loop over the program headers, at the offsets given; \<open>None\<close> is \<open>goto bad\<close>.\<close>

fun exec_load :: "uint \<Rightarrow> nat \<Rightarrow> uint list \<Rightarrow> uint \<Rightarrow> ('z kfile_scheme, uint option) kop" where
  "exec_load pgdir ip [] sz = ret (Some sz)"
| "exec_load pgdir ip (off # offs) sz =
     bnd (readi ip off 32) (\<lambda>(n, bs).
     if n \<noteq> 32 then ret None
     else
       let ph = proghdr_of bs in
       if ph_type ph \<noteq> ELF_PROG_LOAD then exec_load pgdir ip offs sz
       else if ph_memsz ph < ph_filesz ph then ret None
       else
         bnd (allocuvm pgdir sz (ph_vaddr ph + ph_memsz ph)) (\<lambda>sz.
         if sz = 0 then ret None
         else
           bnd (loaduvm pgdir (ph_vaddr ph) ip (ph_off ph) (ph_filesz ph)) (\<lambda>e.
           if e < 0 then ret None else exec_load pgdir ip offs sz)))"

definition cstr :: "string \<Rightarrow> uchar list" where
  "cstr str = map (\<lambda>c. of_nat (of_char c)) str @ [0]"

text \<open>The argument strings, from the top of the stack down; the result is the stack pointer and the addresses.\<close>

fun exec_args :: "uint \<Rightarrow> string list \<Rightarrow> uint \<Rightarrow> uint list \<Rightarrow> ('z kfile_scheme, (uint \<times> uint list) option) kop" where
  "exec_args pgdir [] sp ustack = ret (Some (sp, ustack))"
| "exec_args pgdir (a # argv) sp ustack =
     (if length ustack \<ge> MAXARG then ret None
      else
        let sp = (sp - (of_nat (length a) + 1)) AND NOT 3 in
        bnd (copyout_bytes pgdir sp (cstr a)) (\<lambda>e.
        if e < 0 then ret None else exec_args pgdir argv sp (ustack @ [sp])))"

text \<open>The fake return address, the number of arguments, the pointer to the array, and the array.\<close>

definition exec_stack :: "uint \<Rightarrow> uint list \<Rightarrow> uint list" where
  "exec_stack sp ptrs = [0xffffffff, of_nat (length ptrs), sp - (of_nat (length ptrs) + 1) * 4] @ ptrs @ [0]"

definition last_elem :: "string \<Rightarrow> string" where
  "last_elem path = rev (takeWhile (\<lambda>c. c \<noteq> CHR ''/'') (rev path))"

definition exec_commit :: "string \<Rightarrow> uint \<Rightarrow> uint \<Rightarrow> uint \<Rightarrow> uint \<Rightarrow> ('z kfile_scheme, int) kop" where
  "exec_commit path pgdir sz entry sp =
     bnd myproc (\<lambda>p.
     andthen (pset p (\<lambda>r. r\<lparr>p_name := take 15 (last_elem path)\<rparr>))
     (bnd (pget p) (\<lambda>q.
     andthen (pset p (\<lambda>r. r\<lparr>p_pgdir := pgdir, p_sz := sz, p_tf := (p_tf r)\<lparr>tf_eip := entry, tf_esp := sp\<rparr>\<rparr>))
     (andthen (switchuvm p)
     (andthen (freevm (p_pgdir q))
     (ret 0))))))"

definition exec_image :: "string \<Rightarrow> string list \<Rightarrow> uint \<Rightarrow> uint \<Rightarrow> uint \<Rightarrow> ('z kfile_scheme, int) kop" where
  "exec_image path argv pgdir sz entry =
     bnd (allocuvm pgdir (PGROUNDUP sz) (PGROUNDUP sz + 2 * PGSIZE)) (\<lambda>sz.
     if sz = 0 then exec_bad pgdir None
     else
       andthen (clearpteu pgdir (sz - 2 * PGSIZE))
       (bnd (exec_args pgdir argv sz []) (\<lambda>r.
       case r of
         None \<Rightarrow> exec_bad pgdir None
       | Some (sp, ptrs) \<Rightarrow>
           let ustack = exec_stack sp ptrs; sp = sp - of_nat (length ustack) * 4 in
           bnd (copyout_bytes pgdir sp (concat (map bytes32 ustack))) (\<lambda>e.
           if e < 0 then exec_bad pgdir None
           else exec_commit path pgdir sz entry sp))))"

text \<open>The check \<open>readi(...) < sizeof(elf)\<close> compares unsigned, so that -1 passes it; the header is then
  what the stack held.\<close>

definition exec :: "string \<Rightarrow> string list \<Rightarrow> ('z kfile_scheme, int) kop" where
  "exec path argv =
     bnd (namei path) (\<lambda>r.
     case r of
       None \<Rightarrow> ret (-1)
     | Some ip \<Rightarrow>
         andthen (ilock ip)
         (bnd (readi ip 0 52) (\<lambda>(n, bs).
         if (word_of_int n :: uint) < 52 then exec_bad 0 (Some ip)
         else if length bs < 52 then fault ''elf''
         else
           let elf = elfhdr_of bs in
           if elf_magic elf \<noteq> ELF_MAGIC then exec_bad 0 (Some ip)
           else
             bnd setupkvm (\<lambda>pgdir.
             if pgdir = 0 then exec_bad 0 (Some ip)
             else
               bnd (exec_load pgdir ip (map (\<lambda>i. elf_phoff elf + 32 * of_nat i) [0..<unat (elf_phnum elf)]) 0) (\<lambda>r.
               case r of
                 None \<Rightarrow> exec_bad pgdir (Some ip)
               | Some sz \<Rightarrow> andthen (iunlockput ip) (exec_image path argv pgdir sz (elf_entry elf)))))))"

text \<open>The loop of \<open>sys_exec\<close> over the argument pointers; \<open>n\<close> are left of \<open>MAXARG\<close>.\<close>

fun exec_argv :: "nat \<Rightarrow> uint \<Rightarrow> ('z kfile_scheme, string list option) kop" where
  "exec_argv 0 uargv = ret None"
| "exec_argv (Suc n) uargv =
     bnd (fetchint uargv) (\<lambda>r.
     case r of None \<Rightarrow> ret None | Some uarg \<Rightarrow>
       if uarg = 0 then ret (Some [])
       else
         bnd (fetchstr uarg) (\<lambda>a.
         case a of None \<Rightarrow> ret None | Some a \<Rightarrow>
           bnd (exec_argv n (uargv + 4)) (\<lambda>r. ret (map_option (\<lambda>rest. a # rest) r))))"

definition sys_exec :: "('z kfile_scheme, int) kop" where
  "sys_exec =
     bnd (argstr 0) (\<lambda>path.
     case path of None \<Rightarrow> ret (-1) | Some path \<Rightarrow>
     bnd (argint 1) (\<lambda>r.
     case r of None \<Rightarrow> ret (-1) | Some uargv \<Rightarrow>
     bnd (exec_argv MAXARG uargv) (\<lambda>r.
     case r of None \<Rightarrow> ret (-1) | Some argv \<Rightarrow> exec path argv)))"

end
