(* ===== verification/Kernel.thy ===== *)
theory Kernel
  imports Exec
begin

text \<open>
  The operations of proc.c that join the process table to memory and files (\<open>allocproc\<close>, \<open>userinit\<close>,
  \<open>growproc\<close>, \<open>fork\<close>, \<open>exit\<close>, \<open>wait\<close>, \<open>forkret\<close>), the calls of sysproc.c, the dispatch in syscall.c and
  \<open>trap\<close> of trap.c. \<open>sym_trapret\<close>, \<open>sym_forkret\<close>, \<open>sym_initcode\<close> and \<open>initcode_size\<close> are symbols the linker
  defines, \<open>cr2\<close> is the register with the address of the last page fault. The disk driver is memide.c's, whose
  interrupt handler does nothing; what the local interrupt controller is told is not modelled.
\<close>

record kern = kfile +
  sym_trapret :: uint
  sym_forkret :: uint
  sym_initcode :: uint
  initcode_size :: uint
  forkret_first :: bool
  cr2 :: uint

section \<open>Processes\<close>

definition TRAPFRAME_SIZE :: uint where "TRAPFRAME_SIZE = 76"

definition empty_context :: kcontext where
  "empty_context = \<lparr>ctx_edi = 0, ctx_esi = 0, ctx_ebx = 0, ctx_ebp = 0, ctx_eip = 0\<rparr>"

definition empty_trapframe :: trapframe where
  "empty_trapframe = \<lparr>tf_edi = 0, tf_esi = 0, tf_ebp = 0, tf_oesp = 0, tf_ebx = 0, tf_edx = 0, tf_ecx = 0, tf_eax = 0,
     tf_gs = 0, tf_fs = 0, tf_es = 0, tf_ds = 0, tf_trapno = 0, tf_err = 0, tf_eip = 0, tf_cs = 0, tf_eflags = 0,
     tf_esp = 0, tf_ss = 0\<rparr>"

definition allocproc :: "('z kern_scheme, nat option) kop" where
  "allocproc =
     bnd alloc_slot (\<lambda>f.
     case f of
       None \<Rightarrow> ret None
     | Some p \<Rightarrow>
         bnd kalloc (\<lambda>ks.
         andthen (pset p (\<lambda>r. r\<lparr>p_kstack := ks\<rparr>))
         (if ks = 0 then andthen (pset p (\<lambda>r. r\<lparr>p_state := UNUSED\<rparr>)) (ret None)
          else
            bnd (gets sym_trapret) (\<lambda>tr.
            andthen (store32 (ks + KSTACKSIZE - TRAPFRAME_SIZE - 4) tr)
            (bnd (gets sym_forkret) (\<lambda>fr.
            andthen (pset p (\<lambda>r. r\<lparr>p_context := empty_context\<lparr>ctx_eip := fr\<rparr>\<rparr>))
            (ret (Some p))))))))"

definition SEG_UCODE :: ushort where "SEG_UCODE = 4"
definition SEG_UDATA :: ushort where "SEG_UDATA = 5"
definition DPL_USER :: ushort where "DPL_USER = 3"
definition FL_IF :: uint where "FL_IF = 0x200"

definition userinit :: "('z kern_scheme, unit) kop" where
  "userinit =
     andthen (for_each [0, 1, 2, 3] (\<lambda>i. mlf_set i (\<lambda>q. q\<lparr>q_size := 0\<rparr>)))
     (bnd allocproc (\<lambda>f.
     andthen (upd (\<lambda>s. s\<lparr>initproc := f\<rparr>))
     (bnd (deref ''userinit'' f) (\<lambda>p.
     bnd setupkvm (\<lambda>pgdir.
     andthen (pset p (\<lambda>r. r\<lparr>p_pgdir := pgdir\<rparr>))
     (if pgdir = 0 then panic ''userinit: out of memory?''
      else
        bnd (gets sym_initcode) (\<lambda>start.
        bnd (gets initcode_size) (\<lambda>n.
        andthen (inituvm pgdir start n)
        (andthen (pset p (\<lambda>r. r\<lparr>p_sz := PGSIZE, p_tf := empty_trapframe\<lparr>
            tf_cs := push_bit 3 SEG_UCODE OR DPL_USER, tf_ds := push_bit 3 SEG_UDATA OR DPL_USER,
            tf_es := push_bit 3 SEG_UDATA OR DPL_USER, tf_ss := push_bit 3 SEG_UDATA OR DPL_USER,
            tf_eflags := FL_IF, tf_esp := PGSIZE, tf_eip := 0\<rparr>, p_name := ''initcode''\<rparr>))
        (bnd (namei ''/'') (\<lambda>cwd.
        andthen (pset p (\<lambda>r. r\<lparr>p_cwd := cwd\<rparr>))
        (andthen (acquire PtableLock)
        (bnd (pget p) (\<lambda>q.
        andthen (cprintf ''----> name proc userinit: %s \<newline>'' [ArgStr (Some (p_name q))])
        (andthen (make_runnable p 0)
        (release PtableLock))))))))))))))))"

definition growproc :: "int \<Rightarrow> ('z kern_scheme, int) kop" where
  "growproc n =
     bnd myproc (\<lambda>p.
     bnd (pget p) (\<lambda>q.
     bnd (if n > 0 then allocuvm (p_pgdir q) (p_sz q) (p_sz q + word_of_int n)
          else if n < 0 then deallocuvm (p_pgdir q) (p_sz q) (p_sz q + word_of_int n)
          else ret (p_sz q)) (\<lambda>sz.
     if n \<noteq> 0 \<and> sz = 0 then ret (-1)
     else
       andthen (pset p (\<lambda>r. r\<lparr>p_sz := sz\<rparr>))
       (andthen (switchuvm p) (ret 0)))))"

text \<open>The files of the parent, in \<open>fork\<close>.\<close>

definition fork_files :: "nat \<Rightarrow> nat \<Rightarrow> ('z kern_scheme, unit) kop" where
  "fork_files me np =
     for_each [0..<NOFILE] (\<lambda>i.
       bnd (pget me) (\<lambda>q.
       case p_ofile q ! i of
         None \<Rightarrow> ret ()
       | Some f \<Rightarrow> bnd (filedup f) (\<lambda>f. pset np (\<lambda>r. r\<lparr>p_ofile := (p_ofile r)[i := Some f]\<rparr>))))"

definition fork :: "('z kern_scheme, int) kop" where
  "fork =
     bnd allocproc (\<lambda>f.
     case f of
       None \<Rightarrow> ret (-1)
     | Some np \<Rightarrow>
         bnd myproc (\<lambda>me.
         bnd (pget me) (\<lambda>q.
         bnd (copyuvm (p_pgdir q) (p_sz q)) (\<lambda>pgdir.
         andthen (pset np (\<lambda>r. r\<lparr>p_pgdir := pgdir\<rparr>))
         (if pgdir = 0 then
            bnd (pget np) (\<lambda>r.
            andthen (kfree (p_kstack r))
            (andthen (pset np (\<lambda>r. r\<lparr>p_kstack := 0, p_state := UNUSED\<rparr>))
            (ret (-1))))
          else
            andthen (pset np (\<lambda>r. r\<lparr>p_sz := p_sz q, p_parent := Some me, p_tf := (p_tf q)\<lparr>tf_eax := 0\<rparr>\<rparr>))
            (andthen (fork_files me np)
            (bnd (deref ''cwd'' (p_cwd q)) (\<lambda>cwd.
            bnd (idup cwd) (\<lambda>cwd.
            andthen (pset np (\<lambda>r. r\<lparr>p_cwd := Some cwd\<rparr>))
            (bnd (pget np) (\<lambda>r.
            andthen (pset np (\<lambda>r. r\<lparr>p_name := take 15 (p_name q)\<rparr>))
            (andthen (cprintf ''----> name proc fork: %s \<newline>'' [ArgStr (Some (take 15 (p_name q)))])
            (andthen (publish np)
            (ret (p_pid r)))))))))))))))"

definition exit_files :: "nat \<Rightarrow> ('z kern_scheme, unit) kop" where
  "exit_files me =
     for_each [0..<NOFILE] (\<lambda>fd.
       bnd (pget me) (\<lambda>q.
       case p_ofile q ! fd of
         None \<Rightarrow> ret ()
       | Some f \<Rightarrow> andthen (fileclose f) (pset me (\<lambda>r. r\<lparr>p_ofile := (p_ofile r)[fd := None]\<rparr>))))"

definition exit :: "('z kern_scheme, 'a) kop" where
  "exit =
     bnd curproc (\<lambda>cur.
     bnd (gets initproc) (\<lambda>ini.
     if cur = ini then panic ''init exiting''
     else
       bnd myproc (\<lambda>me.
       andthen (exit_files me)
       (bnd (pget me) (\<lambda>q.
       bnd (deref ''cwd'' (p_cwd q)) (\<lambda>cwd.
       andthen (iput cwd)
       (andthen (pset me (\<lambda>r. r\<lparr>p_cwd := None\<rparr>))
       exit_table)))))))"

text \<open>The scan of \<open>wait\<close>: the first zombie child, and whether there are children.\<close>

fun wait_scan :: "nat \<Rightarrow> nat list \<Rightarrow> bool \<Rightarrow> ('z kern_scheme, nat option \<times> bool) kop" where
  "wait_scan me [] havekids = ret (None, havekids)"
| "wait_scan me (p # ps) havekids =
     bnd (pget p) (\<lambda>r.
     if p_parent r \<noteq> Some me then wait_scan me ps havekids
     else if p_state r = ZOMBIE then ret (Some p, True)
     else wait_scan me ps True)"

text \<open>The loop of \<open>wait\<close>; a process that slept starts here again.\<close>

definition wait_loop :: "('z kern_scheme, int) kop" where
  "wait_loop =
     bnd myproc (\<lambda>me.
     bnd (wait_scan me [0..<NPROC] False) (\<lambda>(z, havekids).
     case z of
       Some p \<Rightarrow>
         bnd (pget p) (\<lambda>r.
         andthen (kfree (p_kstack r))
         (andthen (pset p (\<lambda>r. r\<lparr>p_kstack := 0\<rparr>))
         (andthen (freevm (p_pgdir r))
         (andthen (reap_slot p)
         (andthen (release PtableLock)
         (ret (p_pid r)))))))
     | None \<Rightarrow>
         bnd (pget me) (\<lambda>q.
         if \<not> havekids \<or> p_killed q then andthen (release PtableLock) (ret (-1))
         else sleep (ProcChan me) (Some PtableLock))))"

definition wait :: "('z kern_scheme, int) kop" where
  "wait = andthen (acquire PtableLock) wait_loop"

definition forkret :: "('z kern_scheme, unit) kop" where
  "forkret =
     andthen (release PtableLock)
     (bnd (gets forkret_first) (\<lambda>first.
     whenever first (andthen (upd (\<lambda>s. s\<lparr>forkret_first := False\<rparr>)) initlog)))"

section \<open>The calls of sysproc.c\<close>

definition sys_fork :: "('z kern_scheme, int) kop" where
  "sys_fork = fork"

definition sys_exit :: "('z kern_scheme, int) kop" where
  "sys_exit = exit"

definition sys_wait :: "('z kern_scheme, int) kop" where
  "sys_wait = wait"

definition sys_kill :: "('z kern_scheme, int) kop" where
  "sys_kill = bnd (argint 0) (\<lambda>r. case r of None \<Rightarrow> ret (-1) | Some pid \<Rightarrow> kill (sint pid))"

definition sys_getpid :: "('z kern_scheme, int) kop" where
  "sys_getpid = bnd myproc (\<lambda>p. bnd (pget p) (\<lambda>q. ret (p_pid q)))"

definition sys_sbrk :: "('z kern_scheme, int) kop" where
  "sys_sbrk =
     bnd (argint 0) (\<lambda>r.
     case r of None \<Rightarrow> ret (-1) | Some n \<Rightarrow>
     bnd mysz (\<lambda>addr.
     bnd (growproc (sint n)) (\<lambda>e.
     if e < 0 then ret (-1) else ret (sint addr))))"

text \<open>The loop of \<open>sys_sleep\<close>; a process that slept starts here again. The comparison is unsigned.\<close>

definition sys_sleep_loop :: "uint \<Rightarrow> uint \<Rightarrow> ('z kern_scheme, int) kop" where
  "sys_sleep_loop ticks0 n =
     bnd (gets ticks) (\<lambda>t.
     if t - ticks0 < n then
       bnd killed (\<lambda>k.
       if k then andthen (release TicksLock) (ret (-1))
       else
         andthen (cprintf ''FORK  1  \<newline>'' [])
         (sleep TicksChan (Some TicksLock)))
     else andthen (release TicksLock) (ret 0))"

definition sys_sleep :: "('z kern_scheme, int) kop" where
  "sys_sleep =
     andthen (cprintf ''PEPE  \<newline>'' [])
     (bnd (argint 0) (\<lambda>r.
     case r of None \<Rightarrow> ret (-1) | Some n \<Rightarrow>
     andthen (acquire TicksLock)
     (bnd (gets ticks) (\<lambda>ticks0. sys_sleep_loop ticks0 n))))"

definition sys_uptime :: "('z kern_scheme, int) kop" where
  "sys_uptime =
     andthen (acquire TicksLock)
     (bnd (gets ticks) (\<lambda>xticks.
     andthen (release TicksLock) (ret (sint xticks))))"

definition sys_procstat :: "('z kern_scheme, int) kop" where
  "sys_procstat = andthen procdump (ret 0)"

definition sys_set_priority :: "('z kern_scheme, int) kop" where
  "sys_set_priority =
     bnd (argint 0) (\<lambda>r.
     case r of None \<Rightarrow> ret (-1) | Some param \<Rightarrow>
     bnd myproc (\<lambda>p. andthen (set_priority p (sint param)) (ret 0)))"

section \<open>Dispatch\<close>

text \<open>The table \<open>syscalls\<close>, by the numbers of syscall.h.\<close>

definition syscalls :: "(nat \<times> ('z kern_scheme, int) kop) list" where
  "syscalls = [(1, sys_fork), (2, sys_exit), (3, sys_wait), (4, sys_pipe), (5, sys_read), (6, sys_kill),
     (7, sys_exec), (8, sys_fstat), (9, sys_chdir), (10, sys_dup), (11, sys_getpid), (12, sys_sbrk), (13, sys_sleep),
     (14, sys_uptime), (17, sys_open), (18, sys_write), (19, sys_mknod), (20, sys_unlink), (21, sys_link),
     (22, sys_mkdir), (23, sys_close), (15, sys_procstat), (16, sys_set_priority)]"

definition SYS_open :: int where "SYS_open = 17"
definition NSYSCALLS :: int where "NSYSCALLS = 24"

definition set_eax :: "int \<Rightarrow> ('z kern_scheme, unit) kop" where
  "set_eax v = bnd myproc (\<lambda>p. pset p (\<lambda>r. r\<lparr>p_tf := (p_tf r)\<lparr>tf_eax := word_of_int v\<rparr>\<rparr>))"

definition syscall :: "('z kern_scheme, unit) kop" where
  "syscall =
     bnd myproc (\<lambda>p.
     bnd (pget p) (\<lambda>q.
     let num = sint (tf_eax (p_tf q)) in
     case (if num \<ge> 0 \<and> num < SYS_open \<or> num \<ge> SYS_open \<and> num < NSYSCALLS then map_of syscalls (nat num) else None) of
       Some f \<Rightarrow> bnd f set_eax
     | None \<Rightarrow>
         andthen (cprintf ''%d %s: unknown sys call %d\<newline>''
           [ArgInt (word_of_int (p_pid q)), ArgStr (Some (p_name q)), ArgInt (word_of_int num)])
         (set_eax (-1))))"

section \<open>Traps\<close>

definition T_SYSCALL :: uint where "T_SYSCALL = 64"
definition T_IRQ0 :: uint where "T_IRQ0 = 32"
definition IRQ_TIMER :: uint where "IRQ_TIMER = 0"
definition IRQ_KBD :: uint where "IRQ_KBD = 1"
definition IRQ_COM1 :: uint where "IRQ_COM1 = 4"
definition IRQ_IDE :: uint where "IRQ_IDE = 14"
definition IRQ_SPURIOUS :: uint where "IRQ_SPURIOUS = 31"

definition timer_tick :: "('z kern_scheme, unit) kop" where
  "timer_tick =
     bnd (gets mycpu) (\<lambda>c.
     whenever (c = 0)
       (andthen (acquire TicksLock)
       (andthen (upd (\<lambda>s. s\<lparr>ticks := ticks s + 1\<rparr>))
       (andthen (wakeup TicksChan)
       (release TicksLock)))))"

text \<open>The switch on the trap number.\<close>

definition trap_dispatch :: "trapframe \<Rightarrow> ('z kern_scheme, unit) kop" where
  "trap_dispatch tf =
     (if tf_trapno tf = T_IRQ0 + IRQ_TIMER then timer_tick
      else if tf_trapno tf = T_IRQ0 + IRQ_IDE then ret ()
      else if tf_trapno tf = T_IRQ0 + IRQ_IDE + 1 then ret ()
      else if tf_trapno tf = T_IRQ0 + IRQ_KBD then kbdintr
      else if tf_trapno tf = T_IRQ0 + IRQ_COM1 then uartintr
      else if tf_trapno tf = T_IRQ0 + 7 \<or> tf_trapno tf = T_IRQ0 + IRQ_SPURIOUS then
        bnd (gets mycpu) (\<lambda>c.
        cprintf ''cpu%d: spurious interrupt at %x:%x\<newline>'' [ArgInt (of_nat c), ArgInt (ucast (tf_cs tf)), ArgInt (tf_eip tf)])
      else
        bnd curproc (\<lambda>cur.
        bnd (gets mycpu) (\<lambda>c.
        bnd (gets cr2) (\<lambda>a.
        if cur = None \<or> tf_cs tf AND 3 = 0 then
          andthen (cprintf ''unexpected trap %d from cpu %d eip %x (cr2=0x%x)\<newline>''
            [ArgInt (tf_trapno tf), ArgInt (of_nat c), ArgInt (tf_eip tf), ArgInt a])
          (panic ''trap'')
        else
          bnd myproc (\<lambda>p.
          bnd (pget p) (\<lambda>q.
          andthen (cprintf ''pid %d %s: trap %d err %d on cpu %d eip 0x%x addr 0x%x--kill proc\<newline>''
            [ArgInt (word_of_int (p_pid q)), ArgStr (Some (p_name q)), ArgInt (tf_trapno tf), ArgInt (tf_err tf),
             ArgInt (of_nat c), ArgInt (tf_eip tf), ArgInt a])
          (pset p (\<lambda>r. r\<lparr>p_killed := True\<rparr>))))))))"

text \<open>A killed process that was in user space exits.\<close>

definition exit_if_killed :: "trapframe \<Rightarrow> ('z kern_scheme, unit) kop" where
  "exit_if_killed tf =
     bnd curproc (\<lambda>cur.
     case cur of
       None \<Rightarrow> ret ()
     | Some p \<Rightarrow> bnd (pget p) (\<lambda>q. whenever (p_killed q \<and> tf_cs tf AND 3 = DPL_USER) exit))"

text \<open>The clock charges the running process a tick, and the fourth makes it yield.\<close>

definition charge_tick :: "trapframe \<Rightarrow> ('z kern_scheme, unit) kop" where
  "charge_tick tf =
     bnd curproc (\<lambda>cur.
     case cur of
       None \<Rightarrow> ret ()
     | Some p \<Rightarrow>
         bnd (pget p) (\<lambda>q.
         whenever (p_state q = RUNNING \<and> tf_trapno tf = T_IRQ0 + IRQ_TIMER)
           (andthen (pset p (\<lambda>r. r\<lparr>p_quantum := p_quantum r + 1\<rparr>))
           (bnd (pget p) (\<lambda>q. whenever (p_quantum q = MAX_QUANTUM) yield)))))"

text \<open>A process that yielded in \<open>charge_tick\<close> continues with the last check.\<close>

definition trap :: "trapframe \<Rightarrow> ('z kern_scheme, unit) kop" where
  "trap tf =
     (if tf_trapno tf = T_SYSCALL then
        bnd killed (\<lambda>k.
        andthen (whenever k exit)
        (bnd myproc (\<lambda>p.
        andthen (pset p (\<lambda>r. r\<lparr>p_tf := tf\<rparr>))
        (andthen syscall
        (bnd killed (\<lambda>k. whenever k exit))))))
      else
        andthen (trap_dispatch tf)
        (andthen (exit_if_killed tf)
        (andthen (charge_tick tf)
        (exit_if_killed tf))))"

end
