(* ===== verification/Kernel_Types.thy ===== *)
theory Kernel_Types
  imports Kernel
begin

text \<open>
  The well-formedness of the kernel's data, which every operation keeps on every outcome: the arrays keep their sizes, the
  descriptor tables of the processes and the address arrays of the inodes theirs, no file has a negative reference count, and no
  pipe holds more than its buffer. \<open>keeps P m\<close> says that \<open>m\<close> started where \<open>P\<close> holds ends, sleeps or spins where \<open>P\<close> holds.
\<close>

section \<open>Operations that keep a predicate\<close>

definition keeps :: "('s \<Rightarrow> bool) \<Rightarrow> ('s, 'a) kop \<Rightarrow> bool" where
  "keeps P m \<longleftrightarrow> (\<forall>s. P s \<longrightarrow> (case m s of Done a t \<Rightarrow> P t | Asleep t \<Rightarrow> P t | Spin t \<Rightarrow> P t | _ \<Rightarrow> True))"

named_theorems keeps_rules

lemma keeps_ret [keeps_rules]: "keeps P (ret a)"
  by (simp add: keeps_def ret_def)

lemma keeps_gets [keeps_rules]: "keeps P (gets f)"
  by (simp add: keeps_def gets_def)

lemma keeps_stuck [keeps_rules]: "keeps P (panic m)" "keeps P (fault m)" "keeps P asleep" "keeps P spin"
  by (simp_all add: keeps_def panic_def fault_def asleep_def spin_def)

lemma keeps_upd [keeps_rules]: "(\<And>s. P s \<Longrightarrow> P (f s)) \<Longrightarrow> keeps P (upd f)"
  by (simp add: keeps_def upd_def)

lemma keeps_bnd [keeps_rules]:
  assumes m: "keeps P m" and f: "\<And>a. keeps P (f a)"
  shows "keeps P (bnd m f)"
  unfolding keeps_def
proof (intro allI impI)
  fix s assume s: "P s"
  show "case bnd m f s of Done a t \<Rightarrow> P t | Asleep t \<Rightarrow> P t | Spin t \<Rightarrow> P t | _ \<Rightarrow> True"
  proof (cases "m s")
    case (Done a t)
    then have "P t" using m s by (auto simp: keeps_def)
    then show ?thesis using f [of a] Done by (simp add: keeps_def bnd_def)
  qed (use m s in \<open>auto simp: keeps_def bnd_def\<close>)
qed

lemma keeps_andthen [keeps_rules]: "keeps P m \<Longrightarrow> keeps P n \<Longrightarrow> keeps P (andthen m n)"
  using keeps_bnd [of P m "\<lambda>_. n"] by (simp add: andthen_def)

lemma keeps_if [keeps_rules]: "(c \<Longrightarrow> keeps P m) \<Longrightarrow> (\<not> c \<Longrightarrow> keeps P n) \<Longrightarrow> keeps P (if c then m else n)"
  by simp

lemma keeps_whenever [keeps_rules]: "(c \<Longrightarrow> keeps P m) \<Longrightarrow> keeps P (whenever c m)"
  by (simp add: whenever_def keeps_ret)

lemma keeps_deref [keeps_rules]: "keeps P (deref e x)"
  by (cases x) (simp_all add: deref_def keeps_ret keeps_stuck)

lemma keeps_for_each [keeps_rules]: "(\<And>x. keeps P (f x)) \<Longrightarrow> keeps P (for_each xs f)"
  by (induction xs) (simp_all add: keeps_ret keeps_andthen)

lemma keeps_cases [keeps_rules]:
  "(x = None \<Longrightarrow> keeps P m) \<Longrightarrow> (\<And>y. x = Some y \<Longrightarrow> keeps P (f y)) \<Longrightarrow> keeps P (case x of None \<Rightarrow> m | Some y \<Rightarrow> f y)"
  "(\<And>a b. p = (a, b) \<Longrightarrow> keeps P (g a b)) \<Longrightarrow> keeps P (case p of (a, b) \<Rightarrow> g a b)"
  "(\<And>a b. p = (a, b) \<Longrightarrow> keeps P (g' a b x')) \<Longrightarrow> keeps P ((case p of (a, b) \<Rightarrow> g' a b) x')"
  "(l = [] \<Longrightarrow> keeps P m) \<Longrightarrow> (\<And>z zs. l = z # zs \<Longrightarrow> keeps P (h z zs)) \<Longrightarrow> keeps P (case l of [] \<Rightarrow> m | z # zs \<Rightarrow> h z zs)"
  "keeps P m \<Longrightarrow> (\<And>b. keeps P (k b)) \<Longrightarrow> keeps P (case r of BHead \<Rightarrow> m | Buf b \<Rightarrow> k b)"
  "keeps P m \<Longrightarrow> keeps P m1 \<Longrightarrow> keeps P m2 \<Longrightarrow> keeps P (case t of FD_NONE \<Rightarrow> m | FD_PIPE \<Rightarrow> m1 | FD_INODE \<Rightarrow> m2)"
  "keeps P m \<Longrightarrow> keeps P (case d of ConsoleDev \<Rightarrow> m)"
  "(\<And>n. v = ArgInt n \<Longrightarrow> keeps P (i n)) \<Longrightarrow> (\<And>q. v = ArgStr q \<Longrightarrow> keeps P (j q)) \<Longrightarrow> keeps P (case v of ArgInt n \<Rightarrow> i n | ArgStr q \<Rightarrow> j q)"
  by (auto split: option.split prod.split list.split bref.split devfn.split fmtarg.split ftype.split)

lemma keeps_Let [keeps_rules]: "(\<And>y. y = x \<Longrightarrow> keeps P (f y)) \<Longrightarrow> keeps P (Let x f)"
  by simp

section \<open>Well-formed data\<close>

definition proc_ok :: "proc \<Rightarrow> bool" where
  "proc_ok p \<longleftrightarrow> length (p_ofile p) = NOFILE"

definition inode_ok :: "inode \<Rightarrow> bool" where
  "inode_ok r \<longleftrightarrow> length (i_addrs r) = NDIRECT + 1"

definition file_ok :: "file_t \<Rightarrow> bool" where
  "file_ok f \<longleftrightarrow> 0 \<le> f_ref f"

definition pipe_fits :: "pipe \<Rightarrow> bool" where
  "pipe_fits q \<longleftrightarrow> length (pi_data q) = 512 \<and> pi_nwrite q - pi_nread q \<le> PIPESIZE"

definition kern_ok :: "'z kern_scheme \<Rightarrow> bool" where
  "kern_ok s \<longleftrightarrow> length (cpus s) = NCPU \<and> length (pt_proc s) = NPROC \<and> list_all proc_ok (pt_proc s) \<and> length (pt_mlf s) = 4 \<and>
     length (bc_buf s) = NBUF \<and> length (lh_sector s) = LOGSIZE \<and> length (in_buf s) = 128 \<and>
     length (icache s) = NINODE \<and> list_all inode_ok (icache s) \<and> length (devsw_read s) = NDEV \<and> length (devsw_write s) = NDEV \<and>
     length (ftable s) = NFILE \<and> list_all file_ok (ftable s) \<and> (\<forall>p. pipe_fits (pipes s p))"

lemma kern_ok_frame [simp]:
  "kern_ok (s\<lparr>spinlocks := x1\<rparr>) = kern_ok s" "kern_ok (s\<lparr>con_locking := x2\<rparr>) = kern_ok s" "kern_ok (s\<lparr>con_panicked := x2\<rparr>) = kern_ok s"
  "kern_ok (s\<lparr>serial := x3\<rparr>) = kern_ok s" "kern_ok (s\<lparr>crt := x4\<rparr>) = kern_ok s" "kern_ok (s\<lparr>crtpos := x5\<rparr>) = kern_ok s"
  "kern_ok (s\<lparr>pt_size := x6\<rparr>) = kern_ok s" "kern_ok (s\<lparr>initproc := x7\<rparr>) = kern_ok s" "kern_ok (s\<lparr>nextpid := x6\<rparr>) = kern_ok s"
  "kern_ok (s\<lparr>ticks := x8\<rparr>) = kern_ok s" "kern_ok (s\<lparr>kpgdir := x8\<rparr>) = kern_ok s" "kern_ok (s\<lparr>mem := x9\<rparr>) = kern_ok s"
  "kern_ok (s\<lparr>kmem_use_lock := x2\<rparr>) = kern_ok s" "kern_ok (s\<lparr>freelist := x8\<rparr>) = kern_ok s"
  "kern_ok (s\<lparr>bc_head_prev := x10\<rparr>) = kern_ok s" "kern_ok (s\<lparr>bc_head_next := x10\<rparr>) = kern_ok s" "kern_ok (s\<lparr>disk := x11\<rparr>) = kern_ok s"
  "kern_ok (s\<lparr>disk_trace := x12\<rparr>) = kern_ok s" "kern_ok (s\<lparr>disksize := x6\<rparr>) = kern_ok s" "kern_ok (s\<lparr>log_start := x6\<rparr>) = kern_ok s"
  "kern_ok (s\<lparr>log_size := x6\<rparr>) = kern_ok s" "kern_ok (s\<lparr>log_busy := x2\<rparr>) = kern_ok s" "kern_ok (s\<lparr>log_dev := x8\<rparr>) = kern_ok s"
  "kern_ok (s\<lparr>lh_n := x6\<rparr>) = kern_ok s" "kern_ok (s\<lparr>in_r := x8\<rparr>) = kern_ok s" "kern_ok (s\<lparr>in_w := x8\<rparr>) = kern_ok s"
  "kern_ok (s\<lparr>in_e := x8\<rparr>) = kern_ok s" "kern_ok (s\<lparr>kbd_shift := x8\<rparr>) = kern_ok s" "kern_ok (s\<lparr>kbd_port := x3\<rparr>) = kern_ok s"
  "kern_ok (s\<lparr>uart_port := x3\<rparr>) = kern_ok s" "kern_ok (s\<lparr>forkret_first := x2\<rparr>) = kern_ok s" "kern_ok (s\<lparr>mycpu := x5\<rparr>) = kern_ok s" "kern_ok (s\<lparr>cr2 := x8\<rparr>) = kern_ok s"
  by (simp_all add: kern_ok_def)

lemma kern_ok_cpu [simp]: "kern_ok (upd_cpu f s) = kern_ok s" "kern_ok (upd_lock l g s) = kern_ok s"
  by (simp_all add: upd_cpu_def upd_lock_def kern_ok_def)

lemma kern_ok_lists:
  "kern_ok s \<Longrightarrow> kern_ok (s\<lparr>bc_buf := (bc_buf s)[i := x1]\<rparr>)" "kern_ok s \<Longrightarrow> kern_ok (s\<lparr>lh_sector := (lh_sector s)[i := x2]\<rparr>)"
  "kern_ok s \<Longrightarrow> kern_ok (s\<lparr>in_buf := (in_buf s)[i := x3]\<rparr>)" "kern_ok s \<Longrightarrow> kern_ok (s\<lparr>devsw_read := (devsw_read s)[i := x4]\<rparr>)"
  "kern_ok s \<Longrightarrow> kern_ok (s\<lparr>devsw_write := (devsw_write s)[i := x4]\<rparr>)" "kern_ok s \<Longrightarrow> kern_ok (s\<lparr>pt_mlf := (pt_mlf s)[i := x5]\<rparr>)"
  by (simp_all add: kern_ok_def)

declare kern_ok_lists [simp]

text \<open>The updates of an entry of a table keep it well-formed when they keep the entry so.\<close>

lemma list_all_upd: "list_all P xs \<Longrightarrow> (\<And>x. P x \<Longrightarrow> P (f x)) \<Longrightarrow> list_all P (xs[i := f (xs ! i)])"
  by (cases "i < length xs") (simp_all add: list_all_length nth_list_update)

lemma keeps_pset [keeps_rules]: "(\<And>r. proc_ok r \<Longrightarrow> proc_ok (f r)) \<Longrightarrow> keeps kern_ok (pset p f)"
  unfolding pset_def by (intro keeps_rules) (simp add: kern_ok_def list_all_upd)

lemma keeps_inode_set [keeps_rules]: "(\<And>r. inode_ok r \<Longrightarrow> inode_ok (f r)) \<Longrightarrow> keeps kern_ok (inode_set ip f)"
  unfolding inode_set_def by (intro keeps_rules) (simp add: kern_ok_def list_all_upd)

lemma keeps_file_set [keeps_rules]: "(\<And>r. file_ok r \<Longrightarrow> file_ok (f r)) \<Longrightarrow> keeps kern_ok (file_set i f)"
  unfolding file_set_def by (intro keeps_rules) (simp add: kern_ok_def list_all_upd)

lemma keeps_pipe_set [keeps_rules]: "(\<And>q. pipe_fits q \<Longrightarrow> pipe_fits (f q)) \<Longrightarrow> keeps kern_ok (pipe_set i f)"
  unfolding pipe_set_def by (intro keeps_rules) (auto simp: kern_ok_def)

lemmas entry_ok_defs = proc_ok_def inode_ok_def file_ok_def pipe_fits_def

lemma length_dinode_load [simp]: "length (i_addrs (dinode_load d i r)) = NDIRECT + 1"
  by (simp add: dinode_load_def Let_def)

text \<open>A byte is put into a pipe that is not full, and taken from one that is not empty.\<close>

lemma pipe_fits_put:
  assumes "pipe_fits q" and "pi_nwrite q \<noteq> pi_nread q + PIPESIZE"
  shows "pipe_fits (pipe_put b q)"
proof -
  let ?d = "pi_nwrite q - pi_nread q"
  have "?d \<noteq> 512" using assms(2) by (auto simp: PIPESIZE_def diff_eq_eq add.commute)
  then have "?d < 512" using assms(1) by (simp add: pipe_fits_def PIPESIZE_def order_less_le)
  then have "?d + 1 \<le> 512" by (rule inc_le)
  then show ?thesis using assms(1) by (simp add: pipe_fits_def pipe_put_def PIPESIZE_def algebra_simps)
qed

lemma pipe_fits_take:
  assumes "pipe_fits q" and "pi_nread q \<noteq> pi_nwrite q"
  shows "pipe_fits (snd (pipe_take q))"
proof -
  let ?d = "pi_nwrite q - pi_nread q"
  have "?d \<noteq> 0" "?d \<le> 512" using assms by (auto simp: pipe_fits_def PIPESIZE_def)
  then have "?d - 1 \<le> 512" by (simp add: word_le_nat_alt unat_minus_one)
  then show ?thesis using assms(1) by (simp add: pipe_fits_def pipe_take_def PIPESIZE_def algebra_simps)
qed

lemma keeps_pipe_step:
  fixes m :: "pipe \<Rightarrow> ('z kern_scheme, 'a) kop"
  assumes "\<And>q. pipe_fits q \<Longrightarrow> \<not> c q \<Longrightarrow> pipe_fits (f q)" and "\<And>q. c q \<Longrightarrow> keeps kern_ok (m q)" and "\<And>q. \<not> c q \<Longrightarrow> keeps kern_ok (n q)"
  shows "keeps kern_ok (bnd (pipe_get p) (\<lambda>q. if c q then m q else andthen (pipe_set p f) (n q)))"
  unfolding keeps_def
proof (intro allI impI)
  fix s :: "'z kern_scheme" assume s: "kern_ok s"
  let ?q = "pipes s p" and ?t = "s\<lparr>pipes := (pipes s)(p := f (pipes s p))\<rparr>"
  have t: "kern_ok ?t" if "\<not> c ?q" using s assms(1) [of ?q] that by (simp add: kern_ok_def)
  have e: "bnd (pipe_get p) (\<lambda>q. if c q then m q else andthen (pipe_set p f) (n q)) s = (if c ?q then m ?q s else n ?q ?t)"
    by (simp add: bnd_def andthen_def pipe_get_def pipe_set_def gets_def upd_def)
  show "case bnd (pipe_get p) (\<lambda>q. if c q then m q else andthen (pipe_set p f) (n q)) s of
      Done a t \<Rightarrow> kern_ok t | Asleep t \<Rightarrow> kern_ok t | Spin t \<Rightarrow> kern_ok t | _ \<Rightarrow> True"
    unfolding e using assms(2,3) [of ?q] s t by (cases "c ?q") (simp_all add: keeps_def)
qed

text \<open>A reference to a file that has one is dropped.\<close>

lemma keeps_file_step:
  fixes m :: "file_t \<Rightarrow> ('z kern_scheme, 'a) kop"
  assumes "\<And>q. file_ok q \<Longrightarrow> \<not> c q \<Longrightarrow> file_ok (f q)" and "\<And>q. c q \<Longrightarrow> keeps kern_ok (m q)" and "\<And>q. \<not> c q \<Longrightarrow> keeps kern_ok (n q)"
  shows "keeps kern_ok (bnd (file_get p) (\<lambda>q. if c q then m q else andthen (file_set p f) (n q)))"
  unfolding keeps_def
proof (intro allI impI)
  fix s :: "'z kern_scheme" assume s: "kern_ok s"
  let ?q = "ftable s ! p" and ?t = "s\<lparr>ftable := (ftable s)[p := f (ftable s ! p)]\<rparr>"
  have t: "kern_ok ?t" if "\<not> c ?q" "p < length (ftable s)"
    using s assms(1) [of ?q] that by (simp add: kern_ok_def list_all_length nth_list_update)
  have e: "bnd (file_get p) (\<lambda>q. if c q then m q else andthen (file_set p f) (n q)) s =
      (if p < length (ftable s) then if c ?q then m ?q s else n ?q ?t else Fault ''file'')"
    by (simp add: bnd_def andthen_def file_get_def file_set_def gets_def upd_def ret_def fault_def)
  show "case bnd (file_get p) (\<lambda>q. if c q then m q else andthen (file_set p f) (n q)) s of
      Done a t \<Rightarrow> kern_ok t | Asleep t \<Rightarrow> kern_ok t | Spin t \<Rightarrow> kern_ok t | _ \<Rightarrow> True"
    unfolding e using assms(2,3) [of ?q] s t by (cases "c ?q") (simp_all add: keeps_def)
qed

section \<open>Every operation\<close>

lemma keeps_initlock [keeps_rules]: "keeps kern_ok (initlock a b)"
  unfolding initlock_def Let_def by (intro keeps_rules; simp add: entry_ok_defs)

lemma keeps_cli [keeps_rules]: "keeps kern_ok cli"
  unfolding cli_def Let_def by (intro keeps_rules; simp add: entry_ok_defs)

lemma keeps_sti [keeps_rules]: "keeps kern_ok sti"
  unfolding sti_def Let_def by (intro keeps_rules; simp add: entry_ok_defs)

lemma keeps_pushcli [keeps_rules]: "keeps kern_ok pushcli"
  unfolding pushcli_def Let_def by (intro keeps_rules; simp add: entry_ok_defs)

lemma keeps_popcli [keeps_rules]: "keeps kern_ok popcli"
  unfolding popcli_def Let_def by (intro keeps_rules; simp add: entry_ok_defs)

lemma keeps_acquire [keeps_rules]: "keeps kern_ok (acquire a)"
  unfolding acquire_def Let_def by (intro keeps_rules; simp add: entry_ok_defs)

lemma keeps_release [keeps_rules]: "keeps kern_ok (release a)"
  unfolding release_def Let_def by (intro keeps_rules; simp add: entry_ok_defs)

lemma keeps_uartputc [keeps_rules]: "keeps kern_ok (uartputc a)"
  unfolding uartputc_def Let_def by (intro keeps_rules; simp add: entry_ok_defs)

lemma keeps_crt_store [keeps_rules]: "keeps kern_ok (crt_store a b)"
  unfolding crt_store_def Let_def by (intro keeps_rules; simp add: entry_ok_defs)

lemma keeps_crt_scroll [keeps_rules]: "keeps kern_ok (crt_scroll a)"
  unfolding crt_scroll_def Let_def by (intro keeps_rules; simp add: entry_ok_defs)

lemma keeps_cga_char [keeps_rules]: "keeps kern_ok (cga_char a b)"
  unfolding cga_char_def Let_def by (intro keeps_rules; simp add: entry_ok_defs)

lemma keeps_cga_finish [keeps_rules]: "keeps kern_ok (cga_finish a)"
  unfolding cga_finish_def Let_def by (intro keeps_rules; simp add: entry_ok_defs)

lemma keeps_cgaputc [keeps_rules]: "keeps kern_ok (cgaputc a)"
  unfolding cgaputc_def Let_def by (intro keeps_rules; simp add: entry_ok_defs)

lemma keeps_consputc [keeps_rules]: "keeps kern_ok (consputc a)"
  unfolding consputc_def Let_def by (intro keeps_rules; simp add: entry_ok_defs)

lemma keeps_consputs [keeps_rules]: "keeps kern_ok (consputs a)"
  unfolding consputs_def Let_def by (intro keeps_rules; simp add: entry_ok_defs)

lemma keeps_printint [keeps_rules]: "keeps kern_ok (printint a b c)"
  unfolding printint_def Let_def by (intro keeps_rules; simp add: entry_ok_defs)

lemma keeps_cprintf_loop [keeps_rules]: "keeps kern_ok (cprintf_loop a b)"
  by (induction a b rule: cprintf_loop.induct; subst cprintf_loop.simps; (intro keeps_rules; (assumption | simp add: entry_ok_defs)))

lemma keeps_cprintf [keeps_rules]: "keeps kern_ok (cprintf a b)"
  unfolding cprintf_def Let_def by (intro keeps_rules; simp add: entry_ok_defs)

lemma keeps_pget [keeps_rules]: "keeps kern_ok (pget a)"
  unfolding pget_def Let_def by (intro keeps_rules; simp add: entry_ok_defs)

lemma keeps_mlf_get [keeps_rules]: "keeps kern_ok (mlf_get a)"
  unfolding mlf_get_def Let_def by (intro keeps_rules; simp add: entry_ok_defs)

lemma keeps_mlf_set [keeps_rules]: "keeps kern_ok (mlf_set a b)"
  unfolding mlf_set_def Let_def by (intro keeps_rules; simp add: entry_ok_defs)

lemma keeps_curproc [keeps_rules]: "keeps kern_ok curproc"
  unfolding curproc_def Let_def by (intro keeps_rules; simp add: entry_ok_defs)

lemma keeps_myproc [keeps_rules]: "keeps kern_ok myproc"
  unfolding myproc_def Let_def by (intro keeps_rules; simp add: entry_ok_defs)

lemma keeps_sizeLevels [keeps_rules]: "keeps kern_ok sizeLevels"
  unfolding sizeLevels_def Let_def by (intro keeps_rules; simp add: entry_ok_defs)

lemma keeps_encolar [keeps_rules]: "keeps kern_ok (encolar a b)"
  unfolding encolar_def Let_def by (intro keeps_rules; simp add: entry_ok_defs)

lemma keeps_desencolar [keeps_rules]: "keeps kern_ok (desencolar a)"
  unfolding desencolar_def Let_def by (intro keeps_rules; simp add: entry_ok_defs)

lemma keeps_make_runnable [keeps_rules]: "keeps kern_ok (make_runnable a b)"
  unfolding make_runnable_def Let_def by (intro keeps_rules; simp add: entry_ok_defs)

lemma keeps_make_running [keeps_rules]: "keeps kern_ok (make_running a)"
  unfolding make_running_def Let_def by (intro keeps_rules; simp add: entry_ok_defs)

lemma keeps_set_priority [keeps_rules]: "keeps kern_ok (set_priority a b)"
  unfolding set_priority_def Let_def by (intro keeps_rules; simp add: entry_ok_defs)

lemma keeps_pinit [keeps_rules]: "keeps kern_ok pinit"
  unfolding pinit_def Let_def by (intro keeps_rules; simp add: entry_ok_defs)

lemma keeps_switchkvm [keeps_rules]: "keeps kern_ok switchkvm"
  unfolding switchkvm_def Let_def by (intro keeps_rules; simp add: entry_ok_defs)

lemma keeps_switchuvm [keeps_rules]: "keeps kern_ok (switchuvm a)"
  unfolding switchuvm_def Let_def by (intro keeps_rules; simp add: entry_ok_defs)

lemma keeps_sched [keeps_rules]: "keeps kern_ok sched"
  unfolding sched_def Let_def by (intro keeps_rules; simp add: entry_ok_defs)

lemma keeps_sched_return [keeps_rules]: "keeps kern_ok sched_return"
  unfolding sched_return_def Let_def by (intro keeps_rules; simp add: entry_ok_defs)

lemma keeps_yield [keeps_rules]: "keeps kern_ok yield"
  unfolding yield_def Let_def by (intro keeps_rules; simp add: entry_ok_defs)

lemma keeps_yield_return [keeps_rules]: "keeps kern_ok yield_return"
  unfolding yield_return_def Let_def by (intro keeps_rules; simp add: entry_ok_defs)

lemma keeps_sleep [keeps_rules]: "keeps kern_ok (sleep a b)"
  unfolding sleep_def Let_def by (intro keeps_rules; simp add: entry_ok_defs)

lemma keeps_sleep_return [keeps_rules]: "keeps kern_ok (sleep_return a)"
  unfolding sleep_return_def Let_def by (intro keeps_rules; simp add: entry_ok_defs)

lemma keeps_wakeup1 [keeps_rules]: "keeps kern_ok (wakeup1 a)"
  unfolding wakeup1_def Let_def by (intro keeps_rules; simp add: entry_ok_defs)

lemma keeps_wakeup [keeps_rules]: "keeps kern_ok (wakeup a)"
  unfolding wakeup_def Let_def by (intro keeps_rules; simp add: entry_ok_defs)

lemma keeps_kill_loop [keeps_rules]: "keeps kern_ok (kill_loop a b)"
  by (induction a b rule: kill_loop.induct; subst kill_loop.simps; (intro keeps_rules; (assumption | simp add: entry_ok_defs)))

lemma keeps_kill [keeps_rules]: "keeps kern_ok (kill a)"
  unfolding kill_def Let_def by (intro keeps_rules; simp add: entry_ok_defs)

lemma keeps_find_unused [keeps_rules]: "keeps kern_ok (find_unused a)"
  by (induction a rule: find_unused.induct; subst find_unused.simps; (intro keeps_rules; (assumption | simp add: entry_ok_defs)))

lemma keeps_alloc_slot [keeps_rules]: "keeps kern_ok alloc_slot"
  unfolding alloc_slot_def Let_def by (intro keeps_rules; simp add: entry_ok_defs)

lemma keeps_publish [keeps_rules]: "keeps kern_ok (publish a)"
  unfolding publish_def Let_def by (intro keeps_rules; simp add: entry_ok_defs)

lemma keeps_reparent [keeps_rules]: "keeps kern_ok (reparent a b)"
  unfolding reparent_def Let_def by (intro keeps_rules; simp add: entry_ok_defs)

lemma keeps_exit_table [keeps_rules]: "keeps kern_ok exit_table"
  unfolding exit_table_def Let_def by (intro keeps_rules; simp add: entry_ok_defs)

lemma keeps_reap_slot [keeps_rules]: "keeps kern_ok (reap_slot a)"
  unfolding reap_slot_def Let_def by (intro keeps_rules; simp add: entry_ok_defs)

lemma keeps_scheduler_top [keeps_rules]: "keeps kern_ok scheduler_top"
  unfolding scheduler_top_def Let_def by (intro keeps_rules; simp add: entry_ok_defs)

lemma keeps_scheduler_pick [keeps_rules]: "keeps kern_ok scheduler_pick"
  unfolding scheduler_pick_def Let_def by (intro keeps_rules; simp add: entry_ok_defs)

lemma keeps_scheduler_back [keeps_rules]: "keeps kern_ok scheduler_back"
  unfolding scheduler_back_def Let_def by (intro keeps_rules; simp add: entry_ok_defs)

lemma keeps_scheduler_advance [keeps_rules]: "keeps kern_ok scheduler_advance"
  unfolding scheduler_advance_def Let_def by (intro keeps_rules; simp add: entry_ok_defs)

lemma keeps_scheduler_out [keeps_rules]: "keeps kern_ok scheduler_out"
  unfolding scheduler_out_def Let_def by (intro keeps_rules; simp add: entry_ok_defs)

lemma keeps_store32 [keeps_rules]: "keeps kern_ok (store32 a b)"
  unfolding store32_def Let_def by (intro keeps_rules; simp add: entry_ok_defs)

lemma keeps_load32 [keeps_rules]: "keeps kern_ok (load32 a)"
  unfolding load32_def Let_def by (intro keeps_rules; simp add: entry_ok_defs)

lemma keeps_kmemset [keeps_rules]: "keeps kern_ok (kmemset a b c)"
  unfolding kmemset_def Let_def by (intro keeps_rules; simp add: entry_ok_defs)

lemma keeps_kmemmove [keeps_rules]: "keeps kern_ok (kmemmove a b c)"
  unfolding kmemmove_def Let_def by (intro keeps_rules; simp add: entry_ok_defs)

lemma keeps_kfree [keeps_rules]: "keeps kern_ok (kfree a)"
  unfolding kfree_def Let_def by (intro keeps_rules; simp add: entry_ok_defs)

lemma keeps_kalloc [keeps_rules]: "keeps kern_ok kalloc"
  unfolding kalloc_def Let_def by (intro keeps_rules; simp add: entry_ok_defs)

lemma keeps_freerange_loop [keeps_rules]: "keeps kern_ok (freerange_loop a b)"
  by (induction a b rule: freerange_loop.induct; subst freerange_loop.simps; (intro keeps_rules; (assumption | simp add: entry_ok_defs)))

lemma keeps_freerange [keeps_rules]: "keeps kern_ok (freerange a b)"
  unfolding freerange_def Let_def by (intro keeps_rules; simp add: entry_ok_defs)

lemma keeps_kinit1 [keeps_rules]: "keeps kern_ok (kinit1 a b)"
  unfolding kinit1_def Let_def by (intro keeps_rules; simp add: entry_ok_defs)

lemma keeps_kinit2 [keeps_rules]: "keeps kern_ok (kinit2 a b)"
  unfolding kinit2_def Let_def by (intro keeps_rules; simp add: entry_ok_defs)

lemma keeps_walkpgdir [keeps_rules]: "keeps kern_ok (walkpgdir a b c)"
  unfolding walkpgdir_def Let_def by (intro keeps_rules; simp add: entry_ok_defs)

lemma keeps_mappages_loop [keeps_rules]: "keeps kern_ok (mappages_loop a b c d e)"
  by (induction a b c d e rule: mappages_loop.induct; subst mappages_loop.simps; (intro keeps_rules; (assumption | simp add: entry_ok_defs)))

lemma keeps_mappages [keeps_rules]: "keeps kern_ok (mappages a b c d e)"
  unfolding mappages_def Let_def by (intro keeps_rules; simp add: entry_ok_defs)

lemma keeps_setupkvm_loop [keeps_rules]: "keeps kern_ok (setupkvm_loop a b)"
  by (induction a b rule: setupkvm_loop.induct; subst setupkvm_loop.simps; (intro keeps_rules; (assumption | simp add: entry_ok_defs)))

lemma keeps_setupkvm [keeps_rules]: "keeps kern_ok setupkvm"
  unfolding setupkvm_def Let_def by (intro keeps_rules; simp add: entry_ok_defs)

lemma keeps_kvmalloc [keeps_rules]: "keeps kern_ok kvmalloc"
  unfolding kvmalloc_def Let_def by (intro keeps_rules; simp add: entry_ok_defs)

lemma keeps_inituvm [keeps_rules]: "keeps kern_ok (inituvm a b c)"
  unfolding inituvm_def Let_def by (intro keeps_rules; simp add: entry_ok_defs)

lemma keeps_deallocuvm_loop [keeps_rules]: "keeps kern_ok (deallocuvm_loop a b c)"
  by (induction a b c rule: deallocuvm_loop.induct; subst deallocuvm_loop.simps; (intro keeps_rules; (assumption | simp add: entry_ok_defs)))

lemma keeps_deallocuvm [keeps_rules]: "keeps kern_ok (deallocuvm a b c)"
  unfolding deallocuvm_def Let_def by (intro keeps_rules; simp add: entry_ok_defs)

lemma keeps_allocuvm_loop [keeps_rules]: "keeps kern_ok (allocuvm_loop a b c d)"
  by (induction a b c d rule: allocuvm_loop.induct; subst allocuvm_loop.simps; (intro keeps_rules; (assumption | simp add: entry_ok_defs)))

lemma keeps_allocuvm [keeps_rules]: "keeps kern_ok (allocuvm a b c)"
  unfolding allocuvm_def Let_def by (intro keeps_rules; simp add: entry_ok_defs)

lemma keeps_freevm [keeps_rules]: "keeps kern_ok (freevm a)"
  unfolding freevm_def Let_def by (intro keeps_rules; simp add: entry_ok_defs)

lemma keeps_clearpteu [keeps_rules]: "keeps kern_ok (clearpteu a b)"
  unfolding clearpteu_def Let_def by (intro keeps_rules; simp add: entry_ok_defs)

lemma keeps_copyuvm_loop [keeps_rules]: "keeps kern_ok (copyuvm_loop a b c d)"
  by (induction a b c d rule: copyuvm_loop.induct; subst copyuvm_loop.simps; (intro keeps_rules; (assumption | simp add: entry_ok_defs)))

lemma keeps_copyuvm [keeps_rules]: "keeps kern_ok (copyuvm a b)"
  unfolding copyuvm_def Let_def by (intro keeps_rules; simp add: entry_ok_defs)

lemma keeps_uva2ka [keeps_rules]: "keeps kern_ok (uva2ka a b)"
  unfolding uva2ka_def Let_def by (intro keeps_rules; simp add: entry_ok_defs)

lemma keeps_copyout [keeps_rules]: "keeps kern_ok (copyout a b c d)"
  by (induction a b c d rule: copyout.induct; subst copyout.simps; (intro keeps_rules; (assumption | simp add: entry_ok_defs)))

lemma keeps_bufget [keeps_rules]: "keeps kern_ok (bufget a)"
  unfolding bufget_def Let_def by (intro keeps_rules; simp add: entry_ok_defs)

lemma keeps_bufset [keeps_rules]: "keeps kern_ok (bufset a b)"
  unfolding bufset_def Let_def by (intro keeps_rules; simp add: entry_ok_defs)

lemma keeps_set_next [keeps_rules]: "keeps kern_ok (set_next a b)"
  unfolding set_next_def Let_def by (intro keeps_rules; simp add: entry_ok_defs)

lemma keeps_set_prev [keeps_rules]: "keeps kern_ok (set_prev a b)"
  unfolding set_prev_def Let_def by (intro keeps_rules; simp add: entry_ok_defs)

lemma keeps_mem_ideinit [keeps_rules]: "keeps kern_ok (mem_ideinit a)"
  unfolding mem_ideinit_def Let_def by (intro keeps_rules; simp add: entry_ok_defs)

lemma keeps_disk_write [keeps_rules]: "keeps kern_ok (disk_write a b)"
  unfolding disk_write_def Let_def by (intro keeps_rules; simp add: entry_ok_defs)

lemma keeps_mem_iderw [keeps_rules]: "keeps kern_ok (mem_iderw a)"
  unfolding mem_iderw_def Let_def by (intro keeps_rules; simp add: entry_ok_defs)

lemma keeps_binit_one [keeps_rules]: "keeps kern_ok (binit_one a)"
  unfolding binit_one_def Let_def by (intro keeps_rules; simp add: entry_ok_defs)

lemma keeps_binit [keeps_rules]: "keeps kern_ok binit"
  unfolding binit_def Let_def by (intro keeps_rules; simp add: entry_ok_defs)

lemma keeps_bget_loop [keeps_rules]: "keeps kern_ok (bget_loop a b)"
  unfolding bget_loop_def Let_def by (intro keeps_rules; simp add: entry_ok_defs)

lemma keeps_bget [keeps_rules]: "keeps kern_ok (bget a b)"
  unfolding bget_def Let_def by (intro keeps_rules; simp add: entry_ok_defs)

lemma keeps_bread [keeps_rules]: "keeps kern_ok (bread a b)"
  unfolding bread_def Let_def by (intro keeps_rules; simp add: entry_ok_defs)

lemma keeps_bwrite [keeps_rules]: "keeps kern_ok (bwrite a)"
  unfolding bwrite_def Let_def by (intro keeps_rules; simp add: entry_ok_defs)

lemma keeps_brelse [keeps_rules]: "keeps kern_ok (brelse a)"
  unfolding brelse_def Let_def by (intro keeps_rules; simp add: entry_ok_defs)

lemma keeps_readsb [keeps_rules]: "keeps kern_ok (readsb a)"
  unfolding readsb_def Let_def by (intro keeps_rules; simp add: entry_ok_defs)

lemma keeps_lh_get [keeps_rules]: "keeps kern_ok (lh_get a)"
  unfolding lh_get_def Let_def by (intro keeps_rules; simp add: entry_ok_defs)

lemma keeps_lh_set [keeps_rules]: "keeps kern_ok (lh_set a b)"
  unfolding lh_set_def Let_def by (intro keeps_rules; simp add: entry_ok_defs)

lemma keeps_install_one [keeps_rules]: "keeps kern_ok (install_one a)"
  unfolding install_one_def Let_def by (intro keeps_rules; simp add: entry_ok_defs)

lemma keeps_install_trans [keeps_rules]: "keeps kern_ok install_trans"
  unfolding install_trans_def Let_def by (intro keeps_rules; simp add: entry_ok_defs)

lemma keeps_read_head [keeps_rules]: "keeps kern_ok read_head"
  unfolding read_head_def Let_def by (intro keeps_rules; simp add: entry_ok_defs)

lemma keeps_write_head [keeps_rules]: "keeps kern_ok write_head"
  unfolding write_head_def Let_def by (intro keeps_rules; simp add: entry_ok_defs)

lemma keeps_recover_from_log [keeps_rules]: "keeps kern_ok recover_from_log"
  unfolding recover_from_log_def Let_def by (intro keeps_rules; simp add: entry_ok_defs)

lemma keeps_initlog [keeps_rules]: "keeps kern_ok initlog"
  unfolding initlog_def Let_def by (intro keeps_rules; simp add: entry_ok_defs)

lemma keeps_begin_trans_wait [keeps_rules]: "keeps kern_ok begin_trans_wait"
  unfolding begin_trans_wait_def Let_def by (intro keeps_rules; simp add: entry_ok_defs)

lemma keeps_begin_trans [keeps_rules]: "keeps kern_ok begin_trans"
  unfolding begin_trans_def Let_def by (intro keeps_rules; simp add: entry_ok_defs)

lemma keeps_commit_trans [keeps_rules]: "keeps kern_ok commit_trans"
  unfolding commit_trans_def Let_def by (intro keeps_rules; simp add: entry_ok_defs)

lemma keeps_log_write [keeps_rules]: "keeps kern_ok (log_write a)"
  unfolding log_write_def Let_def by (intro keeps_rules; simp add: entry_ok_defs)

lemma keeps_in_get [keeps_rules]: "keeps kern_ok (in_get a)"
  unfolding in_get_def Let_def by (intro keeps_rules; simp add: entry_ok_defs)

lemma keeps_in_put [keeps_rules]: "keeps kern_ok (in_put a b)"
  unfolding in_put_def Let_def by (intro keeps_rules; simp add: entry_ok_defs)

lemma keeps_procdump [keeps_rules]: "keeps kern_ok procdump"
  unfolding procdump_def Let_def by (intro keeps_rules; simp add: entry_ok_defs)

lemma keeps_kill_line [keeps_rules]: "keeps kern_ok (kill_line a)"
  by (induction a rule: kill_line.induct; subst kill_line.simps; (intro keeps_rules; (assumption | simp add: entry_ok_defs)))

lemma keeps_erase_char [keeps_rules]: "keeps kern_ok erase_char"
  unfolding erase_char_def Let_def by (intro keeps_rules; simp add: entry_ok_defs)

lemma keeps_store_char [keeps_rules]: "keeps kern_ok (store_char a)"
  unfolding store_char_def Let_def by (intro keeps_rules; simp add: entry_ok_defs)

lemma keeps_consoleintr_char [keeps_rules]: "keeps kern_ok (consoleintr_char a)"
  unfolding consoleintr_char_def Let_def by (intro keeps_rules; simp add: entry_ok_defs)

lemma keeps_consoleintr_loop [keeps_rules]: "keeps kern_ok getc \<Longrightarrow> keeps kern_ok (consoleintr_loop n getc)"
  by (induction n getc rule: consoleintr_loop.induct; subst consoleintr_loop.simps; intro keeps_rules; simp)

lemma keeps_consoleintr [keeps_rules]: "keeps kern_ok getc \<Longrightarrow> keeps kern_ok (consoleintr n getc)"
  unfolding consoleintr_def by (intro keeps_rules)

lemma keeps_kbd_getc [keeps_rules]: "keeps kern_ok kbd_getc"
  unfolding kbd_getc_def Let_def by (intro keeps_rules; simp add: entry_ok_defs)

lemma keeps_kbdintr [keeps_rules]: "keeps kern_ok kbdintr"
  unfolding kbdintr_def Let_def by (intro keeps_rules; simp add: entry_ok_defs)

lemma keeps_uartgetc [keeps_rules]: "keeps kern_ok uartgetc"
  unfolding uartgetc_def Let_def by (intro keeps_rules; simp add: entry_ok_defs)

lemma keeps_uartintr [keeps_rules]: "keeps kern_ok uartintr"
  unfolding uartintr_def Let_def by (intro keeps_rules; simp add: entry_ok_defs)

lemma keeps_inode_get [keeps_rules]: "keeps kern_ok (inode_get a)"
  unfolding inode_get_def Let_def by (intro keeps_rules; simp add: entry_ok_defs)

lemma keeps_addrs_set [keeps_rules]: "keeps kern_ok (addrs_set a b c)"
  unfolding addrs_set_def Let_def by (intro keeps_rules; simp add: entry_ok_defs)

lemma keeps_bufdata [keeps_rules]: "keeps kern_ok (bufdata a b)"
  unfolding bufdata_def Let_def by (intro keeps_rules; simp add: entry_ok_defs)

lemma keeps_bzero [keeps_rules]: "keeps kern_ok (bzero a b)"
  unfolding bzero_def Let_def by (intro keeps_rules; simp add: entry_ok_defs)

lemma keeps_balloc_scan [keeps_rules]: "keeps kern_ok (balloc_scan a b c)"
  by (induction a b c rule: balloc_scan.induct; subst balloc_scan.simps; (intro keeps_rules; (assumption | blast | simp add: entry_ok_defs)))

lemma keeps_balloc [keeps_rules]: "keeps kern_ok (balloc a)"
  unfolding balloc_def Let_def by (intro keeps_rules; simp add: entry_ok_defs)

lemma keeps_bfree [keeps_rules]: "keeps kern_ok (bfree a b)"
  unfolding bfree_def Let_def by (intro keeps_rules; simp add: entry_ok_defs)

lemma keeps_iinit [keeps_rules]: "keeps kern_ok iinit"
  unfolding iinit_def Let_def by (intro keeps_rules; simp add: entry_ok_defs)

lemma keeps_iget [keeps_rules]: "keeps kern_ok (iget a b)"
  unfolding iget_def Let_def by (intro keeps_rules; simp add: entry_ok_defs)

lemma keeps_ialloc_scan [keeps_rules]: "keeps kern_ok (ialloc_scan a b c)"
  by (induction a b c rule: ialloc_scan.induct; subst ialloc_scan.simps; (intro keeps_rules; (assumption | blast | simp add: entry_ok_defs)))

lemma keeps_ialloc [keeps_rules]: "keeps kern_ok (ialloc a b)"
  unfolding ialloc_def Let_def by (intro keeps_rules; simp add: entry_ok_defs)

lemma keeps_iupdate [keeps_rules]: "keeps kern_ok (iupdate a)"
  unfolding iupdate_def Let_def by (intro keeps_rules; simp add: entry_ok_defs)

lemma keeps_idup [keeps_rules]: "keeps kern_ok (idup a)"
  unfolding idup_def Let_def by (intro keeps_rules; simp add: entry_ok_defs)

lemma keeps_ilock_wait [keeps_rules]: "keeps kern_ok (ilock_wait a)"
  unfolding ilock_wait_def Let_def by (intro keeps_rules; simp add: entry_ok_defs)

lemma keeps_ilock [keeps_rules]: "keeps kern_ok (ilock a)"
  unfolding ilock_def Let_def by (intro keeps_rules; simp add: entry_ok_defs)

lemma keeps_iunlock [keeps_rules]: "keeps kern_ok (iunlock a)"
  unfolding iunlock_def Let_def by (intro keeps_rules; simp add: entry_ok_defs)

lemma keeps_bmap [keeps_rules]: "keeps kern_ok (bmap a b)"
  unfolding bmap_def Let_def by (intro keeps_rules; simp add: entry_ok_defs)

lemma keeps_itrunc [keeps_rules]: "keeps kern_ok (itrunc a)"
  unfolding itrunc_def Let_def by (intro keeps_rules; simp add: entry_ok_defs)

lemma keeps_iput [keeps_rules]: "keeps kern_ok (iput a)"
  unfolding iput_def Let_def by (intro keeps_rules; simp add: entry_ok_defs)

lemma keeps_iunlockput [keeps_rules]: "keeps kern_ok (iunlockput a)"
  unfolding iunlockput_def Let_def by (intro keeps_rules; simp add: entry_ok_defs)

lemma keeps_stati [keeps_rules]: "keeps kern_ok (stati a)"
  unfolding stati_def Let_def by (intro keeps_rules; simp add: entry_ok_defs)

lemma keeps_consoleread_loop [keeps_rules]: "keeps kern_ok (consoleread_loop a b)"
  by (induction a b rule: consoleread_loop.induct; subst consoleread_loop.simps; (intro keeps_rules; (assumption | simp add: entry_ok_defs)))

lemma keeps_consoleread_end [keeps_rules]: "keeps kern_ok (consoleread_end a b)"
  unfolding consoleread_end_def Let_def by (intro keeps_rules; simp add: entry_ok_defs)

lemma keeps_consoleread [keeps_rules]: "keeps kern_ok (consoleread a b)"
  unfolding consoleread_def Let_def by (intro keeps_rules; simp add: entry_ok_defs)

lemma keeps_consolewrite [keeps_rules]: "keeps kern_ok (consolewrite a b c)"
  unfolding consolewrite_def Let_def by (intro keeps_rules; simp add: entry_ok_defs)

lemma keeps_consoleinit [keeps_rules]: "keeps kern_ok consoleinit"
  unfolding consoleinit_def Let_def by (intro keeps_rules; simp add: entry_ok_defs)

lemma keeps_readi_loop [keeps_rules]: "keeps kern_ok (readi_loop a b c)"
  by (induction a b c rule: readi_loop.induct; subst readi_loop.simps; (intro keeps_rules; (assumption | simp add: entry_ok_defs)))

lemma keeps_readi [keeps_rules]: "keeps kern_ok (readi a b c)"
  unfolding readi_def Let_def by (intro keeps_rules; simp add: entry_ok_defs)

lemma keeps_writei_loop [keeps_rules]: "keeps kern_ok (writei_loop a b c d)"
  by (induction a b c d rule: writei_loop.induct; subst writei_loop.simps; (intro keeps_rules; (assumption | simp add: entry_ok_defs)))

lemma keeps_writei [keeps_rules]: "keeps kern_ok (writei a b c d)"
  unfolding writei_def Let_def by (intro keeps_rules; simp add: entry_ok_defs)

lemma keeps_dirlookup_scan [keeps_rules]: "keeps kern_ok (dirlookup_scan a b c)"
  by (induction a b c rule: dirlookup_scan.induct; subst dirlookup_scan.simps; (intro keeps_rules; (assumption | simp add: entry_ok_defs)))

lemma keeps_dirlookup [keeps_rules]: "keeps kern_ok (dirlookup a b)"
  unfolding dirlookup_def Let_def by (intro keeps_rules; simp add: entry_ok_defs)

lemma keeps_dirlink_scan [keeps_rules]: "keeps kern_ok (dirlink_scan a b c)"
  by (induction a b c rule: dirlink_scan.induct; subst dirlink_scan.simps; (intro keeps_rules; (assumption | simp add: entry_ok_defs)))

lemma keeps_dirlink [keeps_rules]: "keeps kern_ok (dirlink a b c)"
  unfolding dirlink_def Let_def by (intro keeps_rules; simp add: entry_ok_defs)

lemma keeps_namex_loop [keeps_rules]: "keeps kern_ok (namex_loop a b c d)"
  by (induction a b c d rule: namex_loop.induct; subst namex_loop.simps; (intro keeps_rules; (assumption | simp add: entry_ok_defs)))

lemma keeps_namex [keeps_rules]: "keeps kern_ok (namex a b)"
  unfolding namex_def Let_def by (intro keeps_rules; simp add: entry_ok_defs)

lemma keeps_namei [keeps_rules]: "keeps kern_ok (namei a)"
  unfolding namei_def Let_def by (intro keeps_rules; simp add: entry_ok_defs)

lemma keeps_nameiparent [keeps_rules]: "keeps kern_ok (nameiparent a)"
  unfolding nameiparent_def Let_def by (intro keeps_rules; simp add: entry_ok_defs)

lemma keeps_file_get [keeps_rules]: "keeps kern_ok (file_get a)"
  unfolding file_get_def Let_def by (intro keeps_rules; simp add: entry_ok_defs)

lemma keeps_pipe_get [keeps_rules]: "keeps kern_ok (pipe_get a)"
  unfolding pipe_get_def Let_def by (intro keeps_rules; simp add: entry_ok_defs)

lemma keeps_killed [keeps_rules]: "keeps kern_ok killed"
  unfolding killed_def Let_def by (intro keeps_rules; simp add: entry_ok_defs)

lemma keeps_pipeclose [keeps_rules]: "keeps kern_ok (pipeclose a b)"
  unfolding pipeclose_def Let_def by (intro keeps_rules; simp add: entry_ok_defs)

lemma keeps_pipewrite_loop [keeps_rules]: "keeps kern_ok (pipewrite_loop p bs)"
proof (induction bs)
  case (Cons b bs)
  show ?case unfolding pipewrite_loop.simps by (rule keeps_pipe_step) (erule (1) pipe_fits_put, (intro keeps_rules Cons.IH)+)
qed (simp add: keeps_ret)

lemma keeps_pipewrite [keeps_rules]: "keeps kern_ok (pipewrite a b c)"
  unfolding pipewrite_def Let_def by (intro keeps_rules; simp add: entry_ok_defs)

lemma keeps_piperead_wait [keeps_rules]: "keeps kern_ok (piperead_wait a)"
  unfolding piperead_wait_def Let_def by (intro keeps_rules; simp add: entry_ok_defs)

lemma keeps_piperead_copy [keeps_rules]: "keeps kern_ok (piperead_copy p n)"
proof (induction n)
  case (Suc n)
  show ?case unfolding piperead_copy.simps by (rule keeps_pipe_step) (erule (1) pipe_fits_take, (intro keeps_rules Suc.IH)+)
qed (simp add: keeps_ret)

lemma keeps_piperead_end [keeps_rules]: "keeps kern_ok (piperead_end a b c)"
  unfolding piperead_end_def Let_def by (intro keeps_rules; simp add: entry_ok_defs)

lemma keeps_piperead [keeps_rules]: "keeps kern_ok (piperead a b)"
  unfolding piperead_def Let_def by (intro keeps_rules; simp add: entry_ok_defs)

lemma keeps_fileinit [keeps_rules]: "keeps kern_ok fileinit"
  unfolding fileinit_def Let_def by (intro keeps_rules; simp add: entry_ok_defs)

lemma keeps_filealloc [keeps_rules]: "keeps kern_ok filealloc"
  unfolding filealloc_def Let_def by (intro keeps_rules; simp add: entry_ok_defs)

lemma keeps_filedup [keeps_rules]: "keeps kern_ok (filedup a)"
  unfolding filedup_def Let_def by (intro keeps_rules; simp add: entry_ok_defs)

lemma keeps_fileclose [keeps_rules]: "keeps kern_ok (fileclose i)"
  unfolding fileclose_def
  by (rule keeps_andthen, intro keeps_rules, rule keeps_file_step)
    (simp add: file_ok_def, (intro keeps_rules; simp add: entry_ok_defs)+)

lemma keeps_filestat [keeps_rules]: "keeps kern_ok (filestat a)"
  unfolding filestat_def Let_def by (intro keeps_rules; simp add: entry_ok_defs)

lemma keeps_fileread [keeps_rules]: "keeps kern_ok (fileread a b)"
  unfolding fileread_def Let_def by (intro keeps_rules; simp add: entry_ok_defs)

lemma keeps_filewrite_loop [keeps_rules]: "keeps kern_ok (filewrite_loop a b c d)"
  by (induction a b c d rule: filewrite_loop.induct; subst filewrite_loop.simps; (intro keeps_rules; (assumption | simp add: entry_ok_defs)))

lemma keeps_filewrite [keeps_rules]: "keeps kern_ok (filewrite a b c)"
  unfolding filewrite_def Let_def by (intro keeps_rules; simp add: entry_ok_defs)

lemma keeps_pipealloc_bad [keeps_rules]: "keeps kern_ok (pipealloc_bad a b)"
  unfolding pipealloc_bad_def Let_def by (intro keeps_rules; simp add: entry_ok_defs)

lemma keeps_pipealloc [keeps_rules]: "keeps kern_ok pipealloc"
  unfolding pipealloc_def Let_def by (intro keeps_rules; simp add: entry_ok_defs)

lemma keeps_mypgdir [keeps_rules]: "keeps kern_ok mypgdir"
  unfolding mypgdir_def Let_def by (intro keeps_rules; simp add: entry_ok_defs)

lemma keeps_mysz [keeps_rules]: "keeps kern_ok mysz"
  unfolding mysz_def Let_def by (intro keeps_rules; simp add: entry_ok_defs)

lemma keeps_uload8 [keeps_rules]: "keeps kern_ok (uload8 a)"
  unfolding uload8_def Let_def by (intro keeps_rules; simp add: entry_ok_defs)

lemma keeps_ustore8 [keeps_rules]: "keeps kern_ok (ustore8 a b)"
  unfolding ustore8_def Let_def by (intro keeps_rules; simp add: entry_ok_defs)

lemma keeps_uload [keeps_rules]: "keeps kern_ok (uload a b)"
  by (induction a b rule: uload.induct; subst uload.simps; (intro keeps_rules; (assumption | simp add: entry_ok_defs)))

lemma keeps_ustore [keeps_rules]: "keeps kern_ok (ustore a b)"
  by (induction a b rule: ustore.induct; subst ustore.simps; (intro keeps_rules; (assumption | simp add: entry_ok_defs)))

lemma keeps_fetchint [keeps_rules]: "keeps kern_ok (fetchint a)"
  unfolding fetchint_def Let_def by (intro keeps_rules; simp add: entry_ok_defs)

lemma keeps_fetchstr_loop [keeps_rules]: "keeps kern_ok (fetchstr_loop a b)"
  by (induction a b rule: fetchstr_loop.induct; subst fetchstr_loop.simps; (intro keeps_rules; (assumption | simp add: entry_ok_defs)))

lemma keeps_fetchstr [keeps_rules]: "keeps kern_ok (fetchstr a)"
  unfolding fetchstr_def Let_def by (intro keeps_rules; simp add: entry_ok_defs)

lemma keeps_argint [keeps_rules]: "keeps kern_ok (argint a)"
  unfolding argint_def Let_def by (intro keeps_rules; simp add: entry_ok_defs)

lemma keeps_argptr [keeps_rules]: "keeps kern_ok (argptr a b)"
  unfolding argptr_def Let_def by (intro keeps_rules; simp add: entry_ok_defs)

lemma keeps_argstr [keeps_rules]: "keeps kern_ok (argstr a)"
  unfolding argstr_def Let_def by (intro keeps_rules; simp add: entry_ok_defs)

lemma keeps_argfd [keeps_rules]: "keeps kern_ok (argfd a)"
  unfolding argfd_def Let_def by (intro keeps_rules; simp add: entry_ok_defs)

lemma keeps_ofile_set [keeps_rules]: "keeps kern_ok (ofile_set a b)"
  unfolding ofile_set_def Let_def by (intro keeps_rules; simp add: entry_ok_defs)

lemma keeps_fdalloc [keeps_rules]: "keeps kern_ok (fdalloc a)"
  unfolding fdalloc_def Let_def by (intro keeps_rules; simp add: entry_ok_defs)

lemma keeps_sys_dup [keeps_rules]: "keeps kern_ok sys_dup"
  unfolding sys_dup_def Let_def by (intro keeps_rules; simp add: entry_ok_defs)

lemma keeps_rw_args [keeps_rules]: "keeps kern_ok rw_args"
  unfolding rw_args_def Let_def by (intro keeps_rules; simp add: entry_ok_defs)

lemma keeps_sys_read [keeps_rules]: "keeps kern_ok sys_read"
  unfolding sys_read_def Let_def by (intro keeps_rules; simp add: entry_ok_defs)

lemma keeps_sys_write [keeps_rules]: "keeps kern_ok sys_write"
  unfolding sys_write_def Let_def by (intro keeps_rules; simp add: entry_ok_defs)

lemma keeps_sys_close [keeps_rules]: "keeps kern_ok sys_close"
  unfolding sys_close_def Let_def by (intro keeps_rules; simp add: entry_ok_defs)

lemma keeps_sys_fstat [keeps_rules]: "keeps kern_ok sys_fstat"
  unfolding sys_fstat_def Let_def by (intro keeps_rules; simp add: entry_ok_defs)

lemma keeps_link_bad [keeps_rules]: "keeps kern_ok (link_bad a)"
  unfolding link_bad_def Let_def by (intro keeps_rules; simp add: entry_ok_defs)

lemma keeps_link_to [keeps_rules]: "keeps kern_ok (link_to a b)"
  unfolding link_to_def Let_def by (intro keeps_rules; simp add: entry_ok_defs)

lemma keeps_sys_link [keeps_rules]: "keeps kern_ok sys_link"
  unfolding sys_link_def Let_def by (intro keeps_rules; simp add: entry_ok_defs)

lemma keeps_isdirempty_scan [keeps_rules]: "keeps kern_ok (isdirempty_scan a b)"
  by (induction a b rule: isdirempty_scan.induct; subst isdirempty_scan.simps; (intro keeps_rules; (assumption | simp add: entry_ok_defs)))

lemma keeps_isdirempty [keeps_rules]: "keeps kern_ok (isdirempty a)"
  unfolding isdirempty_def Let_def by (intro keeps_rules; simp add: entry_ok_defs)

lemma keeps_unlink_bad [keeps_rules]: "keeps kern_ok (unlink_bad a)"
  unfolding unlink_bad_def Let_def by (intro keeps_rules; simp add: entry_ok_defs)

lemma keeps_unlink_entry [keeps_rules]: "keeps kern_ok (unlink_entry a b c)"
  unfolding unlink_entry_def Let_def by (intro keeps_rules; simp add: entry_ok_defs)

lemma keeps_unlink_name [keeps_rules]: "keeps kern_ok (unlink_name a b)"
  unfolding unlink_name_def Let_def by (intro keeps_rules; simp add: entry_ok_defs)

lemma keeps_sys_unlink [keeps_rules]: "keeps kern_ok sys_unlink"
  unfolding sys_unlink_def Let_def by (intro keeps_rules; simp add: entry_ok_defs)

lemma keeps_create_new [keeps_rules]: "keeps kern_ok (create_new a b c d e)"
  unfolding create_new_def Let_def by (intro keeps_rules; simp add: entry_ok_defs)

lemma keeps_create [keeps_rules]: "keeps kern_ok (create a b c d)"
  unfolding create_def Let_def by (intro keeps_rules; simp add: entry_ok_defs)

lemma keeps_open_file [keeps_rules]: "keeps kern_ok (open_file a b)"
  unfolding open_file_def Let_def by (intro keeps_rules; simp add: entry_ok_defs)

lemma keeps_sys_open [keeps_rules]: "keeps kern_ok sys_open"
  unfolding sys_open_def Let_def by (intro keeps_rules; simp add: entry_ok_defs)

lemma keeps_sys_mkdir [keeps_rules]: "keeps kern_ok sys_mkdir"
  unfolding sys_mkdir_def Let_def by (intro keeps_rules; simp add: entry_ok_defs)

lemma keeps_sys_mknod [keeps_rules]: "keeps kern_ok sys_mknod"
  unfolding sys_mknod_def Let_def by (intro keeps_rules; simp add: entry_ok_defs)

lemma keeps_sys_chdir [keeps_rules]: "keeps kern_ok sys_chdir"
  unfolding sys_chdir_def Let_def by (intro keeps_rules; simp add: entry_ok_defs)

lemma keeps_sys_pipe [keeps_rules]: "keeps kern_ok sys_pipe"
  unfolding sys_pipe_def Let_def by (intro keeps_rules; simp add: entry_ok_defs)

lemma keeps_store_bytes [keeps_rules]: "keeps kern_ok (store_bytes a b)"
  unfolding store_bytes_def Let_def by (intro keeps_rules; simp add: entry_ok_defs)

lemma keeps_loaduvm_loop [keeps_rules]: "keeps kern_ok (loaduvm_loop a b c d e f)"
  by (induction a b c d e f rule: loaduvm_loop.induct; subst loaduvm_loop.simps; (intro keeps_rules; (assumption | simp add: entry_ok_defs)))

lemma keeps_loaduvm [keeps_rules]: "keeps kern_ok (loaduvm a b c d e)"
  unfolding loaduvm_def Let_def by (intro keeps_rules; simp add: entry_ok_defs)

lemma keeps_copyout_bytes [keeps_rules]: "keeps kern_ok (copyout_bytes a b c)"
  by (induction a b c rule: copyout_bytes.induct; subst copyout_bytes.simps; (intro keeps_rules; (assumption | simp add: entry_ok_defs)))

lemma keeps_exec_bad [keeps_rules]: "keeps kern_ok (exec_bad a b)"
  unfolding exec_bad_def Let_def by (intro keeps_rules; simp add: entry_ok_defs)

lemma keeps_exec_load [keeps_rules]: "keeps kern_ok (exec_load a b c d)"
  by (induction a b c d rule: exec_load.induct; subst exec_load.simps; (intro keeps_rules; (assumption | simp add: entry_ok_defs)))

lemma keeps_exec_args [keeps_rules]: "keeps kern_ok (exec_args a b c d)"
  by (induction a b c d rule: exec_args.induct; subst exec_args.simps; (intro keeps_rules; (assumption | simp add: entry_ok_defs)))

lemma keeps_exec_commit [keeps_rules]: "keeps kern_ok (exec_commit a b c d e)"
  unfolding exec_commit_def Let_def by (intro keeps_rules; simp add: entry_ok_defs)

lemma keeps_exec_image [keeps_rules]: "keeps kern_ok (exec_image a b c d e)"
  unfolding exec_image_def Let_def by (intro keeps_rules; simp add: entry_ok_defs)

lemma keeps_exec [keeps_rules]: "keeps kern_ok (exec a b)"
  unfolding exec_def Let_def by (intro keeps_rules; simp add: entry_ok_defs)

lemma keeps_exec_argv [keeps_rules]: "keeps kern_ok (exec_argv a b)"
  by (induction a b rule: exec_argv.induct; subst exec_argv.simps; (intro keeps_rules; (assumption | simp add: entry_ok_defs)))

lemma keeps_sys_exec [keeps_rules]: "keeps kern_ok sys_exec"
  unfolding sys_exec_def Let_def by (intro keeps_rules; simp add: entry_ok_defs)

lemma keeps_allocproc [keeps_rules]: "keeps kern_ok allocproc"
  unfolding allocproc_def Let_def by (intro keeps_rules; simp add: entry_ok_defs)

lemma keeps_userinit [keeps_rules]: "keeps kern_ok userinit"
  unfolding userinit_def Let_def by (intro keeps_rules; simp add: entry_ok_defs)

lemma keeps_growproc [keeps_rules]: "keeps kern_ok (growproc a)"
  unfolding growproc_def Let_def by (intro keeps_rules; simp add: entry_ok_defs)

lemma keeps_fork_files [keeps_rules]: "keeps kern_ok (fork_files a b)"
  unfolding fork_files_def Let_def by (intro keeps_rules; simp add: entry_ok_defs)

lemma keeps_fork [keeps_rules]: "keeps kern_ok fork"
  unfolding fork_def Let_def by (intro keeps_rules; simp add: entry_ok_defs)

lemma keeps_exit_files [keeps_rules]: "keeps kern_ok (exit_files a)"
  unfolding exit_files_def Let_def by (intro keeps_rules; simp add: entry_ok_defs)

lemma keeps_exit [keeps_rules]: "keeps kern_ok exit"
  unfolding exit_def Let_def by (intro keeps_rules; simp add: entry_ok_defs)

lemma keeps_wait_scan [keeps_rules]: "keeps kern_ok (wait_scan a b c)"
  by (induction a b c rule: wait_scan.induct; subst wait_scan.simps; (intro keeps_rules; (assumption | simp add: entry_ok_defs)))

lemma keeps_wait_loop [keeps_rules]: "keeps kern_ok wait_loop"
  unfolding wait_loop_def Let_def by (intro keeps_rules; simp add: entry_ok_defs)

lemma keeps_wait [keeps_rules]: "keeps kern_ok wait"
  unfolding wait_def Let_def by (intro keeps_rules; simp add: entry_ok_defs)

lemma keeps_forkret [keeps_rules]: "keeps kern_ok forkret"
  unfolding forkret_def Let_def by (intro keeps_rules; simp add: entry_ok_defs)

lemma keeps_sys_fork [keeps_rules]: "keeps kern_ok sys_fork"
  unfolding sys_fork_def Let_def by (intro keeps_rules; simp add: entry_ok_defs)

lemma keeps_sys_exit [keeps_rules]: "keeps kern_ok sys_exit"
  unfolding sys_exit_def Let_def by (intro keeps_rules; simp add: entry_ok_defs)

lemma keeps_sys_wait [keeps_rules]: "keeps kern_ok sys_wait"
  unfolding sys_wait_def Let_def by (intro keeps_rules; simp add: entry_ok_defs)

lemma keeps_sys_kill [keeps_rules]: "keeps kern_ok sys_kill"
  unfolding sys_kill_def Let_def by (intro keeps_rules; simp add: entry_ok_defs)

lemma keeps_sys_getpid [keeps_rules]: "keeps kern_ok sys_getpid"
  unfolding sys_getpid_def Let_def by (intro keeps_rules; simp add: entry_ok_defs)

lemma keeps_sys_sbrk [keeps_rules]: "keeps kern_ok sys_sbrk"
  unfolding sys_sbrk_def Let_def by (intro keeps_rules; simp add: entry_ok_defs)

lemma keeps_sys_sleep_loop [keeps_rules]: "keeps kern_ok (sys_sleep_loop a b)"
  unfolding sys_sleep_loop_def Let_def by (intro keeps_rules; simp add: entry_ok_defs)

lemma keeps_sys_sleep [keeps_rules]: "keeps kern_ok sys_sleep"
  unfolding sys_sleep_def Let_def by (intro keeps_rules; simp add: entry_ok_defs)

lemma keeps_sys_uptime [keeps_rules]: "keeps kern_ok sys_uptime"
  unfolding sys_uptime_def Let_def by (intro keeps_rules; simp add: entry_ok_defs)

lemma keeps_sys_procstat [keeps_rules]: "keeps kern_ok sys_procstat"
  unfolding sys_procstat_def Let_def by (intro keeps_rules; simp add: entry_ok_defs)

lemma keeps_sys_set_priority [keeps_rules]: "keeps kern_ok sys_set_priority"
  unfolding sys_set_priority_def Let_def by (intro keeps_rules; simp add: entry_ok_defs)

lemma keeps_syscalls: "(n, f) \<in> set syscalls \<Longrightarrow> keeps kern_ok f"
proof -
  have "list_all (\<lambda>x. keeps kern_ok (snd x)) syscalls" by (simp add: syscalls_def keeps_rules)
  then show "(n, f) \<in> set syscalls \<Longrightarrow> keeps kern_ok f" by (auto simp: list_all_iff)
qed

lemma keeps_set_eax [keeps_rules]: "keeps kern_ok (set_eax a)"
  unfolding set_eax_def Let_def by (intro keeps_rules; simp add: entry_ok_defs)

lemma keeps_syscall [keeps_rules]: "keeps kern_ok syscall"
  unfolding syscall_def Let_def
  by (intro keeps_rules) (auto split: if_splits dest!: map_of_SomeD intro: keeps_syscalls)

lemma keeps_timer_tick [keeps_rules]: "keeps kern_ok timer_tick"
  unfolding timer_tick_def Let_def by (intro keeps_rules; simp add: entry_ok_defs)

lemma keeps_trap_dispatch [keeps_rules]: "keeps kern_ok (trap_dispatch a)"
  unfolding trap_dispatch_def Let_def by (intro keeps_rules; simp add: entry_ok_defs)

lemma keeps_exit_if_killed [keeps_rules]: "keeps kern_ok (exit_if_killed a)"
  unfolding exit_if_killed_def Let_def by (intro keeps_rules; simp add: entry_ok_defs)

lemma keeps_charge_tick [keeps_rules]: "keeps kern_ok (charge_tick a)"
  unfolding charge_tick_def Let_def by (intro keeps_rules; simp add: entry_ok_defs)

lemma keeps_trap [keeps_rules]: "keeps kern_ok (trap a)"
  unfolding trap_def Let_def by (intro keeps_rules; simp add: entry_ok_defs)

end
