(* ===== verification/Bio_View.thy ===== *)
theory Bio_View
  imports Bio
begin

text \<open>
  What the buffer cache means to the layers above. \<open>bst s C D W P B\<close> describes a state by the contents \<open>C\<close> of
  the sectors as the kernel sees them, the disk \<open>D\<close>, the writes \<open>W\<close> it has had, the sectors \<open>P\<close> pinned in
  the cache because they are dirty, and the buffers \<open>B\<close> in use with their sectors. The rules at the end give each
  operation's effect on that description.
\<close>

section \<open>The list of buffers\<close>

definition nxt :: "buf list \<Rightarrow> bref \<Rightarrow> bref \<Rightarrow> bref" where
  "nxt bs hn p = (case p of BHead \<Rightarrow> hn | Buf b \<Rightarrow> b_next (bs ! b))"

definition prv :: "buf list \<Rightarrow> bref \<Rightarrow> bref \<Rightarrow> bref" where
  "prv bs hp p = (case p of BHead \<Rightarrow> hp | Buf b \<Rightarrow> b_prev (bs ! b))"

definition linked :: "(bref \<Rightarrow> bref) \<Rightarrow> (bref \<Rightarrow> bref) \<Rightarrow> bref list \<Rightarrow> bool" where
  "linked nx pv = successively (\<lambda>p q. nx p = q \<and> pv q = p)"

definition ring :: "nat list \<Rightarrow> bref list" where
  "ring L = BHead # map Buf L @ [BHead]"

text \<open>\<open>L\<close> are the buffers from the most to the least recently released one.\<close>

definition lru :: "buf list \<Rightarrow> bref \<Rightarrow> bref \<Rightarrow> nat list \<Rightarrow> bool" where
  "lru bs hp hn L \<longleftrightarrow> length bs = NBUF \<and> distinct L \<and> set L = {..<NBUF} \<and> linked (nxt bs hn) (prv bs hp) (ring L)"

lemma linked_simps [simp]:
  "linked nx pv []" "linked nx pv [p]"
  "linked nx pv (p # q # ps) \<longleftrightarrow> nx p = q \<and> pv q = p \<and> linked nx pv (q # ps)"
  by (simp_all add: linked_def)

lemma linked_split: "linked nx pv (xs @ p # ys) \<longleftrightarrow> linked nx pv (xs @ [p]) \<and> linked nx pv (p # ys)"
  by (induction xs rule: induct_list012) auto

lemma linked_upd_nx: "p \<notin> set (butlast ps) \<Longrightarrow> linked (nx(p := v)) pv ps = linked nx pv ps"
  by (induction ps rule: induct_list012) auto

lemma linked_upd_pv: "p \<notin> set (tl ps) \<Longrightarrow> linked nx (pv(p := v)) ps = linked nx pv ps"
  by (induction ps rule: induct_list012) auto

text \<open>The six assignments of \<open>brelse\<close>.\<close>

definition moved_nx :: "bref \<Rightarrow> (bref \<Rightarrow> bref) \<Rightarrow> (bref \<Rightarrow> bref) \<Rightarrow> bref \<Rightarrow> bref" where
  "moved_nx b nx pv = (let nx1 = nx(pv b := nx b); nx2 = nx1(b := nx1 BHead) in nx2(BHead := b))"

definition moved_pv :: "bref \<Rightarrow> (bref \<Rightarrow> bref) \<Rightarrow> (bref \<Rightarrow> bref) \<Rightarrow> bref \<Rightarrow> bref" where
  "moved_pv b nx pv =
     (let pv1 = pv(nx b := pv b); nx1 = nx(pv b := nx b); pv2 = pv1(b := BHead) in pv2(nx1 BHead := b))"

lemma linked_move:
  assumes l: "linked nx pv (ring (xs @ b # ys))" and d: "distinct (xs @ b # ys)"
  shows "linked (moved_nx (Buf b) nx pv) (moved_pv (Buf b) nx pv) (ring (b # xs @ ys))"
proof -
  obtain N Z where NZ: "map Buf ys @ [BHead] = N # Z" by (cases ys) auto
  have N: "N \<noteq> Buf b" "N \<notin> Buf ` set xs" "b \<notin> set xs" "Buf b \<notin> set (butlast (N # Z))" "Buf b \<notin> set (N # Z)"
    "N \<notin> set Z" "BHead \<notin> set (butlast (N # Z))" "set Z \<inter> Buf ` set xs = {}" "set (butlast (N # Z)) \<inter> Buf ` set xs = {}"
    using d NZ [symmetric] by (cases ys; auto simp: butlast_append)+
  show ?thesis
  proof (cases xs rule: rev_cases)
    case Nil
    have "linked nx pv (BHead # Buf b # N # Z)" using l Nil NZ by (simp add: ring_def)
    then have e: "nx BHead = Buf b" "pv (Buf b) = BHead" "nx (Buf b) = N" "pv N = Buf b" "linked nx pv (N # Z)" by auto
    have "linked (moved_nx (Buf b) nx pv) (moved_pv (Buf b) nx pv) (BHead # Buf b # N # Z)"
      using N(1,4,5,6,7) by (simp add: moved_nx_def moved_pv_def Let_def e linked_upd_nx linked_upd_pv)
    then show ?thesis using Nil NZ by (simp add: ring_def)
  next
    case (snoc us x)
    obtain f fs where f: "map Buf us @ [Buf x] = f # fs" by (cases us) auto
    have "linked nx pv (BHead # (map Buf us @ [Buf x]) @ Buf b # N # Z)"
      using l NZ snoc by (simp add: ring_def)
    then have "linked nx pv ((BHead # map Buf us) @ Buf x # Buf b # N # Z)" by simp
    then have "linked nx pv (BHead # (map Buf us @ [Buf x]))" "linked nx pv (Buf x # Buf b # N # Z)"
      using iffD1 [OF linked_split [of nx pv "BHead # map Buf us" "Buf x" "Buf b # N # Z"]] by simp_all
    then have parts: "nx BHead = f" "pv f = BHead" "linked nx pv (f # fs)" "nx (Buf x) = Buf b" "pv (Buf b) = Buf x"
      "nx (Buf b) = N" "pv N = Buf b" "linked nx pv (N # Z)"
      unfolding f by simp_all
    have fs: "f # fs = map Buf (us @ [x])" using f by simp
    have F: "set (f # fs) = Buf ` set xs" and "distinct (f # fs)"
      using d snoc unfolding fs by (auto simp: distinct_map inj_on_def)
    then have "f \<in> Buf ` set xs" "BHead \<notin> set (f # fs)" "f \<notin> set fs" "Buf b \<notin> set (f # fs)" "N \<notin> set (f # fs)"
      using N(2,3) by auto
    then have fx: "f \<noteq> BHead" "f \<noteq> Buf b" "f \<noteq> N" "BHead \<notin> set (f # fs)" "f \<notin> set fs"
      "Buf b \<notin> set (f # fs)" "N \<notin> set (f # fs)" "f \<notin> set Z" "Buf x \<notin> set (butlast (N # Z))"
      using N(2,8,9) snoc by auto
    have x: "Buf x \<notin> set (butlast (f # fs))" using d snoc unfolding fs by (auto simp: butlast_append)
    have "\<And>p. p \<notin> set (f # fs) \<Longrightarrow> p \<notin> set (butlast (f # fs))" by (auto dest: in_set_butlastD)
    then have lf: "linked (moved_nx (Buf b) nx pv) (moved_pv (Buf b) nx pv) (f # fs)"
      using fx x parts(3) by (simp add: moved_nx_def moved_pv_def Let_def parts linked_upd_nx linked_upd_pv)
    have lN: "linked (moved_nx (Buf b) nx pv) (moved_pv (Buf b) nx pv) (N # Z)"
      using fx N x parts(8) by (simp add: moved_nx_def moved_pv_def Let_def parts linked_upd_nx linked_upd_pv)
    have ends: "moved_nx (Buf b) nx pv BHead = Buf b" "moved_pv (Buf b) nx pv (Buf b) = BHead"
      "moved_nx (Buf b) nx pv (Buf b) = f" "moved_pv (Buf b) nx pv f = Buf b"
      "moved_nx (Buf b) nx pv (Buf x) = N" "moved_pv (Buf b) nx pv N = Buf x"
      using fx N(1,3) snoc by (simp_all add: moved_nx_def moved_pv_def Let_def parts)
    have "linked (moved_nx (Buf b) nx pv) (moved_pv (Buf b) nx pv) (BHead # Buf b # (map Buf us @ [Buf x]))"
      unfolding f using ends lf by simp
    moreover have "linked (moved_nx (Buf b) nx pv) (moved_pv (Buf b) nx pv) (Buf x # N # Z)"
      using ends lN by simp
    ultimately have "linked (moved_nx (Buf b) nx pv) (moved_pv (Buf b) nx pv) ((BHead # Buf b # map Buf us) @ Buf x # N # Z)"
      by (intro iffD2 [OF linked_split]) simp
    then show ?thesis using snoc NZ by (simp add: ring_def)
  qed
qed

lemma find_cached_list:
  "linked (nxt bs hn) pv (map Buf L @ [BHead]) \<Longrightarrow> length L < n \<Longrightarrow>
   find_cached n bs (hd (map Buf L @ [BHead])) dev sec = find (\<lambda>b. b_dev (bs ! b) = dev \<and> b_sector (bs ! b) = sec) L"
proof (induction L arbitrary: n)
  case (Cons b L)
  obtain m where n: "n = Suc m" "length L < m" using Cons.prems(2) by (cases n) auto
  have "b_next (bs ! b) = hd (map Buf L @ [BHead])"
    using Cons.prems(1) by (cases L; simp add: nxt_def)
  moreover have "linked (nxt bs hn) pv (map Buf L @ [BHead])"
    using Cons.prems(1) by (cases L; simp)
  ultimately show ?case using Cons.IH [OF _ n(2)] by (simp add: n(1) del: linked_simps)
next
  case Nil
  then show ?case by (cases n) simp_all
qed

lemma find_free_list:
  "linked nx (prv bs hp) (BHead # map Buf L) \<Longrightarrow> length L < n \<Longrightarrow>
   find_free n bs (last (BHead # map Buf L)) = find (\<lambda>b. \<not> b_busy (bs ! b) \<and> \<not> b_dirty (bs ! b)) (rev L)"
proof (induction L arbitrary: n rule: rev_induct)
  case (snoc b L)
  obtain m where n: "n = Suc m" "length L < m" using snoc.prems(2) by (cases n) auto
  obtain us l where us: "BHead # map Buf L = us @ [l]" by (metis list.distinct(1) rev_exhaust)
  have "linked nx (prv bs hp) (us @ l # [Buf b])" using snoc.prems(1) us by (metis append_Cons append_assoc append_Nil list.simps(8,9) map_append)
  then have "linked nx (prv bs hp) (us @ [l])" "prv bs hp (Buf b) = l"
    using iffD1 [OF linked_split] by fastforce+
  then have "b_prev (bs ! b) = last (BHead # map Buf L)" "linked nx (prv bs hp) (BHead # map Buf L)"
    unfolding us by (simp_all add: prv_def)
  then show ?case using snoc.IH [OF _ n(2)] by (simp add: n(1) del: linked_simps)
next
  case Nil
  then show ?case by (cases n) simp_all
qed

section \<open>The description of a state\<close>

text \<open>\<open>entry bs b sec\<close>: buffer \<open>b\<close> caches the sector.\<close>

definition entry :: "buf list \<Rightarrow> nat \<Rightarrow> uint \<Rightarrow> bool" where
  "entry bs b sec \<longleftrightarrow> b < NBUF \<and> b_dev (bs ! b) = 1 \<and> b_sector (bs ! b) = sec"

definition bview :: "buf list \<Rightarrow> (uint \<Rightarrow> uchar list) \<Rightarrow> (uint \<Rightarrow> uchar list) \<Rightarrow> uint set \<Rightarrow> (nat \<times> uint) set \<Rightarrow> bool" where
  "bview bs C D P B \<longleftrightarrow>
     (\<forall>b < NBUF. if b_dev (bs ! b) = 1 then b_valid (bs ! b) else \<not> b_busy (bs ! b) \<and> \<not> b_dirty (bs ! b)) \<and>
     (\<forall>a b sec. entry bs a sec \<longrightarrow> entry bs b sec \<longrightarrow> a = b) \<and>
     (\<forall>b sec. entry bs b sec \<longrightarrow> b_data (bs ! b) = C sec) \<and>
     (\<forall>b sec. entry bs b sec \<longrightarrow> \<not> b_busy (bs ! b) \<longrightarrow> \<not> b_dirty (bs ! b) \<longrightarrow> C sec = D sec) \<and>
     (\<forall>sec. (\<forall>b. \<not> entry bs b sec) \<longrightarrow> C sec = D sec) \<and>
     P = {sec. \<exists>b. entry bs b sec \<and> b_dirty (bs ! b)} \<and>
     B = {(b, sec). entry bs b sec \<and> b_busy (bs ! b)}"

definition bst :: "'z kbio_scheme \<Rightarrow> (uint \<Rightarrow> uchar list) \<Rightarrow> (uint \<Rightarrow> uchar list) \<Rightarrow> (uint \<times> uchar list) list \<Rightarrow>
    uint set \<Rightarrow> (nat \<times> uint) set \<Rightarrow> bool" where
  "bst s C D W P B \<longleftrightarrow> (\<exists>L. lru (bc_buf s) (bc_head_prev s) (bc_head_next s) L) \<and> bview (bc_buf s) C D P B \<and>
     disk s = D \<and> disk_trace s = W \<and> (\<forall>sec. length (C sec) = BSIZE \<and> length (D sec) = BSIZE)"

text \<open>What the operations of the cache leave alone.\<close>

definition bstep :: "'z kbio_scheme \<Rightarrow> 'z kbio_scheme \<Rightarrow> bool" where
  "bstep s t \<longleftrightarrow> klow s t \<and> mem t = mem s \<and> kmem_use_lock t = kmem_use_lock s \<and> freelist t = freelist s \<and>
     kend t = kend s \<and> kdata t = kdata s \<and> disksize t = disksize s \<and> kbio.more t = kbio.more s"

lemma bstep_refl [simp]: "bstep s s"
  by (simp add: bstep_def)

lemma bstep_trans: "bstep s t \<Longrightarrow> bstep t u \<Longrightarrow> bstep s u"
  by (auto simp: bstep_def intro: klow_trans)

lemma bstep_klow: "bstep s t \<Longrightarrow> klow s t"
  by (simp add: bstep_def)

lemma kstep_bio:
  assumes "kstep s t"
  shows "bstep s t" "bc_buf t = bc_buf s" "bc_head_prev t = bc_head_prev s" "bc_head_next t = bc_head_next s"
    "disk t = disk s" "disk_trace t = disk_trace s" "bst t C D W P B = bst s C D W P B"
proof -
  have m: "kproc.more t = kproc.more s" "klow s t" using assms by (simp_all add: kstep_klow)
  then have e: "mem t = mem s" "kmem_use_lock t = kmem_use_lock s" "freelist t = freelist s" "kend t = kend s"
    "kdata t = kdata s" "bc_buf t = bc_buf s" "bc_head_prev t = bc_head_prev s" "bc_head_next t = bc_head_next s"
    "disk t = disk s" "disk_trace t = disk_trace s" "disksize t = disksize s" "kbio.more t = kbio.more s"
    by (cases s; cases t; simp)+
  show "bstep s t" "bc_buf t = bc_buf s" "bc_head_prev t = bc_head_prev s" "bc_head_next t = bc_head_next s"
    "disk t = disk s" "disk_trace t = disk_trace s" "bst t C D W P B = bst s C D W P B"
    using m(2) by (simp_all add: bstep_def bst_def e)
qed

lemma bstep_upd:
  "bstep s (s\<lparr>bc_buf := bs, bc_head_prev := hp, bc_head_next := hn\<rparr>)" "bstep s (s\<lparr>bc_buf := bs\<rparr>)"
  "bstep s (s\<lparr>disk := D, disk_trace := W\<rparr>)"
  by (simp_all add: bstep_def klow_same)

lemma kst_bio [simp]:
  "kst H (s\<lparr>bc_buf := bs\<rparr>) = kst H s" "kst H (s\<lparr>bc_head_prev := hp\<rparr>) = kst H s"
  "kst H (s\<lparr>bc_head_next := hn\<rparr>) = kst H s" "kst H (s\<lparr>disk := D\<rparr>) = kst H s" "kst H (s\<lparr>disk_trace := W\<rparr>) = kst H s"
  by (rule kst_eqI; simp)+

lemma wp_bufget: "b < length (bc_buf s) \<Longrightarrow> wp (bufget b) R s = R (bc_buf s ! b) s"
  by (simp add: bufget_def wp_rules)

lemma wp_bufset: "b < length (bc_buf s) \<Longrightarrow> wp (bufset b f) R s = R () (s\<lparr>bc_buf := (bc_buf s)[b := f (bc_buf s ! b)]\<rparr>)"
  by (simp add: bufset_def wp_rules)

lemma nth_upd: "bs[b := v] ! a = (if a = b \<and> b < length bs then v else bs ! a)"
  by (cases "b < length bs") (simp_all add: list_update_beyond)

lemma nxt_upd [simp]: "b_next v = b_next (bs ! b) \<Longrightarrow> nxt (bs[b := v]) hn = nxt bs hn"
  by (auto simp: nxt_def fun_eq_iff nth_upd split: bref.splits)

lemma prv_upd [simp]: "b_prev v = b_prev (bs ! b) \<Longrightarrow> prv (bs[b := v]) hp = prv bs hp"
  by (auto simp: prv_def fun_eq_iff nth_upd split: bref.splits)

lemma lru_upd:
  "b_next v = b_next (bs ! b) \<Longrightarrow> b_prev v = b_prev (bs ! b) \<Longrightarrow> lru (bs[b := v]) hp hn L = lru bs hp hn L"
  by (simp add: lru_def)

lemma entry_upd:
  "b < length bs \<Longrightarrow> entry (bs[b := v]) a sec \<longleftrightarrow> (if a = b then b < NBUF \<and> b_dev v = 1 \<and> b_sector v = sec else entry bs a sec)"
  by (auto simp: entry_def)

lemma bviewD:
  assumes "bview bs C D P B"
  shows "b < NBUF \<Longrightarrow> if b_dev (bs ! b) = 1 then b_valid (bs ! b) else \<not> b_busy (bs ! b) \<and> \<not> b_dirty (bs ! b)"
    and "entry bs a sec \<Longrightarrow> entry bs b sec \<Longrightarrow> a = b"
    and "entry bs b sec \<Longrightarrow> b_data (bs ! b) = C sec"
    and "entry bs b sec \<Longrightarrow> \<not> b_busy (bs ! b) \<Longrightarrow> \<not> b_dirty (bs ! b) \<Longrightarrow> C sec = D sec"
    and "\<forall>b. \<not> entry bs b sec \<Longrightarrow> C sec = D sec"
    and "sec \<in> P \<longleftrightarrow> (\<exists>b. entry bs b sec \<and> b_dirty (bs ! b))"
    and "(b, sec) \<in> B \<longleftrightarrow> entry bs b sec \<and> b_busy (bs ! b)"
  using assms by (simp_all add: bview_def)

lemma bst_length: "bst s C D W P B \<Longrightarrow> length (bc_buf s) = NBUF"
  by (auto simp: bst_def lru_def)

lemma bst_data_length: "bst s C D W P B \<Longrightarrow> length (C sec) = BSIZE"
  by (simp add: bst_def)

lemma bst_held:
  assumes "bst s C D W P B" and "(b, sec) \<in> B"
  shows "b < NBUF" "b_busy (bc_buf s ! b)" "b_valid (bc_buf s ! b)" "b_dev (bc_buf s ! b) = 1"
    "b_sector (bc_buf s ! b) = sec" "b_data (bc_buf s ! b) = C sec" "b_dirty (bc_buf s ! b) \<longleftrightarrow> sec \<in> P"
proof -
  have v: "bview (bc_buf s) C D P B" using assms(1) by (simp add: bst_def)
  have e: "entry (bc_buf s) b sec" "b_busy (bc_buf s ! b)" using bviewD(7) [OF v] assms(2) by blast+
  show "b < NBUF" "b_busy (bc_buf s ! b)" "b_valid (bc_buf s ! b)" "b_dev (bc_buf s ! b) = 1"
    "b_sector (bc_buf s ! b) = sec" "b_data (bc_buf s ! b) = C sec"
    using e bviewD(1) [OF v, of b] bviewD(3) [OF v e(1)] by (auto simp: entry_def)
  show "b_dirty (bc_buf s ! b) \<longleftrightarrow> sec \<in> P"
    using bviewD(2) [OF v e(1)] e(1) bviewD(6) [OF v, of sec] by blast
qed

lemma bst_finite: "bst s C D W P B \<Longrightarrow> finite (P \<union> snd ` B)"
proof -
  assume "bst s C D W P B"
  then have "P \<union> snd ` B \<subseteq> (\<lambda>b. b_sector (bc_buf s ! b)) ` {..<NBUF}"
    by (auto simp: bst_def bview_def entry_def)
  then show ?thesis by (rule finite_subset) simp
qed

lemma some_buffer_free:
  assumes v: "bview bs C D P B" and c: "card (P \<union> snd ` B) < NBUF" and f: "finite (P \<union> snd ` B)"
  shows "\<exists>b < NBUF. \<not> b_busy (bs ! b) \<and> \<not> b_dirty (bs ! b)"
proof (rule ccontr)
  assume "\<not> ?thesis"
  then have all: "\<forall>b < NBUF. b_busy (bs ! b) \<or> b_dirty (bs ! b)" by blast
  have e: "entry bs b (b_sector (bs ! b))" if "b < NBUF" for b
    using all bviewD(1) [OF v that] that by (auto simp: entry_def split: if_splits)
  have "inj_on (\<lambda>b. b_sector (bs ! b)) {..<NBUF}"
    using bviewD(2) [OF v] e unfolding inj_on_def by (metis lessThan_iff)
  moreover have "(\<lambda>b. b_sector (bs ! b)) ` {..<NBUF} \<subseteq> P \<union> snd ` B"
  proof (safe)
    fix b assume b: "b < NBUF" "b_sector (bs ! b) \<notin> snd ` B"
    then have "\<not> b_busy (bs ! b)" using e [OF b(1)] bviewD(7) [OF v] by force
    then show "b_sector (bs ! b) \<in> P" using e [OF b(1)] all b(1) bviewD(6) [OF v] by blast
  qed
  ultimately have "card {..<NBUF} \<le> card (P \<union> snd ` B)" using f by (intro card_inj_on_le)
  then show False using c by simp
qed

section \<open>The operations on the description\<close>

text \<open>A buffer's fields other than its links and its sector change.\<close>

lemma bview_upd:
  assumes v: "bview bs C D P B" and b: "entry bs b sec" "b < length bs"
    and r: "b_dev r = 1" "b_sector r = sec" "b_valid r" "b_data r = C' sec"
    and C: "\<And>x. x \<noteq> sec \<Longrightarrow> C' x = C x" and D: "\<And>x. x \<noteq> sec \<Longrightarrow> D' x = D x"
    and eq: "\<not> b_busy r \<Longrightarrow> \<not> b_dirty r \<Longrightarrow> C' sec = D' sec"
  shows "bview (bs[b := r]) C' D' (if b_dirty r then insert sec P else P - {sec})
    (if b_busy r then insert (b, sec) B else B - {(b, sec)})"
proof -
  have B: "b < NBUF" using b(1) by (simp add: entry_def)
  have ent: "entry (bs[b := r]) a x = entry bs a x" for a x
    using b r(1,2) by (auto simp: entry_def)
  have other: "entry bs a x \<Longrightarrow> a \<noteq> b \<Longrightarrow> x \<noteq> sec" for a x
    using bviewD(2) [OF v b(1)] by blast
  have same: "entry bs b x \<Longrightarrow> x = sec" for x using b(1) by (simp add: entry_def)
  have nth: "bs[b := r] ! a = (if a = b then r else bs ! a)" for a using b(2) by auto
  have dirty: "(\<exists>a. entry bs a x \<and> b_dirty (bs[b := r] ! a)) \<longleftrightarrow> (if x = sec then b_dirty r else x \<in> P)" for x
  proof (cases "x = sec")
    case True
    then have "(\<exists>a. entry bs a x \<and> b_dirty (bs[b := r] ! a)) \<longleftrightarrow> b_dirty (bs[b := r] ! b)"
      using b(1) bviewD(2) [OF v b(1)] by blast
    then show ?thesis using True nth by simp
  next
    case False
    then have "a \<noteq> b" if "entry bs a x" for a using that same by blast
    then have "(\<exists>a. entry bs a x \<and> b_dirty (bs[b := r] ! a)) \<longleftrightarrow> (\<exists>a. entry bs a x \<and> b_dirty (bs ! a))"
      using nth by metis
    then show ?thesis using False bviewD(6) [OF v, of x] by simp
  qed
  show ?thesis
    unfolding bview_def ent
  proof (intro conjI allI impI)
    show "if b_dev (bs[b := r] ! c) = 1 then b_valid (bs[b := r] ! c) else \<not> b_busy (bs[b := r] ! c) \<and> \<not> b_dirty (bs[b := r] ! c)"
      if "c < NBUF" for c
      using bviewD(1) [OF v that] r b(2) by simp
    show "a = c" if "entry bs a x" "entry bs c x" for a c x
      using bviewD(2) [OF v that] .
    show "b_data (bs[b := r] ! a) = C' x" if "entry bs a x" for a x
      using bviewD(3) [OF v that] r(4) b C other [OF that] that by (auto simp: entry_def)
    show "C' x = D' x" if "entry bs a x" "\<not> b_busy (bs[b := r] ! a)" "\<not> b_dirty (bs[b := r] ! a)" for a x
      using bviewD(4) [OF v that(1)] that eq b C D other [OF that(1)] by (auto simp: entry_def split: if_splits)
    show "C' x = D' x" if "\<forall>a. \<not> entry bs a x" for x
      using bviewD(5) [OF v that] that b(1) C [of x] D [of x] by metis
    show "(if b_dirty r then insert sec P else P - {sec}) = {x. \<exists>a. entry bs a x \<and> b_dirty (bs[b := r] ! a)}"
      unfolding dirty by auto
    show "(if b_busy r then insert (b, sec) B else B - {(b, sec)}) = {(a, x). entry bs a x \<and> b_busy (bs[b := r] ! a)}"
    proof (rule set_eqI)
      fix ax :: "nat \<times> uint"
      obtain a x where ax: "ax = (a, x)" by (cases ax)
      show "ax \<in> (if b_busy r then insert (b, sec) B else B - {(b, sec)}) \<longleftrightarrow> ax \<in> {(a, x). entry bs a x \<and> b_busy (bs[b := r] ! a)}"
        using bviewD(7) [OF v, of a x] b(1) same [of x] unfolding ax nth by (cases "a = b") auto
    qed
  qed
qed

text \<open>A buffer that is neither in use nor dirty is recycled for a sector that is not cached.\<close>

lemma bview_recycle:
  assumes v: "bview bs C D P B" and b: "b < NBUF" "b < length bs" "\<not> b_busy (bs ! b)" "\<not> b_dirty (bs ! b)"
    and new: "\<forall>a. \<not> entry bs a sec"
    and r: "b_dev r = 1" "b_sector r = sec" "b_valid r" "b_data r = D sec" "b_busy r" "\<not> b_dirty r"
  shows "bview (bs[b := r]) C D P (insert (b, sec) B)"
proof -
  have ent: "entry (bs[b := r]) a x \<longleftrightarrow> (if a = b then x = sec else entry bs a x)" for a x
    using b r(1,2) by (auto simp: entry_def)
  have CD: "C sec = D sec" using bviewD(5) [OF v new] .
  show ?thesis
    unfolding bview_def ent
  proof (intro conjI allI impI)
    show "if b_dev (bs[b := r] ! c) = 1 then b_valid (bs[b := r] ! c) else \<not> b_busy (bs[b := r] ! c) \<and> \<not> b_dirty (bs[b := r] ! c)"
      if "c < NBUF" for c
      using bviewD(1) [OF v that] r b(2) by simp
    show "a = c" if "if a = b then x = sec else entry bs a x" "if c = b then x = sec else entry bs c x" for a c x
      using that new bviewD(2) [OF v] by (auto split: if_splits)
    show "b_data (bs[b := r] ! a) = C x" if "if a = b then x = sec else entry bs a x" for a x
      using that bviewD(3) [OF v] r(4) b(2) CD by (auto split: if_splits)
    show "C x = D x" if "if a = b then x = sec else entry bs a x" "\<not> b_busy (bs[b := r] ! a)" "\<not> b_dirty (bs[b := r] ! a)" for a x
      using that bviewD(4) [OF v] b(2) r(5) by (auto split: if_splits)
    show "C x = D x" if "\<forall>a. \<not> (if a = b then x = sec else entry bs a x)" for x
      using that bviewD(4) [OF v _ b(3,4)] bviewD(5) [OF v] by metis
    show "P = {x. \<exists>a. (if a = b then x = sec else entry bs a x) \<and> b_dirty (bs[b := r] ! a)}"
      using bviewD(6) [OF v] b r(6) by (auto split: if_splits) metis
    show "insert (b, sec) B = {(a, x). (if a = b then x = sec else entry bs a x) \<and> b_busy (bs[b := r] ! a)}"
      using bviewD(7) [OF v] b r(5) by (auto split: if_splits)
  qed
qed

text \<open>A change of a held buffer that keeps its links.\<close>

lemma bst_upd:
  assumes s: "bst s C D W P B" and b: "(b, sec) \<in> B"
    and r: "b_dev r = 1" "b_sector r = sec" "b_valid r" "b_data r = C' sec" "b_busy r"
    and l: "b_next r = b_next (bc_buf s ! b)" "b_prev r = b_prev (bc_buf s ! b)"
    and C: "\<And>x. x \<noteq> sec \<Longrightarrow> C' x = C x" "length (C' sec) = BSIZE"
    and D: "\<And>x. x \<noteq> sec \<Longrightarrow> D' x = D x" "length (D' sec) = BSIZE" "disk t = D'" "disk_trace t = W'"
    and t: "bc_buf t = (bc_buf s)[b := r]" "bc_head_prev t = bc_head_prev s" "bc_head_next t = bc_head_next s"
  shows "bst t C' D' W' (if b_dirty r then insert sec P else P - {sec}) B"
proof -
  have v: "bview (bc_buf s) C D P B" using s by (simp add: bst_def)
  have e: "entry (bc_buf s) b sec" using bviewD(7) [OF v] b by blast
  have "bview (bc_buf t) C' D' (if b_dirty r then insert sec P else P - {sec}) (if b_busy r then insert (b, sec) B else B - {(b, sec)})"
    unfolding t using e bst_length [OF s] r C(1) D(1) by (intro bview_upd [OF v e]) (auto simp: entry_def)
  moreover have "length (C' x) = BSIZE \<and> length (D' x) = BSIZE" for x
    using s C D(1,2) by (cases "x = sec") (auto simp: bst_def)
  moreover have "\<exists>L. lru (bc_buf t) (bc_head_prev t) (bc_head_next t) L"
    using s unfolding bst_def t lru_upd [OF l] by blast
  ultimately show ?thesis
    using r(5) b D(3,4) unfolding bst_def by (simp add: insert_absorb)
qed

lemma wp_bufget_b:
  "bst s C D W P B \<Longrightarrow> (b, sec) \<in> B \<Longrightarrow> wp (bufget b) R s = R (bc_buf s ! b) s"
  using bst_length [of s C D W P B] bst_held(1) [of s C D W P B b sec] by (simp add: wp_bufget)

text \<open>The kernel writes to the data of a buffer it holds.\<close>

lemma wp_bufdata:
  assumes s: "bst s C D W P B" and b: "(b, sec) \<in> B"
    and f: "\<And>r. f r = r\<lparr>b_data := g (b_data r)\<rparr>" and g: "length (g (C sec)) = BSIZE"
    and K: "\<And>t. bst t (C(sec := g (C sec))) D W P B \<Longrightarrow> bstep s t \<Longrightarrow> (\<And>H. kst H t = kst H s) \<Longrightarrow> R () t"
  shows "wp (bufset b f) R s"
proof -
  note h = bst_held [OF s b]
  let ?t = "s\<lparr>bc_buf := (bc_buf s)[b := f (bc_buf s ! b)]\<rparr>"
  have D: "disk s = D" "disk_trace s = W" "length (D sec) = BSIZE" using s by (simp_all add: bst_def)
  have "bst ?t (C(sec := g (C sec))) D W (if b_dirty (f (bc_buf s ! b)) then insert sec P else P - {sec}) B"
    by (rule bst_upd [OF s b]) (use h D g in \<open>simp_all add: f\<close>)
  moreover have "(if b_dirty (f (bc_buf s ! b)) then insert sec P else P - {sec}) = P"
    using h(7) by (auto simp: f)
  ultimately have "R () ?t" by (intro K) (simp_all add: bstep_upd)
  then show ?thesis using h(1) bst_length [OF s] by (simp add: wp_bufset)
qed

lemma wp_bwrite:
  assumes s: "bst s C D W P B" and b: "(b, sec) \<in> B" and n: "sec < word_of_int (disksize s)"
    and K: "\<And>t. bst t C (D(sec := C sec)) (W @ [(sec, C sec)]) (P - {sec}) B \<Longrightarrow> bstep s t \<Longrightarrow>
      (\<And>H. kst H t = kst H s) \<Longrightarrow> R () t"
  shows "wp (bwrite b) R s"
proof -
  note h = bst_held [OF s b]
  have len: "b < length (bc_buf s)" using h(1) bst_length [OF s] by simp
  let ?r = "(bc_buf s ! b)\<lparr>b_dirty := False, b_valid := True\<rparr>"
  let ?t = "s\<lparr>disk := (disk s)(sec := C sec), disk_trace := disk_trace s @ [(sec, C sec)], bc_buf := (bc_buf s)[b := ?r]\<rparr>"
  have D: "disk s = D" "disk_trace s = W" "length (C sec) = BSIZE" using s by (simp_all add: bst_def)
  have "bst ?t C (D(sec := C sec)) (W @ [(sec, C sec)]) (if b_dirty ?r then insert sec P else P - {sec}) B"
    by (rule bst_upd [OF s b]) (use h D in simp_all)
  then have "R () ?t" by (intro K) (simp_all add: bstep_def klow_same)
  then show ?thesis
    using h n len by (simp add: bwrite_def mem_iderw_def disk_write_def wp_rules wp_bufget wp_bufset not_le)
qed

lemma bst_marked:
  assumes s: "bst s C D W P B" and b: "(b, sec) \<in> B"
  shows "bst (s\<lparr>bc_buf := (bc_buf s)[b := (bc_buf s ! b)\<lparr>b_dirty := True\<rparr>]\<rparr>) C D W (insert sec P) B"
proof -
  let ?r = "(bc_buf s ! b)\<lparr>b_dirty := True\<rparr>"
  have D: "disk s = D" "disk_trace s = W" "length (C sec) = BSIZE" "length (D sec) = BSIZE" using s by (simp_all add: bst_def)
  have "bst (s\<lparr>bc_buf := (bc_buf s)[b := ?r]\<rparr>) C D W (if b_dirty ?r then insert sec P else P - {sec}) B"
    by (rule bst_upd [OF s b]) (use bst_held [OF s b] D in simp_all)
  then show ?thesis by simp
qed

lemma wp_bufdirty:
  assumes s: "bst s C D W P B" and b: "(b, sec) \<in> B" and f: "\<And>r. f r = r\<lparr>b_dirty := True\<rparr>"
    and K: "\<And>t. bst t C D W (insert sec P) B \<Longrightarrow> bstep s t \<Longrightarrow> (\<And>H. kst H t = kst H s) \<Longrightarrow> R () t"
  shows "wp (bufset b f) R s"
proof -
  have "R () (s\<lparr>bc_buf := (bc_buf s)[b := f (bc_buf s ! b)]\<rparr>)"
    by (rule K) (use bst_marked [OF s b] in \<open>simp_all add: f bstep_upd\<close>)
  then show ?thesis using bst_held(1) [OF s b] bst_length [OF s] by (simp add: wp_bufset)
qed

section \<open>Getting and releasing a buffer\<close>

lemma lru_find:
  assumes "lru bs hp hn L"
  shows "find_cached (NBUF + 1) bs hn dev sec = find (\<lambda>b. b_dev (bs ! b) = dev \<and> b_sector (bs ! b) = sec) L"
    and "find_free (NBUF + 1) bs hp = find (\<lambda>b. \<not> b_busy (bs ! b) \<and> \<not> b_dirty (bs ! b)) (rev L)"
proof -
  have l: "linked (nxt bs hn) (prv bs hp) (BHead # map Buf L @ [BHead])" and n: "length L < NBUF + 1"
    using assms distinct_card [of L] by (auto simp: lru_def ring_def)
  have "nxt bs hn BHead = hd (map Buf L @ [BHead])" using l by (cases L; simp)
  then have hn: "hn = hd (map Buf L @ [BHead])" by (simp add: nxt_def)
  have "linked (nxt bs hn) (prv bs hp) (map Buf L @ [BHead])" using l by (cases L; simp)
  from find_cached_list [OF this n] show "find_cached (NBUF + 1) bs hn dev sec = find (\<lambda>b. b_dev (bs ! b) = dev \<and> b_sector (bs ! b) = sec) L"
    unfolding hn [symmetric] .
  obtain us p where us: "BHead # map Buf L = us @ [p]" by (metis list.distinct(1) rev_exhaust)
  have "linked (nxt bs hn) (prv bs hp) (us @ p # [BHead])"
    using l us by (metis append_Cons append_assoc append_Nil)
  then have "linked (nxt bs hn) (prv bs hp) (BHead # map Buf L)" and hp: "hp = last (BHead # map Buf L)"
    using iffD1 [OF linked_split [of "nxt bs hn" "prv bs hp" us p "[BHead]"]] unfolding us by (auto simp: prv_def [of _ _ BHead])
  from find_free_list [OF this(1) n] show "find_free (NBUF + 1) bs hp = find (\<lambda>b. \<not> b_busy (bs ! b) \<and> \<not> b_dirty (bs ! b)) (rev L)"
    unfolding hp [symmetric] .
qed

lemma lru_cases:
  assumes "lru bs hp hn L" and v: "bview bs C D P B"
  obtains (cached) b where "entry bs b sec" "find_cached (NBUF + 1) bs hn 1 sec = Some b"
    | (missing) "\<forall>b. \<not> entry bs b sec" "find_cached (NBUF + 1) bs hn 1 sec = None"
proof (cases "find_cached (NBUF + 1) bs hn 1 sec")
  case (Some b)
  then have "b_dev (bs ! b) = 1 \<and> b_sector (bs ! b) = sec" "b \<in> set L"
    unfolding lru_find [OF assms(1)] find_Some_iff by auto
  then have "entry bs b sec" using assms(1) by (simp add: entry_def lru_def)
  then show thesis using Some cached by blast
next
  case None
  then have "\<not> entry bs b sec" for b
    using assms(1) unfolding lru_find [OF assms(1)] find_None_iff by (auto simp: entry_def lru_def)
  then show thesis using None missing by blast
qed

lemma lru_victim:
  assumes "lru bs hp hn L" and "bview bs C D P B" and "card (P \<union> snd ` B) < NBUF" and "finite (P \<union> snd ` B)"
  obtains b where "find_free (NBUF + 1) bs hp = Some b" "b < NBUF" "\<not> b_busy (bs ! b)" "\<not> b_dirty (bs ! b)"
proof (cases "find_free (NBUF + 1) bs hp")
  case None
  then have "\<forall>b < NBUF. b_busy (bs ! b) \<or> b_dirty (bs ! b)"
    using assms(1) unfolding lru_find [OF assms(1)] find_None_iff by (auto simp: lru_def)
  then show thesis using some_buffer_free [OF assms(2-)] by blast
next
  case (Some b)
  then obtain i where i: "i < length (rev L)" "b = rev L ! i" and "\<not> b_busy (bs ! b) \<and> \<not> b_dirty (bs ! b)"
    unfolding lru_find [OF assms(1)] find_Some_iff by auto
  moreover have "b \<in> set L" using nth_mem [OF i(1)] i(2) by simp
  ultimately have "b < NBUF" "\<not> b_busy (bs ! b)" "\<not> b_dirty (bs ! b)" using assms(1) by (auto simp: lru_def)
  then show thesis using that Some by blast
qed

end
