(* ===== verification/Bio_Rules.thy ===== *)
theory Bio_Rules
  imports Bio_View
begin

text \<open>
  The rules for \<open>bread\<close> and \<open>brelse\<close> on the description of Bio_View.
\<close>

lemma wp_release_b:
  assumes s: "bst s C D W P B" and k: "kst (insert BcacheLock H) s" "BcacheLock \<notin> H"
    and K: "\<And>t. kst H t \<Longrightarrow> bst t C D W P B \<Longrightarrow> bstep s t \<Longrightarrow> R () t"
  shows "wp (release BcacheLock) R s"
  using k
proof (rule wp_release_k)
  fix t assume "kstep s t" "kst H t"
  then show "R () t" using K [of t] kstep_bio(1,7) [of s t] s by blast
qed

lemma wp_bget_cached:
  assumes k: "kst (insert BcacheLock H) s" "BcacheLock \<notin> H" and s: "bst s C D W P B"
    and b: "entry (bc_buf s) b sec" "sec \<notin> snd ` B" "find_cached (NBUF + 1) (bc_buf s) (bc_head_next s) 1 sec = Some b"
    and K: "\<And>t. kst H t \<Longrightarrow> bst t C D W P (insert (b, sec) B) \<Longrightarrow> bstep s t \<Longrightarrow> R b t"
  shows "wp (bget_loop 1 sec) R s"
proof -
  have v: "bview (bc_buf s) C D P B" using s by (simp add: bst_def)
  have len: "b < length (bc_buf s)" using b(1) bst_length [OF s] by (simp add: entry_def)
  have free: "\<not> b_busy (bc_buf s ! b)" using bviewD(7) [OF v, of b sec] b(1,2) by force
  let ?r = "(bc_buf s ! b)\<lparr>b_busy := True\<rparr>"
  let ?t = "s\<lparr>bc_buf := (bc_buf s)[b := ?r]\<rparr>"
  have d: "b_dirty (bc_buf s ! b) \<longleftrightarrow> sec \<in> P"
    using bviewD(6) [OF v, of sec] bviewD(2) [OF v b(1)] b(1) by blast
  have "b_valid (bc_buf s ! b)" using bviewD(1) [OF v, of b] b(1) by (simp add: entry_def)
  then have "bview ((bc_buf s)[b := ?r]) C D (if b_dirty ?r then insert sec P else P - {sec})
      (if b_busy ?r then insert (b, sec) B else B - {(b, sec)})"
    using b(1) bviewD(3) [OF v b(1)] by (intro bview_upd [OF v b(1) len]) (simp_all add: entry_def)
  moreover have "(if b_dirty ?r then insert sec P else P - {sec}) = P" using d by auto
  ultimately have "bview ((bc_buf s)[b := ?r]) C D P (insert (b, sec) B)" by simp
  then have "bst ?t C D W P (insert (b, sec) B)" using s by (simp add: bst_def lru_upd)
  then have "wp (release BcacheLock) (\<lambda>_ u. R b u) ?t"
    by (rule wp_release_b [where H = H]) (use k in \<open>auto intro: K bstep_trans [OF bstep_upd(2)]\<close>)
  then show ?thesis
    using len free b(3) by (simp add: bget_loop_def wp_rules wp_bufget wp_bufset del: find_cached.simps)
qed

text \<open>The buffer \<open>bget\<close> recycles, and what \<open>mem_iderw\<close> then reads into it.\<close>

definition recycled :: "uint \<Rightarrow> buf \<Rightarrow> buf" where
  "recycled sec r = r\<lparr>b_dev := 1, b_sector := sec, b_busy := True, b_valid := False, b_dirty := False\<rparr>"

definition loaded :: "(uint \<Rightarrow> uchar list) \<Rightarrow> uint \<Rightarrow> buf \<Rightarrow> buf" where
  "loaded D sec r = (recycled sec r)\<lparr>b_data := D sec, b_valid := True\<rparr>"

lemma bst_loaded:
  assumes s: "bst s C D W P B" and b: "b < NBUF" "\<not> b_busy (bc_buf s ! b)" "\<not> b_dirty (bc_buf s ! b)"
    and new: "\<forall>a. \<not> entry (bc_buf s) a sec"
  shows "bst (s\<lparr>bc_buf := (bc_buf s)[b := loaded D sec (bc_buf s ! b)]\<rparr>) C D W P (insert (b, sec) B)"
proof -
  have v: "bview (bc_buf s) C D P B" using s by (simp add: bst_def)
  have "bview ((bc_buf s)[b := loaded D sec (bc_buf s ! b)]) C D P (insert (b, sec) B)"
    using bst_length [OF s] b new by (intro bview_recycle [OF v]) (simp_all add: loaded_def recycled_def)
  then show ?thesis using s by (simp add: bst_def lru_upd loaded_def recycled_def)
qed

lemma wp_bget_missing:
  assumes k: "kst (insert BcacheLock H) s" "BcacheLock \<notin> H" and len: "length (bc_buf s) = NBUF"
    and b: "find_cached (NBUF + 1) (bc_buf s) (bc_head_next s) 1 sec = None"
      "find_free (NBUF + 1) (bc_buf s) (bc_head_prev s) = Some b" "b < NBUF"
    and K: "\<And>t. kst H t \<Longrightarrow> kstep (s\<lparr>bc_buf := (bc_buf s)[b := recycled sec (bc_buf s ! b)]\<rparr>) t \<Longrightarrow> R b t"
  shows "wp (bget_loop 1 sec) R s"
proof -
  have "wp (release BcacheLock) (\<lambda>_ u. R b u) (s\<lparr>bc_buf := (bc_buf s)[b := recycled sec (bc_buf s ! b)]\<rparr>)"
    by (rule wp_release_k [where H = H]) (use k in \<open>auto intro: K\<close>)
  then show ?thesis
    using b len by (simp add: bget_loop_def wp_rules wp_bufset recycled_def del: find_cached.simps find_free.simps)
qed

lemma wp_mem_iderw_read:
  assumes b: "b < length (bc_buf s)" "bc_buf s ! b = recycled sec r" and n: "sec < word_of_int (disksize s)"
    and R: "R () (s\<lparr>bc_buf := (bc_buf s)[b := loaded (disk s) sec r]\<rparr>)"
  shows "wp (mem_iderw b) R s"
  using assms by (simp add: mem_iderw_def wp_rules wp_bufget wp_bufset recycled_def loaded_def not_le)

lemma wp_bread:
  assumes k: "kst H s" "BcacheLock \<notin> H" and s: "bst s C D W P B" and sec: "sec \<notin> snd ` B"
    and room: "sec \<in> P \<or> card (P \<union> snd ` B) < NBUF" and n: "sec < word_of_int (disksize s)"
    and K: "\<And>b t. kst H t \<Longrightarrow> bst t C D W P (insert (b, sec) B) \<Longrightarrow> bstep s t \<Longrightarrow> R b t"
  shows "wp (bread 1 sec) R s"
proof -
  have "wp (bget_loop 1 sec) (\<lambda>b. wp (bnd (bufget b) (\<lambda>r. andthen (whenever (\<not> b_valid r) (mem_iderw b)) (ret b))) R) u"
    if u: "kstep s u" "kst (insert BcacheLock H) u" for u
  proof -
    note e = kstep_bio [OF u(1)]
    have su: "bst u C D W P B" using e(7) s by simp
    then obtain L where L: "lru (bc_buf u) (bc_head_prev u) (bc_head_next u) L" and v: "bview (bc_buf u) C D P B"
      by (auto simp: bst_def)
    have du: "disksize u = disksize s" using e(1) by (simp add: bstep_def)
    show ?thesis
    proof (cases rule: lru_cases [OF L v, of sec, case_names cached missing])
      case (cached b)
      show ?thesis
      proof (rule wp_bget_cached [OF u(2) k(2) su cached(1) sec cached(2)])
        fix t assume t: "kst H t" "bst t C D W P (insert (b, sec) B)" "bstep u t"
        have "R b t" using t bstep_trans [OF e(1)] by (intro K)
        then show "wp (bnd (bufget b) (\<lambda>r. andthen (whenever (\<not> b_valid r) (mem_iderw b)) (ret b))) R t"
          using bst_held(3) [OF t(2), of b sec] by (simp add: wp_rules wp_bufget_b [OF t(2), of b sec])
      qed
    next
      case missing
      have "sec \<notin> P" using missing(1) bviewD(6) [OF v] by blast
      then obtain b where b: "find_free (NBUF + 1) (bc_buf u) (bc_head_prev u) = Some b" "b < NBUF"
          "\<not> b_busy (bc_buf u ! b)" "\<not> b_dirty (bc_buf u ! b)"
        using lru_victim [OF L v] room bst_finite [OF su] by blast
      show ?thesis
      proof (rule wp_bget_missing [OF u(2) k(2) bst_length [OF su] missing(2) b(1,2)])
        fix t
        let ?u = "u\<lparr>bc_buf := (bc_buf u)[b := recycled sec (bc_buf u ! b)]\<rparr>"
        assume t: "kst H t" "kstep ?u t"
        let ?t = "t\<lparr>bc_buf := (bc_buf t)[b := loaded (disk t) sec (bc_buf u ! b)]\<rparr>"
        note f = kstep_bio [OF t(2)]
        have B: "bc_buf t = (bc_buf u)[b := recycled sec (bc_buf u ! b)]" "disk t = D" using f(2,5) su by (simp_all add: bst_def)
        then have lt: "b < length (bc_buf t)" "bc_buf t ! b = recycled sec (bc_buf u ! b)"
          using b(2) bst_length [OF su] by simp_all
        have st: "bstep u t" using bstep_trans [OF bstep_upd(2) f(1)] .
        have "bst (u\<lparr>bc_buf := (bc_buf u)[b := loaded D sec (bc_buf u ! b)]\<rparr>) C D W P (insert (b, sec) B)"
          by (rule bst_loaded [OF su b(2-4) missing(1)])
        then have "bst ?t C D W P (insert (b, sec) B)" using f B by (simp add: bst_def)
        moreover have "bstep s ?t" by (rule bstep_trans [OF e(1)], rule bstep_trans [OF st], rule bstep_upd)
        ultimately have "R b ?t" using t(1) by (intro K) simp_all
        moreover have "sec < word_of_int (disksize t)" using n du st by (simp add: bstep_def)
        ultimately show "wp (bnd (bufget b) (\<lambda>r. andthen (whenever (\<not> b_valid r) (mem_iderw b)) (ret b))) R t"
          using lt by (auto simp: wp_rules wp_bufget recycled_def [of sec] intro!: wp_mem_iderw_read [OF lt])
      qed
    qed
  qed
  then show ?thesis
    unfolding bread_def bget_def wp_bnd wp_andthen by (intro wp_acquire_k [OF k])
qed

section \<open>Releasing a buffer\<close>

definition nx :: "'z kbio_scheme \<Rightarrow> bref \<Rightarrow> bref" where
  "nx s = nxt (bc_buf s) (bc_head_next s)"

definition pv :: "'z kbio_scheme \<Rightarrow> bref \<Rightarrow> bref" where
  "pv s = prv (bc_buf s) (bc_head_prev s)"

definition bcore :: "buf \<Rightarrow> buf" where
  "bcore r = r\<lparr>b_prev := BHead, b_next := BHead\<rparr>"

text \<open>Only links differ.\<close>

definition relinked :: "'z kbio_scheme \<Rightarrow> 'z kbio_scheme \<Rightarrow> bool" where
  "relinked s t \<longleftrightarrow> map bcore (bc_buf t) = map bcore (bc_buf s) \<and> (\<exists>bs hp hn. t = s\<lparr>bc_buf := bs, bc_head_prev := hp, bc_head_next := hn\<rparr>)"

lemma relinked_length: "relinked s t \<Longrightarrow> length (bc_buf t) = length (bc_buf s)"
  using map_eq_imp_length_eq by (auto simp: relinked_def)

lemma relinkedI:
  assumes "t = s\<lparr>bc_buf := bs, bc_head_prev := hp, bc_head_next := hn\<rparr>" "length bs = length (bc_buf s)"
    "\<And>i. i < length bs \<Longrightarrow> bcore (bs ! i) = bcore (bc_buf s ! i)"
  shows "relinked s t"
proof -
  have "map bcore bs = map bcore (bc_buf s)" using assms(2,3) by (intro nth_equalityI) auto
  then show ?thesis unfolding relinked_def using assms(1) by auto
qed

lemma relinked_trans: "relinked s t \<Longrightarrow> relinked t u \<Longrightarrow> relinked s u"
  unfolding relinked_def
proof (elim conjE exE, intro conjI exI)
  fix bs hp hn bs' hp' hn'
  assume "t = s\<lparr>bc_buf := bs, bc_head_prev := hp, bc_head_next := hn\<rparr>"
    "u = t\<lparr>bc_buf := bs', bc_head_prev := hp', bc_head_next := hn'\<rparr>"
  then show "u = s\<lparr>bc_buf := bs', bc_head_prev := hp', bc_head_next := hn'\<rparr>" by simp
qed simp

lemma relinked_bcore: "relinked s t \<Longrightarrow> i < length (bc_buf s) \<Longrightarrow> bcore (bc_buf t ! i) = bcore (bc_buf s ! i)"
  using relinked_length [of s t] unfolding relinked_def by (metis nth_map)

lemma wp_set_prev:
  assumes p: "\<forall>b. p = Buf b \<longrightarrow> b < length (bc_buf s)"
    and K: "\<And>t. relinked s t \<Longrightarrow> nx t = nx s \<Longrightarrow> pv t = (pv s)(p := v) \<Longrightarrow> R () t"
  shows "wp (set_prev p v) R s"
proof (cases p)
  case BHead
  have "R () (s\<lparr>bc_head_prev := v\<rparr>)"
    by (rule K) (auto simp: BHead nx_def pv_def prv_def fun_eq_iff split: bref.splits intro!: relinkedI [where s = s and bs = "bc_buf s" and hp = v and hn = "bc_head_next s"])
  then show ?thesis by (simp add: set_prev_def BHead wp_rules)
next
  case (Buf b)
  let ?t = "s\<lparr>bc_buf := (bc_buf s)[b := (bc_buf s ! b)\<lparr>b_prev := v\<rparr>]\<rparr>"
  have b: "b < length (bc_buf s)" using p Buf by simp
  have "R () ?t"
    by (rule K) (use b in \<open>auto simp: Buf nx_def pv_def prv_def bcore_def fun_eq_iff split: bref.splits
      intro!: relinkedI [where s = s and bs = "(bc_buf s)[b := (bc_buf s ! b)\<lparr>b_prev := v\<rparr>]" and hp = "bc_head_prev s" and hn = "bc_head_next s"]\<close>)
  then show ?thesis using b by (simp add: set_prev_def Buf wp_bufset)
qed

lemma wp_set_next:
  assumes p: "\<forall>b. p = Buf b \<longrightarrow> b < length (bc_buf s)"
    and K: "\<And>t. relinked s t \<Longrightarrow> pv t = pv s \<Longrightarrow> nx t = (nx s)(p := v) \<Longrightarrow> R () t"
  shows "wp (set_next p v) R s"
proof (cases p)
  case BHead
  have "R () (s\<lparr>bc_head_next := v\<rparr>)"
    by (rule K) (auto simp: BHead nx_def pv_def nxt_def fun_eq_iff split: bref.splits intro!: relinkedI [where s = s and bs = "bc_buf s" and hp = "bc_head_prev s" and hn = v])
  then show ?thesis by (simp add: set_next_def BHead wp_rules)
next
  case (Buf b)
  let ?t = "s\<lparr>bc_buf := (bc_buf s)[b := (bc_buf s ! b)\<lparr>b_next := v\<rparr>]\<rparr>"
  have b: "b < length (bc_buf s)" using p Buf by simp
  have "R () ?t"
    by (rule K) (use b in \<open>auto simp: Buf nx_def pv_def nxt_def bcore_def fun_eq_iff split: bref.splits
      intro!: relinkedI [where s = s and bs = "(bc_buf s)[b := (bc_buf s ! b)\<lparr>b_next := v\<rparr>]" and hp = "bc_head_prev s" and hn = "bc_head_next s"]\<close>)
  then show ?thesis using b by (simp add: set_next_def Buf wp_bufset)
qed

lemma linked_in:
  "linked f g ps \<Longrightarrow> p \<in> set (butlast ps) \<Longrightarrow> f p \<in> set ps"
  "linked f g ps \<Longrightarrow> p \<in> set (tl ps) \<Longrightarrow> g p \<in> set ps"
  by (induction ps rule: induct_list012) auto

lemma lru_in:
  assumes "lru (bc_buf s) (bc_head_prev s) (bc_head_next s) L" and "b < NBUF"
  shows "\<forall>c. nx s (Buf b) = Buf c \<longrightarrow> c < length (bc_buf s)" "\<forall>c. pv s (Buf b) = Buf c \<longrightarrow> c < length (bc_buf s)"
    "\<forall>c. nx s BHead = Buf c \<longrightarrow> c < length (bc_buf s)"
proof -
  have l: "linked (nx s) (pv s) (ring L)" and L: "set L = {..<NBUF}" and n: "length (bc_buf s) = NBUF"
    using assms by (simp_all add: lru_def nx_def pv_def)
  have "Buf b \<in> set (butlast (ring L))" "Buf b \<in> set (tl (ring L))" "BHead \<in> set (butlast (ring L))"
    using L assms(2) by (auto simp: ring_def butlast_append)
  then have e: "nx s (Buf b) \<in> set (ring L)" "pv s (Buf b) \<in> set (ring L)" "nx s BHead \<in> set (ring L)"
    by (simp_all only: linked_in(1) [OF l] linked_in(2) [OF l])
  have r: "p \<in> set (ring L) \<Longrightarrow> \<forall>c. p = Buf c \<longrightarrow> c < length (bc_buf s)" for p
    unfolding n using L by (auto simp: ring_def)
  show "\<forall>c. nx s (Buf b) = Buf c \<longrightarrow> c < length (bc_buf s)" "\<forall>c. pv s (Buf b) = Buf c \<longrightarrow> c < length (bc_buf s)"
    "\<forall>c. nx s BHead = Buf c \<longrightarrow> c < length (bc_buf s)"
    by (rule r [OF e(1)], rule r [OF e(2)], rule r [OF e(3)])
qed

lemma bcoreD:
  assumes "bcore r = bcore q"
  shows "b_dev r = b_dev q" "b_sector r = b_sector q" "b_busy r = b_busy q" "b_valid r = b_valid q"
    "b_dirty r = b_dirty q" "b_data r = b_data q"
  using assms by (cases r; cases q; simp add: bcore_def)+

lemma bview_cong:
  assumes v: "bview bs C D P B" and c: "\<And>b. b < NBUF \<Longrightarrow> bcore (bs' ! b) = bcore (bs ! b)"
  shows "bview bs' C D P B"
proof -
  have ent: "entry bs' b sec = entry bs b sec" for b sec
    using bcoreD [OF c] by (auto simp: entry_def)
  have b: "b < NBUF" if "entry bs b sec" for b sec using that by (simp add: entry_def)
  show ?thesis
    unfolding bview_def ent
  proof (intro conjI allI impI)
    show "if b_dev (bs' ! b) = 1 then b_valid (bs' ! b) else \<not> b_busy (bs' ! b) \<and> \<not> b_dirty (bs' ! b)" if "b < NBUF" for b
      using bviewD(1) [OF v that] bcoreD [OF c [OF that]] by simp
    show "P = {sec. \<exists>b. entry bs b sec \<and> b_dirty (bs' ! b)}"
      using bviewD(6) [OF v] bcoreD(5) [OF c [OF b]] by (intro set_eqI) (simp, blast)
    show "B = {(b, sec). entry bs b sec \<and> b_busy (bs' ! b)}"
      using bviewD(7) [OF v] bcoreD(3) [OF c [OF b]] by auto
  qed (use bviewD(2-5) [OF v] bcoreD [OF c [OF b]] in \<open>auto\<close>)
qed

text \<open>The buffer goes to the front of the list.\<close>

definition relink :: "nat \<Rightarrow> ('z kbio_scheme, unit) kop" where
  "relink b =
     bnd (bufget b) (\<lambda>r.
     andthen (set_prev (b_next r) (b_prev r))
     (bnd (bufget b) (\<lambda>r.
     andthen (set_next (b_prev r) (b_next r))
     (bnd (gets bc_head_next) (\<lambda>n.
     andthen (set_next (Buf b) n)
     (andthen (set_prev (Buf b) BHead)
     (bnd (gets bc_head_next) (\<lambda>n.
     andthen (set_prev n (Buf b))
     (set_next BHead (Buf b))))))))))"

lemma nx_Buf: "b_next (bc_buf s ! b) = nx s (Buf b)" "b_prev (bc_buf s ! b) = pv s (Buf b)" "bc_head_next s = nx s BHead"
  by (simp_all add: nx_def pv_def nxt_def prv_def)

lemma wp_relink:
  assumes l: "lru (bc_buf s) (bc_head_prev s) (bc_head_next s) L" and b: "b < NBUF"
    and K: "\<And>t. relinked s t \<Longrightarrow> lru (bc_buf t) (bc_head_prev t) (bc_head_next t) (b # remove1 b L) \<Longrightarrow> R () t"
  shows "wp (relink b) R s"
proof -
  note i = lru_in [OF l b]
  have n: "length (bc_buf s) = NBUF" and bL: "b \<in> set L" "distinct L" and L: "linked (nx s) (pv s) (ring L)"
    using l b by (auto simp: lru_def nx_def pv_def)
  have len: "length (bc_buf t) = NBUF" if "relinked s t" for t using relinked_length [OF that] n by simp
  have final: "R () t" if t: "relinked s t" "nx t = moved_nx (Buf b) (nx s) (pv s)" "pv t = moved_pv (Buf b) (nx s) (pv s)" for t
  proof (rule K [OF t(1)])
    obtain xs ys where xs: "L = xs @ b # ys" "b \<notin> set xs" using split_list_first [OF bL(1)] by blast
    then have "linked (nx t) (pv t) (ring (b # xs @ ys))" unfolding t(2,3) using linked_move L bL(2) by blast
    moreover have "remove1 b L = xs @ ys" "distinct (b # xs @ ys)" "set (b # xs @ ys) = set L"
      using xs bL(2) by (auto simp: remove1_append)
    ultimately show "lru (bc_buf t) (bc_head_prev t) (bc_head_next t) (b # remove1 b L)"
      using l len [OF t(1)] unfolding lru_def nx_def pv_def by simp
  qed
  show ?thesis
    unfolding relink_def wp_bnd wp_andthen wp_gets
  proof (subst wp_bufget, goal_cases)
    case 1
    then show ?case using b n by simp
  next
    case 2
    show ?case
    proof (rule wp_set_prev, goal_cases)
      case 1
      then show ?case using i(1) by (simp add: nx_Buf)
    next
      case (2 t1)
      note t1 = 2 [unfolded nx_Buf]
      have p1: "pv t1 (Buf b) = pv s (Buf b)" using t1(3) by simp
      show ?case
      proof (subst wp_bufget, goal_cases)
        case 1
        then show ?case using b len [OF t1(1)] by simp
      next
        case 2
        show ?case
        proof (rule wp_set_next, goal_cases)
          case 1
          then show ?case using i(2) len [OF t1(1)] n p1 by (simp add: nx_Buf)
        next
          case (2 t2)
          note t2 = 2 [unfolded nx_Buf p1 t1(2)]
          have r2: "relinked s t2" using relinked_trans [OF t1(1) t2(1)] .
          show ?case
          proof (rule wp_set_next, goal_cases)
            case 1
            then show ?case using b len [OF r2] by simp
          next
            case (2 t3)
            note t3 = 2 [unfolded nx_Buf]
            have r3: "relinked s t3" using relinked_trans [OF r2 t3(1)] .
            show ?case
            proof (rule wp_set_prev, goal_cases)
              case 1
              then show ?case using b len [OF r3] by simp
            next
              case (2 t4)
              note t4 = 2
              have r4: "relinked s t4" using relinked_trans [OF r3 t4(1)] .
              have n4: "bc_head_next t4 = nx t2 BHead" unfolding nx_Buf t4(2) t3(3) by simp
              show ?case
                unfolding n4
              proof (rule wp_set_prev, goal_cases)
                case 1
                then show ?case using i(1,3) len [OF r4] n unfolding t2(3) by simp
              next
                case (2 t5)
                note t5 = 2
                show ?case
                proof (rule wp_set_next, goal_cases)
                  case (2 t6)
                  then show ?case
                    using relinked_trans [OF r4 relinked_trans [OF t5(1) 2(1)]]
                    by (intro final) (simp_all add: moved_nx_def moved_pv_def Let_def t5 t4 t3 t2 t1)
                qed simp
              qed
            qed
          qed
        qed
      qed
    qed
  qed
qed

lemma brelse_relink:
  "brelse b = bnd (bufget b) (\<lambda>r. if \<not> b_busy r then panic ''brelse''
     else andthen (acquire BcacheLock) (andthen (relink b)
       (andthen (bufset b (\<lambda>r. r\<lparr>b_busy := False\<rparr>)) (andthen (wakeup (BufChan b)) (release BcacheLock)))))"
  by (rule ext) (simp add: brelse_def relink_def set_next_def set_prev_def bnd_def andthen_def split: outcome.splits)

lemma bst_released:
  assumes s: "bst s C D W P B" and b: "(b, sec) \<in> B" and c: "sec \<in> P \<or> C sec = D sec"
    and t: "relinked s t" "lru (bc_buf t) (bc_head_prev t) (bc_head_next t) L"
  shows "bst (t\<lparr>bc_buf := (bc_buf t)[b := (bc_buf t ! b)\<lparr>b_busy := False\<rparr>]\<rparr>) C D W P (B - {(b, sec)})"
proof -
  have v: "bview (bc_buf t) C D P B" and n: "length (bc_buf t) = NBUF"
    using s relinked_bcore [OF t(1)] bst_length [OF s] t(2) by (auto simp: bst_def lru_def intro: bview_cong)
  have "(b, sec) \<in> B \<longleftrightarrow> entry (bc_buf t) b sec \<and> b_busy (bc_buf t ! b)" by (rule bviewD(7) [OF v])
  then have e: "entry (bc_buf t) b sec" using b by blast
  let ?r = "(bc_buf t ! b)\<lparr>b_busy := False\<rparr>"
  have d: "b_dirty (bc_buf t ! b) \<longleftrightarrow> sec \<in> P" using bviewD(6) [OF v, of sec] bviewD(2) [OF v e] e by blast
  have "b_valid (bc_buf t ! b)" using bviewD(1) [OF v, of b] e by (simp add: entry_def)
  then have "bview ((bc_buf t)[b := ?r]) C D (if b_dirty ?r then insert sec P else P - {sec})
      (if b_busy ?r then insert (b, sec) B else B - {(b, sec)})"
    using e n c d bviewD(3) [OF v e] by (intro bview_upd [OF v e]) (auto simp: entry_def)
  moreover have "(if b_dirty ?r then insert sec P else P - {sec}) = P" using d by auto
  ultimately have "bview ((bc_buf t)[b := ?r]) C D P (B - {(b, sec)})" by simp
  moreover have "disk t = disk s" "disk_trace t = disk_trace s" using t(1) by (auto simp: relinked_def)
  ultimately show ?thesis using s t(2) by (auto simp: bst_def lru_upd)
qed

lemma wp_brelse:
  assumes k: "kst H s" "BcacheLock \<notin> H" "PtableLock \<notin> H" and s: "bst s C D W P B" and b: "(b, sec) \<in> B"
    and c: "sec \<in> P \<or> C sec = D sec"
    and K: "\<And>t. kst H t \<Longrightarrow> bst t C D W P (B - {(b, sec)}) \<Longrightarrow> bstep s t \<Longrightarrow> R () t"
  shows "wp (brelse b) R s"
proof -
  have "wp (andthen (relink b) (andthen (bufset b (\<lambda>r. r\<lparr>b_busy := False\<rparr>)) (andthen (wakeup (BufChan b)) (release BcacheLock)))) R u"
    if u: "kstep s u" "kst (insert BcacheLock H) u" for u
  proof -
    have su: "bst u C D W P B" using kstep_bio(7) [OF u(1)] s by simp
    then obtain L where L: "lru (bc_buf u) (bc_head_prev u) (bc_head_next u) L" by (auto simp: bst_def)
    have bn: "b < NBUF" using bst_held(1) [OF s b] .
    show ?thesis
      unfolding wp_andthen
    proof (rule wp_relink [OF L bn])
      fix t assume t: "relinked u t" "lru (bc_buf t) (bc_head_prev t) (bc_head_next t) (b # remove1 b L)"
      let ?t = "t\<lparr>bc_buf := (bc_buf t)[b := (bc_buf t ! b)\<lparr>b_busy := False\<rparr>]\<rparr>"
      have st: "bst ?t C D W P (B - {(b, sec)})" by (rule bst_released [OF su b c t])
      have kt: "kst (insert BcacheLock H) ?t" "bstep u ?t"
        using t(1) u(2) by (auto simp: relinked_def bstep_def klow_same)
      have "wp (wakeup (BufChan b)) (\<lambda>_. wp (release BcacheLock) R) ?t"
      proof (rule wp_wakeup_k [OF kt(1)])
        fix v assume v: "kstep ?t v" "kst (insert BcacheLock H) v"
        have "bst v C D W P (B - {(b, sec)})" using kstep_bio(7) [OF v(1)] st by simp
        then show "wp (release BcacheLock) R v"
          using v(2) k(2)
        proof (rule wp_release_b)
          fix w assume "kst H w" "bst w C D W P (B - {(b, sec)})" "bstep v w"
          then show "R () w"
            using kstep_bio(1) [OF u(1)] kt(2) kstep_bio(1) [OF v(1)] by (blast intro: K bstep_trans)
        qed
      qed (use k in simp)
      then show "wp (bufset b (\<lambda>r. r\<lparr>b_busy := False\<rparr>)) (\<lambda>_. wp (wakeup (BufChan b)) (\<lambda>_. wp (release BcacheLock) R)) t"
        using t(2) bn by (simp add: wp_bufset lru_def)
    qed
  qed
  then show ?thesis
    unfolding brelse_relink wp_bnd wp_bufget_b [OF s b]
    using bst_held(2) [OF s b] by (simp add: wp_andthen wp_acquire_k [OF k(1,2)])
qed

end
