(* ===== verification/Log_Rules.thy ===== *)
theory Log_Rules
  imports Log Bio_Rules
begin

text \<open>
  The operations of the log on the description of the cache: what \<open>write_head\<close>, \<open>read_head\<close> and
  \<open>install_trans\<close> do to the contents of the sectors and to the disk.
\<close>

section \<open>The state of the log\<close>

lemma bst_log [simp]:
  "bst (s\<lparr>lh_n := n\<rparr>) C D W P B = bst s C D W P B" "bst (s\<lparr>lh_sector := xs\<rparr>) C D W P B = bst s C D W P B"
  "bst (s\<lparr>log_busy := y\<rparr>) C D W P B = bst s C D W P B"
  by (simp_all add: bst_def)

lemma kst_log [simp]:
  "kst H (s\<lparr>lh_n := n\<rparr>) = kst H s" "kst H (s\<lparr>lh_sector := xs\<rparr>) = kst H s" "kst H (s\<lparr>log_busy := y\<rparr>) = kst H s"
  by (rule kst_eqI; simp)+

text \<open>What the operations of the log leave alone.\<close>

definition lstep :: "'z klog_scheme \<Rightarrow> 'z klog_scheme \<Rightarrow> bool" where
  "lstep s t \<longleftrightarrow> klow s t \<and> mem t = mem s \<and> kmem_use_lock t = kmem_use_lock s \<and> freelist t = freelist s \<and>
     kend t = kend s \<and> kdata t = kdata s \<and> disksize t = disksize s \<and> log_start t = log_start s \<and>
     log_size t = log_size s \<and> log_dev t = log_dev s \<and> klog.more t = klog.more s"

lemma lstep_refl [simp]: "lstep s s"
  by (simp add: lstep_def)

lemma lstep_trans: "lstep s t \<Longrightarrow> lstep t u \<Longrightarrow> lstep s u"
  by (auto simp: lstep_def intro: klow_trans)

lemma bstep_log:
  fixes s :: "'z klog_scheme"
  assumes "bstep s t"
  shows "log_start t = log_start s" "log_size t = log_size s" "log_dev t = log_dev s" "lh_n t = lh_n s"
    "lh_sector t = lh_sector s" "log_busy t = log_busy s" "klog.more t = klog.more s"
proof -
  have "kbio.more t = kbio.more s" using assms by (simp add: bstep_def)
  then show "log_start t = log_start s" "log_size t = log_size s" "log_dev t = log_dev s" "lh_n t = lh_n s"
    "lh_sector t = lh_sector s" "log_busy t = log_busy s" "klog.more t = klog.more s"
    by (cases s; cases t; simp)+
qed

lemma bstep_lstep: "bstep s t \<Longrightarrow> lstep s t"
  using bstep_log [of s t] by (simp add: lstep_def bstep_def)

lemma lstep_upd [simp]: "lstep s (s\<lparr>lh_n := n\<rparr>)" "lstep s (s\<lparr>lh_sector := xs\<rparr>)" "lstep s (s\<lparr>log_busy := y\<rparr>)"
  by (simp_all add: lstep_def klow_same)

text \<open>
  \<open>lst\<close> adds to \<open>bst\<close> the header in memory, and that the log is a range of sectors of the disk. \<open>lsec s i\<close> is the
  log's sector \<open>i\<close>; sector 0 is the header.
\<close>

definition lsec :: "'z klog_scheme \<Rightarrow> nat \<Rightarrow> uint" where
  "lsec s i = word_of_int (log_start s + int i)"

definition log_geometry :: "'z klog_scheme \<Rightarrow> bool" where
  "log_geometry s \<longleftrightarrow> log_dev s = 1 \<and> 0 \<le> log_start s \<and> 1 < log_size s \<and>
     log_start s + log_size s \<le> disksize s \<and> disksize s < 2 ^ 31 \<and> length (lh_sector s) = LOGSIZE"

definition log_area :: "'z klog_scheme \<Rightarrow> uint set" where
  "log_area s = lsec s ` {i. int i < log_size s}"

lemma lsec_area: "int i < log_size s \<Longrightarrow> lsec s i \<in> log_area s"
  by (simp add: log_area_def)

lemma lstep_geometry:
  assumes "lstep s t"
  shows "lsec t = lsec s" "log_area t = log_area s" "length (lh_sector t) = length (lh_sector s) \<Longrightarrow> log_geometry t = log_geometry s"
  using assms by (auto simp: lsec_def log_area_def log_geometry_def lstep_def fun_eq_iff)

lemma uint_small: "0 \<le> k \<Longrightarrow> k < 2 ^ 32 \<Longrightarrow> uint (word_of_int k :: uint) = k"
  by (simp add: unsigned_of_int take_bit_int_eq_self)

lemma lsec_unat:
  assumes "log_geometry s" and "int i < log_size s"
  shows "uint (lsec s i) = log_start s + int i"
  unfolding lsec_def using assms by (intro uint_small) (simp_all add: log_geometry_def)

lemma lsec_range:
  assumes "log_geometry s" and "int i < log_size s"
  shows "lsec s i < word_of_int (disksize s)"
proof -
  have "uint (word_of_int (disksize s) :: uint) = disksize s"
    using assms by (intro uint_small) (simp_all add: log_geometry_def)
  moreover have "log_start s + int i < disksize s" using assms by (simp add: log_geometry_def)
  ultimately show ?thesis using lsec_unat [OF assms] by (simp only: word_less_def)
qed

lemma lsec_inj:
  assumes "log_geometry s" and "int i < log_size s" and "int j < log_size s"
  shows "lsec s i = lsec s j \<longleftrightarrow> i = j"
proof
  assume "lsec s i = lsec s j"
  then have "log_start s + int i = log_start s + int j"
    using lsec_unat [OF assms(1,2)] lsec_unat [OF assms(1,3)] by argo
  then show "i = j" by simp
qed simp

lemma bst_clean: "bst s C D W P B \<Longrightarrow> x \<notin> P \<Longrightarrow> x \<notin> snd ` B \<Longrightarrow> C x = D x"
proof -
  assume s: "bst s C D W P B" and x: "x \<notin> P" "x \<notin> snd ` B"
  have v: "bview (bc_buf s) C D P B" using s by (simp add: bst_def)
  show ?thesis
  proof (cases "\<exists>b. entry (bc_buf s) b x")
    case True
    then obtain b where b: "entry (bc_buf s) b x" by blast
    have "\<not> b_busy (bc_buf s ! b)" using x(2) b bviewD(7) [OF v, of b x] by force
    moreover have "\<not> b_dirty (bc_buf s ! b)" using x(1) b bviewD(6) [OF v, of x] by blast
    ultimately show ?thesis by (rule bviewD(4) [OF v b])
  qed (use bviewD(5) [OF v] in blast)
qed

section \<open>The header\<close>

text \<open>The header block after \<open>n\<close> sectors are written into it.\<close>

fun put_sectors :: "uint list \<Rightarrow> nat list \<Rightarrow> uchar list \<Rightarrow> uchar list" where
  "put_sectors secs [] d = d"
| "put_sectors secs (i # is) d = put_sectors secs is (put32 d (4 + 4 * i) (secs ! i))"

definition head_block :: "uchar list \<Rightarrow> uint list \<Rightarrow> nat \<Rightarrow> uchar list" where
  "head_block d secs n = put_sectors secs [0..<n] (put32 d 0 (of_nat n))"

lemma length_put_sectors [simp]: "length (put_sectors secs is d) = length d"
  by (induction "is" arbitrary: d) auto

lemma length_head_block [simp]: "length (head_block d secs n) = length d"
  by (simp add: head_block_def)

lemma slot_other:
  "length d = BSIZE \<Longrightarrow> i < LOGSIZE \<Longrightarrow> i \<noteq> j \<Longrightarrow> get32 (put32 d (4 + 4 * i) v) (4 + 4 * j) = get32 d (4 + 4 * j)"
  by (rule get32_put32_other) (auto simp: LOGSIZE_def BSIZE_def)

lemma put_sectors_other:
  "length d = BSIZE \<Longrightarrow> \<forall>i \<in> set is. i < LOGSIZE \<and> i \<noteq> j \<Longrightarrow> get32 (put_sectors secs is d) (4 + 4 * j) = get32 d (4 + 4 * j)"
  by (induction "is" arbitrary: d) (auto simp: slot_other)

lemma put_sectors_n: "length d = BSIZE \<Longrightarrow> \<forall>i \<in> set is. i < LOGSIZE \<Longrightarrow> get32 (put_sectors secs is d) 0 = get32 d 0"
  by (induction "is" arbitrary: d) (auto simp: LOGSIZE_def BSIZE_def)

lemma put_sectors_get:
  "length d = BSIZE \<Longrightarrow> distinct is \<Longrightarrow> \<forall>i \<in> set is. i < LOGSIZE \<Longrightarrow> j \<in> set is \<Longrightarrow>
   get32 (put_sectors secs is d) (4 + 4 * j) = secs ! j"
proof (induction "is" arbitrary: d)
  case (Cons i "is")
  show ?case
  proof (cases "i = j")
    case True
    have "get32 (put_sectors secs (i # is) d) (4 + 4 * j) = get32 (put32 d (4 + 4 * i) (secs ! i)) (4 + 4 * j)"
      unfolding put_sectors.simps using Cons.prems True by (intro put_sectors_other) auto
    then show ?thesis using Cons.prems True by (simp add: LOGSIZE_def BSIZE_def)
  qed (use Cons in auto)
qed simp

lemma head_block_get:
  assumes "length d = BSIZE" and "n \<le> LOGSIZE"
  shows "get32 (head_block d secs n) 0 = of_nat n" "i < n \<Longrightarrow> get32 (head_block d secs n) (4 + 4 * i) = secs ! i"
  using assms unfolding head_block_def by (auto simp: put_sectors_n put_sectors_get BSIZE_def)

lemma wp_lh_get:
  assumes "i < length (lh_sector s)"
  shows "wp (lh_get i) Q s \<longleftrightarrow> Q (lh_sector s ! i) s"
  using assms by (simp add: lh_get_def wp_rules)

lemma wp_head_sectors:
  assumes s: "bst s C D W P B" and b: "(b, sec) \<in> B"
    and "is": "\<forall>i \<in> set is. i < LOGSIZE" "length (lh_sector s) = LOGSIZE"
    and K: "\<And>t. bst t (C(sec := put_sectors (lh_sector s) is (C sec))) D W P B \<Longrightarrow> bstep s t \<Longrightarrow>
      (\<And>H. kst H t = kst H s) \<Longrightarrow> R () t"
  shows "wp (for_each is (\<lambda>i. bnd (lh_get i) (\<lambda>x. bufset b (\<lambda>r. r\<lparr>b_data := put32 (b_data r) (4 + 4 * i) x\<rparr>)))) R s"
  using s "is" K
proof (induction "is" arbitrary: s C)
  case Nil
  then show ?case by (simp add: wp_rules)
next
  case (Cons i "is")
  have i: "i < length (lh_sector s)" using Cons.prems(2,3) by simp
  show ?case
    unfolding for_each.simps wp_andthen wp_bnd wp_lh_get [OF i]
  proof (rule wp_bufdata [OF Cons.prems(1) b, where g = "\<lambda>d. put32 d (4 + 4 * i) (lh_sector s ! i)"], simp, simp add: bst_data_length [OF Cons.prems(1)], goal_cases)
    case (1 t)
    show ?case
    proof (rule Cons.IH [OF 1(1)])
      fix u assume u: "bst u ((C(sec := put32 (C sec) (4 + 4 * i) (lh_sector s ! i)))(sec := put_sectors (lh_sector t) is
          ((C(sec := put32 (C sec) (4 + 4 * i) (lh_sector s ! i))) sec))) D W P B" "bstep t u" "\<And>H. kst H u = kst H t"
      show "R () u"
      proof (rule Cons.prems(4))
        show "bst u (C(sec := put_sectors (lh_sector s) (i # is) (C sec))) D W P B"
          using u(1) bstep_log(5) [OF 1(2)] by simp
      qed (use u(3) 1(3) bstep_trans [OF 1(2) u(2)] in simp_all)
    qed (use Cons.prems bstep_log(5) [OF 1(2)] in simp_all)
  qed
qed

lemma wp_write_head:
  assumes k: "kst {} s" and s: "bst s C D W P {}" and g: "log_geometry s"
    and n: "lh_n s = int n" "n \<le> LOGSIZE" and P: "lsec s 0 \<notin> P" "card P < NBUF"
    and K: "\<And>t h. h = head_block (C (lsec s 0)) (lh_sector s) n \<Longrightarrow> kst {} t \<Longrightarrow>
      bst t (C(lsec s 0 := h)) (D(lsec s 0 := h)) (W @ [(lsec s 0, h)]) P {} \<Longrightarrow> bstep s t \<Longrightarrow> R () t"
  shows "wp write_head R s"
proof -
  let ?l = "lsec s 0" and ?h = "head_block (C (lsec s 0)) (lh_sector s) n"
  have l: "word_of_int (log_start s) = ?l" by (simp add: lsec_def)
  have sz: "?l < word_of_int (disksize s)" using g by (intro lsec_range) (simp_all add: log_geometry_def)
  have dev: "log_dev s = 1" using g by (simp add: log_geometry_def)
  show ?thesis
    unfolding write_head_def wp_bnd wp_gets wp_andthen l dev
  proof (rule wp_bread [OF k _ s], simp, simp, simp add: P(2), rule sz)
    fix b t assume t: "kst {} t" "bst t C D W P {(b, ?l)}" "bstep s t"
    note f = bstep_log [OF t(3)]
    let ?C = "C(?l := put32 (C ?l) 0 (of_nat n))"
    have hd: "?h = put_sectors (lh_sector s) [0..<n] (?C ?l)" by (simp add: head_block_def)
    show "wp (bufset b (\<lambda>r. r\<lparr>b_data := put32 (b_data r) 0 (word_of_int (lh_n t))\<rparr>))
      (\<lambda>_. wp (for_each [0..<nat (lh_n t)] (\<lambda>i. bnd (lh_get i) (\<lambda>x. bufset b (\<lambda>r. r\<lparr>b_data := put32 (b_data r) (4 + 4 * i) x\<rparr>))))
        (\<lambda>_. wp (bwrite b) (\<lambda>_. wp (brelse b) R))) t"
      unfolding f(4) n(1)
    proof (rule wp_bufdata [OF t(2) singletonI, where g = "\<lambda>d. put32 d 0 (of_nat n)"], simp, simp add: bst_data_length [OF s])
      fix u assume u: "bst u ?C D W P {(b, ?l)}" "bstep t u" "\<And>H. kst H u = kst H t"
      note fu = bstep_log [OF u(2)]
      show "wp (for_each [0..<nat (int n)] (\<lambda>i. bnd (lh_get i) (\<lambda>x. bufset b (\<lambda>r. r\<lparr>b_data := put32 (b_data r) (4 + 4 * i) x\<rparr>))))
        (\<lambda>_. wp (bwrite b) (\<lambda>_. wp (brelse b) R)) u"
      proof (rule wp_head_sectors [OF u(1) singletonI])
        fix v assume "bst v (?C(?l := put_sectors (lh_sector u) [0..<nat (int n)] (?C ?l))) D W P {(b, ?l)}"
          and v: "bstep u v" "\<And>H. kst H v = kst H u"
        then have bv: "bst v (C(?l := ?h)) D W P {(b, ?l)}" using hd fu(5) f(5) by simp
        have dv: "disksize v = disksize s" using t(3) u(2) v(1) by (simp add: bstep_def)
        show "wp (bwrite b) (\<lambda>_. wp (brelse b) R) v"
        proof (rule wp_bwrite [OF bv singletonI])
          fix w assume "bst w (C(?l := ?h)) (D(?l := (C(?l := ?h)) ?l)) (W @ [(?l, (C(?l := ?h)) ?l)]) (P - {?l}) {(b, ?l)}"
            and w: "bstep v w" "\<And>H. kst H w = kst H v"
          then have bw: "bst w (C(?l := ?h)) (D(?l := ?h)) (W @ [(?l, ?h)]) P {(b, ?l)}" using P(1) by simp
          have kw: "kst {} w" using t(1) u(3) v(2) w(2) by simp
          show "wp (brelse b) R w"
          proof (rule wp_brelse [OF kw _ _ bw singletonI])
            fix x assume x: "kst {} x" "bst x (C(?l := ?h)) (D(?l := ?h)) (W @ [(?l, ?h)]) P ({(b, ?l)} - {(b, ?l)})" "bstep w x"
            have "bstep s x" using t(3) u(2) v(1) w(1) x(3) by (blast intro: bstep_trans)
            then show "R () x" using x by (intro K) simp_all
          qed simp_all
        qed (simp add: dv sz)
      qed (use g f(5) fu(5) n in \<open>simp_all add: log_geometry_def\<close>)
    qed
  qed
qed

lemma wp_lh_sets:
  assumes "\<forall>i \<in> set is. i < length (lh_sector s)"
    and "\<And>xs. length xs = length (lh_sector s) \<Longrightarrow> (\<And>i. i \<in> set is \<Longrightarrow> xs ! i = f i) \<Longrightarrow>
      (\<And>i. i \<notin> set is \<Longrightarrow> xs ! i = lh_sector s ! i) \<Longrightarrow> R () (s\<lparr>lh_sector := xs\<rparr>)"
  shows "wp (for_each is (\<lambda>i. lh_set i (f i))) R s"
  using assms
proof (induction "is" arbitrary: s)
  case Nil
  from Nil(2) [of "lh_sector s"] show ?case by (simp add: wp_rules)
next
  case (Cons i "is")
  have "wp (for_each is (\<lambda>i. lh_set i (f i))) R (s\<lparr>lh_sector := (lh_sector s)[i := f i]\<rparr>)"
  proof (rule Cons.IH)
    fix xs assume xs: "length xs = length (lh_sector (s\<lparr>lh_sector := (lh_sector s)[i := f i]\<rparr>))"
      "\<And>i. i \<in> set is \<Longrightarrow> xs ! i = f i"
      "\<And>j. j \<notin> set is \<Longrightarrow> xs ! j = lh_sector (s\<lparr>lh_sector := (lh_sector s)[i := f i]\<rparr>) ! j"
    have "xs ! j = f j" if "j \<in> set (i # is)" for j
      using xs(2,3) [of j] that Cons.prems(1) by (cases "j \<in> set is") simp_all
    moreover have "xs ! j = lh_sector s ! j" if "j \<notin> set (i # is)" for j using xs(3) [of j] that by simp
    ultimately show "R () (s\<lparr>lh_sector := (lh_sector s)[i := f i], lh_sector := xs\<rparr>)"
      using xs(1) Cons.prems(2) [of xs] by simp
  qed (use Cons.prems(1) in simp)
  then show ?case using Cons.prems(1) by (simp add: wp_rules lh_set_def)
qed

lemma sint_of_small: "n \<le> LOGSIZE \<Longrightarrow> sint (of_nat n :: uint) = int n"
  by (simp add: signed_of_nat LOGSIZE_def signed_take_bit_int_eq_self)

lemma wp_read_head:
  assumes k: "kst {} s" and s: "bst s C D W P {}" and g: "log_geometry s" and P: "card P < NBUF"
    and n: "get32 (C (lsec s 0)) 0 = of_nat n" "n \<le> LOGSIZE"
    and K: "\<And>t. kst {} t \<Longrightarrow> bst t C D W P {} \<Longrightarrow> lstep s t \<Longrightarrow> lh_n t = int n \<Longrightarrow> log_geometry t \<Longrightarrow>
      log_busy t = log_busy s \<Longrightarrow>
      (\<And>i. i < n \<Longrightarrow> lh_sector t ! i = get32 (C (lsec s 0)) (4 + 4 * i)) \<Longrightarrow> R () t"
  shows "wp read_head R s"
proof -
  let ?l = "lsec s 0"
  have l: "word_of_int (log_start s) = ?l" by (simp add: lsec_def)
  have sz: "?l < word_of_int (disksize s)" using g by (intro lsec_range) (simp_all add: log_geometry_def)
  have dev: "log_dev s = 1" using g by (simp add: log_geometry_def)
  have clean: "?l \<in> P \<or> C ?l = D ?l" using bst_clean [OF s, of ?l] by auto
  show ?thesis
    unfolding read_head_def wp_bnd wp_gets wp_andthen l dev
  proof (rule wp_bread [OF k _ s], simp, simp, simp add: P, rule sz)
    fix b t assume t: "kst {} t" "bst t C D W P {(b, ?l)}" "bstep s t"
    note f = bstep_log [OF t(3)]
    show "wp (bufget b) (\<lambda>r. wp (upd (\<lambda>s. s\<lparr>lh_n := sint (get32 (b_data r) 0)\<rparr>)) (\<lambda>_ s. wp (for_each [0..<nat (lh_n s)]
      (\<lambda>i. lh_set i (get32 (b_data r) (4 + 4 * i)))) (\<lambda>_. wp (brelse b) R) s)) t"
    proof -
      define r where "r = bc_buf t ! b"
      have r: "b_data r = C ?l" using bst_held [OF t(2) singletonI] by (simp add: r_def)
      let ?t = "t\<lparr>lh_n := int n\<rparr>"
      have "wp (for_each [0..<n] (\<lambda>i. lh_set i (get32 (C ?l) (4 + 4 * i)))) (\<lambda>_. wp (brelse b) R) ?t"
      proof (rule wp_lh_sets)
        fix xs assume xs: "length xs = length (lh_sector ?t)" "\<And>i. i \<in> set [0..<n] \<Longrightarrow> xs ! i = get32 (C ?l) (4 + 4 * i)"
        let ?u = "?t\<lparr>lh_sector := xs\<rparr>"
        show "wp (brelse b) R ?u"
        proof (rule wp_brelse [where s = ?u and C = C and D = D and W = W and P = P and B = "{(b, ?l)}" and H = "{}"])
          fix v assume v: "kst {} v" "bst v C D W P ({(b, ?l)} - {(b, ?l)})" "bstep ?u v"
          note fv = bstep_log [OF v(3)]
          have "lstep s ?u" by (rule lstep_trans [OF bstep_lstep [OF t(3)]]) (simp add: lstep_def klow_same)
          then have st: "lstep s v" using bstep_lstep [OF v(3)] by (rule lstep_trans)
          show "R () v"
            by (rule K) (use v st fv f xs lstep_geometry(3) [OF st] g in simp_all)
        qed (use t clean in simp_all)
      qed (use n g f in \<open>simp add: log_geometry_def\<close>)
      then show ?thesis
        unfolding wp_bufget_b [OF t(2) singletonI] r_def [symmetric] r n(1) sint_of_small [OF n(2)] wp_upd by simp
    qed
  qed
qed

section \<open>Installing the log\<close>

lemma bst_fin_P: "bst s C D W P B \<Longrightarrow> finite P"
  using bst_finite by blast

lemma wp_install_one:
  assumes k: "kst {} s" and s: "bst s C D W P {}" and g: "log_geometry s"
    and i: "i < LOGSIZE" "int i + 1 < log_size s" and sec: "lh_sector s ! i \<notin> log_area s"
    and sz: "lh_sector s ! i < word_of_int (disksize s)"
    and P: "P \<inter> log_area s = {}" "card P + 1 < NBUF \<or> lh_sector s ! i \<in> P \<and> card P < NBUF"
    and K: "\<And>t. kst {} t \<Longrightarrow> bst t (C(lh_sector s ! i := C (lsec s (i + 1)))) (D(lh_sector s ! i := C (lsec s (i + 1))))
        (W @ [(lh_sector s ! i, C (lsec s (i + 1)))]) (P - {lh_sector s ! i}) {} \<Longrightarrow> bstep s t \<Longrightarrow> R () t"
  shows "wp (install_one i) R s"
proof -
  let ?l = "lsec s (i + 1)" and ?d = "lh_sector s ! i"
  have l: "word_of_int (log_start s + int i + 1) = ?l" by (simp add: lsec_def algebra_simps)
  have dev: "log_dev s = 1" and len: "i < length (lh_sector s)" using g i by (simp_all add: log_geometry_def)
  have lz: "?l < word_of_int (disksize s)" using i g by (intro lsec_range) auto
  have la: "?l \<in> log_area s" using i by (intro lsec_area) simp
  then have lP: "?l \<notin> P" and ne: "?l \<noteq> ?d" using P(1) sec by auto
  have cl: "C ?l = D ?l" using bst_clean [OF s lP] by simp
  have fP: "finite P" using bst_fin_P [OF s] .
  have cP: "?l \<in> P \<or> card (P \<union> snd ` {}) < NBUF" using P(2) by auto
  have card: "?d \<in> P \<or> card (P \<union> {?l}) < NBUF" using P(2) lP fP by (auto simp: card_insert_if)
  show ?thesis
    unfolding install_one_def wp_bnd wp_gets wp_andthen l dev
  proof (rule wp_bread [OF k _ s], simp, simp, rule cP, rule lz)
    fix b t assume t: "kst {} t" "bst t C D W P {(b, ?l)}" "bstep s t"
    note f = bstep_log [OF t(3)]
    have len': "i < length (lh_sector t)" and dt: "disksize t = disksize s" using len f t(3) by (simp_all add: bstep_def)
    show "wp (lh_get i) (\<lambda>sec. wp (bread 1 sec) (\<lambda>dbuf. wp (bufget b) (\<lambda>l. wp (bufset dbuf (\<lambda>r. r\<lparr>b_data := b_data l\<rparr>))
      (\<lambda>_. wp (bwrite dbuf) (\<lambda>_. wp (brelse b) (\<lambda>_. wp (brelse dbuf) R)))))) t"
      unfolding wp_lh_get [OF len'] f(5)
    proof (rule wp_bread [OF t(1) _ t(2)], simp, use ne in simp, use card in simp, use sz dt in simp)
      fix d u assume u: "kst {} u" "bst u C D W P (insert (d, ?d) {(b, ?l)})" "bstep t u"
      have b: "(b, ?l) \<in> insert (d, ?d) {(b, ?l)}" and d: "(d, ?d) \<in> insert (d, ?d) {(b, ?l)}" by simp_all
      have data: "b_data (bc_buf u ! b) = C ?l" by (rule bst_held(6) [OF u(2) b])
      let ?C = "C(?d := C ?l)" and ?D = "D(?d := C ?l)" and ?W = "W @ [(?d, C ?l)]" and ?P = "P - {?d}"
      show "wp (bufget b) (\<lambda>l. wp (bufset d (\<lambda>r. r\<lparr>b_data := b_data l\<rparr>))
        (\<lambda>_. wp (bwrite d) (\<lambda>_. wp (brelse b) (\<lambda>_. wp (brelse d) R)))) u"
        unfolding wp_bufget_b [OF u(2) b] data
      proof (rule wp_bufdata [OF u(2) d, where g = "\<lambda>_. C ?l"], simp, rule bst_data_length [OF s])
        fix v assume v: "bst v ?C D W P (insert (d, ?d) {(b, ?l)})" "bstep u v" "\<And>H. kst H v = kst H u"
        have dv: "disksize v = disksize s" using dt u(3) v(2) by (simp add: bstep_def)
        show "wp (bwrite d) (\<lambda>_. wp (brelse b) (\<lambda>_. wp (brelse d) R)) v"
        proof (rule wp_bwrite [OF v(1) d])
          fix w assume w: "bst w ?C (D(?d := ?C ?d)) (W @ [(?d, ?C ?d)]) ?P (insert (d, ?d) {(b, ?l)})" "bstep v w" "\<And>H. kst H w = kst H v"
          have kw: "kst {} w" and bw: "bst w ?C ?D ?W ?P (insert (d, ?d) {(b, ?l)})" using w u(1) v(3) by simp_all
          show "wp (brelse b) (\<lambda>_. wp (brelse d) R) w"
          proof (rule wp_brelse [OF kw _ _ bw b])
            fix x assume x: "kst {} x" "bst x ?C ?D ?W ?P (insert (d, ?d) {(b, ?l)} - {(b, ?l)})" "bstep w x"
            have "insert (d, ?d) {(b, ?l)} - {(b, ?l)} = {(d, ?d)}" using ne by auto
            then have bx: "bst x ?C ?D ?W ?P {(d, ?d)}" using x(2) by simp
            show "wp (brelse d) R x"
            proof (rule wp_brelse [OF x(1) _ _ bx singletonI])
              fix y assume y: "kst {} y" "bst y ?C ?D ?W ?P ({(d, ?d)} - {(d, ?d)})" "bstep x y"
              have "bstep s y" using t(3) u(3) v(2) w(2) x(3) y(3) by (blast intro: bstep_trans)
              then show "R () y" using y by (intro K) simp_all
            qed simp_all
          qed (use cl ne in simp_all)
        qed (simp add: dv sz)
      qed
    qed
  qed
qed

text \<open>The writes of a list in their order.\<close>

definition apply_writes :: "(uint \<Rightarrow> uchar list) \<Rightarrow> (uint \<times> uchar list) list \<Rightarrow> uint \<Rightarrow> uchar list" where
  "apply_writes D ws = foldl (\<lambda>D w. D(fst w := snd w)) D ws"

lemma apply_writes_simps [simp]:
  "apply_writes D [] = D" "apply_writes D (w # ws) = apply_writes (D(fst w := snd w)) ws"
  "apply_writes D (ws @ vs) = apply_writes (apply_writes D ws) vs"
  by (simp_all add: apply_writes_def)

lemma apply_writes_other: "x \<notin> fst ` set ws \<Longrightarrow> apply_writes D ws x = D x"
  by (induction ws arbitrary: D) auto

lemma wp_install_list:
  assumes "kst {} s" and "bst s C D W P {}" and "log_geometry s"
    and "\<forall>i \<in> set is. i < LOGSIZE \<and> int i + 1 < log_size s \<and> lh_sector s ! i \<notin> log_area s \<and>
      lh_sector s ! i < word_of_int (disksize s)"
    and "P \<inter> log_area s = {}" and "card P + 1 < NBUF \<or> (\<forall>i \<in> set is. lh_sector s ! i \<in> P) \<and> card P < NBUF"
    and "ws = map (\<lambda>i. (lh_sector s ! i, C (lsec s (i + 1)))) is"
    and "\<And>t. kst {} t \<Longrightarrow> bst t (apply_writes C ws) (apply_writes D ws) (W @ ws) (P - (\<lambda>i. lh_sector s ! i) ` set is) {} \<Longrightarrow>
      bstep s t \<Longrightarrow> R () t"
  shows "wp (for_each is install_one) R s"
  using assms
proof (induction "is" arbitrary: s C D W P ws)
  case Nil
  then show ?case by (simp add: wp_rules)
next
  case (Cons i "is")
  note p = Cons.prems
  let ?sec = "lh_sector s ! i" and ?v = "C (lsec s (i + 1))"
  have ex: "card P + 1 < NBUF \<or> ?sec \<in> P \<and> card P < NBUF" using p(6) by auto
  have iS: "i < LOGSIZE" "int i + 1 < log_size s" "?sec \<notin> log_area s" "?sec < word_of_int (disksize s)" using p(4) by auto
  show ?case
    unfolding for_each.simps wp_andthen
  proof (rule wp_install_one [OF p(1-3) iS p(5) ex])
    fix t assume t: "kst {} t" "bst t (C(?sec := ?v)) (D(?sec := ?v)) (W @ [(?sec, ?v)]) (P - {?sec}) {}" "bstep s t"
    note f = bstep_log [OF t(3)] and lg = lstep_geometry [OF bstep_lstep [OF t(3)]]
    have dt: "disksize t = disksize s" using t(3) by (simp add: bstep_def)
    have fP: "finite P" using bst_fin_P [OF p(2)] .
    have card: "card (P - {?sec}) + 1 < NBUF"
    proof (cases "?sec \<in> P")
      case True
      then have "card (P - {?sec}) + 1 = card P" using fP by (metis Suc_eq_plus1 card_Suc_Diff1)
      then show ?thesis using p(6) by auto
    qed (use ex in simp)
    have ls: "lsec s (j + 1) \<noteq> ?sec" if "j \<in> set is" for j
      using lsec_area [of "j + 1" s] p(4) iS(3) that by auto
    have ws: "map (\<lambda>j. (lh_sector t ! j, (C(?sec := ?v)) (lsec t (j + 1)))) is = map (\<lambda>j. (lh_sector s ! j, C (lsec s (j + 1)))) is"
      using ls f(5) lg(1) by auto
    show "wp (for_each is install_one) R t"
    proof (rule Cons.IH [OF t(1,2) _ _ _ _ refl, unfolded ws])
      fix u assume "kst {} u" "bstep t u" and "bst u (apply_writes (C(?sec := ?v)) (map (\<lambda>j. (lh_sector s ! j, C (lsec s (j + 1)))) is))
        (apply_writes (D(?sec := ?v)) (map (\<lambda>j. (lh_sector s ! j, C (lsec s (j + 1)))) is))
        ((W @ [(?sec, ?v)]) @ map (\<lambda>j. (lh_sector s ! j, C (lsec s (j + 1)))) is)
        (P - {?sec} - (\<lambda>i. lh_sector t ! i) ` set is) {}"
      then show "R () u"
        using p(7) f(5) bstep_trans [OF t(3)] by (intro p(8)) (simp_all add: Diff_insert2 [symmetric])
    qed (use p f lg dt card in auto)
  qed
qed

text \<open>What the header on the disk asks to install, and the disk once it is installed and the header is cleared.\<close>

definition logged :: "'z klog_scheme \<Rightarrow> (uint \<Rightarrow> uchar list) \<Rightarrow> nat \<Rightarrow> (uint \<times> uchar list) list" where
  "logged s D n = map (\<lambda>i. (get32 (D (lsec s 0)) (4 + 4 * i), D (lsec s (i + 1)))) [0..<n]"

definition log_valid :: "'z klog_scheme \<Rightarrow> (uint \<Rightarrow> uchar list) \<Rightarrow> nat \<Rightarrow> bool" where
  "log_valid s D n \<longleftrightarrow> get32 (D (lsec s 0)) 0 = of_nat n \<and> n \<le> LOGSIZE \<and> int n < log_size s \<and>
     (\<forall>i < n. get32 (D (lsec s 0)) (4 + 4 * i) \<notin> log_area s \<and> get32 (D (lsec s 0)) (4 + 4 * i) < word_of_int (disksize s))"

lemma logged_area: "log_valid s D n \<Longrightarrow> fst ` set (logged s D n) \<inter> log_area s = {}"
  by (auto simp: logged_def log_valid_def)

lemma wp_recover:
  assumes k: "kst {} s" and s: "bst s D D W {} {}" and g: "log_geometry s" and v: "log_valid s D n"
    and K: "\<And>t h. h = put32 (D (lsec s 0)) 0 0 \<Longrightarrow> kst {} t \<Longrightarrow>
      bst t ((apply_writes D (logged s D n))(lsec s 0 := h)) ((apply_writes D (logged s D n))(lsec s 0 := h))
        (W @ logged s D n @ [(lsec s 0, h)]) {} {} \<Longrightarrow> lstep s t \<Longrightarrow> log_geometry t \<Longrightarrow> lh_n t = 0 \<Longrightarrow>
      log_busy t = log_busy s \<Longrightarrow> R () t"
  shows "wp recover_from_log R s"
proof -
  let ?l = "lsec s 0"
  have n: "get32 (D ?l) 0 = of_nat n" "n \<le> LOGSIZE" "int n < log_size s" using v by (simp_all add: log_valid_def)
  have NB: "card ({} :: uint set) < NBUF" "card ({} :: uint set) + 1 < NBUF" by (simp_all add: NBUF_def)
  show ?thesis
    unfolding recover_from_log_def wp_andthen
  proof (rule wp_read_head [OF k s g NB(1) n(1,2)])
    fix t assume t: "kst {} t" "bst t D D W {} {}" "lstep s t" "lh_n t = int n" "log_geometry t" "log_busy t = log_busy s"
      and sec: "\<And>i. i < n \<Longrightarrow> lh_sector t ! i = get32 (D ?l) (4 + 4 * i)"
    note lt = lstep_geometry(1,2) [OF t(3)]
    have st: "log_size t = log_size s" "disksize t = disksize s" using t(3) by (simp_all add: lstep_def)
    have ws: "map (\<lambda>i. (lh_sector t ! i, D (lsec t (i + 1)))) [0..<n] = logged s D n"
      using sec lt(1) by (simp add: logged_def)
    show "wp install_trans (\<lambda>_. wp (upd (\<lambda>s. s\<lparr>lh_n := 0\<rparr>)) (\<lambda>_. wp write_head R)) t"
      unfolding install_trans_def wp_bnd wp_gets t(4) nat_int
    proof (rule wp_install_list [OF t(1,2,5) _ _ _ ws [symmetric]])
      fix u assume u: "kst {} u" "bst u (apply_writes D (logged s D n)) (apply_writes D (logged s D n)) (W @ logged s D n)
        ({} - (\<lambda>i. lh_sector t ! i) ` set [0..<n]) {}" "bstep t u"
      let ?u = "u\<lparr>lh_n := 0\<rparr>"
      note lu = lstep_geometry(1,2) [OF bstep_lstep [OF u(3)]] and fu = bstep_log [OF u(3)]
      have lu': "lsec ?u 0 = ?l" using lu lt by (simp add: lsec_def fun_eq_iff)
      have D: "apply_writes D (logged s D n) ?l = D ?l"
        using logged_area [OF v] lsec_area [of 0 s] n(3) by (intro apply_writes_other) auto
      have "wp write_head R ?u"
      proof (rule wp_write_head [where n = 0 and P = "{}"])
        fix x h assume x: "kst {} x" "bstep ?u x" "h = head_block (apply_writes D (logged s D n) (lsec ?u 0)) (lh_sector ?u) 0"
          and b: "bst x ((apply_writes D (logged s D n))(lsec ?u 0 := h)) ((apply_writes D (logged s D n))(lsec ?u 0 := h))
            ((W @ logged s D n) @ [(lsec ?u 0, h)]) {} {}"
        have h: "h = put32 (D ?l) 0 0" using x(3) D lu' by (simp add: head_block_def)
        have st: "lstep s x" "lstep t x"
          using t(3) bstep_lstep [OF u(3)] lstep_upd(1) [of u 0] bstep_lstep [OF x(2)] by (blast intro: lstep_trans)+
        note fx = bstep_log [OF x(2)]
        have "log_geometry x" using lstep_geometry(3) [OF st(2)] t(5) fx(5) fu(5) by simp
        then show "R () x" using h x(1) b lu' st(1) fx fu t(6) by (intro K) simp_all
      qed (use u g fu t(5) lstep_geometry(3) [OF bstep_lstep [OF u(3)]] NB in \<open>simp_all add: log_geometry_def\<close>)
      then show "wp (upd (\<lambda>s. s\<lparr>lh_n := 0\<rparr>)) (\<lambda>_. wp write_head R) u" by (simp add: wp_rules)
    qed (use v n sec lt NB st in \<open>auto simp: log_valid_def\<close>)
  qed
qed

section \<open>Logging a block\<close>

lemma log_find_le: "log_find (int n) secs sec \<le> n"
  unfolding log_find_def by (rule order_trans [OF length_takeWhile_le]) simp

lemma log_find_lt: "log_find (int n) secs sec < n \<Longrightarrow> n \<le> length secs \<Longrightarrow> secs ! log_find (int n) secs sec = sec"
  using nth_length_takeWhile [of "\<lambda>x. x \<noteq> sec" "take n secs"] by (simp add: log_find_def)

lemma log_find_eq:
  assumes "n \<le> length secs" and "log_find (int n) secs sec = n"
  shows "sec \<notin> set (take n secs)"
proof -
  have "takeWhile (\<lambda>x. x \<noteq> sec) (take n secs) = take n secs"
    using takeWhile_eq_take [of "\<lambda>x. x \<noteq> sec" "take n secs"] assms by (simp add: log_find_def)
  then show ?thesis unfolding takeWhile_eq_all_conv by blast
qed

lemma wp_log_mark:
  fixes s w :: "'z klog_scheme"
  assumes "kst {} w" and w: "bst w C D W P {(b, sec)}" and g: "log_geometry s" and busy: "log_busy s" and n: "lh_n s = int n"
    and st: "bstep (s\<lparr>lh_sector := (lh_sector s)[i := sec]\<rparr>) w"
    and K: "\<And>t. kst {} t \<Longrightarrow> bst t C D W (insert sec P) {(b, sec)} \<Longrightarrow>
      lstep s t \<Longrightarrow> log_geometry t \<Longrightarrow> log_busy t \<Longrightarrow> lh_sector t = (lh_sector s)[i := sec] \<Longrightarrow>
      lh_n t = (if i = n then int n + 1 else int n) \<Longrightarrow> R () t"
  shows "wp (whenever (int i = int n) (upd (\<lambda>s. s\<lparr>lh_n := lh_n s + 1\<rparr>)))
            (\<lambda>_. wp (bufset b (\<lambda>r. r\<lparr>b_dirty := True\<rparr>)) R) w"
proof -
  define w' where "w' = (if i = n then w\<lparr>lh_n := lh_n w + 1\<rparr> else w)"
  note fw = bstep_log [OF st]
  have w'': "kst {} w'" "bst w' C D W P {(b, sec)}" "lstep w w'" "lh_sector w' = (lh_sector s)[i := sec]"
    "lh_n w' = (if i = n then int n + 1 else int n)" "log_busy w'"
    using assms(1) w fw busy n by (simp_all add: w'_def)
  have "wp (bufset b (\<lambda>r. r\<lparr>b_dirty := True\<rparr>)) R w'"
  proof (rule wp_bufdirty [OF w''(2) singletonI], simp)
    fix t assume t: "bst t C D W (insert sec P) {(b, sec)}" "bstep w' t" "\<And>H. kst H t = kst H w'"
    have "lstep s t"
      using lstep_trans [OF lstep_trans [OF lstep_trans [OF lstep_upd(2) bstep_lstep [OF st]] w''(3)] bstep_lstep [OF t(2)]] .
    moreover from this have "log_geometry t"
      using lstep_geometry(3) [of s t] g bstep_log(5) [OF t(2)] w''(4) by simp
    ultimately show "R () t" using t w'' bstep_log [OF t(2)] by (intro K) simp_all
  qed
  then show ?thesis by (cases "i = n") (simp_all add: w'_def wp_rules whenever_def)
qed

lemma wp_log_write:
  assumes k: "kst {} s" and s: "bst s C D W P {(b, sec)}" and g: "log_geometry s" and busy: "log_busy s"
    and n: "lh_n s = int n" "n < LOGSIZE" "int n + 1 < log_size s"
    and A: "sec \<notin> log_area s" "P \<inter> log_area s = {}" and P: "card (insert sec P) < NBUF"
    and i: "i = log_find (int n) (lh_sector s) sec" and l: "l = lsec s (i + 1)"
    and K: "\<And>t. kst {} t \<Longrightarrow> bst t (C(l := C sec)) (D(l := C sec)) (W @ [(l, C sec)]) (insert sec P) {(b, sec)} \<Longrightarrow>
      lstep s t \<Longrightarrow> log_geometry t \<Longrightarrow> log_busy t \<Longrightarrow> lh_sector t = (lh_sector s)[i := sec] \<Longrightarrow>
      lh_n t = (if i = n then int n + 1 else int n) \<Longrightarrow> R () t"
  shows "wp (log_write b) R s"
proof -
  have len: "length (lh_sector s) = LOGSIZE" using g by (simp add: log_geometry_def)
  have i': "i \<le> n" using log_find_le by (simp add: i)
  then have iL: "i < length (lh_sector s)" using n(2) len by simp
  have held: "b_sector (bc_buf s ! b) = sec" "b_dev (bc_buf s ! b) = 1" using bst_held [OF s singletonI] by simp_all
  let ?s = "s\<lparr>lh_sector := (lh_sector s)[i := sec]\<rparr>"
  have l': "word_of_int (log_start s + int i + 1) = l" by (simp add: l lsec_def algebra_simps)
  have la: "l \<in> log_area s" unfolding l using i' n(3) by (intro lsec_area) simp
  then have ne: "l \<noteq> sec" "l \<notin> P" using A by auto
  have lz: "l < word_of_int (disksize s)" unfolding l using i' n(3) by (intro lsec_range [OF g]) simp
  define rest where "rest lbuf = bnd (bufget b) (\<lambda>r.
         andthen (bufset lbuf (\<lambda>q. q\<lparr>b_data := b_data r\<rparr>))
         (andthen (bwrite lbuf)
         (andthen (brelse lbuf)
         (andthen (whenever (int i = int n) (upd (\<lambda>s :: 'a klog_scheme. s\<lparr>lh_n := lh_n s + 1\<rparr>)))
         (bufset b (\<lambda>r. r\<lparr>b_dirty := True\<rparr>))))))" for lbuf
  have "wp (bread 1 l) (\<lambda>lbuf. wp (rest lbuf) R) ?s"
  proof (rule wp_bread [where s = ?s and H = "{}" and C = C and D = D and W = W and P = P and B = "{(b, sec)}"])
    fix c t assume t: "kst {} t" "bst t C D W P (insert (c, l) {(b, sec)})" "bstep ?s t"
    let ?B = "insert (c, l) {(b, sec)}" and ?C = "C(l := C sec)" and ?D = "D(l := C sec)" and ?W = "W @ [(l, C sec)]"
    have c: "(c, l) \<in> ?B" and b: "(b, sec) \<in> ?B" by simp_all
    have data: "b_data (bc_buf t ! b) = C sec" by (rule bst_held(6) [OF t(2) b])
    show "wp (rest c) R t"
      unfolding rest_def wp_bnd wp_andthen wp_bufget_b [OF t(2) b] data
    proof (rule wp_bufdata [OF t(2) c, where g = "\<lambda>_. C sec"], simp, rule bst_data_length [OF s])
      fix u assume u: "bst u ?C D W P ?B" "bstep t u" "\<And>H. kst H u = kst H t"
      have du: "disksize u = disksize s" using t(3) u(2) by (simp add: bstep_def)
      show "wp (bwrite c) (\<lambda>_. wp (brelse c) (\<lambda>_. wp (whenever (int i = int n) (upd (\<lambda>s. s\<lparr>lh_n := lh_n s + 1\<rparr>)))
          (\<lambda>_. wp (bufset b (\<lambda>r. r\<lparr>b_dirty := True\<rparr>)) R))) u"
      proof (rule wp_bwrite [OF u(1) c])
        fix v assume v: "bst v ?C (D(l := ?C l)) (W @ [(l, ?C l)]) (P - {l}) ?B" "bstep u v" "\<And>H. kst H v = kst H u"
        have kv: "kst {} v" and bv: "bst v ?C ?D ?W P ?B" using v t(1) u(3) ne(2) by simp_all
        show "wp (brelse c) (\<lambda>_. wp (whenever (int i = int n) (upd (\<lambda>s. s\<lparr>lh_n := lh_n s + 1\<rparr>)))
          (\<lambda>_. wp (bufset b (\<lambda>r. r\<lparr>b_dirty := True\<rparr>)) R)) v"
        proof (rule wp_brelse [OF kv _ _ bv c])
          fix w assume w: "kst {} w" "bst w ?C ?D ?W P (?B - {(c, l)})" "bstep v w"
          have "?B - {(c, l)} = {(b, sec)}" using ne by auto
          then have bw: "bst w ?C ?D ?W P {(b, sec)}" using w(2) by simp
          have st: "bstep ?s w" using t(3) u(2) v(2) w(3) by (blast intro: bstep_trans)
          show "wp (whenever (int i = int n) (upd (\<lambda>s. s\<lparr>lh_n := lh_n s + 1\<rparr>)))
            (\<lambda>_. wp (bufset b (\<lambda>r. r\<lparr>b_dirty := True\<rparr>)) R) w"
            by (rule wp_log_mark [OF w(1) bw g busy n(1) st]) (rule K)
        qed (simp_all)
      qed (use du lz in simp)
    qed
  qed (use k s ne lz P in \<open>simp_all add: insert_commute\<close>)
  then show ?thesis
    unfolding log_write_def wp_bnd wp_gets
    using n busy iL
    by (simp add: wp_bufget_b [OF s singletonI] wp_rules held Let_def lh_set_def i [symmetric] l' [simplified] rest_def)
qed

end
