(* ===== verification/Bio_Props.thy ===== *)
theory Bio_Props
  imports Bio_Rules
begin

text \<open>
  The cache as a block device: the interface \<open>block_device\<close>, a client of it that refines an array of sectors,
  and its interpretation on \<open>bread\<close>, \<open>bwrite\<close> and \<open>brelse\<close>.
\<close>

section \<open>Block devices\<close>

datatype blk_op = ReadBlk uint | WriteBlk uint "uchar list"

text \<open>The blocks a client reads, and what it leaves, on a device and on an array of sectors.\<close>

fun blk_client :: "(uint \<Rightarrow> ('s, uchar list) kop) \<Rightarrow> (uint \<Rightarrow> uchar list \<Rightarrow> ('s, unit) kop) \<Rightarrow> blk_op list \<Rightarrow>
    ('s, uchar list list) kop" where
  "blk_client rd wr [] = ret []"
| "blk_client rd wr (ReadBlk sec # ops) = bnd (rd sec) (\<lambda>v. bnd (blk_client rd wr ops) (\<lambda>vs. ret (v # vs)))"
| "blk_client rd wr (WriteBlk sec v # ops) = andthen (wr sec v) (blk_client rd wr ops)"

fun array_reads :: "blk_op list \<Rightarrow> (uint \<Rightarrow> uchar list) \<Rightarrow> uchar list list" where
  "array_reads [] D = []"
| "array_reads (ReadBlk sec # ops) D = D sec # array_reads ops D"
| "array_reads (WriteBlk sec v # ops) D = array_reads ops (D(sec := v))"

fun array_after :: "blk_op list \<Rightarrow> (uint \<Rightarrow> uchar list) \<Rightarrow> uint \<Rightarrow> uchar list" where
  "array_after [] D = D"
| "array_after (ReadBlk sec # ops) D = array_after ops D"
| "array_after (WriteBlk sec v # ops) D = array_after ops (D(sec := v))"

fun op_ok :: "(uint \<Rightarrow> bool) \<Rightarrow> blk_op \<Rightarrow> bool" where
  "op_ok inr (ReadBlk sec) \<longleftrightarrow> inr sec"
| "op_ok inr (WriteBlk sec v) \<longleftrightarrow> inr sec \<and> length v = BSIZE"

locale block_device =
  fixes rd :: "uint \<Rightarrow> ('s, uchar list) kop" and wr :: "uint \<Rightarrow> uchar list \<Rightarrow> ('s, unit) kop"
    and holds :: "'s \<Rightarrow> (uint \<Rightarrow> uchar list) \<Rightarrow> bool" and in_range :: "'s \<Rightarrow> uint \<Rightarrow> bool"
  assumes read_block: "holds s D \<Longrightarrow> in_range s sec \<Longrightarrow> wp (rd sec) (\<lambda>v t. v = D sec \<and> holds t D \<and> in_range t = in_range s) s"
    and write_block: "holds s D \<Longrightarrow> in_range s sec \<Longrightarrow> length v = BSIZE \<Longrightarrow>
      wp (wr sec v) (\<lambda>_ t. holds t (D(sec := v)) \<and> in_range t = in_range s) s"
begin

lemma client_refines_array:
  assumes "holds s D" and "\<forall>op \<in> set ops. op_ok (in_range s) op"
  shows "wp (blk_client rd wr ops) (\<lambda>vs t. vs = array_reads ops D \<and> holds t (array_after ops D)) s"
  using assms
proof (induction ops arbitrary: s D)
  case (Cons op ops)
  show ?case
  proof (cases op)
    case (ReadBlk sec)
    have "wp (rd sec) (\<lambda>v t. v = D sec \<and> holds t D \<and> in_range t = in_range s) s"
      using Cons.prems ReadBlk by (intro read_block) simp_all
    then show ?thesis
      unfolding ReadBlk blk_client.simps wp_bnd
    proof (rule wp_mono)
      fix v t assume t: "v = D sec \<and> holds t D \<and> in_range t = in_range s"
      then have "wp (blk_client rd wr ops) (\<lambda>vs u. vs = array_reads ops D \<and> holds u (array_after ops D)) t"
        using Cons.prems(2) by (intro Cons.IH) simp_all
      then show "wp (blk_client rd wr ops) (\<lambda>vs. wp (ret (v # vs)) (\<lambda>vs t. vs = array_reads (ReadBlk sec # ops) D \<and>
          holds t (array_after (ReadBlk sec # ops) D))) t"
        by (rule wp_mono) (simp add: wp_rules t)
    qed
  next
    case (WriteBlk sec v)
    have "wp (wr sec v) (\<lambda>_ t. holds t (D(sec := v)) \<and> in_range t = in_range s) s"
      using Cons.prems WriteBlk by (intro write_block) simp_all
    then show ?thesis
      unfolding WriteBlk blk_client.simps wp_andthen array_reads.simps array_after.simps
      by (rule wp_mono) (use Cons.prems(2) in \<open>auto intro!: Cons.IH\<close>)
  qed
qed (simp add: wp_rules)

end

section \<open>The cache is a block device\<close>

definition cached_read :: "uint \<Rightarrow> ('z kbio_scheme, uchar list) kop" where
  "cached_read sec = bnd (bread 1 sec) (\<lambda>b. bnd (bufget b) (\<lambda>r. andthen (brelse b) (ret (b_data r))))"

definition cached_write :: "uint \<Rightarrow> uchar list \<Rightarrow> ('z kbio_scheme, unit) kop" where
  "cached_write sec v =
     bnd (bread 1 sec) (\<lambda>b. andthen (bufset b (\<lambda>r. r\<lparr>b_data := v\<rparr>)) (andthen (bwrite b) (brelse b)))"

text \<open>No buffer is in use or dirty, and the disk holds \<open>D\<close>.\<close>

definition cache_holds :: "'z kbio_scheme \<Rightarrow> (uint \<Rightarrow> uchar list) \<Rightarrow> bool" where
  "cache_holds s D \<longleftrightarrow> kst {} s \<and> (\<exists>W. bst s D D W {} {})"

definition on_disk :: "'z kbio_scheme \<Rightarrow> uint \<Rightarrow> bool" where
  "on_disk s sec \<longleftrightarrow> sec < word_of_int (disksize s)"

lemma on_disk_step: "bstep s t \<Longrightarrow> on_disk t = on_disk s"
  by (simp add: bstep_def on_disk_def fun_eq_iff)

lemma wp_cached_read:
  assumes "cache_holds s D" and "on_disk s sec"
  shows "wp (cached_read sec) (\<lambda>v t. v = D sec \<and> cache_holds t D \<and> on_disk t = on_disk s) s"
proof -
  obtain W where s: "kst {} s" "bst s D D W {} {}" using assms(1) by (auto simp: cache_holds_def)
  show ?thesis
    unfolding cached_read_def wp_bnd wp_andthen wp_ret
  proof (rule wp_bread [OF s(1) _ s(2)])
    fix b t assume t: "kst {} t" "bst t D D W {} {(b, sec)}" "bstep s t"
    show "wp (bufget b) (\<lambda>a. wp (brelse b) (\<lambda>_ u. b_data a = D sec \<and> cache_holds u D \<and> on_disk u = on_disk s)) t"
      unfolding wp_bufget_b [OF t(2) singletonI]
    proof (rule wp_brelse [OF t(1) _ _ t(2) singletonI])
      fix u assume "kst {} u" "bst u D D W {} ({(b, sec)} - {(b, sec)})" "bstep t u"
      then show "b_data (bc_buf t ! b) = D sec \<and> cache_holds u D \<and> on_disk u = on_disk s"
        using bst_held(6) [OF t(2)] on_disk_step [of t u] on_disk_step [OF t(3)] by (auto simp: cache_holds_def)
    qed simp_all
  qed (use assms(2) in \<open>simp_all add: NBUF_def on_disk_def\<close>)
qed

lemma wp_cached_write:
  assumes "cache_holds s D" and "on_disk s sec" and v: "length v = BSIZE"
  shows "wp (cached_write sec v) (\<lambda>_ t. cache_holds t (D(sec := v)) \<and> on_disk t = on_disk s) s"
proof -
  obtain W where s: "kst {} s" "bst s D D W {} {}" using assms(1) by (auto simp: cache_holds_def)
  show ?thesis
    unfolding cached_write_def wp_bnd wp_andthen
  proof (rule wp_bread [OF s(1) _ s(2)])
    fix b t assume t: "kst {} t" "bst t D D W {} {(b, sec)}" "bstep s t"
    show "wp (bufset b (b_data_update (\<lambda>_. v)))
      (\<lambda>_. wp (bwrite b) (\<lambda>_. wp (brelse b) (\<lambda>_ t. cache_holds t (D(sec := v)) \<and> on_disk t = on_disk s))) t"
    proof (rule wp_bufdata [OF t(2) singletonI, where g = "\<lambda>_. v"])
      fix u assume u: "bst u (D(sec := v)) D W {} {(b, sec)}" "bstep t u" "\<And>H. kst H u = kst H t"
      have n: "sec < word_of_int (disksize u)" using assms(2) t(3) u(2) by (simp add: bstep_def on_disk_def)
      show "wp (bwrite b) (\<lambda>_. wp (brelse b) (\<lambda>_ t. cache_holds t (D(sec := v)) \<and> on_disk t = on_disk s)) u"
      proof (rule wp_bwrite [OF u(1) singletonI n])
        fix w assume "bst w (D(sec := v)) (D(sec := (D(sec := v)) sec)) (W @ [(sec, (D(sec := v)) sec)]) ({} - {sec}) {(b, sec)}"
          and f: "bstep u w" "\<And>H. kst H w = kst H u"
        then have w: "bst w (D(sec := v)) (D(sec := v)) (W @ [(sec, v)]) {} {(b, sec)}" by simp
        have k: "kst {} w" using f(2) u(3) t(1) by simp
        show "wp (brelse b) (\<lambda>_ t. cache_holds t (D(sec := v)) \<and> on_disk t = on_disk s) w"
        proof (rule wp_brelse [OF k _ _ w singletonI])
          fix x assume "kst {} x" "bst x (D(sec := v)) (D(sec := v)) (W @ [(sec, v)]) {} ({(b, sec)} - {(b, sec)})" "bstep w x"
          then show "cache_holds x (D(sec := v)) \<and> on_disk x = on_disk s"
            using on_disk_step [of w x] on_disk_step [OF f(1)] on_disk_step [OF u(2)] on_disk_step [OF t(3)]
            by (auto simp: cache_holds_def)
        qed simp_all
      qed
    qed (simp_all add: v)
  qed (use assms(2) in \<open>simp_all add: NBUF_def on_disk_def\<close>)
qed

interpretation cache: block_device cached_read cached_write cache_holds on_disk
  by unfold_locales (rule wp_cached_read, assumption+, rule wp_cached_write)

section \<open>A cache after \<open>binit\<close>\<close>

definition empty_buf :: "nat \<Rightarrow> buf" where
  "empty_buf i = \<lparr>b_busy = False, b_valid = False, b_dirty = False, b_dev = -1, b_sector = 0,
     b_prev = (if i = 9 then BHead else Buf (i + 1)), b_next = (if i = 0 then BHead else Buf (i - 1)),
     b_qnext = None, b_data = replicate 512 0\<rparr>"

definition demo_bio :: kbio where
  "demo_bio = kmem.extend demo_mem \<lparr>bc_buf = map empty_buf [0..<10], bc_head_prev = Buf 0, bc_head_next = Buf 9,
     disk = (\<lambda>sec. replicate 512 (ucast sec)), disk_trace = [], disksize = 100\<rparr>"

lemma demo_bio_simps [simp]:
  "bc_buf demo_bio = map empty_buf [0..<10]" "bc_head_prev demo_bio = Buf 0" "bc_head_next demo_bio = Buf 9"
  "disk demo_bio = (\<lambda>sec. replicate 512 (ucast sec))" "disk_trace demo_bio = []" "disksize demo_bio = 100"
  by (simp_all add: demo_bio_def kmem.defs)

lemma bst_empty:
  assumes "bc_buf s = map empty_buf [0..<10]" "bc_head_prev s = Buf 0" "bc_head_next s = Buf 9"
    and "\<And>sec. length (disk s sec) = BSIZE"
  shows "bst s (disk s) (disk s) (disk_trace s) {} {}"
proof -
  have nth: "b < NBUF \<Longrightarrow> bc_buf s ! b = empty_buf b" for b by (simp add: assms(1) NBUF_def)
  have "set [9, 8, 7, 6, 5, 4, 3, 2, 1, 0] = {..<NBUF}" by (rule set_eqI) (simp add: NBUF_def, presburger)
  then have "lru (bc_buf s) (bc_head_prev s) (bc_head_next s) [9, 8, 7, 6, 5, 4, 3, 2, 1, 0]"
    unfolding lru_def ring_def assms(2,3)
    by (simp add: nth NBUF_def nxt_def prv_def empty_buf_def assms(1))
  moreover have "\<not> entry (bc_buf s) b sec" for b sec using nth by (auto simp: entry_def empty_buf_def)
  then have "bview (bc_buf s) (disk s) (disk s) {} {}"
    using nth by (auto simp: bview_def empty_buf_def)
  ultimately show ?thesis using assms(4) by (auto simp: bst_def)
qed

lemma demo_bio_kst: "kst {} demo_bio"
  using demo_mem_kst by (subst kst_eqI [of _ demo_mem]) (simp_all add: demo_bio_def kmem.defs)

lemma demo_bio_holds: "cache_holds demo_bio (disk demo_bio)"
  unfolding cache_holds_def using demo_bio_kst bst_empty [of demo_bio] by (auto simp: BSIZE_def)

section \<open>Property\<close>

text \<open>
  C5. The buffer cache is transparent: a kernel that reads blocks and writes blocks through it (\<open>bread\<close>, \<open>bwrite\<close>,
  \<open>brelse\<close>), in any order and over any number of blocks, never panics or waits, reads from every block what was
  last written to it, and leaves the disk as an array of sectors would be left; so recycling buffers
  loses nothing.
\<close>

theorem cache_refines_disk:
  assumes "cache_holds s (disk s)" and "\<forall>op \<in> set ops. op_ok (on_disk s) op"
  shows "\<exists>t. blk_client cached_read cached_write ops s = Done (array_reads ops (disk s)) t \<and>
    cache_holds t (array_after ops (disk s)) \<and> disk t = array_after ops (disk s)"
proof -
  have "wp (blk_client cached_read cached_write ops)
      (\<lambda>vs t. vs = array_reads ops (disk s) \<and> cache_holds t (array_after ops (disk s))) s"
    using assms by (rule cache.client_refines_array)
  then obtain t where "blk_client cached_read cached_write ops s = Done (array_reads ops (disk s)) t"
    and t: "cache_holds t (array_after ops (disk s))"
    by (auto elim!: wpE)
  moreover have "disk t = array_after ops (disk s)" using t by (auto simp: cache_holds_def bst_def)
  ultimately show ?thesis by blast
qed

theorem cache_refines_disk_witness:
  "\<exists>t. blk_client cached_read cached_write [ReadBlk 3, WriteBlk 3 (replicate 512 7), ReadBlk 4, ReadBlk 3] demo_bio
      = Done [replicate 512 3, replicate 512 4, replicate 512 7] t \<and> disk t 3 = replicate 512 7"
proof -
  have "\<exists>t. blk_client cached_read cached_write [ReadBlk 3, WriteBlk 3 (replicate 512 7), ReadBlk 4, ReadBlk 3] demo_bio
      = Done (array_reads [ReadBlk 3, WriteBlk 3 (replicate 512 7), ReadBlk 4, ReadBlk 3] (disk demo_bio)) t \<and>
    cache_holds t (array_after [ReadBlk 3, WriteBlk 3 (replicate 512 7), ReadBlk 4, ReadBlk 3] (disk demo_bio)) \<and>
    disk t = array_after [ReadBlk 3, WriteBlk 3 (replicate 512 7), ReadBlk 4, ReadBlk 3] (disk demo_bio)"
    by (rule cache_refines_disk [OF demo_bio_holds]) (simp add: on_disk_def BSIZE_def)
  then show ?thesis by auto
qed

end
