(* ===== verification/Log_Props.thy ===== *)
theory Log_Props
  imports Log_Rules Bio_Props
begin

text \<open>
  Transactions: the writes between \<open>begin_trans\<close> and \<open>commit_trans\<close> reach the disk all or not at all,
  wherever the machine stops, once \<open>recover_from_log\<close> has run.
\<close>

section \<open>Transactions\<close>

definition logged_write :: "uint \<Rightarrow> uchar list \<Rightarrow> ('z klog_scheme, unit) kop" where
  "logged_write sec v =
     bnd (bread 1 sec) (\<lambda>b. andthen (bufset b (\<lambda>r. r\<lparr>b_data := v\<rparr>)) (andthen (log_write b) (brelse b)))"

definition transaction :: "(uint \<times> uchar list) list \<Rightarrow> ('z klog_scheme, unit) kop" where
  "transaction ws = andthen begin_trans (andthen (for_each ws (\<lambda>w. logged_write (fst w) (snd w))) commit_trans)"

text \<open>No transaction is open, no buffer is in use or dirty, and the header on the disk is empty.\<close>

definition log_idle :: "'z klog_scheme \<Rightarrow> bool" where
  "log_idle s \<longleftrightarrow> kst {} s \<and> bst s (disk s) (disk s) (disk_trace s) {} {} \<and> log_geometry s \<and> lh_n s = 0 \<and>
     \<not> log_busy s \<and> get32 (disk s (lsec s 0)) 0 = 0"

text \<open>A state the machine can start again in with the log of \<open>s\<close> and the disk \<open>D\<close>: the cache holds nothing.\<close>

definition rebooted :: "'z klog_scheme \<Rightarrow> (uint \<Rightarrow> uchar list) \<Rightarrow> 'z klog_scheme \<Rightarrow> bool" where
  "rebooted s D u \<longleftrightarrow> kst {} u \<and> bst u D D (disk_trace u) {} {} \<and> log_geometry u \<and> \<not> log_busy u \<and>
     log_start u = log_start s \<and> log_size u = log_size s \<and> disksize u = disksize s"

definition write_ok :: "'z klog_scheme \<Rightarrow> uint \<times> uchar list \<Rightarrow> bool" where
  "write_ok s w \<longleftrightarrow> fst w \<notin> log_area s \<and> fst w < word_of_int (disksize s) \<and> length (snd w) = BSIZE"

section \<open>Inside a transaction\<close>

text \<open>
  After the writes \<open>pre\<close> of a transaction that began in \<open>s0\<close>: the blocks are dirty in the cache, their copies in
  the log, and the disk has changed in the log only, its header apart.
\<close>

definition in_trans :: "'z klog_scheme \<Rightarrow> (uint \<times> uchar list) list \<Rightarrow> 'z klog_scheme \<Rightarrow> bool" where
  "in_trans s0 pre s \<longleftrightarrow> kst {} s \<and> lstep s0 s \<and> log_geometry s \<and> log_busy s \<and> (\<exists>C n lw.
     bst s C (apply_writes (disk s0) lw) (disk_trace s0 @ lw) (fst ` set pre) {} \<and>
     fst ` set lw \<subseteq> log_area s0 - {lsec s0 0} \<and>
     (\<forall>x. x \<notin> log_area s0 \<longrightarrow> C x = apply_writes (disk s0) pre x) \<and>
     lh_n s = int n \<and> n \<le> length pre \<and> distinct (take n (lh_sector s)) \<and> set (take n (lh_sector s)) = fst ` set pre \<and>
     (\<forall>i < n. apply_writes (disk s0) lw (lsec s0 (i + 1)) = C (lh_sector s ! i)))"

lemma wp_begin_trans:
  assumes "log_idle s"
  shows "wp begin_trans (\<lambda>_. in_trans s []) s"
proof -
  have s: "kst {} s" "bst s (disk s) (disk s) (disk_trace s) {} {}" "log_geometry s" "lh_n s = 0" "\<not> log_busy s"
    using assms by (simp_all add: log_idle_def)
  show ?thesis
    unfolding begin_trans_def wp_andthen
  proof (rule wp_acquire_k [OF s(1)], simp)
    fix t assume t: "kstep s t" "kst {LogLock} t"
    note f = bstep_log [OF kstep_bio(1) [OF t(1)]]
    let ?t = "t\<lparr>log_busy := True\<rparr>"
    have "wp (release LogLock) (\<lambda>_. in_trans s []) ?t"
    proof (rule wp_release_k [where H = "{}"])
      fix u assume u: "kstep ?t u" "kst {} u"
      note g = bstep_log [OF kstep_bio(1) [OF u(1)]]
      have b: "bst u (disk s) (disk s) (disk_trace s) {} {}" using s(2) kstep_bio(7) [OF t(1)] kstep_bio(7) [OF u(1)] by simp
      have st: "lstep s u"
        using bstep_lstep [OF kstep_bio(1) [OF t(1)]] lstep_upd(3) [of t True] bstep_lstep [OF kstep_bio(1) [OF u(1)]]
        by (blast intro: lstep_trans)
      have "log_geometry u" using lstep_geometry(3) [OF st] s(3) f(5) g(5) by simp
      then show "in_trans s [] u"
        unfolding in_trans_def using u(2) st b f g s(4)
        by (intro conjI exI [of _ "disk s"] exI [of _ 0] exI [of _ "[]"]) simp_all
    qed (use t in simp_all)
    then show "wp begin_trans_wait (\<lambda>_. in_trans s []) t"
      using f s(5) by (simp add: begin_trans_wait_def wp_rules)
  qed
qed

lemma log_slots:
  assumes "n < length secs" and d: "distinct (take n secs)" and i: "i = log_find (int n) secs sec"
    and "n' = (if i = n then n + 1 else n)" and C: "C' sec = v" "\<And>x. x \<in> set (take n secs) \<Longrightarrow> x \<noteq> sec \<Longrightarrow> C' x = C x"
    and D: "\<forall>j < n. D j = C (secs ! j)" "D' i = v" "\<And>j. j < n' \<Longrightarrow> j \<noteq> i \<Longrightarrow> D' j = D j"
  shows "distinct (take n' (secs[i := sec]))" "set (take n' (secs[i := sec])) = insert sec (set (take n secs))"
    "\<forall>j < n'. D' j = C' (secs[i := sec] ! j)"
proof -
  have "i \<le> n" using log_find_le i by simp
  then consider "i < n" | "i = n" by linarith
  then have "distinct (take n' (secs[i := sec])) \<and> set (take n' (secs[i := sec])) = insert sec (set (take n secs)) \<and>
    (\<forall>j < n'. D' j = C' (secs[i := sec] ! j))"
  proof cases
    case 1
    then have e: "secs ! i = sec" using log_find_lt assms(1) i by simp
    then have u: "secs[i := sec] = secs" using 1 assms(1) by (metis list_update_id)
    have m: "secs ! j \<in> set (take n secs)" if "j < n" for j using that assms(1) by (metis in_set_conv_nth length_take min.absorb4 nth_take)
    have "D' j = C' (secs ! j)" if j: "j < n" for j
    proof (cases "j = i")
      case False
      then have "secs ! j \<noteq> sec"
        using d 1 j e assms(1) nth_eq_iff_index_eq [OF d, of i j] by simp
      then show ?thesis using D(1,3) C(2) [OF m] j 1 False assms(4) by simp
    qed (use D(2) C(1) e in simp)
    moreover have "sec \<in> set (take n secs)" using m [OF 1] e by simp
    ultimately show ?thesis using u d 1 assms(4) by auto
  next
    case 2
    then have nin: "sec \<notin> set (take n secs)" using log_find_eq [of n secs sec] assms(1) i by simp
    have t: "take (Suc n) (secs[n := sec]) = take n secs @ [sec]" using assms(1) by (simp add: take_Suc_conv_app_nth)
    have "D' j = C' (secs[n := sec] ! j)" if "j < Suc n" for j
    proof (cases "j = n")
      case False
      then have "secs ! j \<in> set (take n secs)" using that assms(1) by (metis in_set_conv_nth length_take less_Suc_eq min.absorb4 nth_take)
      then have "secs ! j \<noteq> sec" using nin by auto
      then show ?thesis using D(1,3) C(2) \<open>secs ! j \<in> _\<close> that False 2 assms(4) by simp
    qed (use D(2) C(1) 2 assms(1) in simp)
    then show ?thesis using t d nin 2 assms(4) by auto
  qed
  then show "distinct (take n' (secs[i := sec]))" "set (take n' (secs[i := sec])) = insert sec (set (take n secs))"
    "\<forall>j < n'. D' j = C' (secs[i := sec] ! j)" by blast+
qed

lemma card_writes: "card (fst ` set ws) \<le> length ws"
  using card_image_le [of "set ws" fst] card_length [of ws] by simp

lemma in_trans_step:
  assumes I: "kst {} t" "lstep s0 t" "log_geometry t" "log_busy t" and p: "\<forall>w \<in> set pre. write_ok s0 w" and w: "write_ok s0 w"
    and st: "lstep s0 s" "n < length (lh_sector s)" and i: "i = log_find (int n) (lh_sector s) (fst w)"
    and b: "bst t ((C(fst w := snd w))(lsec s0 (i + 1) := snd w)) (apply_writes (disk s0) (lw @ [(lsec s0 (i + 1), snd w)]))
      (disk_trace s0 @ lw @ [(lsec s0 (i + 1), snd w)]) (insert (fst w) (fst ` set pre)) {}"
    and lw: "fst ` set lw \<subseteq> log_area s0 - {lsec s0 0}" and C: "\<forall>x. x \<notin> log_area s0 \<longrightarrow> C x = apply_writes (disk s0) pre x"
    and n: "n \<le> length pre" "int n + 1 < log_size s0" "log_geometry s0" and d: "distinct (take n (lh_sector s))" "set (take n (lh_sector s)) = fst ` set pre"
    and D: "\<forall>i < n. apply_writes (disk s0) lw (lsec s0 (i + 1)) = C (lh_sector s ! i)"
    and t: "lh_sector t = (lh_sector s)[i := fst w]" "lh_n t = (if i = n then int n + 1 else int n)"
  shows "in_trans s0 (pre @ [w]) t"
proof -
  let ?n = "if i = n then n + 1 else n" and ?l = "lsec s0 (i + 1)"
  let ?C = "(C(fst w := snd w))(?l := snd w)" and ?lw = "lw @ [(?l, snd w)]"
  have iN: "i \<le> n" using log_find_le i by simp
  have la: "?l \<in> log_area s0" using iN n(2) by (intro lsec_area) simp
  have l0: "?l \<noteq> lsec s0 0" using lsec_inj [OF n(3), of "i + 1" 0] iN n(2) by simp
  have wa: "fst w \<notin> log_area s0" using w by (simp add: write_ok_def)
  have pa: "x \<notin> log_area s0" if "x \<in> fst ` set pre" for x using p that by (auto simp: write_ok_def)
  have slot: "apply_writes (disk s0) ?lw (lsec s0 (j + 1)) = apply_writes (disk s0) lw (lsec s0 (j + 1))" if "j < ?n" "j \<noteq> i" for j
    using lsec_inj [OF n(3), of "i + 1" "j + 1"] iN n(2) that by (simp split: if_splits)
  have C1: "?C (fst w) = snd w" using la wa by simp
  have C2: "?C x = C x" if x: "x \<in> set (take n (lh_sector s))" "x \<noteq> fst w" for x
  proof -
    have "x \<noteq> ?l" using x(1) la pa unfolding d(2) by blast
    then show ?thesis using x(2) by simp
  qed
  have D': "apply_writes (disk s0) ?lw ?l = snd w" by simp
  note s = log_slots [OF st(2) d(1) i refl C1 C2 D D' slot]
  show ?thesis
    unfolding in_trans_def
  proof (intro conjI exI [of _ ?C] exI [of _ ?n] exI [of _ ?lw])
    show "bst t ?C (apply_writes (disk s0) ?lw) (disk_trace s0 @ ?lw) (fst ` set (pre @ [w])) {}" using b by simp
    show "\<forall>x. x \<notin> log_area s0 \<longrightarrow> ?C x = apply_writes (disk s0) (pre @ [w]) x" using C la by auto
    show "\<forall>j < ?n. apply_writes (disk s0) ?lw (lsec s0 (j + 1)) = ?C (lh_sector t ! j)" using s(3) t(1) by simp
    show "distinct (take ?n (lh_sector t))" "set (take ?n (lh_sector t)) = fst ` set (pre @ [w])" using s(1,2) t(1) d(2) by simp_all
    show "fst ` set ?lw \<subseteq> log_area s0 - {lsec s0 0}" using lw la l0 by simp
    show "lh_n t = int ?n" "?n \<le> length (pre @ [w])" using t(2) n(1) by simp_all
  qed (fact I)+
qed

lemma wp_logged_write:
  assumes I: "in_trans s0 pre s" and p: "\<forall>w \<in> set pre. write_ok s0 w" and w: "write_ok s0 w"
    and n: "length pre + 1 < LOGSIZE" "int (length pre) + 1 < log_size s0" and g0: "log_geometry s0"
  shows "wp (logged_write (fst w) (snd w)) (\<lambda>_. in_trans s0 (pre @ [w])) s"
proof -
  let ?P = "fst ` set pre" and ?sec = "fst w" and ?v = "snd w"
  obtain C n lw where k: "kst {} s" "lstep s0 s" "log_geometry s" "log_busy s"
    and b: "bst s C (apply_writes (disk s0) lw) (disk_trace s0 @ lw) ?P {}" and lw: "fst ` set lw \<subseteq> log_area s0 - {lsec s0 0}"
    and C: "\<forall>x. x \<notin> log_area s0 \<longrightarrow> C x = apply_writes (disk s0) pre x"
    and N: "lh_n s = int n" "n \<le> length pre" and d: "distinct (take n (lh_sector s))" "set (take n (lh_sector s)) = ?P"
    and D: "\<forall>i < n. apply_writes (disk s0) lw (lsec s0 (i + 1)) = C (lh_sector s ! i)"
    using I unfolding in_trans_def by (elim exE conjE) (rule that; assumption)
  note lg = lstep_geometry(1,2) [OF k(2)]
  have sz: "log_size s = log_size s0" "disksize s = disksize s0" using k(2) by (simp_all add: lstep_def)
  have NB: "card ?P < NBUF" "card (insert ?sec ?P) < NBUF"
    using card_writes [of pre] card_writes [of "w # pre"] n(1) by (simp_all add: LOGSIZE_def NBUF_def)
  have wok: "?sec \<notin> log_area s" "?sec < word_of_int (disksize s)" "length ?v = BSIZE"
    using w lg sz by (simp_all add: write_ok_def)
  have PA: "?P \<inter> log_area s = {}" using p lg by (auto simp: write_ok_def)
  let ?D = "apply_writes (disk s0) lw" and ?W = "disk_trace s0 @ lw"
  show ?thesis
    unfolding logged_write_def wp_bnd wp_andthen
  proof (rule wp_bread [OF k(1) _ b], simp, simp, use NB(1) in simp, rule wok(2))
    fix c t assume t: "kst {} t" "bst t C ?D ?W ?P {(c, ?sec)}" "bstep s t"
    show "wp (bufset c (b_data_update (\<lambda>_. ?v))) (\<lambda>_. wp (log_write c) (\<lambda>_. wp (brelse c) (\<lambda>_. in_trans s0 (pre @ [w])))) t"
    proof (rule wp_bufdata [OF t(2) singletonI, where g = "\<lambda>_. ?v"], simp, rule wok(3))
      fix u assume u: "bst u (C(?sec := ?v)) ?D ?W ?P {(c, ?sec)}" "bstep t u" "\<And>H. kst H u = kst H t"
      have st: "bstep s u" using t(3) u(2) by (rule bstep_trans)
      note fu = bstep_log [OF st] and lu = lstep_geometry [OF bstep_lstep [OF st]]
      have ku: "kst {} u" using u(3) t(1) by simp
      show "wp (log_write c) (\<lambda>_. wp (brelse c) (\<lambda>_. in_trans s0 (pre @ [w]))) u"
      proof (rule wp_log_write [OF ku u(1) _ _ _ _ _ _ _ NB(2) refl refl, where n = n], unfold lu(1) lg(1) fu(5))
        let ?i = "log_find (int n) (lh_sector s) ?sec"
        let ?l = "lsec s0 (?i + 1)"
        fix x assume x: "kst {} x" "bst x ((C(?sec := ?v))(?l := (C(?sec := ?v)) ?sec)) (?D(?l := (C(?sec := ?v)) ?sec))
            (?W @ [(?l, (C(?sec := ?v)) ?sec)]) (insert ?sec ?P) {(c, ?sec)}"
          "lstep u x" "log_geometry x" "log_busy x" "lh_sector x = (lh_sector s)[?i := ?sec]"
          "lh_n x = (if ?i = n then int n + 1 else int n)"
        show "wp (brelse c) (\<lambda>_. in_trans s0 (pre @ [w])) x"
        proof (rule wp_brelse [OF x(1) _ _ x(2) singletonI])
          fix y assume y: "kst {} y" "bst y ((C(?sec := ?v))(?l := (C(?sec := ?v)) ?sec)) (?D(?l := (C(?sec := ?v)) ?sec))
            (?W @ [(?l, (C(?sec := ?v)) ?sec)]) (insert ?sec ?P) ({(c, ?sec)} - {(c, ?sec)})" "bstep x y"
          note fy = bstep_log [OF y(3)]
          have sy: "lstep s0 y" using k(2) bstep_lstep [OF st] x(3) bstep_lstep [OF y(3)] by (blast intro: lstep_trans)
          have gy: "log_geometry y" using lstep_geometry(3) [OF bstep_lstep [OF y(3)]] x(4) fy(5) by simp
          show "in_trans s0 (pre @ [w]) y"
            by (rule in_trans_step [OF y(1) sy gy _ p w k(2) _ refl _ lw C N(2) _ g0 d D])
              (use y(2) x fy n N k(3) in \<open>simp_all add: log_geometry_def\<close>)
        qed simp_all
      qed (use N n k fu wok PA lu sz in simp_all)
    qed
  qed
qed

lemma wp_log_writes:
  assumes "in_trans s0 pre s" and "\<forall>w \<in> set (pre @ ws). write_ok s0 w"
    and "length (pre @ ws) < LOGSIZE" "int (length (pre @ ws)) < log_size s0" and g0: "log_geometry s0"
  shows "wp (for_each ws (\<lambda>w. logged_write (fst w) (snd w))) (\<lambda>_. in_trans s0 (pre @ ws)) s"
  using assms(1-4)
proof (induction ws arbitrary: pre s)
  case Nil
  then show ?case by (simp add: wp_rules)
next
  case (Cons w ws)
  have "wp (logged_write (fst w) (snd w)) (\<lambda>_. in_trans s0 (pre @ [w])) s"
    using Cons.prems g0 by (intro wp_logged_write) simp_all
  then show ?case
    unfolding for_each.simps wp_andthen
  proof (rule wp_mono)
    fix a t assume "in_trans s0 (pre @ [w]) t"
    then show "wp (for_each ws (\<lambda>w. logged_write (fst w) (snd w))) (\<lambda>_. in_trans s0 (pre @ w # ws)) t"
      using Cons.IH [of "pre @ [w]" t] Cons.prems(2-4) by simp
  qed
qed

section \<open>The commit\<close>

text \<open>
  The writes a committed transaction made: the copies in the log, the header, the blocks in their places, the
  empty header.
\<close>

definition commits :: "'z klog_scheme \<Rightarrow> (uint \<times> uchar list) list \<Rightarrow> (uint \<times> uchar list) list \<Rightarrow>
    (uint \<times> uchar list) list \<Rightarrow> uchar list \<Rightarrow> nat \<Rightarrow> bool" where
  "commits s ws lw inst h n \<longleftrightarrow> fst ` set lw \<subseteq> log_area s - {lsec s 0} \<and>
     log_valid s (apply_writes (disk s) (lw @ [(lsec s 0, h)])) n \<and>
     inst = logged s (apply_writes (disk s) (lw @ [(lsec s 0, h)])) n \<and>
     (\<forall>x. x \<notin> log_area s \<longrightarrow> apply_writes (disk s) inst x = apply_writes (disk s) ws x)"

definition commit_trace :: "'z klog_scheme \<Rightarrow> (uint \<times> uchar list) list \<Rightarrow> (uint \<times> uchar list) list \<Rightarrow> uchar list \<Rightarrow>
    (uint \<times> uchar list) list" where
  "commit_trace s lw inst h = lw @ [(lsec s 0, h)] @ inst @ [(lsec s 0, put32 h 0 0)]"

lemma apply_own: "apply_writes D (map (\<lambda>i. (f i, C (f i))) is) x = (if x \<in> f ` set is then C x else D x)"
  by (induction "is" arbitrary: D) auto

lemma log_head:
  assumes "length d = BSIZE" and "n \<le> LOGSIZE" and "n \<le> length secs"
  shows "get32 (head_block d secs n) 0 = of_nat n" "\<And>i. i < n \<Longrightarrow> get32 (head_block d secs n) (4 + 4 * i) = secs ! i"
  using head_block_get assms by auto

lemma in_trans_commits:
  fixes s0 :: "'z klog_scheme"
  assumes g0: "log_geometry s0" and p: "\<forall>w \<in> set ws. write_ok s0 w" and "length ws < LOGSIZE" "int (length ws) < log_size s0"
    and lw: "fst ` set lw \<subseteq> log_area s0 - {lsec s0 0}" and C: "\<forall>x. x \<notin> log_area s0 \<longrightarrow> C x = apply_writes (disk s0) ws x"
    and n: "n \<le> length ws" and set: "set (take n secs) = fst ` set ws" and secs: "length secs = LOGSIZE"
    and D: "\<forall>i < n. apply_writes (disk s0) lw (lsec s0 (i + 1)) = C (secs ! i)"
    and h: "length d = BSIZE" "h = head_block d secs n"
  shows "commits s0 ws lw (map (\<lambda>i. (secs ! i, C (secs ! i))) [0..<n]) h n"
proof -
  let ?D = "apply_writes (disk s0) (lw @ [(lsec s0 0, h)])"
  have get: "get32 h 0 = of_nat n" "\<And>i. i < n \<Longrightarrow> get32 h (4 + 4 * i) = secs ! i"
    using log_head [OF h(1), of n secs] h(2) assms(3) n secs by simp_all
  have in_set: "secs ! i \<in> fst ` set ws" if "i < n" for i
    using nth_mem [of i "take n secs"] that set n assms(3) secs by simp
  have sec: "secs ! i \<notin> log_area s0 \<and> secs ! i < word_of_int (disksize s0)" if "i < n" for i
    using p in_set [OF that] by (auto simp: write_ok_def)
  have D': "?D (lsec s0 (i + 1)) = C (secs ! i)" if "i < n" for i
    using D that lsec_inj [OF g0, of "i + 1" 0] n assms(4) by simp
  have v: "log_valid s0 ?D n" using get sec n assms(3,4) by (simp add: log_valid_def)
  have "apply_writes (disk s0) (map (\<lambda>i. (secs ! i, C (secs ! i))) [0..<n]) x = apply_writes (disk s0) ws x"
    if x: "x \<notin> log_area s0" for x
  proof -
    have "(\<lambda>i. secs ! i) ` set [0..<n] = set (take n secs)"
      using nth_image [of n secs] n assms(3) secs by (simp add: atLeast0LessThan atLeastLessThan_upt [symmetric])
    then show ?thesis using C x apply_writes_other [of x ws "disk s0"] unfolding apply_own set by auto
  qed
  then show ?thesis using lw v get D' by (simp add: commits_def logged_def)
qed

section \<open>Crashes\<close>

lemma apply_writes_base: "x \<in> fst ` set ws \<Longrightarrow> apply_writes D ws x = apply_writes E ws x"
proof (induction ws arbitrary: D E)
  case (Cons w ws)
  then show ?case
    using apply_writes_other [of x ws] by (cases "x \<in> fst ` set ws") auto
qed simp

lemma apply_writes_eq: "D x = E x \<Longrightarrow> apply_writes D ws x = apply_writes E ws x"
  using apply_writes_base [of x ws D E] apply_writes_other [of x ws] by (cases "x \<in> fst ` set ws") auto

lemma log_cong:
  assumes "\<forall>x \<in> log_area s. D x = E x" and v: "log_valid s D n"
  shows "log_valid s E n" "logged s E n = logged s D n"
proof -
  have e: "E (lsec s i) = D (lsec s i)" if "i \<le> n" for i
    using assms lsec_area [of i s] that by (auto simp: log_valid_def)
  then show "log_valid s E n" using v by (simp add: log_valid_def)
  show "logged s E n = logged s D n" using e by (auto simp: logged_def)
qed

lemma log_empty: "0 < log_size s \<Longrightarrow> get32 (D (lsec s 0)) 0 = 0 \<Longrightarrow> log_valid s D 0"
  by (simp add: log_valid_def)

lemma geometry_size: "log_geometry s \<Longrightarrow> 0 < log_size s"
  by (simp add: log_geometry_def)

lemma take_writes_subset: "fst ` set (take k ws) \<subseteq> fst ` set ws"
  by (rule image_mono) (rule set_take_subset)

lemma crash_before:
  assumes g: "log_geometry s" and h0: "get32 (disk s (lsec s 0)) 0 = 0" and lw: "fst ` set lw \<subseteq> log_area s - {lsec s 0}"
    and D: "D = apply_writes (disk s) (take k lw)"
  shows "log_valid s D 0" "x \<notin> log_area s \<Longrightarrow> apply_writes D (logged s D 0) x = disk s x"
proof -
  have "D y = disk s y" if "y \<notin> log_area s - {lsec s 0}" for y
    unfolding D using take_writes_subset [of k lw] lw that by (intro apply_writes_other) blast
  then show "log_valid s D 0" "x \<notin> log_area s \<Longrightarrow> apply_writes D (logged s D 0) x = disk s x"
    using log_empty [OF geometry_size [OF g]] h0 by (simp_all add: logged_def)
qed

lemma crash_after:
  assumes c: "commits s ws lw inst h n" and D: "D = apply_writes (disk s) (lw @ [(lsec s 0, h)] @ take j inst)" and g: "log_geometry s"
  shows "log_valid s D n" "x \<notin> log_area s \<Longrightarrow> apply_writes D (logged s D n) x = apply_writes (disk s) ws x"
proof -
  let ?D = "apply_writes (disk s) (lw @ [(lsec s 0, h)])"
  have v: "log_valid s ?D n" "inst = logged s ?D n" and lw: "fst ` set lw \<subseteq> log_area s - {lsec s 0}"
    and ws: "\<And>x. x \<notin> log_area s \<Longrightarrow> apply_writes (disk s) inst x = apply_writes (disk s) ws x"
    using c unfolding commits_def by blast+
  have D': "D = apply_writes ?D (take j inst)" using D by simp
  have "fst ` set inst \<inter> log_area s = {}" using logged_area [OF v(1)] v(2) by simp
  then have "\<forall>y \<in> log_area s. ?D y = D y"
    unfolding D' using take_writes_subset [of j inst] by (intro ballI apply_writes_other [symmetric]) blast
  note l = log_cong [OF this v(1)]
  show "log_valid s D n" by (rule l(1))
  assume x: "x \<notin> log_area s"
  have l0: "lsec s 0 \<in> log_area s" using g by (intro lsec_area) (simp add: log_geometry_def)
  have out: "?D x = disk s x" using lw x l0 by (intro apply_writes_other) auto
  have "apply_writes D inst x = apply_writes (disk s) inst x"
  proof (cases "x \<in> fst ` set inst")
    case False
    then have "x \<notin> fst ` set (take j inst)" using take_writes_subset [of j inst] by blast
    then have "D x = disk s x" unfolding D' using out apply_writes_other by metis
    then show ?thesis by (rule apply_writes_eq)
  qed (rule apply_writes_base)
  then show "apply_writes D (logged s D n) x = apply_writes (disk s) ws x" using l(2) v(2) ws [OF x] by simp
qed

lemma crash_done:
  assumes c: "commits s ws lw inst h n" and D: "D = apply_writes (disk s) (commit_trace s lw inst h)" and g: "log_geometry s"
    and h: "length h = BSIZE"
  shows "log_valid s D 0" "x \<notin> log_area s \<Longrightarrow> apply_writes D (logged s D 0) x = apply_writes (disk s) ws x"
proof -
  let ?D = "apply_writes (disk s) (lw @ [(lsec s 0, h)])"
  have l0: "lsec s 0 \<in> log_area s" using g by (intro lsec_area) (simp add: log_geometry_def)
  show "log_valid s D 0"
    using h by (intro log_empty [OF geometry_size [OF g]]) (simp add: D commit_trace_def BSIZE_def)
  assume x: "x \<notin> log_area s"
  have lw: "fst ` set lw \<subseteq> log_area s - {lsec s 0}" and ws: "apply_writes (disk s) inst x = apply_writes (disk s) ws x"
    using c x unfolding commits_def by blast+
  have "D x = apply_writes ?D inst x" using x l0 by (auto simp: D commit_trace_def)
  also have "\<dots> = apply_writes (disk s) inst x"
    by (rule apply_writes_eq, rule apply_writes_other) (use lw x l0 in auto)
  finally show "apply_writes D (logged s D 0) x = apply_writes (disk s) ws x"
    using ws by (simp add: logged_def)
qed

lemma crash_point:
  assumes g: "log_geometry s" and h0: "get32 (disk s (lsec s 0)) 0 = 0" and c: "commits s ws lw inst h n" and h: "length h = BSIZE"
    and D: "D = apply_writes (disk s) (take k (commit_trace s lw inst h))"
  shows "\<exists>m. log_valid s D m \<and> (\<forall>x. x \<notin> log_area s \<longrightarrow>
    apply_writes D (logged s D m) x = (if k \<le> length lw then disk s x else apply_writes (disk s) ws x))"
proof -
  have lw: "fst ` set lw \<subseteq> log_area s - {lsec s 0}" using c by (simp add: commits_def)
  consider "k \<le> length lw" | "length lw < k" "k \<le> Suc (length lw + length inst)" | "Suc (length lw + length inst) < k" by linarith
  then show ?thesis
  proof cases
    case 1
    then have "D = apply_writes (disk s) (take k lw)" using D by (simp add: commit_trace_def)
    note a = crash_before [OF g h0 lw this]
    show ?thesis by (rule exI [of _ 0]) (use a 1 in simp)
  next
    case 2
    define j where "j = k - Suc (length lw)"
    have "k = Suc (length lw + j)" "j \<le> length inst" using 2 by (simp_all add: j_def)
    then have "take k (commit_trace s lw inst h) = lw @ [(lsec s 0, h)] @ take j inst" by (simp add: commit_trace_def)
    then have "D = apply_writes (disk s) (lw @ [(lsec s 0, h)] @ take j inst)" using D by simp
    note a = crash_after [OF c this g]
    show ?thesis by (rule exI [of _ n]) (use a 2 in simp)
  next
    case 3
    then have "D = apply_writes (disk s) (commit_trace s lw inst h)" using D by (simp add: commit_trace_def)
    note a = crash_done [OF c this g h]
    show ?thesis by (rule exI [of _ 0]) (use a 3 in simp)
  qed
qed

text \<open>The end of \<open>commit_trans\<close>, with the log empty.\<close>

lemma wp_commit_end:
  assumes k: "kst {} s" and b: "bst s D D W {} {}" and g: "log_geometry s" and n: "lh_n s = 0" and h: "get32 (D (lsec s 0)) 0 = 0"
    and K: "\<And>t. log_idle t \<Longrightarrow> lstep s t \<Longrightarrow> disk t = D \<Longrightarrow> disk_trace t = W \<Longrightarrow> R () t"
  shows "wp (andthen (acquire LogLock) (andthen (upd (\<lambda>s. s\<lparr>log_busy := False\<rparr>))
      (andthen (wakeup LogChan) (release LogLock)))) R s"
  unfolding wp_andthen wp_upd
proof (rule wp_acquire_k [OF k], simp)
  fix t assume t: "kstep s t" "kst {LogLock} t"
  let ?t = "t\<lparr>log_busy := False\<rparr>"
  show "wp (wakeup LogChan) (\<lambda>_. wp (release LogLock) R) ?t"
  proof (rule wp_wakeup_k [where H = "{LogLock}"])
    fix u assume u: "kstep ?t u" "kst {LogLock} u"
    show "wp (release LogLock) R u"
    proof (rule wp_release_k [OF u(2)], simp)
      fix v assume v: "kstep u v" "kst {} v"
      note ft = bstep_log [OF kstep_bio(1) [OF t(1)]] and fu = bstep_log [OF kstep_bio(1) [OF u(1)]]
        and fv = bstep_log [OF kstep_bio(1) [OF v(1)]]
      have bv: "bst v D D W {} {}" using b kstep_bio(7) [OF t(1)] kstep_bio(7) [OF u(1)] kstep_bio(7) [OF v(1)] by simp
      have dv: "disk v = D" "disk_trace v = W" using bv by (simp_all add: bst_def)
      have st: "lstep s v"
        using bstep_lstep [OF kstep_bio(1) [OF t(1)]] lstep_upd(3) [of t False] bstep_lstep [OF kstep_bio(1) [OF u(1)]]
          bstep_lstep [OF kstep_bio(1) [OF v(1)]] by (blast intro: lstep_trans)
      have "log_idle v"
        using v(2) bv dv lstep_geometry [OF st] g n h ft fu fv by (simp add: log_idle_def)
      then show "R () v" using st dv by (rule K)
    qed
  qed (use t in simp_all)
qed

text \<open>What a run of \<open>transaction ws\<close> from \<open>s\<close> leaves: the trace of its writes, with a point of commit in it.\<close>

definition committed :: "'z klog_scheme \<Rightarrow> (uint \<times> uchar list) list \<Rightarrow> 'z klog_scheme \<Rightarrow> bool" where
  "committed s ws t \<longleftrightarrow> log_idle t \<and> lstep s t \<and> (\<exists>tr. disk_trace t = disk_trace s @ tr \<and> disk t = apply_writes (disk s) tr \<and>
     (ws = [] \<and> fst ` set tr \<subseteq> log_area s - {lsec s 0} \<or>
      (\<exists>lw inst h n. commits s ws lw inst h n \<and> length h = BSIZE \<and> tr = commit_trace s lw inst h)))"

lemma wp_commit_head:
  fixes s0 u :: "'z klog_scheme"
  assumes com: "commits s0 ws lw inst h n" and hl: "length h = BSIZE" and g0: "log_geometry s0"
    and u: "kst {} u" "lstep s0 u" "log_geometry u"
    and b: "bst u C (apply_writes ((apply_writes (disk s0) lw)(lsec s0 0 := h)) inst) (disk_trace s0 @ lw @ [(lsec s0 0, h)] @ inst) {} {}"
    and K: "\<And>t E. kst {} t \<Longrightarrow> lstep s0 t \<Longrightarrow> log_geometry t \<Longrightarrow> lh_n t = 0 \<Longrightarrow>
      E = apply_writes (disk s0) (commit_trace s0 lw inst h) \<Longrightarrow>
      bst t E E (disk_trace s0 @ commit_trace s0 lw inst h) {} {} \<Longrightarrow> R () t"
  shows "wp write_head R (u\<lparr>lh_n := 0\<rparr>)"
proof -
  let ?l = "lsec s0 0" and ?D = "apply_writes ((apply_writes (disk s0) lw)(lsec s0 0 := h)) inst"
  have CD: "C = ?D" using bst_clean [OF b] by (simp add: fun_eq_iff)
  have v: "log_valid s0 ((apply_writes (disk s0) lw)(?l := h)) n" "inst = logged s0 ((apply_writes (disk s0) lw)(?l := h)) n"
    using com by (simp_all add: commits_def)
  have l0: "?l \<in> log_area s0" using g0 by (intro lsec_area) (simp add: log_geometry_def)
  then have "?l \<notin> fst ` set inst" using logged_area [OF v(1)] unfolding v(2) [symmetric] by blast
  then have Dl: "?D ?l = h" by (simp add: apply_writes_other)
  have lu: "lsec (u\<lparr>lh_n := 0\<rparr>) = lsec s0"
    using lstep_geometry(1) [OF lstep_trans [OF u(2) lstep_upd(1)], of 0] .
  show ?thesis
  proof (rule wp_write_head [where n = 0 and P = "{}" and C = C and D = ?D and W = "disk_trace s0 @ lw @ [(?l, h)] @ inst"], unfold lu)
    fix t k assume k: "k = head_block (C ?l) (lh_sector (u\<lparr>lh_n := 0\<rparr>)) 0" and t: "kst {} t" "bstep (u\<lparr>lh_n := 0\<rparr>) t"
      "bst t (C(?l := k)) (?D(?l := k)) ((disk_trace s0 @ lw @ [(?l, h)] @ inst) @ [(?l, k)]) {} {}"
    have k': "k = put32 h 0 0" using k CD Dl by (simp add: head_block_def)
    have st: "lstep s0 t" using u(2) lstep_upd(1) [of u 0] bstep_lstep [OF t(2)] by (blast intro: lstep_trans)
    have gt: "log_geometry t"
      using lstep_geometry(3) [OF lstep_trans [OF lstep_upd(1) bstep_lstep [OF t(2)]]] bstep_log(5) [OF t(2)] u(3) by simp
    have E: "C(?l := k) = apply_writes (disk s0) (commit_trace s0 lw inst h)" "?D(?l := k) = apply_writes (disk s0) (commit_trace s0 lw inst h)"
      using k' CD by (simp_all add: commit_trace_def)
    have W: "(disk_trace s0 @ lw @ [(?l, h)] @ inst) @ [(?l, k)] = disk_trace s0 @ commit_trace s0 lw inst h"
      using k' by (simp add: commit_trace_def)
    show "R () t"
      by (rule K [OF t(1) st gt _ refl t(3) [unfolded E W]]) (use bstep_log(4) [OF t(2)] in simp)
  qed (use u b in \<open>simp_all add: log_geometry_def NBUF_def\<close>)
qed

lemma wp_commit_writes:
  fixes s0 s :: "'z klog_scheme"
  assumes g0: "log_geometry s0" and p: "\<forall>w \<in> set ws. write_ok s0 w" and lim: "length ws < LOGSIZE" "int (length ws) < log_size s0"
    and k: "kst {} s" "lstep s0 s" "log_geometry s"
    and b: "bst s C (apply_writes (disk s0) lw) (disk_trace s0 @ lw) (fst ` set ws) {}" and lw: "fst ` set lw \<subseteq> log_area s0 - {lsec s0 0}"
    and C: "\<forall>x. x \<notin> log_area s0 \<longrightarrow> C x = apply_writes (disk s0) ws x"
    and n: "lh_n s = int n" "n \<le> length ws" and st: "set (take n (lh_sector s)) = fst ` set ws"
    and D: "\<forall>i < n. apply_writes (disk s0) lw (lsec s0 (i + 1)) = C (lh_sector s ! i)"
    and K: "\<And>t inst h E. commits s0 ws lw inst h n \<Longrightarrow> length h = BSIZE \<Longrightarrow> kst {} t \<Longrightarrow> lstep s0 t \<Longrightarrow> log_geometry t \<Longrightarrow> lh_n t = 0 \<Longrightarrow>
      E = apply_writes (disk s0) (commit_trace s0 lw inst h) \<Longrightarrow>
      bst t E E (disk_trace s0 @ commit_trace s0 lw inst h) {} {} \<Longrightarrow> R () t"
  shows "wp (andthen write_head (andthen install_trans (andthen (upd (\<lambda>s. s\<lparr>lh_n := 0\<rparr>)) write_head))) R s"
proof -
  let ?l = "lsec s0 0" and ?P = "fst ` set ws" and ?secs = "lh_sector s" and ?D = "apply_writes (disk s0) lw"
  let ?inst = "map (\<lambda>i. (?secs ! i, C (?secs ! i))) [0..<n]"
  note lg = lstep_geometry(1,2) [OF k(2)]
  have sz: "log_size s = log_size s0" "disksize s = disksize s0" using k(2) by (simp_all add: lstep_def)
  have len: "length ?secs = LOGSIZE" using k(3) by (simp add: log_geometry_def)
  have l0: "?l \<in> log_area s0" using g0 by (intro lsec_area) (simp add: log_geometry_def)
  have PA: "?P \<inter> log_area s0 = {}" using p by (auto simp: write_ok_def)
  have cl: "C x = ?D x" if "x \<in> log_area s0" for x using bst_clean [OF b, of x] PA that by auto
  have NB: "card ?P < NBUF" using card_writes [of ws] lim by (simp add: LOGSIZE_def NBUF_def)
  have inP: "?secs ! i \<in> ?P" if "i < n" for i
    using nth_mem [of i "take n ?secs"] that st n lim(1) len by simp
  have PP: "?P - (\<lambda>i. ?secs ! i) ` set [0..<n] = {}"
    using nth_image [of n ?secs] n(2) lim(1) len st by (simp add: atLeast0LessThan atLeastLessThan_upt [symmetric])
  have ok: "\<forall>i \<in> set [0..<n]. i < LOGSIZE \<and> int i + 1 < log_size s \<and> ?secs ! i \<notin> log_area s \<and> ?secs ! i < word_of_int (disksize s)"
    using inP p n lim sz lg by (fastforce simp: write_ok_def)
  show ?thesis
    unfolding wp_andthen
  proof (rule wp_write_head [OF k(1) b k(3) n(1)], unfold lg(1))
    fix t h assume h: "h = head_block (C ?l) ?secs n" and t: "kst {} t"
      "bst t (C(?l := h)) (?D(?l := h)) ((disk_trace s0 @ lw) @ [(?l, h)]) ?P {}" "bstep s t"
    have hl: "length h = BSIZE" using h bst_data_length [OF b] by simp
    have com: "commits s0 ws lw ?inst h n"
      by (rule in_trans_commits [OF g0 p lim lw C n(2) st len D _ h]) (rule bst_data_length [OF b])
    note ft = bstep_log [OF t(3)] and lt = lstep_geometry [OF bstep_lstep [OF t(3)]]
    have gt: "log_geometry t" using lt(3) k(3) ft(5) by simp
    have dt: "disksize t = disksize s" using t(3) by (simp add: bstep_def)
    have inst: "?inst = map (\<lambda>i. (lh_sector t ! i, (C(?l := h)) (lsec t (i + 1)))) [0..<n]"
    proof (rule map_cong [OF refl])
      fix i assume "i \<in> set [0..<n]"
      then have i: "i < n" by simp
      have "int (i + 1) < log_size s0" using i n(2) lim(2) by simp
      then have "lsec s0 (i + 1) \<noteq> ?l" "lsec s0 (i + 1) \<in> log_area s0"
        using lsec_inj [OF g0, of "i + 1" 0] lsec_area [of "i + 1" s0] by simp_all
      then show "(?secs ! i, C (?secs ! i)) = (lh_sector t ! i, (C(?l := h)) (lsec t (i + 1)))"
        using cl D i ft(5) lt(1) lg(1) by simp
    qed
    show "wp install_trans (\<lambda>_. wp (upd (\<lambda>s. s\<lparr>lh_n := 0\<rparr>)) (\<lambda>_. wp write_head R)) t"
      unfolding install_trans_def wp_bnd wp_gets ft(4) n(1) nat_int wp_upd
    proof (rule wp_install_list [OF t(1,2) gt _ _ _ inst])
      fix u assume "bst u (apply_writes (C(?l := h)) ?inst) (apply_writes (?D(?l := h)) ?inst)
          (((disk_trace s0 @ lw) @ [(?l, h)]) @ ?inst) (?P - (\<lambda>i. lh_sector t ! i) ` set [0..<n]) {}"
        and u: "kst {} u" "bstep t u"
      then have bu: "bst u (apply_writes (C(?l := h)) ?inst) (apply_writes (?D(?l := h)) ?inst)
          (disk_trace s0 @ lw @ [(?l, h)] @ ?inst) {} {}" unfolding ft(5) PP append_assoc by simp
      show "wp write_head R (u\<lparr>lh_n := 0\<rparr>)"
      proof (rule wp_commit_head [OF com hl g0 u(1) _ _ bu])
        show "lstep s0 u" using k(2) bstep_lstep [OF t(3)] bstep_lstep [OF u(2)] by (blast intro: lstep_trans)
        show "log_geometry u" using lstep_geometry(3) [OF bstep_lstep [OF u(2)]] bstep_log(5) [OF u(2)] gt by simp
      qed (rule K [OF com hl])
    qed (use ok inP NB PA lt lg dt ft(2,5) in auto)
  qed (use n lim PA l0 NB lg in auto)
qed

lemma wp_commit_trans:
  assumes I: "in_trans s0 ws s" and g0: "log_geometry s0" and p: "\<forall>w \<in> set ws. write_ok s0 w"
    and lim: "length ws < LOGSIZE" "int (length ws) < log_size s0" and h0: "get32 (disk s0 (lsec s0 0)) 0 = 0"
  shows "wp commit_trans (\<lambda>_. committed s0 ws) s"
proof -
  obtain C n lw where k: "kst {} s" "lstep s0 s" "log_geometry s" "log_busy s"
    and b: "bst s C (apply_writes (disk s0) lw) (disk_trace s0 @ lw) (fst ` set ws) {}" and lw: "fst ` set lw \<subseteq> log_area s0 - {lsec s0 0}"
    and C: "\<forall>x. x \<notin> log_area s0 \<longrightarrow> C x = apply_writes (disk s0) ws x"
    and N: "lh_n s = int n" "n \<le> length ws" and d: "distinct (take n (lh_sector s))" "set (take n (lh_sector s)) = fst ` set ws"
    and D: "\<forall>i < n. apply_writes (disk s0) lw (lsec s0 (i + 1)) = C (lh_sector s ! i)"
    using I unfolding in_trans_def by (elim exE conjE) (rule that; assumption)
  let ?fin = "andthen (acquire LogLock) (andthen (upd (\<lambda>s. s\<lparr>log_busy := False\<rparr>)) (andthen (wakeup LogChan) (release LogLock)))"
  show ?thesis
  proof (cases "n = 0")
    case True
    then have ws: "ws = []" using d(2) by simp
    let ?D = "apply_writes (disk s0) lw"
    have CD: "C = ?D" using bst_clean [OF b] ws by (simp add: fun_eq_iff)
    have hd: "get32 (?D (lsec s 0)) 0 = 0"
      using h0 lw lstep_geometry(1) [OF k(2)] by (subst apply_writes_other) auto
    have "wp ?fin (\<lambda>_. committed s0 ws) s"
    proof (rule wp_commit_end [where D = ?D and W = "disk_trace s0 @ lw"])
      fix t assume "log_idle t" "lstep s t" "disk t = ?D" "disk_trace t = disk_trace s0 @ lw"
      then show "committed s0 ws t" using ws lw lstep_trans [OF k(2)] by (auto simp: committed_def)
    qed (use k b CD N ws True hd in simp_all)
    then show ?thesis unfolding commit_trans_def wp_bnd wp_gets using True N(1) by (simp add: wp_rules whenever_def)
  next
    case False
    let ?w = "andthen write_head (andthen install_trans (andthen (upd (\<lambda>s. s\<lparr>lh_n := 0\<rparr>)) write_head))"
    have "wp ?w (\<lambda>_. wp ?fin (\<lambda>_. committed s0 ws)) s"
    proof (rule wp_commit_writes [OF g0 p lim k(1-3) b lw C N d(2) D])
      fix t inst h E assume c: "commits s0 ws lw inst h n" "length h = BSIZE" and t: "kst {} t" "lstep s0 t" "log_geometry t" "lh_n t = 0"
        and E: "E = apply_writes (disk s0) (commit_trace s0 lw inst h)" and bt: "bst t E E (disk_trace s0 @ commit_trace s0 lw inst h) {} {}"
      have hd: "get32 (E (lsec t 0)) 0 = 0"
        using E c(2) lstep_geometry(1) [OF t(2)] by (simp add: commit_trace_def BSIZE_def)
      show "wp ?fin (\<lambda>_. committed s0 ws) t"
      proof (rule wp_commit_end [OF t(1) bt t(3,4) hd])
        fix v assume "log_idle v" "lstep t v" "disk v = E" "disk_trace v = disk_trace s0 @ commit_trace s0 lw inst h"
        then show "committed s0 ws v"
          unfolding committed_def using c E lstep_trans [OF t(2)] by blast
      qed
    qed
    then show ?thesis unfolding commit_trans_def wp_bnd wp_gets wp_andthen using False N(1) by (simp add: wp_rules whenever_def)
  qed
qed

lemma committed_disk:
  assumes "log_geometry s" and "ws = [] \<and> fst ` set tr \<subseteq> log_area s - {lsec s 0} \<or>
      (\<exists>lw inst h n. commits s ws lw inst h n \<and> length h = BSIZE \<and> tr = commit_trace s lw inst h)" and "x \<notin> log_area s"
  shows "apply_writes (disk s) tr x = apply_writes (disk s) ws x"
  using assms(2)
proof (elim disjE exE conjE)
  fix lw inst h n assume c: "commits s ws lw inst h n" "length h = BSIZE" "tr = commit_trace s lw inst h"
  show ?thesis using crash_done(2) [OF c(1) refl assms(1) c(2) assms(3)] c(3) by (simp add: logged_def)
next
  assume "ws = []" "fst ` set tr \<subseteq> log_area s - {lsec s 0}"
  moreover from this(2) have "x \<notin> fst ` set tr" using assms(3) by blast
  ultimately show ?thesis by (simp add: apply_writes_other)
qed

lemma wp_transaction:
  assumes "log_idle s" and "\<forall>w \<in> set ws. write_ok s w" and "length ws < LOGSIZE" "int (length ws) < log_size s"
  shows "wp (transaction ws) (\<lambda>_. committed s ws) s"
proof -
  have g: "log_geometry s" "get32 (disk s (lsec s 0)) 0 = 0" using assms(1) by (simp_all add: log_idle_def)
  show ?thesis
    unfolding transaction_def wp_andthen
  proof (rule wp_mono [OF wp_begin_trans [OF assms(1)]])
    fix a t assume "in_trans s [] t"
    then have "wp (for_each ws (\<lambda>w. logged_write (fst w) (snd w))) (\<lambda>_. in_trans s ([] @ ws)) t"
      using assms(2-4) g by (intro wp_log_writes) simp_all
    then show "wp (for_each ws (\<lambda>w. logged_write (fst w) (snd w))) (\<lambda>_. wp commit_trans (\<lambda>_. committed s ws)) t"
      by (rule wp_mono) (use assms(2-4) g in \<open>auto intro!: wp_commit_trans\<close>)
  qed
qed

lemma reboot_recovers:
  assumes u: "rebooted s D u" and v: "log_valid s D n"
  shows "\<exists>v. recover_from_log u = Done () v \<and> log_idle v \<and>
    disk_trace v = disk_trace u @ logged s D n @ [(lsec s 0, put32 (D (lsec s 0)) 0 0)] \<and> (\<forall>x. x \<notin> log_area s \<longrightarrow> disk v x = apply_writes D (logged s D n) x)"
proof -
  have b: "kst {} u" "bst u D D (disk_trace u) {} {}" "log_geometry u" "\<not> log_busy u" and e: "log_start u = log_start s" "log_size u = log_size s" "disksize u = disksize s"
    using u by (simp_all add: rebooted_def)
  have l: "lsec u = lsec s" and a: "log_area u = log_area s" using e by (auto simp: lsec_def log_area_def fun_eq_iff)
  have v': "log_valid u D n" and g: "logged u D n = logged s D n"
    using v e l a by (simp_all add: log_valid_def logged_def)
  have l0: "lsec s 0 \<in> log_area s" using b(3) e by (intro lsec_area) (simp add: log_geometry_def)
  have len: "length (D (lsec s 0)) = BSIZE" using b(2) by (simp add: bst_def)
  have "wp recover_from_log (\<lambda>_ v. log_idle v \<and>
    disk_trace v = disk_trace u @ logged s D n @ [(lsec s 0, put32 (D (lsec s 0)) 0 0)] \<and> (\<forall>x. x \<notin> log_area s \<longrightarrow> disk v x = apply_writes D (logged s D n) x)) u"
  proof (rule wp_recover [OF b(1-3) v'], unfold g l)
    fix t h assume h: "h = put32 (D (lsec s 0)) 0 0" and t: "kst {} t" "lstep u t" "log_geometry t" "lh_n t = 0" "log_busy t = log_busy u"
      and bt: "bst t ((apply_writes D (logged s D n))(lsec s 0 := h)) ((apply_writes D (logged s D n))(lsec s 0 := h))
        (disk_trace u @ logged s D n @ [(lsec s 0, h)]) {} {}"
    have dt: "disk t = (apply_writes D (logged s D n))(lsec s 0 := h)" "disk_trace t = disk_trace u @ logged s D n @ [(lsec s 0, h)]"
      using bt by (simp_all add: bst_def)
    have "lsec t = lsec s" using lstep_geometry(1) [OF t(2)] l by simp
    then have "log_idle t" using t bt b(4) h len by (simp add: log_idle_def dt BSIZE_def)
    moreover have "\<forall>x. x \<notin> log_area s \<longrightarrow> disk t x = apply_writes D (logged s D n) x" using dt(1) l0 by auto
    ultimately show "log_idle t \<and> disk_trace t = disk_trace u @ logged s D n @ [(lsec s 0, put32 (D (lsec s 0)) 0 0)] \<and>
        (\<forall>x. x \<notin> log_area s \<longrightarrow> disk t x = apply_writes D (logged s D n) x)"
      using dt(2) h by simp
  qed
  then show ?thesis by (rule wpE) auto
qed

lemma recovery_crash:
  assumes g: "0 < log_size s" and v: "log_valid s D n" and len: "length (D (lsec s 0)) = BSIZE"
    and E: "E = apply_writes D (take k (logged s D n @ [(lsec s 0, put32 (D (lsec s 0)) 0 0)]))"
  shows "\<exists>m. log_valid s E m \<and> (\<forall>x. x \<notin> log_area s \<longrightarrow> apply_writes E (logged s E m) x = apply_writes D (logged s D n) x)"
proof -
  let ?inst = "logged s D n"
  have l0: "lsec s 0 \<in> log_area s" using g by (intro lsec_area) simp
  have out: "fst ` set ?inst \<inter> log_area s = {}" by (rule logged_area [OF v])
  show ?thesis
  proof (cases "k \<le> length ?inst")
    case True
    then have E': "E = apply_writes D (take k ?inst)" using E by simp
    have "\<forall>y \<in> log_area s. D y = E y"
      unfolding E' using take_writes_subset [of k ?inst] out by (intro ballI apply_writes_other [symmetric]) blast
    note l = log_cong [OF this v]
    have "apply_writes E ?inst x = apply_writes D ?inst x" for x
    proof (cases "x \<in> fst ` set ?inst")
      case False
      then have "x \<notin> fst ` set (take k ?inst)" using take_writes_subset [of k ?inst] by blast
      then show ?thesis using False by (simp add: E' apply_writes_other)
    qed (rule apply_writes_base)
    then show ?thesis using l by (intro exI [of _ n]) simp
  next
    case False
    then have E': "E = (apply_writes D ?inst)(lsec s 0 := put32 (D (lsec s 0)) 0 0)" using E by simp
    then have "log_valid s E 0" using len by (intro log_empty [OF g]) (simp add: BSIZE_def)
    moreover have "E x = apply_writes D ?inst x" if "x \<notin> log_area s" for x using E' that l0 by auto
    ultimately show ?thesis by (intro exI [of _ 0]) (simp add: logged_def)
  qed
qed

section \<open>A disk with an empty log\<close>

definition demo_log :: klog where
  "demo_log = kbio.extend (demo_bio\<lparr>disk := (\<lambda>sec. replicate 512 (if sec < 80 then ucast sec else 0))\<rparr>)
     \<lparr>log_start = 80, log_size = 11, log_busy = False, log_dev = 1, lh_n = 0, lh_sector = replicate 10 0\<rparr>"

definition demo_disk :: "uint \<Rightarrow> uchar list" where
  "demo_disk = (disk demo_log)(80 := put32 (put32 (replicate 512 0) 0 1) 4 3, 81 := replicate 512 7)"

lemma demo_log_simps [simp]:
  "bc_buf demo_log = map empty_buf [0..<10]" "bc_head_prev demo_log = Buf 0" "bc_head_next demo_log = Buf 9"
  "disk demo_log = (\<lambda>sec. replicate 512 (if sec < 80 then ucast sec else 0))" "disk_trace demo_log = []" "disksize demo_log = 100"
  "log_start demo_log = 80" "log_size demo_log = 11" "log_busy demo_log = False" "lh_n demo_log = 0"
  by (simp_all add: demo_log_def kbio.defs)

lemma demo_log_geometry: "log_geometry demo_log"
  by (simp add: log_geometry_def demo_log_def kbio.defs LOGSIZE_def)

lemma demo_log_kst: "kst {} (demo_log\<lparr>disk := D\<rparr>)"
  using demo_bio_kst by (subst kst_eqI [of _ demo_bio]) (simp_all add: demo_log_def kbio.defs)

lemma demo_log_rebooted:
  assumes "\<And>sec. length (D sec) = BSIZE"
  shows "rebooted demo_log D (demo_log\<lparr>disk := D\<rparr>)"
  using bst_empty [of "demo_log\<lparr>disk := D\<rparr>"] assms demo_log_kst demo_log_geometry
  by (simp add: rebooted_def log_geometry_def)

lemma demo_log_idle: "log_idle demo_log"
proof -
  have "bst demo_log (disk demo_log) (disk demo_log) (disk_trace demo_log) {} {}"
    by (rule bst_empty) (simp_all add: BSIZE_def)
  moreover have "get32 (disk demo_log (lsec demo_log 0)) 0 = 0" by (simp add: lsec_def get32_def)
  moreover have "kst {} demo_log" using demo_log_kst [of "disk demo_log"] by (simp add: demo_log_def kbio.defs)
  ultimately show ?thesis using demo_log_geometry by (simp add: log_idle_def)
qed

lemma demo_area: "uint x < 80 \<Longrightarrow> x \<notin> log_area demo_log"
  using lsec_unat [OF demo_log_geometry] by (auto simp: log_area_def)

section \<open>Property\<close>

text \<open>
  C4. Transactions are atomic and durable. From a state with an idle log, a transaction of up to nine blocks (and fewer
  than the log has), each read with \<open>bread\<close>, changed, passed to \<open>log_write\<close> and released between
  \<open>begin_trans\<close> and \<open>commit_trans\<close>, never panics or waits, leaves the log idle and the new blocks on the
  disk. And wherever in its sequence of sector writes the machine stops, \<open>recover_from_log\<close> after the reboot
  returns with an idle log and, outside the log, with the old contents of every block up to a point of the
  sequence, and with all the new blocks after it.
\<close>

theorem transaction_atomic:
  assumes "log_idle s" and "\<forall>w \<in> set ws. write_ok s w" and "length ws < LOGSIZE" and "int (length ws) < log_size s"
  shows "\<exists>t tr. transaction ws s = Done () t \<and> log_idle t \<and> disk_trace t = disk_trace s @ tr \<and>
     disk t = apply_writes (disk s) tr \<and> (\<forall>x. x \<notin> log_area s \<longrightarrow> disk t x = apply_writes (disk s) ws x) \<and>
     (\<exists>m. (ws \<noteq> [] \<longrightarrow> m < length tr) \<and> (\<forall>k u. rebooted s (apply_writes (disk s) (take k tr)) u \<longrightarrow>
       (\<exists>v. recover_from_log u = Done () v \<and> log_idle v \<and>
         (\<forall>x. x \<notin> log_area s \<longrightarrow> disk v x = (if k \<le> m then disk s x else apply_writes (disk s) ws x)))))"
proof -
  have g: "log_geometry s" "get32 (disk s (lsec s 0)) 0 = 0" using assms(1) by (simp_all add: log_idle_def)
  obtain t where t: "transaction ws s = Done () t" "committed s ws t" using wp_transaction [OF assms] by (rule wpE) auto
  obtain tr where i: "log_idle t" and tr: "disk_trace t = disk_trace s @ tr" "disk t = apply_writes (disk s) tr"
    and c: "ws = [] \<and> fst ` set tr \<subseteq> log_area s - {lsec s 0} \<or>
      (\<exists>lw inst h n. commits s ws lw inst h n \<and> length h = BSIZE \<and> tr = commit_trace s lw inst h)"
    using t(2) unfolding committed_def by blast
  have "\<exists>m. (ws \<noteq> [] \<longrightarrow> m < length tr) \<and> (\<forall>k. \<exists>n. log_valid s (apply_writes (disk s) (take k tr)) n \<and>
    (\<forall>x. x \<notin> log_area s \<longrightarrow> apply_writes (apply_writes (disk s) (take k tr)) (logged s (apply_writes (disk s) (take k tr)) n) x =
      (if k \<le> m then disk s x else apply_writes (disk s) ws x)))"
    using c
  proof (elim disjE exE conjE)
    fix lw inst h n assume c: "commits s ws lw inst h n" "length h = BSIZE" "tr = commit_trace s lw inst h"
    then show ?thesis using crash_point [OF g c(1,2) refl] by (intro exI [of _ "length lw"]) (simp add: commit_trace_def)
  next
    assume e: "ws = []" "fst ` set tr \<subseteq> log_area s - {lsec s 0}"
    show ?thesis
    proof (rule exI [of _ 0], intro conjI allI)
      fix k
      show "\<exists>n. log_valid s (apply_writes (disk s) (take k tr)) n \<and> (\<forall>x. x \<notin> log_area s \<longrightarrow>
        apply_writes (apply_writes (disk s) (take k tr)) (logged s (apply_writes (disk s) (take k tr)) n) x =
          (if k \<le> 0 then disk s x else apply_writes (disk s) ws x))"
        using crash_before [OF g e(2) refl] e(1) by (intro exI [of _ 0]) simp
    qed (simp add: e(1))
  qed
  then obtain m where m: "ws \<noteq> [] \<longrightarrow> m < length tr" "\<And>k. \<exists>n. log_valid s (apply_writes (disk s) (take k tr)) n \<and>
    (\<forall>x. x \<notin> log_area s \<longrightarrow> apply_writes (apply_writes (disk s) (take k tr)) (logged s (apply_writes (disk s) (take k tr)) n) x =
      (if k \<le> m then disk s x else apply_writes (disk s) ws x))" by blast
  have "\<exists>v. recover_from_log u = Done () v \<and> log_idle v \<and>
         (\<forall>x. x \<notin> log_area s \<longrightarrow> disk v x = (if k \<le> m then disk s x else apply_writes (disk s) ws x))"
    if u: "rebooted s (apply_writes (disk s) (take k tr)) u" for k u
    using m(2) [of k] reboot_recovers [OF u] by metis
  moreover have "disk t x = apply_writes (disk s) ws x" if "x \<notin> log_area s" for x
    using c tr(2) that committed_disk [OF g(1)] by metis
  ultimately show ?thesis using t(1) i tr m(1) by blast
qed

lemma transaction_atomic_witness:
  "\<exists>t v. transaction [(3, replicate 512 7), (4, replicate 512 9), (3, replicate 512 5)] demo_log = Done () t \<and>
     disk t 3 = replicate 512 5 \<and> disk t 4 = replicate 512 9 \<and> disk t 5 = replicate 512 5 \<and>
     recover_from_log (demo_log\<lparr>disk := disk t\<rparr>) = Done () v \<and> disk v 3 = replicate 512 5 \<and> disk v 4 = replicate 512 9"
proof -
  let ?ws = "[(3, replicate 512 7), (4, replicate 512 9), (3, replicate 512 5)] :: (uint \<times> uchar list) list"
  have a: "3 \<notin> log_area demo_log" "4 \<notin> log_area demo_log" "5 \<notin> log_area demo_log" by (rule demo_area; simp)+
  have "\<forall>w \<in> set ?ws. write_ok demo_log w" using a by (simp add: write_ok_def BSIZE_def)
  from transaction_atomic [OF demo_log_idle this]
  obtain t tr m where t: "transaction ?ws demo_log = Done () t" "log_idle t" "disk t = apply_writes (disk demo_log) tr"
    "\<And>x. x \<notin> log_area demo_log \<Longrightarrow> disk t x = apply_writes (disk demo_log) ?ws x" "m < length tr"
    and r: "\<And>k u. rebooted demo_log (apply_writes (disk demo_log) (take k tr)) u \<Longrightarrow> \<exists>v. recover_from_log u = Done () v \<and> log_idle v \<and>
         (\<forall>x. x \<notin> log_area demo_log \<longrightarrow> disk v x = (if k \<le> m then disk demo_log x else apply_writes (disk demo_log) ?ws x))"
    by (auto simp: LOGSIZE_def)
  have "rebooted demo_log (disk t) (demo_log\<lparr>disk := disk t\<rparr>)"
    by (rule demo_log_rebooted) (use t(2) in \<open>simp add: log_idle_def bst_def\<close>)
  then obtain v where v: "recover_from_log (demo_log\<lparr>disk := disk t\<rparr>) = Done () v"
      "\<forall>x. x \<notin> log_area demo_log \<longrightarrow> disk v x = apply_writes (disk demo_log) ?ws x"
    using r [of "length tr"] t(3,5) by auto
  show ?thesis
    by (intro exI [of _ t] exI [of _ v]) (use t(1,4) v a in simp)
qed

text \<open>
  C6. Recovery can itself be interrupted, any number of times. On a disk whose log header is empty or lists blocks outside
  the log, \<open>recover_from_log\<close> returns with an idle log; if the machine stops anywhere in the
  recovery's own sequence of sector writes, the recovery after the next reboot returns as well and leaves every
  block outside the log as the undisturbed recovery would have.
\<close>

theorem recovery_restarts:
  assumes "rebooted s D u" and "log_valid s D n"
  shows "\<exists>v tr. recover_from_log u = Done () v \<and> log_idle v \<and> disk_trace v = disk_trace u @ tr \<and>
     (\<forall>x. x \<notin> log_area s \<longrightarrow> disk v x = apply_writes D (logged s D n) x) \<and>
     (\<forall>k u'. rebooted s (apply_writes D (take k tr)) u' \<longrightarrow> (\<exists>v'. recover_from_log u' = Done () v' \<and> log_idle v' \<and>
       (\<forall>x. x \<notin> log_area s \<longrightarrow> disk v' x = disk v x)))"
proof -
  obtain v where v: "recover_from_log u = Done () v" "log_idle v"
      "disk_trace v = disk_trace u @ logged s D n @ [(lsec s 0, put32 (D (lsec s 0)) 0 0)]"
      "\<forall>x. x \<notin> log_area s \<longrightarrow> disk v x = apply_writes D (logged s D n) x"
    using reboot_recovers [OF assms] by blast
  have len: "length (D (lsec s 0)) = BSIZE" using assms(1) by (simp add: rebooted_def bst_def)
  have "\<exists>v'. recover_from_log u' = Done () v' \<and> log_idle v' \<and> (\<forall>x. x \<notin> log_area s \<longrightarrow> disk v' x = disk v x)"
    if u': "rebooted s (apply_writes D (take k (logged s D n @ [(lsec s 0, put32 (D (lsec s 0)) 0 0)]))) u'" for k u'
  proof -
    have g: "0 < log_size s" using assms(1) by (auto simp: rebooted_def log_geometry_def)
    obtain m where m: "log_valid s (apply_writes D (take k (logged s D n @ [(lsec s 0, put32 (D (lsec s 0)) 0 0)]))) m"
      "\<forall>x. x \<notin> log_area s \<longrightarrow> apply_writes (apply_writes D (take k (logged s D n @ [(lsec s 0, put32 (D (lsec s 0)) 0 0)])))
        (logged s (apply_writes D (take k (logged s D n @ [(lsec s 0, put32 (D (lsec s 0)) 0 0)]))) m) x = apply_writes D (logged s D n) x"
      using recovery_crash [OF g assms(2) len refl] by blast
    then show ?thesis using reboot_recovers [OF u' m(1)] v(4) by auto
  qed
  then show ?thesis using v by blast
qed

lemma recovery_restarts_witness:
  "\<exists>v v'. recover_from_log (demo_log\<lparr>disk := demo_disk\<rparr>) = Done () v \<and> log_idle v \<and> disk v 3 = replicate 512 7 \<and>
     recover_from_log (demo_log\<lparr>disk := demo_disk, lh_n := 4\<rparr>) = Done () v' \<and> disk v' 3 = replicate 512 7"
proof -
  have len: "length (demo_disk sec) = BSIZE" for sec by (simp add: demo_disk_def BSIZE_def)
  have a: "3 \<notin> log_area demo_log" by (rule demo_area) simp
  have l: "lsec demo_log 0 = 80" "lsec demo_log 1 = 81" by (simp_all add: lsec_def)
  have hd: "get32 (demo_disk 80) 0 = 1" "get32 (demo_disk 80) 4 = 3" by (simp_all add: demo_disk_def)
  have r: "rebooted demo_log demo_disk (demo_log\<lparr>disk := demo_disk\<rparr>)" by (rule demo_log_rebooted) (rule len)
  have r': "rebooted demo_log demo_disk (demo_log\<lparr>disk := demo_disk, lh_n := 4\<rparr>)"
    using r by (simp add: rebooted_def log_geometry_def)
  have v: "log_valid demo_log demo_disk 1" using hd a l by (simp add: log_valid_def LOGSIZE_def)
  have w: "apply_writes demo_disk (logged demo_log demo_disk 1) 3 = replicate 512 7"
    using hd l by (simp add: logged_def demo_disk_def)
  obtain v tr where v: "recover_from_log (demo_log\<lparr>disk := demo_disk\<rparr>) = Done () v" "log_idle v" "disk v 3 = replicate 512 7"
    and n: "\<And>k u'. rebooted demo_log (apply_writes demo_disk (take k tr)) u' \<Longrightarrow> \<exists>v'. recover_from_log u' = Done () v' \<and> log_idle v' \<and>
       (\<forall>x. x \<notin> log_area demo_log \<longrightarrow> disk v' x = disk v x)"
    using recovery_restarts [OF r v] a w by fastforce
  from n [of 0] r' obtain v' where "recover_from_log (demo_log\<lparr>disk := demo_disk, lh_n := 4\<rparr>) = Done () v'"
    "\<forall>x. x \<notin> log_area demo_log \<longrightarrow> disk v' x = disk v x" by auto
  then show ?thesis using v a by (intro exI [of _ v] exI [of _ v']) simp
qed

end
