(* ===== verification/Demo_State.thy ===== *)
theory Demo_State
  imports Kernel Log_Props
begin

text \<open>
  A small running system for the examples: the process table of \<open>Sched_Props\<close> with process 2 on the CPU, the disk and
  the empty log of \<open>Log_Props\<close>, an empty console buffer, inode cache and file table, and one pipe.
\<close>

definition free_inode :: inode where
  "free_inode = \<lparr>i_dev = 0, i_inum = 0, i_ref = 0, i_busy = False, i_valid = False, i_type = 0, i_major = 0, i_minor = 0,
     i_nlink = 0, i_size = 0, i_addrs = replicate 13 0\<rparr>"

definition free_file :: file_t where
  "free_file = \<lparr>f_type = FD_NONE, f_ref = 0, f_readable = False, f_writable = False, f_pipe = 0, f_ip = 0, f_off = 0\<rparr>"

definition new_pipe :: pipe where
  "new_pipe = \<lparr>pi_data = replicate 512 0, pi_nread = 0, pi_nwrite = 0, pi_readopen = True, pi_writeopen = True\<rparr>"

definition demo_cin :: kcin where
  "demo_cin = klog.extend demo_log \<lparr>in_buf = replicate 128 0, in_r = 0, in_w = 0, in_e = 0, kbd_shift = 0,
     kbd_port = [], uart_port = []\<rparr>"

definition demo_fs :: kfs where
  "demo_fs = kcin.extend demo_cin \<lparr>icache = replicate 50 free_inode, devsw_read = replicate 10 None,
     devsw_write = replicate 10 None\<rparr>"

definition demo_file :: kfile where
  "demo_file = kfs.extend demo_fs \<lparr>ftable = replicate 100 free_file, pipes = (\<lambda>_. new_pipe)\<rparr>"

definition demo_kern :: kern where
  "demo_kern = kfile.extend demo_file \<lparr>sym_trapret = 0x80105abc, sym_forkret = 0x80103def, sym_initcode = 0x8010b4e0,
     initcode_size = 44, forkret_first = False, cr2 = 0\<rparr>"

lemmas demo_extends = demo_cin_def demo_fs_def demo_file_def demo_kern_def klog.defs kcin.defs kfs.defs kfile.defs

lemma demo_log_same: "demo_log\<lparr>disk := disk demo_log\<rparr> = demo_log"
  by (simp add: demo_log_def kbio.defs)

lemma demo_kst: "kst {} demo_cin" "kst {} demo_fs" "kst {} demo_file" "kst {} demo_kern"
proof -
  have "kst {} demo_log" using demo_log_kst [of "disk demo_log"] unfolding demo_log_same .
  then show "kst {} demo_cin" "kst {} demo_fs" "kst {} demo_file" "kst {} demo_kern"
    by (subst kst_eqI [of _ demo_log]; simp add: demo_extends)+
qed

lemma demo_table_running: "running 2 demo_table" "pt_proc demo_table ! 2 = runner"
  using demo_simps by (simp_all add: running_def runner_def)

lemma demo_cpu:
  "cpus demo_kern = cpus demo_table" "mycpu demo_kern = mycpu demo_table" "pt_proc demo_kern = pt_proc demo_table"
  "cpus demo_file = cpus demo_table" "mycpu demo_file = mycpu demo_table" "pt_proc demo_file = pt_proc demo_table"
  "cpus demo_cin = cpus demo_table" "mycpu demo_cin = mycpu demo_table" "pt_proc demo_cin = pt_proc demo_table"
  by (simp_all add: demo_extends demo_log_def demo_bio_def demo_mem_def kbio.defs kmem.defs kproc.defs)

lemma demo_running: "running 2 demo_kern" "running 2 demo_file" "running 2 demo_cin"
  using demo_table_running(1) demo_cpu by (simp_all add: running_def)

end
