(* ===== verification/Ring_Buffer.thy ===== *)
theory Ring_Buffer
  imports Kernel_Prelude
begin

text \<open>
  Ring buffers with free-running 32-bit indices, as pipe.c and console.c use them: an index is taken modulo the length
  of the array only when the array is accessed, and may wrap around.
\<close>

definition segment :: "'a list \<Rightarrow> uint \<Rightarrow> uint \<Rightarrow> 'a list" where
  "segment d a b = map (\<lambda>i. d ! ((unat a + i) mod length d)) [0..<unat (b - a)]"

text \<open>The lengths for which the wrap-around is harmless.\<close>

definition ring_size :: "nat \<Rightarrow> bool" where
  "ring_size n \<longleftrightarrow> 0 < n \<and> n < 2 ^ 32 \<and> n dvd 2 ^ 32"

lemma length_ring [simp]: "length (segment d a b) = unat (b - a)"
  by (simp add: segment_def)

lemma ring_same [simp]: "segment d a a = []"
  by (simp add: segment_def)

lemma ring_empty: "segment d a b = [] \<longleftrightarrow> a = b"
  by (auto simp: segment_def unat_eq_0)

lemma ring_index:
  assumes "ring_size n"
  shows "unat (x mod of_nat n :: uint) = unat x mod n"
proof -
  have "unat (of_nat n :: uint) = n" using assms by (simp add: ring_size_def unat_of_nat)
  then show ?thesis by (simp add: unat_mod)
qed

lemma ring_add:
  assumes "ring_size n"
  shows "unat (x + y :: uint) mod n = (unat x + unat y) mod n"
proof -
  have "unat (x + y) = (unat x + unat y) mod 2 ^ 32" by (simp add: unat_word_ariths)
  then show ?thesis using assms by (simp add: ring_size_def mod_mod_cancel)
qed

lemma ring_between:
  fixes a b :: uint
  assumes "ring_size n"
  shows "unat b mod n = (unat a + unat (b - a)) mod n"
  using ring_add [OF assms, of a "b - a"] by simp

lemma ring_distinct:
  assumes "i < k" and "k < (n :: nat)"
  shows "(r + i) mod n \<noteq> (r + k) mod n"
proof
  assume "(r + i) mod n = (r + k) mod n"
  then have "n dvd (r + k) - (r + i)" using assms(1) by (metis add_le_cancel_left less_imp_le mod_eq_dvd_iff_nat)
  then show False using assms by (auto dest: dvd_imp_le)
qed

lemma ring_step: "unat (b - a :: uint) < n \<Longrightarrow> n < 2 ^ 32 \<Longrightarrow> unat (b + 1 - a) = unat (b - a) + 1"
proof -
  assume "unat (b - a :: uint) < n" "n < 2 ^ 32"
  then have "unat (b - a + 1) = unat (b - a) + 1" by (simp add: unat_word_ariths)
  then show ?thesis by (simp add: algebra_simps)
qed

lemma ring_back: "a \<noteq> b \<Longrightarrow> unat (b - 1 - a :: uint) = unat (b - a) - 1" "a \<noteq> b \<Longrightarrow> unat (b - (a + 1) :: uint) = unat (b - a) - 1"
proof -
  assume "a \<noteq> b"
  then have "unat (b - a - 1) = unat (b - a) - 1" by (intro unat_minus_one) simp
  then show "unat (b - 1 - a) = unat (b - a) - 1" "unat (b - (a + 1)) = unat (b - a) - 1" by (simp_all add: algebra_simps diff_diff_eq)
qed

lemma ring_put:
  assumes n: "ring_size (length d)" and "unat (b - a) < length d"
  shows "segment (d[unat b mod length d := x]) a (b + 1) = segment d a b @ [x]"
proof -
  let ?k = "unat (b - a)" and ?d = "d[unat b mod length d := x]"
  have k: "unat (b + 1 - a) = ?k + 1" using assms by (intro ring_step [of b a "length d"]) (simp_all add: ring_size_def)
  have b: "unat b mod length d = (unat a + ?k) mod length d" by (rule ring_between [OF n])
  have "?d ! ((unat a + i) mod length d) = d ! ((unat a + i) mod length d)" if "i < ?k" for i
    using ring_distinct [OF that assms(2), of "unat a"] b by simp
  moreover have "?d ! ((unat a + ?k) mod length d) = x" using b n by (simp add: ring_size_def)
  ultimately show ?thesis unfolding segment_def k by simp
qed

lemma ring_put_other:
  assumes n: "ring_size (length d)" and "unat (c - a) \<le> unat (b - a)" and "unat (b - a) < length d"
  shows "segment (d[unat b mod length d := x]) a c = segment d a c"
proof -
  have "unat b mod length d \<noteq> (unat a + i) mod length d" if "i < unat (c - a)" for i
    using ring_distinct [of i "unat (b - a)" "length d" "unat a"] ring_between [OF n, of b a] that assms(2,3) by simp
  then show ?thesis by (simp add: segment_def)
qed

lemma ring_take:
  assumes n: "ring_size (length d)" and "a \<noteq> b"
  shows "segment d a b = d ! (unat a mod length d) # segment d (a + 1) b"
proof -
  have "unat (b - a) \<noteq> 0" using assms(2) by (simp add: unat_eq_0)
  then have k: "unat (b - a) = Suc (unat (b - (a + 1)))" using ring_back(2) [OF assms(2)] by simp
  have "unat (a + 1) mod length d = (unat a + 1) mod length d" using ring_add [OF n, of a 1] by simp
  then have "(unat (a + 1) + i) mod length d = (unat a + 1 + i) mod length d" for i by (rule mod_add_cong) simp
  then show ?thesis unfolding segment_def k by (simp add: upt_conv_Cons map_Suc_upt [symmetric] del: upt_Suc)
qed

lemma ring_pop:
  assumes n: "ring_size (length d)" and "a \<noteq> b"
  shows "segment d a b = segment d a (b - 1) @ [d ! (unat (b - 1) mod length d)]"
proof -
  have "unat (b - a) \<noteq> 0" using assms(2) by (simp add: unat_eq_0)
  then have k: "unat (b - a) = Suc (unat (b - 1 - a))" using ring_back(1) [OF assms(2)] by simp
  then show ?thesis unfolding segment_def k using ring_between [OF n, of "b - 1" a] by simp
qed

lemma ring_append:
  assumes n: "ring_size (length d)" and "unat (c - a) = unat (b - a) + unat (c - b)"
  shows "segment d a c = segment d a b @ segment d b c"
proof -
  have "(unat b + i) mod length d = (unat a + unat (b - a) + i) mod length d" for i
    using ring_between [OF n, of b a] by (rule mod_add_cong) simp
  moreover have "map f [0..<m + k] = map f [0..<m] @ map (\<lambda>i. f (m + i)) [0..<k]" for f :: "nat \<Rightarrow> 'a" and m k
    by (induction k) simp_all
  ultimately show ?thesis unfolding segment_def assms(2) by (simp add: add.assoc)
qed

end
