(* ===== verification/Pipe_Props.thy ===== *)
theory Pipe_Props
  imports Demo_State Ring_Buffer
begin

text \<open>
  A pipe is a bounded queue of bytes: the ring buffer with its free-running 32-bit counters, the operations on it, and
  the interface \<open>bounded_queue\<close> that \<open>pipewrite\<close> and \<open>piperead\<close> implement.
\<close>

section \<open>The ring buffer\<close>

definition pipe_count :: "pipe \<Rightarrow> nat" where
  "pipe_count q = unat (pi_nwrite q - pi_nread q)"

definition pipe_bytes :: "pipe \<Rightarrow> uchar list" where
  "pipe_bytes q = segment (pi_data q) (pi_nread q) (pi_nwrite q)"

definition pipe_ok :: "pipe \<Rightarrow> bool" where
  "pipe_ok q \<longleftrightarrow> length (pi_data q) = 512 \<and> pipe_count q \<le> 512"

lemma ring_512: "ring_size 512"
  by (simp add: ring_size_def)

lemma pipe_index: "unat (x mod PIPESIZE) = unat x mod 512"
  using ring_index [OF ring_512, of x] by (simp add: PIPESIZE_def)

lemma length_pipe_bytes [simp]: "length (pipe_bytes q) = pipe_count q"
  by (simp add: pipe_bytes_def pipe_count_def)

lemma pipe_full: "pi_nwrite q = pi_nread q + PIPESIZE \<longleftrightarrow> pipe_count q = 512"
proof -
  have "pi_nwrite q = pi_nread q + PIPESIZE \<longleftrightarrow> pi_nwrite q - pi_nread q = 512" by (auto simp: PIPESIZE_def algebra_simps)
  also have "\<dots> \<longleftrightarrow> pipe_count q = unat (512 :: uint)" by (simp only: pipe_count_def word_unat_eq_iff)
  finally show ?thesis by simp
qed

lemma pipe_empty: "pi_nread q = pi_nwrite q \<longleftrightarrow> pipe_count q = 0"
  by (auto simp: pipe_count_def unat_eq_0)

lemma pipe_bytes_Nil: "pipe_bytes q = [] \<longleftrightarrow> pipe_count q = 0" "[] = pipe_bytes q \<longleftrightarrow> pipe_count q = 0"
  by (auto simp: pipe_bytes_def ring_empty pipe_empty eq_commute [of "[]"])

lemma put_bytes:
  assumes "pipe_ok q" and "pipe_count q < 512"
  shows "pipe_ok (pipe_put b q)" "pipe_bytes (pipe_put b q) = pipe_bytes q @ [b]"
proof -
  have d: "length (pi_data q) = 512" "unat (pi_nwrite q - pi_nread q) < 512" using assms by (simp_all add: pipe_ok_def pipe_count_def)
  show "pipe_ok (pipe_put b q)"
    using assms(2) d ring_step [OF d(2)] by (simp add: pipe_ok_def pipe_count_def pipe_put_def)
  show "pipe_bytes (pipe_put b q) = pipe_bytes q @ [b]"
    using ring_put [of "pi_data q" "pi_nwrite q" "pi_nread q" b] d ring_512 by (simp add: pipe_bytes_def pipe_put_def pipe_index)
qed

lemma take_bytes:
  assumes "pipe_ok q" and "0 < pipe_count q"
  shows "pipe_ok (snd (pipe_take q))" "pipe_bytes q = fst (pipe_take q) # pipe_bytes (snd (pipe_take q))"
proof -
  have ne: "pi_nread q \<noteq> pi_nwrite q" and d: "length (pi_data q) = 512"
    using assms pipe_empty [of q] by (auto simp: pipe_ok_def)
  show "pipe_ok (snd (pipe_take q))"
    using assms(1) ring_back(2) [OF ne] by (auto simp: pipe_ok_def pipe_count_def pipe_take_def)
  show "pipe_bytes q = fst (pipe_take q) # pipe_bytes (snd (pipe_take q))"
    using ring_take [of "pi_data q", OF _ ne] d ring_512 by (simp add: pipe_bytes_def pipe_take_def pipe_index)
qed

section \<open>The operations\<close>

lemma kst_pipes [simp]: "kst H (s\<lparr>pipes := x\<rparr>) = kst H s" "running r (s\<lparr>pipes := x\<rparr>) = running r s"
  by (rule kst_eqI running_eqI; simp)+

lemma kstep_pipes:
  fixes s :: "'z kfile_scheme"
  assumes "kstep s t"
  shows "pipes t = pipes s"
proof -
  have "kproc.more t = kproc.more s" by (rule kstep_more [OF assms])
  then show ?thesis by (cases s; cases t) simp
qed

text \<open>The calling process runs, is not marked killed, and both ends of the pipe are open; \<open>H\<close> are the locks held.\<close>

definition pipe_st :: "uint \<Rightarrow> lockid set \<Rightarrow> 'z kfile_scheme \<Rightarrow> uchar list \<Rightarrow> bool" where
  "pipe_st p H s q \<longleftrightarrow> kst H s \<and> (\<exists>r. running r s \<and> \<not> p_killed (pt_proc s ! r)) \<and> pipe_ok (pipes s p) \<and>
     pi_readopen (pipes s p) \<and> pi_writeopen (pipes s p) \<and> q = pipe_bytes (pipes s p)"

lemma pipe_st_step: "pipe_st p H s q \<Longrightarrow> kstep s t \<Longrightarrow> kst G t \<Longrightarrow> pipe_st p G t q"
  using kstep_running [of s t] kstep_proc(5) [of s t] kstep_pipes [of s t] by (auto simp: pipe_st_def)

lemma pipe_st_lock:
  assumes "pipe_st p {} s q" and "\<And>t. pipe_st p {PipeLock p} t q \<Longrightarrow> R () t"
  shows "wp (acquire (PipeLock p)) R s"
proof (rule wp_acquire_k [where H = "{}"])
  fix t assume "kstep s t" "kst {PipeLock p} t"
  then show "R () t" using assms(1) by (intro assms(2)) (rule pipe_st_step)
qed (use assms(1) in \<open>simp_all add: pipe_st_def\<close>)

lemma pipe_st_unlock:
  assumes "pipe_st p {PipeLock p} s q" and "\<And>t. pipe_st p {} t q \<Longrightarrow> R () t"
  shows "wp (release (PipeLock p)) R s"
proof (rule wp_release_k [where H = "{}"])
  fix t assume "kstep s t" "kst {} t"
  then show "R () t" using assms(1) by (intro assms(2)) (rule pipe_st_step)
qed (use assms(1) in \<open>simp_all add: pipe_st_def\<close>)

lemma pipe_st_wakeup:
  assumes "pipe_st p {PipeLock p} s q" and "\<And>t. pipe_st p {PipeLock p} t q \<Longrightarrow> R () t"
  shows "wp (wakeup ch) R s"
proof (rule wp_wakeup_k [where H = "{PipeLock p}"])
  fix t assume "kstep s t" "kst {PipeLock p} t"
  then show "R () t" using assms(1) by (intro assms(2)) (rule pipe_st_step)
qed (use assms(1) in \<open>simp_all add: pipe_st_def\<close>)

lemma pipe_st_killed: "pipe_st p {PipeLock p} s q \<Longrightarrow> wp killed R s = R False s"
  by (auto simp: pipe_st_def killed_def wp_rules wp_myproc wp_pget_k running_def)

text \<open>What a process that sleeps in a pipe leaves: the lock of the pipe is free and its bytes are \<open>q\<close>.\<close>

definition pipe_asleep :: "uint \<Rightarrow> chan \<Rightarrow> 'z kfile_scheme \<Rightarrow> uchar list \<Rightarrow> bool" where
  "pipe_asleep p ch s q \<longleftrightarrow> kst {PtableLock} s \<and> q = pipe_bytes (pipes s p) \<and> pipe_ok (pipes s p) \<and>
     (\<exists>r. p_state (pt_proc s ! r) = SLEEPING \<and> p_chan (pt_proc s ! r) = Some ch)"

lemma pipe_st_sleep:
  fixes s :: "'z kfile_scheme"
  assumes "pipe_st p {PipeLock p} s q" and "\<And>t. pipe_asleep p ch t q \<Longrightarrow> R t"
  shows "wpa (sleep ch (Some (PipeLock p))) Q R s"
proof -
  obtain r where r: "running r s" and s: "kst {PipeLock p} s" "pipe_ok (pipes s p)" "q = pipe_bytes (pipes s p)"
    using assms(1) by (auto simp: pipe_st_def)
  show ?thesis
  proof (rule wpa_sleep_k [OF s(1) r])
    fix t assume t: "kproc.more t = kproc.more s" "kst {PtableLock} t" "p_state (pt_proc t ! r) = SLEEPING" "p_chan (pt_proc t ! r) = Some ch"
    then have "pipes t = pipes s" by (cases s; cases t) simp
    then show "R t" using t s(2,3) by (intro assms(2)) (auto simp: pipe_asleep_def)
  qed
qed

lemma wp_pipewrite_loop:
  assumes "pipe_st p {PipeLock p} s q" and "length q + length bs \<le> 512"
    and "\<And>t. pipe_st p {PipeLock p} t (q @ bs) \<Longrightarrow> R True t"
  shows "wp (pipewrite_loop p bs) R s"
  using assms
proof (induction bs arbitrary: s q)
  case Nil
  then show ?case by (simp add: wp_rules)
next
  case (Cons b bs)
  let ?q = "pipes s p" and ?t = "s\<lparr>pipes := (pipes s)(p := pipe_put b (pipes s p))\<rparr>"
  have q: "pipe_ok ?q" "q = pipe_bytes ?q" using Cons.prems(1) by (simp_all add: pipe_st_def)
  then have c: "pipe_count ?q < 512" using Cons.prems(2) by simp
  have t: "pipe_st p {PipeLock p} ?t (q @ [b])"
    using Cons.prems(1) put_bytes [OF q(1) c, of b] by (simp add: pipe_st_def) (simp add: pipe_put_def)
  have "wp (pipewrite_loop p bs) R ?t"
    by (rule Cons.IH [OF t]) (use Cons.prems in simp_all)
  then show ?case using pipe_full [of ?q] c by (simp add: wp_rules pipe_get_def pipe_set_def)
qed

lemma wpa_pipewrite_full:
  fixes s :: "'z kfile_scheme"
  assumes "pipe_st p {PipeLock p} s q" and "512 < length q + length bs"
    and "\<And>t. pipe_asleep p (PipeWriteChan p) t (q @ take (512 - length q) bs) \<Longrightarrow> R t"
  shows "wpa (pipewrite_loop p bs) Q R s"
  using assms
proof (induction bs arbitrary: s q)
  case Nil
  then show ?case by (simp add: pipe_st_def pipe_ok_def)
next
  case (Cons b bs)
  let ?q = "pipes s p" and ?t = "s\<lparr>pipes := (pipes s)(p := pipe_put b (pipes s p))\<rparr>"
  have q: "pipe_ok ?q" "q = pipe_bytes ?q" "pi_readopen ?q" using Cons.prems(1) by (simp_all add: pipe_st_def)
  show ?case
  proof (cases "pipe_count ?q = 512")
    case True
    have "wpa (sleep (PipeWriteChan p) (Some (PipeLock p))) Q R t" if "pipe_st p {PipeLock p} t q" for t
      by (rule pipe_st_sleep [OF that]) (use Cons.prems(3) q True in simp)
    then have "wp (wakeup (PipeReadChan p)) (\<lambda>_. wpa (sleep (PipeWriteChan p) (Some (PipeLock p))) Q R) s"
      by (rule pipe_st_wakeup [OF Cons.prems(1)])
    note w = wpa_wp [OF this]
    have "wp killed (\<lambda>k. wpa (if \<not> pi_readopen ?q \<or> k then ret False
        else andthen (wakeup (PipeReadChan p)) (sleep (PipeWriteChan p) (Some (PipeLock p)))) Q R) s"
      using w q(3) by (simp add: pipe_st_killed [OF Cons.prems(1)] wpa_rules)
    from wpa_wp [OF this] show ?thesis
      using pipe_full [of ?q] True by (simp add: wpa_rules pipe_get_def)
  next
    case False
    then have c: "pipe_count ?q < 512" using q(1) by (simp add: pipe_ok_def)
    have t: "pipe_st p {PipeLock p} ?t (q @ [b])"
      using Cons.prems(1) put_bytes [OF q(1) c, of b] by (simp add: pipe_st_def) (simp add: pipe_put_def)
    have "wpa (pipewrite_loop p bs) Q R ?t"
    proof (rule Cons.IH [OF t])
      fix u :: "'z kfile_scheme" assume "pipe_asleep p (PipeWriteChan p) u ((q @ [b]) @ take (512 - length (q @ [b])) bs)"
      moreover have "512 - length q = Suc (512 - length (q @ [b]))" using c q(2) by simp
      ultimately show "R u" by (intro Cons.prems(3)) simp
    qed (use Cons.prems(2) in simp)
    then show ?thesis using pipe_full [of ?q] False by (simp add: wpa_rules pipe_get_def pipe_set_def)
  qed
qed

lemma wp_piperead_copy:
  assumes "pipe_st p {PipeLock p} s q" and "\<And>t. pipe_st p {PipeLock p} t (drop n q) \<Longrightarrow> R (take n q) t"
  shows "wp (piperead_copy p n) R s"
  using assms
proof (induction n arbitrary: s q R)
  case 0
  then show ?case by (simp add: wp_rules)
next
  case (Suc n)
  let ?q = "pipes s p" and ?t = "s\<lparr>pipes := (pipes s)(p := snd (pipe_take (pipes s p)))\<rparr>"
  have q: "pipe_ok ?q" "q = pipe_bytes ?q" using Suc.prems(1) by (simp_all add: pipe_st_def)
  show ?case
  proof (cases "pipe_count ?q = 0")
    case True
    then have "q = []" using q(2) by (simp add: pipe_bytes_Nil)
    then have "R [] s" using Suc.prems(2) [of s] Suc.prems(1) by simp
    then show ?thesis using True by (simp add: wp_rules pipe_get_def pipe_empty)
  next
    case False
    then have c: "0 < pipe_count ?q" by simp
    note tb = take_bytes [OF q(1) c]
    have t: "pipe_st p {PipeLock p} ?t (pipe_bytes (snd (pipe_take ?q)))"
      using Suc.prems(1) tb by (simp add: pipe_st_def) (simp add: pipe_take_def)
    have "wp (piperead_copy p n) (\<lambda>bs. R (fst (pipe_take ?q) # bs)) ?t"
      by (rule Suc.IH [OF t]) (use Suc.prems(2) q(2) tb(2) in simp)
    then show ?thesis using False by (simp add: wp_rules pipe_get_def pipe_set_def pipe_empty)
  qed
qed

lemma wp_pipewrite:
  assumes "pipe_st p {} s q" and "length q + length bs \<le> 512"
  shows "wp (pipewrite p bs (int (length bs))) (\<lambda>n t. n = int (length bs) \<and> pipe_st p {} t (q @ bs)) s"
  unfolding pipewrite_def wp_andthen wp_bnd
proof (rule pipe_st_lock [OF assms(1)])
  fix t assume t: "pipe_st p {PipeLock p} t q"
  show "wp (pipewrite_loop p (take (nat (int (length bs))) bs)) (\<lambda>ok. wp (if ok then andthen (wakeup (PipeReadChan p))
      (andthen (release (PipeLock p)) (ret (int (length bs)))) else andthen (release (PipeLock p)) (ret (- 1)))
      (\<lambda>n t. n = int (length bs) \<and> pipe_st p {} t (q @ bs))) t"
  proof (rule wp_pipewrite_loop [OF t], use assms(2) in simp)
    fix u assume "pipe_st p {PipeLock p} u (q @ take (nat (int (length bs))) bs)"
    then have "pipe_st p {PipeLock p} u (q @ bs)" by simp
    then show "wp (if True then andthen (wakeup (PipeReadChan p)) (andthen (release (PipeLock p)) (ret (int (length bs))))
        else andthen (release (PipeLock p)) (ret (- 1))) (\<lambda>n t. n = int (length bs) \<and> pipe_st p {} t (q @ bs)) u"
      unfolding if_True wp_andthen wp_ret by (blast intro: pipe_st_wakeup pipe_st_unlock)
  qed
qed

lemma pipewrite_blocks:
  assumes "pipe_st p {} s q" and "512 < length q + length bs"
  shows "\<exists>t. pipewrite p bs (int (length bs)) s = Asleep t \<and>
    pipe_asleep p (PipeWriteChan p) t (q @ take (512 - length q) bs)"
proof -
  have "wpa (pipewrite p bs (int (length bs))) (\<lambda>_ _. False) (\<lambda>t. pipe_asleep p (PipeWriteChan p) t (q @ take (512 - length q) bs)) s"
    unfolding pipewrite_def wpa_andthen wpa_bnd
    by (rule wpa_wp, rule pipe_st_lock [OF assms(1)], rule wpa_pipewrite_full) (use assms(2) in simp_all)
  then show ?thesis by (rule wpa_AsleepE) blast
qed

lemma wp_piperead:
  assumes "pipe_st p {} s q" and "q \<noteq> []"
  shows "wp (piperead p (int n)) (\<lambda>(m, bs) t. m = int (length bs) \<and> bs = take n q \<and> pipe_st p {} t (drop n q)) s"
  unfolding piperead_def wp_andthen wp_bnd
proof (rule pipe_st_lock [OF assms(1)])
  fix t assume t: "pipe_st p {PipeLock p} t q"
  then have c: "pipe_count (pipes t p) \<noteq> 0" using assms(2) by (auto simp: pipe_st_def pipe_bytes_Nil)
  have "wp (piperead_copy p n) (\<lambda>bs. wp (wakeup (PipeWriteChan p)) (\<lambda>_. wp (release (PipeLock p)) (\<lambda>_ t.
      bs = take n q \<and> pipe_st p {} t (drop n q)))) t"
    by (rule wp_piperead_copy [OF t]) (blast intro: pipe_st_wakeup pipe_st_unlock)
  then show "wp (piperead_wait p) (\<lambda>ok. wp (piperead_end p (int n) ok)
      (\<lambda>(m, bs) t. m = int (length bs) \<and> bs = take n q \<and> pipe_st p {} t (drop n q))) t"
    using c by (simp add: piperead_wait_def piperead_end_def pipe_get_def wp_rules pipe_empty)
qed

lemma piperead_blocks:
  assumes "pipe_st p {} s []"
  shows "\<exists>t. piperead p n s = Asleep t \<and> pipe_asleep p (PipeReadChan p) t []"
proof -
  have "wpa (piperead p n) (\<lambda>_ _. False) (\<lambda>t. pipe_asleep p (PipeReadChan p) t []) s"
    unfolding piperead_def wpa_andthen wpa_bnd
  proof (rule wpa_wp, rule pipe_st_lock [OF assms])
    fix t assume t: "pipe_st p {PipeLock p} t []"
    then have c: "pipe_count (pipes t p) = 0" "pi_writeopen (pipes t p)" by (auto simp: pipe_st_def pipe_bytes_Nil)
    have "wp killed (\<lambda>k. wpa (if k then ret False else sleep (PipeReadChan p) (Some (PipeLock p)))
        (\<lambda>a. wpa (piperead_end p n a) (\<lambda>_ _. False) (\<lambda>t. pipe_asleep p (PipeReadChan p) t [])) (\<lambda>t. pipe_asleep p (PipeReadChan p) t [])) t"
      using pipe_st_sleep [OF t] by (simp add: pipe_st_killed [OF t] wpa_rules)
    from wpa_wp [OF this] show "wpa (piperead_wait p) (\<lambda>a. wpa (piperead_end p n a) (\<lambda>_ _. False) (\<lambda>t. pipe_asleep p (PipeReadChan p) t []))
        (\<lambda>t. pipe_asleep p (PipeReadChan p) t []) t"
      using c by (simp add: piperead_wait_def wpa_rules pipe_get_def pipe_empty)
  qed
  then show ?thesis by (rule wpa_AsleepE) blast
qed

section \<open>Bounded queues\<close>

datatype queue_op = Put "uchar list" | Get nat

text \<open>What a client gets from a queue of \<open>cap\<close> bytes; None when an operation has to wait.\<close>

fun queue_run :: "nat \<Rightarrow> queue_op list \<Rightarrow> uchar list \<Rightarrow> (uchar list list \<times> uchar list) option" where
  "queue_run cap [] q = Some ([], q)"
| "queue_run cap (Put bs # ops) q = (if length q + length bs \<le> cap then queue_run cap ops (q @ bs) else None)"
| "queue_run cap (Get n # ops) q =
     (if q = [] then None
      else case queue_run cap ops (drop n q) of None \<Rightarrow> None | Some (out, r) \<Rightarrow> Some (take n q # out, r))"

fun queue_client :: "(uchar list \<Rightarrow> ('s, int) kop) \<Rightarrow> (nat \<Rightarrow> ('s, int \<times> uchar list) kop) \<Rightarrow> queue_op list \<Rightarrow>
    ('s, uchar list list) kop" where
  "queue_client put get [] = ret []"
| "queue_client put get (Put bs # ops) = andthen (put bs) (queue_client put get ops)"
| "queue_client put get (Get n # ops) = bnd (get n) (\<lambda>(m, bs). bnd (queue_client put get ops) (\<lambda>out. ret (bs # out)))"

locale bounded_queue =
  fixes put :: "uchar list \<Rightarrow> ('s, int) kop" and get :: "nat \<Rightarrow> ('s, int \<times> uchar list) kop"
    and holds :: "'s \<Rightarrow> uchar list \<Rightarrow> bool" and cap :: nat
  assumes put_fits: "holds s q \<Longrightarrow> length q + length bs \<le> cap \<Longrightarrow>
      wp (put bs) (\<lambda>n t. n = int (length bs) \<and> holds t (q @ bs)) s"
    and put_waits: "holds s q \<Longrightarrow> cap < length q + length bs \<Longrightarrow> \<exists>t. put bs s = Asleep t"
    and get_some: "holds s q \<Longrightarrow> q \<noteq> [] \<Longrightarrow> wp (get n) (\<lambda>(m, bs) t. m = int (length bs) \<and> bs = take n q \<and> holds t (drop n q)) s"
    and get_waits: "holds s [] \<Longrightarrow> \<exists>t. get n s = Asleep t"
begin

lemma client_refines_queue:
  assumes "holds s q"
  shows "case queue_run cap ops q of
      Some (out, r) \<Rightarrow> wp (queue_client put get ops) (\<lambda>out' t. out' = out \<and> holds t r) s
    | None \<Rightarrow> \<exists>t. queue_client put get ops s = Asleep t"
  using assms
proof (induction ops arbitrary: s q)
  case Nil
  then show ?case by (simp add: wp_rules)
next
  case (Cons op ops)
  show ?case
  proof (cases op)
    case (Put bs)
    show ?thesis
    proof (cases "length q + length bs \<le> cap")
      case True
      from put_fits [OF Cons.prems True] obtain n t where t: "put bs s = Done n t" "holds t (q @ bs)" by (rule wpE) blast
      have e: "queue_client put get (op # ops) s = queue_client put get ops t" using t(1) by (simp add: Put andthen_def bnd_def)
      show ?thesis using Cons.IH [OF t(2)] True unfolding wp_def e by (simp add: Put)
    next
      case False
      then obtain t where "put bs s = Asleep t" using put_waits [OF Cons.prems, of bs] by auto
      then show ?thesis using False by (simp add: Put andthen_def bnd_def)
    qed
  next
    case (Get n)
    show ?thesis
    proof (cases "q = []")
      case True
      then obtain t where "get n s = Asleep t" using get_waits Cons.prems by auto
      then show ?thesis using True by (simp add: Get bnd_def)
    next
      case False
      from get_some [OF Cons.prems False, of n] obtain m t where t: "get n s = Done (m, take n q) t" "holds t (drop n q)"
        by (rule wpE) auto
      have e: "queue_client put get (op # ops) s = bnd (queue_client put get ops) (\<lambda>out. ret (take n q # out)) t"
        using t(1) by (simp add: Get bnd_def)
      show ?thesis
      proof (cases "queue_run cap ops (drop n q)")
        case None
        then show ?thesis using Cons.IH [OF t(2)] False unfolding e by (auto simp: Get bnd_def)
      next
        case (Some r)
        then show ?thesis
          using Cons.IH [OF t(2)] False unfolding wp_def e by (cases r) (auto simp: Get bnd_def ret_def split: outcome.splits)
      qed
    qed
  qed
qed

end

section \<open>Property\<close>

definition pipe_put_all :: "uint \<Rightarrow> uchar list \<Rightarrow> ('z kfile_scheme, int) kop" where
  "pipe_put_all p bs = pipewrite p bs (int (length bs))"

definition pipe_get_n :: "uint \<Rightarrow> nat \<Rightarrow> ('z kfile_scheme, int \<times> uchar list) kop" where
  "pipe_get_n p n = piperead p (int n)"

interpretation pipe_queue: bounded_queue "pipe_put_all p" "pipe_get_n p" "pipe_st p {}" 512
  for p :: uint
  unfolding pipe_put_all_def pipe_get_n_def
  by unfold_locales (rule wp_pipewrite wp_piperead | use pipewrite_blocks piperead_blocks in blast)+

text \<open>
  C10. A pipe is a bounded queue of bytes. While both ends are open and the process is not killed, any sequence of
  \<open>pipewrite\<close> and \<open>piperead\<close> calls on a pipe does what it would on a queue of 512 bytes, wherever the 32-bit
  counters of the ring buffer stand: the bytes come out in the order they went in, none lost or
  repeated; a read of a non-empty pipe returns the first bytes there are, up to the number asked for; and the
  sequence goes to sleep exactly when it comes to a write that does not fit or to a read of an empty pipe.
\<close>

theorem pipe_refines_queue:
  assumes "pipe_st p {} s q"
  shows "case queue_run 512 ops q of
      Some (out, r) \<Rightarrow> \<exists>t. queue_client (pipe_put_all p) (pipe_get_n p) ops s = Done out t \<and> pipe_st p {} t r
    | None \<Rightarrow> \<exists>t. queue_client (pipe_put_all p) (pipe_get_n p) ops s = Asleep t"
  using pipe_queue.client_refines_queue [OF assms, of ops]
  by (cases "queue_run 512 ops q") (auto simp: wp_iff_Done)

lemma demo_pipe_st: "pipe_st p {} (demo_file\<lparr>pipes := (\<lambda>_. new_pipe\<lparr>pi_nread := -2, pi_nwrite := -2\<rparr>)\<rparr>) []"
  using demo_kst(3) demo_running(2) demo_table_running(2)
  by (auto simp: pipe_st_def new_pipe_def pipe_ok_def pipe_bytes_def pipe_count_def demo_cpu runner_def init_proc_def no_proc_def)

lemma pipe_refines_queue_witness:
  "(\<exists>t. queue_client (pipe_put_all 0x8d000000) (pipe_get_n 0x8d000000) [Put [1, 2, 3], Get 2, Put [4], Get 9]
      (demo_file\<lparr>pipes := (\<lambda>_. new_pipe\<lparr>pi_nread := -2, pi_nwrite := -2\<rparr>)\<rparr>) = Done [[1, 2], [3, 4]] t) \<and>
   (\<exists>t. queue_client (pipe_put_all 0x8d000000) (pipe_get_n 0x8d000000) [Put [1], Get 2, Get 1]
      (demo_file\<lparr>pipes := (\<lambda>_. new_pipe\<lparr>pi_nread := -2, pi_nwrite := -2\<rparr>)\<rparr>) = Asleep t)"
  using pipe_refines_queue [OF demo_pipe_st, of "0x8d000000" "[Put [1, 2, 3], Get 2, Put [4], Get 9]"]
    pipe_refines_queue [OF demo_pipe_st, of "0x8d000000" "[Put [1], Get 2, Get 1]"]
  by auto

end
