(* ===== verification/Fs_Rules.thy ===== *)
theory Fs_Rules
  imports Fs Log_Props
begin

text \<open>
  The rules for blocks and inodes inside an open transaction: what a block read through the cache holds, what an update of a
  block changes, and that neither touches the inode cache.
\<close>

section \<open>The inode cache\<close>

lemma kstep_icache:
  fixes s :: "'z kfs_scheme"
  assumes "kstep s t"
  shows "icache t = icache s"
proof -
  have "kproc.more t = kproc.more s" by (rule kstep_more [OF assms])
  then show ?thesis by (cases s; cases t) simp
qed

lemma lstep_icache:
  fixes s :: "'z kfs_scheme"
  assumes "lstep s t"
  shows "icache t = icache s"
proof -
  have "klog.more t = klog.more s" using assms by (simp add: lstep_def)
  then show ?thesis by (cases s; cases t) simp
qed

lemma wp_inode_get: "ip < length (icache s) \<Longrightarrow> wp (inode_get ip) R s = R (icache s ! ip) s"
  by (simp add: inode_get_def wp_rules)

lemma wp_inode_set: "ip < length (icache s) \<Longrightarrow>
    wp (inode_set ip f) R s = R () (s\<lparr>icache := (icache s)[ip := f (icache s ! ip)]\<rparr>)"
  by (simp add: inode_set_def wp_rules)

section \<open>Inside a transaction\<close>

text \<open>
  \<open>C\<close> gives what the blocks hold, in the cache or on the disk, and \<open>P\<close> are the blocks written in the transaction.
  The blocks of the log itself change with every write.
\<close>

definition tst :: "'z klog_scheme \<Rightarrow> (uint \<Rightarrow> uchar list) \<Rightarrow> uint set \<Rightarrow> bool" where
  "tst s C P \<longleftrightarrow> kst {} s \<and> (\<exists>D W. bst s C D W P {}) \<and> log_geometry s \<and> log_busy s \<and> P \<inter> log_area s = {} \<and>
     lh_n s = int (card P) \<and> set (take (card P) (lh_sector s)) = P \<and> card P < LOGSIZE"

text \<open>A block that the file system may write, and room in the log and the cache for the blocks \<open>P\<close>.\<close>

definition fs_block :: "'z klog_scheme \<Rightarrow> uint \<Rightarrow> bool" where
  "fs_block s sec \<longleftrightarrow> sec \<notin> log_area s \<and> sec < word_of_int (disksize s)"

definition log_room :: "'z klog_scheme \<Rightarrow> uint set \<Rightarrow> bool" where
  "log_room s P \<longleftrightarrow> card P < LOGSIZE \<and> int (card P) + 1 < log_size s"

text \<open>The same blocks outside the log.\<close>

definition same_blocks :: "'z klog_scheme \<Rightarrow> (uint \<Rightarrow> uchar list) \<Rightarrow> (uint \<Rightarrow> uchar list) \<Rightarrow> bool" where
  "same_blocks s C C' \<longleftrightarrow> (\<forall>x. x \<notin> log_area s \<longrightarrow> C' x = C x)"

lemma same_blocks_refl [simp]: "same_blocks s C C"
  by (simp add: same_blocks_def)

lemma lstep_blocks:
  assumes "lstep s t"
  shows "fs_block t = fs_block s" "log_room t = log_room s" "same_blocks t = same_blocks s"
  using lstep_geometry(2) [OF assms] assms by (simp_all add: fun_eq_iff fs_block_def log_room_def same_blocks_def lstep_def)

lemma tst_kfs [simp]: "tst (s\<lparr>icache := is\<rparr>) C P = tst s C P"
proof -
  have "kst {} (s\<lparr>icache := is\<rparr>) = kst {} s" by (rule kst_eqI) simp_all
  then show ?thesis by (simp add: tst_def bst_def log_geometry_def log_area_def lsec_def)
qed

lemma lstep_kfs_blocks [simp]:
  "fs_block (s\<lparr>icache := is\<rparr>) = fs_block s" "log_room (s\<lparr>icache := is\<rparr>) = log_room s"
  "same_blocks (s\<lparr>icache := is\<rparr>) = same_blocks s"
  by (simp_all add: fun_eq_iff fs_block_def log_room_def same_blocks_def log_area_def lsec_def)

lemma tst_length: "tst s C P \<Longrightarrow> length (C x) = BSIZE"
  by (auto simp: tst_def bst_def)

lemma tst_bstep:
  fixes s :: "'z klog_scheme"
  assumes "tst s C P" and "bst t C D W P {}" and "kst {} t" and st: "bstep s t"
  shows "tst t C P"
proof -
  have g: "log_geometry t = log_geometry s" "log_area t = log_area s"
    using lstep_geometry(2,3) [OF bstep_lstep [OF st]] bstep_log(5) [OF st] by simp_all
  show ?thesis
    unfolding tst_def g bstep_log(4,5,6) [OF st] using assms(1-3) by (auto simp: tst_def)
qed

text \<open>
  Reading needs no transaction: \<open>rst s C P\<close> says only what the blocks hold, and that of the blocks \<open>P\<close>, which the cache holds but
  the disk does not yet, there are fewer than there are buffers. Outside a transaction \<open>P\<close> is empty.
\<close>

definition rst :: "'z klog_scheme \<Rightarrow> (uint \<Rightarrow> uchar list) \<Rightarrow> uint set \<Rightarrow> bool" where
  "rst s C P \<longleftrightarrow> kst {} s \<and> (\<exists>D W. bst s C D W P {}) \<and> card P < NBUF"

lemma tst_rst: "tst s C P \<Longrightarrow> rst s C P"
  by (auto simp: tst_def rst_def LOGSIZE_def NBUF_def)

lemma tst_rst_bstep: "tst s C P \<Longrightarrow> rst t C P \<Longrightarrow> bstep s t \<Longrightarrow> tst t C P"
  unfolding rst_def using tst_bstep by blast

lemma rst_length: "rst s C P \<Longrightarrow> length (C x) = BSIZE"
  by (auto simp: rst_def bst_def)

lemma wp_block_read:
  assumes s: "rst s C P" and sec: "fs_block s sec"
    and E: "\<And>b q t Q. b_data q = C sec \<Longrightarrow> wp (m b q) Q t = wp (andthen (brelse b) (k q)) Q t"
    and K: "\<And>q t. b_data q = C sec \<Longrightarrow> rst t C P \<Longrightarrow> bstep s t \<Longrightarrow> wp (k q) R t"
  shows "wp (bnd (bread 1 sec) (\<lambda>b. bnd (bufget b) (m b))) R s"
proof -
  obtain D W where k: "kst {} s" and b: "bst s C D W P {}" and P: "card P < NBUF"
    using s by (auto simp: rst_def)
  show ?thesis
    unfolding wp_bnd
  proof (rule wp_bread [OF k _ b], simp, simp, simp add: P, use sec in \<open>simp add: fs_block_def\<close>)
    fix c t assume t: "kst {} t" "bst t C D W P {(c, sec)}" "bstep s t"
    have q: "b_data (bc_buf t ! c) = C sec" by (rule bst_held(6) [OF t(2) singletonI])
    show "wp (bufget c) (\<lambda>q. wp (m c q) R) t"
      unfolding wp_bufget_b [OF t(2) singletonI] E [OF q] wp_andthen
    proof (rule wp_brelse [OF t(1) _ _ t(2) singletonI])
      show "sec \<in> P \<or> C sec = D sec" using bst_clean [OF b, of sec] by auto
      fix u assume u: "kst {} u" "bst u C D W P ({(c, sec)} - {(c, sec)})" "bstep t u"
      have st: "bstep s u" using t(3) u(3) by (rule bstep_trans)
      have "rst u C P" using u(1,2) P by (auto simp: rst_def)
      then show "wp (k (bc_buf t ! c)) R u" using st by (rule K [OF q])
    qed simp_all
  qed
qed

lemma log_slots_card:
  assumes n: "card P < length secs" and P: "finite P" "set (take (card P) secs) = P" and i: "i = log_find (int (card P)) secs sec"
  shows "card (insert sec P) = (if i = card P then card P + 1 else card P)"
    "set (take (card (insert sec P)) (secs[i := sec])) = insert sec P"
proof -
  have d: "distinct (take (card P) secs)" using P n by (intro card_distinct) simp
  note l = log_slots(2) [OF n d i refl, where C' = "\<lambda>_. ()" and C = "\<lambda>_. ()" and D = "\<lambda>_. ()" and D' = "\<lambda>_. ()" and v = "()"]
  have iN: "i \<le> card P" using log_find_le i by simp
  show c: "card (insert sec P) = (if i = card P then card P + 1 else card P)"
  proof (cases "i = card P")
    case True
    then have "sec \<notin> P" using log_find_eq [of "card P" secs sec] n i P by simp
    then show ?thesis using True P by simp
  next
    case False
    then have "secs ! i = sec" "i < card P" using log_find_lt [of "card P" secs sec] n i iN by simp_all
    then have "sec \<in> P" using P(2) n nth_mem [of i "take (card P) secs"] by simp
    then show ?thesis using False P by (simp add: insert_absorb)
  qed
  show "set (take (card (insert sec P)) (secs[i := sec])) = insert sec P" unfolding c using l P by simp
qed

lemma wp_block_update:
  assumes s: "tst s C P" and sec: "fs_block s sec" and room: "log_room s (insert sec P)"
    and g: "length (g (C sec)) = BSIZE"
    and K: "\<And>t C'. tst t C' (insert sec P) \<Longrightarrow> same_blocks s (C(sec := g (C sec))) C' \<Longrightarrow> lstep s t \<Longrightarrow> wp m R t"
  shows "wp (bnd (bread 1 sec) (\<lambda>b. andthen (bufdata b g) (andthen (log_write b) (andthen (brelse b) m)))) R s"
proof -
  obtain D W where k: "kst {} s" and b: "bst s C D W P {}" and geo: "log_geometry s" and busy: "log_busy s"
    and A: "P \<inter> log_area s = {}" and N: "lh_n s = int (card P)" "set (take (card P) (lh_sector s)) = P" "card P < LOGSIZE"
    using s by (auto simp: tst_def)
  have n: "int (card P) + 1 < log_size s"
    using room card_insert_le [of P sec] by (simp add: log_room_def)
  have P: "card P < NBUF" "card (insert sec P) < NBUF" using room N(3) by (simp_all add: log_room_def LOGSIZE_def NBUF_def)
  have len: "card P < length (lh_sector s)" using geo N(3) by (simp add: log_geometry_def)
  define i where "i = log_find (int (card P)) (lh_sector s) sec"
  note slots = log_slots_card [OF len bst_fin_P [OF b] N(2) i_def]
  let ?C = "C(sec := g (C sec))" and ?l = "lsec s (i + 1)"
  have sa: "sec \<notin> log_area s" using sec by (simp add: fs_block_def)
  have i: "i \<le> card P" using log_find_le i_def by simp
  have la: "?l \<in> log_area s" using i n by (intro lsec_area) simp
  show ?thesis
    unfolding wp_bnd wp_andthen
  proof (rule wp_bread [OF k _ b], simp, simp, simp add: P, use sec in \<open>simp add: fs_block_def\<close>)
    fix c t assume t: "kst {} t" "bst t C D W P {(c, sec)}" "bstep s t"
    show "wp (bufdata c g) (\<lambda>_. wp (log_write c) (\<lambda>_. wp (brelse c) (\<lambda>_. wp m R))) t"
      unfolding bufdata_def
    proof (rule wp_bufdata [OF t(2) singletonI, where g = g], simp, rule g)
      fix u assume u: "bst u ?C D W P {(c, sec)}" "bstep t u" "\<And>H. kst H u = kst H t"
      have st: "bstep s u" using t(3) u(2) by (rule bstep_trans)
      note fu = bstep_log [OF st] and lu = lstep_geometry [OF bstep_lstep [OF st]]
      have ku: "kst {} u" using u(3) t(1) by simp
      show "wp (log_write c) (\<lambda>_. wp (brelse c) (\<lambda>_. wp m R)) u"
      proof (rule wp_log_write [OF ku u(1) _ _ _ _ _ _ _ P(2) refl refl, where n = "card P"],
          unfold lu(1) fu(5) i_def [symmetric])
        let ?C' = "?C(?l := ?C sec)"
        fix x assume x: "kst {} x" "bst x ?C' (D(?l := ?C sec)) (W @ [(?l, ?C sec)]) (insert sec P) {(c, sec)}"
          "lstep u x" "log_geometry x" "log_busy x" "lh_sector x = (lh_sector s)[i := sec]"
          "lh_n x = (if i = card P then int (card P) + 1 else int (card P))"
        show "wp (brelse c) (\<lambda>_. wp m R) x"
        proof (rule wp_brelse [OF x(1) _ _ x(2) singletonI])
          fix y assume y: "kst {} y" "bst y ?C' (D(?l := ?C sec)) (W @ [(?l, ?C sec)]) (insert sec P) ({(c, sec)} - {(c, sec)})" "bstep x y"
          note fy = bstep_log [OF y(3)]
          have sy: "lstep s y" using bstep_lstep [OF st] x(3) bstep_lstep [OF y(3)] by (blast intro: lstep_trans)
          have gy: "log_geometry y" using lstep_geometry(3) [OF bstep_lstep [OF y(3)]] x(4) fy(5) by simp
          have "tst y ?C' (insert sec P)"
            unfolding tst_def lstep_geometry(2) [OF sy]
            using y(1,2) gy fy x(5,6,7) slots room A sa by (auto simp: log_room_def)
          moreover have "same_blocks s ?C ?C'" using la by (auto simp: same_blocks_def)
          ultimately show "wp m R y" using sy by (rule K)
        qed simp_all
      qed (use N n geo busy fu sa A lu st in \<open>simp_all add: bstep_def\<close>)
    qed
  qed
qed

lemma wp_block_update_only:
  assumes "tst s C P" and "fs_block s sec" and "log_room s (insert sec P)" and "length (g (C sec)) = BSIZE"
    and K: "\<And>t C'. tst t C' (insert sec P) \<Longrightarrow> same_blocks s (C(sec := g (C sec))) C' \<Longrightarrow> lstep s t \<Longrightarrow> R () t"
  shows "wp (bnd (bread 1 sec) (\<lambda>b. andthen (bufdata b g) (andthen (log_write b) (brelse b)))) R s"
proof -
  have "wp (bnd (bread 1 sec) (\<lambda>b. andthen (bufdata b g) (andthen (log_write b) (andthen (brelse b) (ret ()))))) R s"
    by (rule wp_block_update [OF assms(1-3), where g = g]) (simp_all add: wp_ret K assms(4))
  then show ?thesis by (simp add: wp_bnd wp_andthen wp_ret)
qed

section \<open>Inodes on the disk\<close>

lemma length_put32s [simp]: "length (fold (\<lambda>i d. put32 d (b + 4 * i) (f i)) is d) = length d"
  by (induction "is" arbitrary: d) simp_all

lemma put32s_get:
  "b + 4 * n \<le> length d \<Longrightarrow> i < n \<Longrightarrow> get32 (fold (\<lambda>i d. put32 d (b + 4 * i) (f i)) [0..<n] d) (b + 4 * i) = f i"
  by (induction n) (auto simp: less_Suc_eq)

lemma put32s_other:
  "b + 4 * n \<le> length d \<Longrightarrow> j + 1 < b \<or> b + 4 * n \<le> j \<Longrightarrow> get16 (fold (\<lambda>i d. put32 d (b + 4 * i) (f i)) [0..<n] d) j = get16 d j"
  "b + 4 * n \<le> length d \<Longrightarrow> j + 3 < b \<or> b + 4 * n \<le> j \<Longrightarrow> get32 (fold (\<lambda>i d. put32 d (b + 4 * i) (f i)) [0..<n] d) j = get32 d j"
  by (induction n) auto

lemma dinode_at_less: "dinode_at inum + 64 \<le> BSIZE"
  by (simp add: dinode_at_def IPB_def BSIZE_def)

lemma length_dinode_store [simp]: "length (dinode_store r d) = length d"
  by (simp add: dinode_store_def Let_def)

lemma dinode_load_store:
  assumes d: "length d = BSIZE" and a: "length (i_addrs r) = NDIRECT + 1"
  shows "dinode_load (dinode_store r d) (i_inum r) q = q\<lparr>i_type := i_type r, i_major := i_major r, i_minor := i_minor r,
     i_nlink := i_nlink r, i_size := i_size r, i_addrs := i_addrs r\<rparr>"
proof -
  have b: "dinode_at (i_inum r) + 64 \<le> length d" using dinode_at_less d by simp
  have "map (\<lambda>i. get32 (dinode_store r d) (dinode_at (i_inum r) + 12 + 4 * i)) [0..<NDIRECT + 1] = i_addrs r"
  proof (rule nth_equalityI)
    fix i assume "i < length (map (\<lambda>i. get32 (dinode_store r d) (dinode_at (i_inum r) + 12 + 4 * i)) [0..<NDIRECT + 1])"
    then have i: "i < NDIRECT + 1" by simp
    then have "get32 (dinode_store r d) (dinode_at (i_inum r) + 12 + 4 * i) = i_addrs r ! i"
      unfolding dinode_store_def Let_def using b by (intro put32s_get) (simp_all add: NDIRECT_def)
    then show "map (\<lambda>i. get32 (dinode_store r d) (dinode_at (i_inum r) + 12 + 4 * i)) [0..<NDIRECT + 1] ! i = i_addrs r ! i"
      using i by (simp del: upt_Suc)
  qed (use a in simp)
  then show ?thesis
    unfolding dinode_load_def Let_def using b
    by (simp add: put32s_other dinode_store_def Let_def NDIRECT_def del: upt_Suc)
qed

lemma dinode_load_other:
  assumes d: "length d = BSIZE" and ne: "dinode_at inum \<noteq> dinode_at (i_inum r)"
  shows "dinode_load (dinode_store r d) inum q = dinode_load d inum q"
proof -
  have b: "dinode_at (i_inum r) + 64 \<le> length d" using dinode_at_less d by simp
  have far: "dinode_at inum + 64 \<le> dinode_at (i_inum r) \<or> dinode_at (i_inum r) + 64 \<le> dinode_at inum"
    using ne by (auto simp: dinode_at_def)
  have g32: "get32 (dinode_store r d) (dinode_at inum + k) = get32 d (dinode_at inum + k)" if "k + 4 \<le> 64" for k
    using far b that by (auto simp: dinode_store_def Let_def put32s_other NDIRECT_def simp del: upt_Suc)
  have g16: "get16 (dinode_store r d) (dinode_at inum + k) = get16 d (dinode_at inum + k)" if "k + 2 \<le> 64" for k
    using far b that by (auto simp: dinode_store_def Let_def put32s_other NDIRECT_def simp del: upt_Suc)
  have a: "map (\<lambda>i. get32 (dinode_store r d) (dinode_at inum + 12 + 4 * i)) [0..<NDIRECT + 1] =
      map (\<lambda>i. get32 d (dinode_at inum + 12 + 4 * i)) [0..<NDIRECT + 1]"
  proof (rule map_cong [OF refl])
    fix i assume "i \<in> set [0..<NDIRECT + 1]"
    then show "get32 (dinode_store r d) (dinode_at inum + 12 + 4 * i) = get32 d (dinode_at inum + 12 + 4 * i)"
      using g32 [of "12 + 4 * i"] by (simp add: NDIRECT_def add.assoc)
  qed
  show ?thesis
    unfolding dinode_load_def Let_def a using g16 [of 0] g16 [of 2] g16 [of 4] g16 [of 6] g32 [of 8] by simp
qed

end
