(* ===== verification/Console_Props.thy ===== *)
theory Console_Props
  imports Demo_State Ring_Buffer Fs_Rules
begin

text \<open>
  The console's input: the interrupt handlers are an editor of the line being typed, whatever device the characters
  come from (\<open>char_source\<close>), and \<open>consoleread\<close> takes the lines it has finished.
\<close>

section \<open>Console operations and the rest of the kernel\<close>

lemma wp_consputc_k:
  assumes k: "kst H s" and K: "\<And>t. kstep s t \<Longrightarrow> kst H t \<Longrightarrow> R () t"
  shows "wp (consputc c) R s"
proof -
  obtain Q where Q: "ptab H s Q" using k by (auto simp: kst_def)
  show ?thesis
  proof (rule wp_mono [OF wp_consputc [OF ptabD(2) [OF Q]]])
    fix a t assume t: "con_ok t \<and> con_frame s t"
    define ser m p where "ser = serial t" and "m = crt t" and "p = crtpos t"
    have e: "t = s\<lparr>serial := ser, crt := m, crtpos := p\<rparr>" using t by (simp add: con_frame_def ser_def m_def p_def)
    have "ptab H t Q" using Q t by (simp add: e ptab_def lks_def holding_def table_inv_def)
    moreover have "kstep s t" by (simp add: e kstep_def kframe_def)
    ultimately show "R a t" using K by (auto simp: kst_def)
  qed
qed

lemma kstep_cin:
  fixes s :: "'z kcin_scheme"
  assumes "kstep s t"
  shows "in_buf t = in_buf s" "in_r t = in_r s" "in_w t = in_w s" "in_e t = in_e s" "kbd_shift t = kbd_shift s"
    "kbd_port t = kbd_port s" "uart_port t = uart_port s" "uart t = uart s" "kcin.more t = kcin.more s"
proof -
  have "kproc.more t = kproc.more s" "uart t = uart s" using assms by (simp_all add: kstep_klow klow_def)
  then show "in_buf t = in_buf s" "in_r t = in_r s" "in_w t = in_w s" "in_e t = in_e s" "kbd_shift t = kbd_shift s"
    "kbd_port t = kbd_port s" "uart_port t = uart_port s" "uart t = uart s" "kcin.more t = kcin.more s"
    by (cases s; cases t; simp)+
qed

lemma kst_cin [simp]:
  "kst H (s\<lparr>in_buf := b\<rparr>) = kst H s" "kst H (s\<lparr>in_r := x\<rparr>) = kst H s" "kst H (s\<lparr>in_w := x\<rparr>) = kst H s"
  "kst H (s\<lparr>in_e := x\<rparr>) = kst H s" "kst H (s\<lparr>kbd_shift := x\<rparr>) = kst H s" "kst H (s\<lparr>kbd_port := y\<rparr>) = kst H s"
  "kst H (s\<lparr>uart_port := y\<rparr>) = kst H s"
  by (rule kst_eqI; simp)+

lemma dump_fmt_ok: "sint a \<noteq> - (2 ^ 31) \<Longrightarrow> fmt_ok ''%d %s %s'' [ArgInt a, ArgStr b, ArgStr c]" "fmt_ok '' %p'' [ArgInt d]" "fmt_ok [CHR 0x0A] []"
  by simp_all

text \<open>The pid of a live process is a positive \<open>int\<close>.\<close>

lemma kst_pid:
  assumes "kst H s" and "i < NPROC" and "p_state (pt_proc s ! i) \<noteq> UNUSED"
  shows "sint (word_of_int (p_pid (pt_proc s ! i)) :: uint) \<noteq> - (2 ^ 31)"
proof -
  obtain Q where "table_inv s Q" using assms(1) by (auto simp: kst_def ptab_def)
  then have p: "0 < p_pid (pt_proc s ! i)" "p_pid (pt_proc s ! i) < INT_MAX"
    using table_invD(3) assms(2,3) by (fastforce simp: pids_ok_def)+
  then have "uint (word_of_int (p_pid (pt_proc s ! i)) :: uint) = p_pid (pt_proc s ! i)"
    by (simp add: uint_word_of_int INT_MAX_def)
  then show ?thesis using p by (simp add: sint_uint32 INT_MAX_def)
qed

lemma wp_cprintfs:
  assumes "kst H s" and "ConsLock \<notin> H" and "\<And>t. kstep s t \<Longrightarrow> kst H t \<Longrightarrow> R () t"
  shows "wp (for_each pcs (\<lambda>pc. cprintf '' %p'' [ArgInt pc])) R s"
proof (rule wp_for_each [where I = "\<lambda>_ t. kstep s t \<and> kst H t"])
  fix pc rest t assume "kstep s t \<and> kst H t"
  then show "wp (cprintf '' %p'' [ArgInt pc]) (\<lambda>_ t. kstep s t \<and> kst H t) t"
    using dump_fmt_ok(2) assms(2) by (intro wp_cprintf_k [where H = H]) (auto intro: kstep_trans)
qed (use assms in auto)

lemma wp_procdump:
  assumes "kst H s" and c: "ConsLock \<notin> H" and "\<And>t. kstep s t \<Longrightarrow> kst H t \<Longrightarrow> R () t"
  shows "wp procdump R s"
  unfolding procdump_def
proof (rule wp_for_each [where I = "\<lambda>_ t. kstep s t \<and> kst H t"])
  fix i rest t assume t: "kstep s t \<and> kst H t" and "\<exists>pre. [0..<NPROC] = pre @ i # rest"
  then obtain pre where p: "[0..<NPROC] = pre @ i # rest" by blast
  have "i \<in> set [0..<NPROC]" unfolding p by simp
  then have i: "i < NPROC" by simp
  have end_line: "wp (cprintf [CHR 0x0A] []) (\<lambda>_ u. kstep s u \<and> kst H u) u" if "kstep s u" "kst H u" for u
    using that dump_fmt_ok(3) c by (intro wp_cprintf_k [where H = H]) (auto intro: kstep_trans)
  have stack: "wp (whenever b (bnd (gets stackmem) (\<lambda>m. for_each (f m) (\<lambda>pc. cprintf '' %p'' [ArgInt pc]))))
      (\<lambda>_. wp (cprintf [CHR 0x0A] []) (\<lambda>_ u. kstep s u \<and> kst H u)) u" if u: "kstep s u" "kst H u" for u b f
  proof -
    have "wp (for_each (f (stackmem u)) (\<lambda>pc. cprintf '' %p'' [ArgInt pc]))
        (\<lambda>_. wp (cprintf [CHR 0x0A] []) (\<lambda>_ u. kstep s u \<and> kst H u)) u"
      by (rule wp_cprintfs [OF u(2) c], rule end_line) (use kstep_trans [OF u(1)] in blast)+
    then show ?thesis using end_line [OF u] by (simp add: wp_rules whenever_def)
  qed
  show "wp (bnd (pget i) (\<lambda>p. if p_state p = UNUSED then ret () else
      andthen (cprintf ''%d %s %s'' [ArgInt (word_of_int (p_pid p)), ArgStr (Some (state_name (p_state p))), ArgStr (Some (p_name p))])
      (andthen (whenever (p_state p = SLEEPING) (bnd (gets stackmem) (\<lambda>m.
          for_each (takeWhile (\<lambda>pc. pc \<noteq> 0) (getcallerpcs m (ctx_ebp (p_context p) + 8))) (\<lambda>pc. cprintf '' %p'' [ArgInt pc]))))
      (cprintf [CHR 0x0A] [])))) (\<lambda>_ u. kstep s u \<and> kst H u) t"
    unfolding wp_bnd wp_pget_k [OF conjunct2 [OF t] i] wp_if wp_andthen
    using t c dump_fmt_ok(1) [OF kst_pid [OF conjunct2 [OF t] i]] by (auto simp: wp_ret intro!: wp_cprintf_k [where H = H] stack intro: kstep_trans)
qed (use assms in auto)

section \<open>The line being edited\<close>

text \<open>
  \<open>ready\<close> are the characters a reader may take, \<open>line\<close> those of the line that is still being typed.
\<close>

definition in_st :: "lockid set \<Rightarrow> 'z kcin_scheme \<Rightarrow> uchar list \<Rightarrow> uchar list \<Rightarrow> bool" where
  "in_st H s ready line \<longleftrightarrow> kst H s \<and> length (in_buf s) = 128 \<and> unat (in_e s - in_r s) \<le> 128 \<and>
     unat (in_e s - in_r s) = unat (in_w s - in_r s) + unat (in_e s - in_w s) \<and>
     segment (in_buf s) (in_r s) (in_w s) = ready \<and> segment (in_buf s) (in_w s) (in_e s) = line \<and> 0x0A \<notin> set line"

text \<open>What a character does to the line, as a user sees it.\<close>

fun edit :: "uchar list \<times> uchar list \<Rightarrow> int \<Rightarrow> uchar list \<times> uchar list" where
  "edit (ready, line) c =
     (if c = 16 then (ready, line)
      else if c = 21 then (ready, [])
      else if c = 8 \<or> c = 127 then (ready, butlast line)
      else if c \<noteq> 0 \<and> length ready + length line < 128 then
        let c = (if c = 13 then 10 else c); line = line @ [word_of_int c]
        in if c = 10 \<or> c = 4 \<or> length ready + length line = 128 then (ready @ line, []) else (ready, line)
      else (ready, line))"

lemma ring_128: "ring_size 128"
  by (simp add: ring_size_def)

lemma input_index: "unat (x mod INPUT_BUF) = unat x mod 128"
  using ring_index [OF ring_128, of x] by (simp add: INPUT_BUF_def)

lemma in_st_step: "in_st H s ready line \<Longrightarrow> kstep s t \<Longrightarrow> kst G t \<Longrightarrow> in_st G t ready line"
  using kstep_cin [of s t] by (simp add: in_st_def)

lemma in_st_lengths:
  assumes "in_st H s ready line"
  shows "length ready = unat (in_w s - in_r s)" "length line = unat (in_e s - in_w s)" "in_e s - in_r s < INPUT_BUF \<longleftrightarrow> length ready + length line < 128"
    "in_e s = in_r s + INPUT_BUF \<longleftrightarrow> length ready + length line = 128" "in_e s = in_w s \<longleftrightarrow> line = []" "in_r s = in_w s \<longleftrightarrow> ready = []"
proof -
  have r: "ready = segment (in_buf s) (in_r s) (in_w s)" "line = segment (in_buf s) (in_w s) (in_e s)"
    and u: "unat (in_e s - in_r s) = unat (in_w s - in_r s) + unat (in_e s - in_w s)"
    using assms unfolding in_st_def by blast+
  show l: "length ready = unat (in_w s - in_r s)" "length line = unat (in_e s - in_w s)" by (simp_all add: r)
  have e: "unat (in_e s - in_r s) = length ready + length line" using u l by simp
  show "in_e s - in_r s < INPUT_BUF \<longleftrightarrow> length ready + length line < 128"
    unfolding word_less_nat_alt e by (simp add: INPUT_BUF_def)
  have "in_e s = in_r s + INPUT_BUF \<longleftrightarrow> in_e s - in_r s = INPUT_BUF" by (auto simp: algebra_simps)
  also have "\<dots> \<longleftrightarrow> unat (in_e s - in_r s) = unat INPUT_BUF" by (simp only: word_unat_eq_iff)
  finally show "in_e s = in_r s + INPUT_BUF \<longleftrightarrow> length ready + length line = 128" unfolding e by (simp add: INPUT_BUF_def)
  show "in_e s = in_w s \<longleftrightarrow> line = []" "in_r s = in_w s \<longleftrightarrow> ready = []"
    unfolding r ring_empty by auto
qed

lemma in_st_erase:
  assumes "in_st H s ready line" and "line \<noteq> []"
  shows "in_st H (s\<lparr>in_e := in_e s - 1\<rparr>) ready (butlast line)" "in_buf s ! unat ((in_e s - 1) mod INPUT_BUF) = last line"
proof -
  have d: "length (in_buf s) = 128" and l: "line = segment (in_buf s) (in_w s) (in_e s)" "0x0A \<notin> set line" using assms(1) by (auto simp: in_st_def)
  have ne: "in_w s \<noteq> in_e s" using in_st_lengths(5) [OF assms(1)] assms(2) by auto
  have p: "line = segment (in_buf s) (in_w s) (in_e s - 1) @ [in_buf s ! (unat (in_e s - 1) mod 128)]"
    using ring_pop [of "in_buf s", OF _ ne] d l(1) ring_128 by simp
  then show "in_buf s ! unat ((in_e s - 1) mod INPUT_BUF) = last line" by (simp add: input_index)
  have b: "butlast line = segment (in_buf s) (in_w s) (in_e s - 1)" using p by simp
  have ner: "in_r s \<noteq> in_e s"
  proof
    assume "in_r s = in_e s"
    then have "unat (in_e s - in_w s) = 0" using assms(1) by (simp add: in_st_def)
    then show False using ne by (simp add: unat_eq_0)
  qed
  have "unat (in_e s - in_w s) \<noteq> 0" using ne by (simp add: unat_eq_0)
  then show "in_st H (s\<lparr>in_e := in_e s - 1\<rparr>) ready (butlast line)"
    using assms(1) b l(2) ring_back(1) [OF ne] ring_back(1) [OF ner] in_set_butlastD [of "0x0A" line] by (auto simp: in_st_def)
qed

lemma in_st_store:
  assumes "in_st H s ready line" and "length ready + length line < 128" and "c \<noteq> 0x0A"
  shows "in_st H (s\<lparr>in_buf := (in_buf s)[unat (in_e s mod INPUT_BUF) := c], in_e := in_e s + 1\<rparr>) ready (line @ [c])"
proof -
  have d: "length (in_buf s) = 128" and e: "unat (in_e s - in_r s) = unat (in_w s - in_r s) + unat (in_e s - in_w s)"
    and l: "ready = segment (in_buf s) (in_r s) (in_w s)" "line = segment (in_buf s) (in_w s) (in_e s)"
    using assms(1) by (auto simp: in_st_def)
  have lt: "unat (in_e s - in_r s) < 128" using e in_st_lengths(1,2) [OF assms(1)] assms(2) by simp
  then have lt': "unat (in_e s - in_w s) < 128" using e by simp
  have "segment ((in_buf s)[unat (in_e s) mod 128 := c]) (in_w s) (in_e s + 1) = line @ [c]"
    using ring_put [of "in_buf s" "in_e s" "in_w s" c] d lt' ring_128 l(2) by simp
  moreover have "segment ((in_buf s)[unat (in_e s) mod 128 := c]) (in_r s) (in_w s) = ready"
    using ring_put_other [of "in_buf s" "in_w s" "in_r s" "in_e s" c] d lt e ring_128 l(1) by simp
  ultimately show ?thesis
    using assms(1,3) lt lt' ring_step [OF lt] ring_step [OF lt'] by (simp add: in_st_def input_index)
qed

lemma in_st_commit:
  assumes d: "length (in_buf s) = 128" "unat (in_e s - in_r s) < 128" and e: "unat (in_e s - in_r s) = unat (in_w s - in_r s) + unat (in_e s - in_w s)"
    and k: "kst H s" and l: "ready = segment (in_buf s) (in_r s) (in_w s)" "line = segment (in_buf s) (in_w s) (in_e s)"
  shows "in_st H (s\<lparr>in_buf := (in_buf s)[unat (in_e s mod INPUT_BUF) := c], in_e := in_e s + 1, in_w := in_e s + 1\<rparr>)
    (ready @ line @ [c]) []"
proof -
  have "segment (in_buf s) (in_r s) (in_e s) = ready @ line"
    using ring_append [of "in_buf s" "in_e s" "in_r s" "in_w s"] d(1) e l ring_128 by simp
  then have "segment ((in_buf s)[unat (in_e s) mod 128 := c]) (in_r s) (in_e s + 1) = ready @ line @ [c]"
    using ring_put [of "in_buf s" "in_e s" "in_r s" c] d ring_128 by simp
  then show ?thesis using k d ring_step [OF d(2)] by (simp add: in_st_def input_index)
qed

lemma in_stD:
  assumes "in_st H s ready line"
  shows "kst H s" "length (in_buf s) = 128" "unat (in_e s - in_r s) = unat (in_w s - in_r s) + unat (in_e s - in_w s)"
    "ready = segment (in_buf s) (in_r s) (in_w s)" "line = segment (in_buf s) (in_w s) (in_e s)" "0x0A \<notin> set line"
  using assms unfolding in_st_def by blast+

text \<open>What the editor leaves alone.\<close>

definition in_frame :: "'z kcin_scheme \<Rightarrow> 'z kcin_scheme \<Rightarrow> bool" where
  "in_frame s t \<longleftrightarrow> uart t = uart s \<and> kbd_shift t = kbd_shift s \<and> kbd_port t = kbd_port s \<and> uart_port t = uart_port s"

lemma in_frame_step: "kstep s t \<Longrightarrow> in_frame s t"
  using kstep_cin [of s t] by (simp add: in_frame_def)

lemma in_frame_trans: "in_frame s t \<Longrightarrow> in_frame t u \<Longrightarrow> in_frame s u"
  by (simp add: in_frame_def)

lemma in_frame_upd [simp]: "in_frame s s" "in_frame s (s\<lparr>in_e := e\<rparr>)" "in_frame s (s\<lparr>in_w := e\<rparr>)" "in_frame s (s\<lparr>in_buf := d\<rparr>)"
  "in_frame s (s\<lparr>in_buf := d, in_e := e\<rparr>)" "in_frame s (s\<lparr>in_buf := d, in_e := e, in_w := w\<rparr>)"
  by (simp_all add: in_frame_def)

lemma wp_echo:
  assumes "in_st H s ready line" and "\<And>t. in_st H t ready line \<Longrightarrow> in_frame s t \<Longrightarrow> kstep s t \<Longrightarrow> R () t"
  shows "wp (consputc c) R s"
  by (rule wp_consputc_k [OF in_stD(1) [OF assms(1)]]) (use assms in_st_step [OF assms(1)] in_frame_step in blast)

lemma wp_kill_line:
  assumes "in_st H s ready line" and "\<And>t. in_st H t ready [] \<Longrightarrow> in_frame s t \<Longrightarrow> R () t" and "length line < n"
  shows "wp (kill_line n) R s"
  using assms
proof (induction n arbitrary: s line)
  case (Suc n)
  note L = in_st_lengths [OF Suc.prems(1)]
  show ?case
  proof (cases "line = []")
    case True
    then have "R () s" using Suc.prems(1,2) by simp
    then show ?thesis using True L(5) by (simp add: wp_rules in_get_def)
  next
    case False
    note e = in_st_erase [OF Suc.prems(1) False]
    have "last line \<noteq> 0x0A" using in_stD(6) [OF Suc.prems(1)] False last_in_set by metis
    moreover have "wp (consputc BACKSPACE) (\<lambda>_. wp (kill_line n) R) (s\<lparr>in_e := in_e s - 1\<rparr>)"
    proof (rule wp_echo [OF e(1)])
      fix t assume t: "in_st H t ready (butlast line)" "in_frame (s\<lparr>in_e := in_e s - 1\<rparr>) t"
      show "wp (kill_line n) R t"
      proof (rule Suc.IH [OF t(1)])
        fix u assume "in_st H u ready []" "in_frame t u"
        then show "R () u" using t(2) by (intro Suc.prems(2)) (simp_all add: in_frame_def)
      qed (use Suc.prems(3) False in \<open>cases line rule: rev_cases; simp\<close>)
    qed
    ultimately show ?thesis using False L(5) e(2) by (simp add: wp_rules in_get_def)
  qed
qed simp

lemma word_char: "0 \<le> c \<Longrightarrow> c < 256 \<Longrightarrow> (word_of_int c :: uchar) = 0x0A \<longleftrightarrow> c = 10"
proof -
  assume c: "0 \<le> c" "c < 256"
  have "(word_of_int c :: uchar) = 0x0A \<longleftrightarrow> uint (word_of_int c :: uchar) = uint (0x0A :: uchar)" by (simp only: word_uint_eq_iff)
  also have "uint (word_of_int c :: uchar) = c" using c by (simp add: unsigned_of_int take_bit_int_eq_self)
  finally show ?thesis by simp
qed

lemma wp_store_char:
  assumes s: "in_st H s ready line" and P: "PtableLock \<notin> H" and c: "0 \<le> c" "c < 256" "c \<notin> {16, 21, 8, 127}"
    and K: "\<And>t. in_st H t (fst (edit (ready, line) c)) (snd (edit (ready, line) c)) \<Longrightarrow> in_frame s t \<Longrightarrow> R () t"
  shows "wp (store_char c) R s"
proof (cases "c \<noteq> 0 \<and> length ready + length line < 128")
  case False
  then have "edit (ready, line) c = (ready, line)" using c(3) by auto
  then have "R () s" using K [of s] s by simp
  then show ?thesis using False in_st_lengths(3) [OF s] by (auto simp: store_char_def wp_rules)
next
  case True
  note D = in_stD [OF s] and L = in_st_lengths [OF s]
  define d where "d = (if c = 13 then 10 else c)"
  define full where "full \<longleftrightarrow> length ready + length line + 1 = 128"
  let ?s = "s\<lparr>in_buf := (in_buf s)[unat (in_e s mod INPUT_BUF) := word_of_int d], in_e := in_e s + 1\<rparr>"
  have lt: "unat (in_e s - in_r s) < 128" using D(3) L(1,2) True by simp
  have fl: "in_e s + 1 = in_r s + INPUT_BUF \<longleftrightarrow> full"
  proof -
    have "in_e s + 1 = in_r s + INPUT_BUF \<longleftrightarrow> in_e s + 1 - in_r s = INPUT_BUF" by (auto simp: algebra_simps)
    also have "\<dots> \<longleftrightarrow> unat (in_e s + 1 - in_r s) = unat INPUT_BUF" by (simp only: word_unat_eq_iff)
    finally show ?thesis unfolding ring_step [OF lt, simplified] D(3) full_def L(1,2) by (simp add: INPUT_BUF_def)
  qed
  have ed: "edit (ready, line) c = (if d = 10 \<or> d = 4 \<or> full then (ready @ line @ [word_of_int d], []) else (ready, line @ [word_of_int d]))"
    using True c(3) by (simp add: d_def full_def Let_def)
  have commit: "in_st H (?s\<lparr>in_w := in_e s + 1\<rparr>) (ready @ line @ [word_of_int d]) []"
    by (rule in_st_commit [OF D(2) lt D(3) D(1) D(4,5)])
  have "wp (consputc (nat d)) (\<lambda>_. wp (gets in_e) (\<lambda>e. wp (gets in_r) (\<lambda>r. wp (whenever (d = 10 \<or> d = 4 \<or> e = r + INPUT_BUF)
      (andthen (upd (\<lambda>s. s\<lparr>in_w := in_e s\<rparr>)) (wakeup InputChan))) R))) ?s"
  proof (rule wp_consputc_k)
    fix t assume t: "kstep ?s t" "kst H t"
    note f = kstep_cin [OF t(1)]
    have e: "in_e t = in_e s + 1" "in_r t = in_r s" using f by simp_all
    have fr: "in_frame s t" using in_frame_step [OF t(1)] by (simp add: in_frame_def)
    show "wp (gets in_e) (\<lambda>e. wp (gets in_r) (\<lambda>r. wp (whenever (d = 10 \<or> d = 4 \<or> e = r + INPUT_BUF)
      (andthen (upd (\<lambda>s. s\<lparr>in_w := in_e s\<rparr>)) (wakeup InputChan))) R)) t"
    proof (cases "d = 10 \<or> d = 4 \<or> full")
      case True
      have "in_st H (t\<lparr>in_w := in_e s + 1\<rparr>) (ready @ line @ [word_of_int d]) []"
        using commit t(2) f by (simp add: in_st_def)
      moreover have "wp (wakeup InputChan) R (t\<lparr>in_w := in_e s + 1\<rparr>)"
      proof (rule wp_wakeup_k [where H = H])
        fix u assume u: "kstep (t\<lparr>in_w := in_e s + 1\<rparr>) u" "kst H u"
        have "in_frame s u" using fr in_frame_step [OF u(1)] by (simp add: in_frame_def)
        then show "R () u" using in_st_step [OF calculation u] ed True by (intro K) simp_all
      qed (use t P in simp_all)
      ultimately show ?thesis using True fl e by (simp add: wp_rules)
    next
      case False
      have "word_of_int d \<noteq> (0x0A :: uchar)" using False word_char [of d] c by (auto simp: d_def)
      then have "in_st H ?s ready (line @ [word_of_int d])" using in_st_store [OF s] \<open>c \<noteq> 0 \<and> _\<close> by simp
      then have "R () t" using in_st_step [OF _ t] fr False ed by (intro K) simp_all
      then show ?thesis using False fl e by (simp add: wp_rules)
    qed
  qed (use D(1) in simp)
  then show ?thesis using True L(3) by (simp add: store_char_def wp_bnd wp_andthen wp_gets wp_upd in_put_def d_def [symmetric] Let_def)
qed

lemma wp_consoleintr_char:
  assumes s: "in_st H s ready line" and P: "PtableLock \<notin> H" "ConsLock \<notin> H" and c: "0 \<le> c" "c < 256"
    and K: "\<And>t. in_st H t (fst (edit (ready, line) c)) (snd (edit (ready, line) c)) \<Longrightarrow> in_frame s t \<Longrightarrow> R () t"
  shows "wp (consoleintr_char c) R s"
proof -
  consider "c = 16" | "c = 21" | "c = 8 \<or> c = 127" | "c \<notin> {16, 21, 8, 127}" by blast
  then show ?thesis
  proof cases
    case 1
    have "wp procdump R s"
      by (rule wp_procdump [OF in_stD(1) [OF s] P(2)]) (use 1 in \<open>auto intro!: K in_st_step [OF s] in_frame_step\<close>)
    then show ?thesis using 1 by (simp add: consoleintr_char_def)
  next
    case 2
    have "wp (kill_line (length line + 1)) R s" by (rule wp_kill_line [OF s]) (use 2 K in auto)
    then show ?thesis using 2 in_st_lengths(2) [OF s] by (simp add: consoleintr_char_def wp_rules del: kill_line.simps)
  next
    case 3
    then have ed: "edit (ready, line) c = (ready, butlast line)" by auto
    have "wp erase_char R s"
    proof (cases "line = []")
      case True
      then have "R () s" using K [of s] s ed by simp
      then show ?thesis using True in_st_lengths(5) [OF s] by (simp add: erase_char_def wp_rules)
    next
      case False
      have "wp (consputc BACKSPACE) R (s\<lparr>in_e := in_e s - 1\<rparr>)"
        by (rule wp_echo [OF in_st_erase(1) [OF s False]]) (use K ed in \<open>simp add: in_frame_def\<close>)
      then show ?thesis using False in_st_lengths(5) [OF s] by (simp add: erase_char_def wp_rules)
    qed
    then show ?thesis using 3 by (auto simp: consoleintr_char_def)
  next
    case 4
    have "wp (store_char c) R s" by (rule wp_store_char [OF s P(1) c 4]) (rule K)
    then show ?thesis using 4 by (simp add: consoleintr_char_def)
  qed
qed

section \<open>Sources of characters\<close>

text \<open>
  What \<open>consoleintr\<close> relies on in its argument \<open>getc\<close>: it returns the characters that are waiting, one by one, and -1
  when there are no more, and touches nothing but its device.
\<close>

definition device_frame :: "'z kcin_scheme \<Rightarrow> 'z kcin_scheme \<Rightarrow> bool" where
  "device_frame s t \<longleftrightarrow> t = s\<lparr>kbd_shift := kbd_shift t, kbd_port := kbd_port t, uart_port := uart_port t\<rparr>"

lemma device_frame_st:
  assumes "device_frame s t"
  shows "in_st H t ready line = in_st H s ready line"
proof -
  define a b c where "a = kbd_shift t" and "b = kbd_port t" and "c = uart_port t"
  have t: "t = s\<lparr>kbd_shift := a, kbd_port := b, uart_port := c\<rparr>" using assms by (simp add: device_frame_def a_def b_def c_def)
  show ?thesis by (simp add: t in_st_def)
qed

locale char_source =
  fixes getc :: "('z kcin_scheme, int) kop" and chars :: "'z kcin_scheme \<Rightarrow> int list"
  assumes getc_end: "chars s = [] \<Longrightarrow> getc s = Done (-1) s"
    and getc_char: "chars s = c # cs \<Longrightarrow> \<exists>t. getc s = Done c t \<and> chars t = cs \<and> device_frame s t"
    and char_range: "c \<in> set (chars s) \<Longrightarrow> 0 \<le> c \<and> c < 256"
    and chars_frame: "in_frame s t \<Longrightarrow> chars t = chars s"
begin

lemma loop_edits:
  assumes "in_st {InputLock} s ready line" and "length (chars s) < n"
    and "\<And>t. in_st {InputLock} t (fst (foldl edit (ready, line) (chars s))) (snd (foldl edit (ready, line) (chars s))) \<Longrightarrow>
      chars t = [] \<Longrightarrow> R () t"
  shows "wp (consoleintr_loop n getc) R s"
  using assms
proof (induction n arbitrary: s ready line)
  case (Suc n)
  show ?case
  proof (cases "chars s")
    case Nil
    then have "R () s" using Suc.prems(1,3) by simp
    then show ?thesis using getc_end [OF Nil] by (simp add: wp_rules wp_Done)
  next
    case (Cons c cs)
    obtain t where t: "getc s = Done c t" "chars t = cs" "device_frame s t" using getc_char [OF Cons] by blast
    have c: "0 \<le> c" "c < 256" using char_range [of c s] Cons by simp_all
    obtain r l where rl: "edit (ready, line) c = (r, l)" by (cases "edit (ready, line) c")
    have st: "in_st {InputLock} t ready line" using Suc.prems(1) device_frame_st [OF t(3)] by simp
    have "wp (consoleintr_char c) (\<lambda>_. wp (consoleintr_loop n getc) R) t"
    proof (rule wp_consoleintr_char [OF st])
      fix u assume "in_st {InputLock} u (fst (edit (ready, line) c)) (snd (edit (ready, line) c))" and "in_frame t u"
      then have u: "in_st {InputLock} u r l" "chars u = cs" using rl t(2) chars_frame [of t u] by simp_all
      show "wp (consoleintr_loop n getc) R u"
        by (rule Suc.IH [OF u(1)]) (use Suc.prems(2,3) u(2) Cons rl in simp_all)
    qed (use c in simp_all)
    then show ?thesis using t(1) c(1) by (simp add: wp_rules wp_Done)
  qed
qed simp

lemma intr_edits:
  assumes "in_st {} s ready line" and "length (chars s) < n"
  shows "wp (consoleintr n getc) (\<lambda>_ t. in_st {} t (fst (foldl edit (ready, line) (chars s))) (snd (foldl edit (ready, line) (chars s))) \<and>
    chars t = []) s"
  unfolding consoleintr_def wp_andthen
proof (rule wp_acquire_k [OF in_stD(1) [OF assms(1)]], simp)
  let ?r = "foldl edit (ready, line) (chars s)"
  fix t assume t: "kstep s t" "kst {InputLock} t"
  have c: "chars t = chars s" by (rule chars_frame [OF in_frame_step [OF t(1)]])
  show "wp (consoleintr_loop n getc) (\<lambda>_. wp (release InputLock) (\<lambda>_ t. in_st {} t (fst ?r) (snd ?r) \<and> chars t = [])) t"
  proof (rule loop_edits [OF in_st_step [OF assms(1) t]], unfold c)
    fix u assume u: "in_st {InputLock} u (fst ?r) (snd ?r)" "chars u = []"
    show "wp (release InputLock) (\<lambda>_ t. in_st {} t (fst ?r) (snd ?r) \<and> chars t = []) u"
      by (rule wp_release_k [OF in_stD(1) [OF u(1)]])
        (use in_st_step [OF u(1)] u(2) chars_frame [OF in_frame_step] in auto)
  qed (rule assms(2))
qed

end

definition uart_chars :: "'z kcin_scheme \<Rightarrow> int list" where
  "uart_chars s = (if uart s then map uint (uart_port s) else [])"

fun decode_all :: "uint \<Rightarrow> uchar list \<Rightarrow> int list" where
  "decode_all shift [] = []"
| "decode_all shift (d # port) = snd (kbd_decode shift (ucast d)) # decode_all (fst (kbd_decode shift (ucast d))) port"

definition kbd_chars :: "'z kcin_scheme \<Rightarrow> int list" where
  "kbd_chars s = decode_all (kbd_shift s) (kbd_port s)"

interpretation serial_line: char_source uartgetc uart_chars
proof
  fix s :: "'z kcin_scheme" and c cs
  show "uart_chars s = [] \<Longrightarrow> uartgetc s = Done (-1) s"
    by (auto simp: uart_chars_def uartgetc_def bnd_def gets_def ret_def split: if_splits)
  show "uart_chars s = c # cs \<Longrightarrow> \<exists>t. uartgetc s = Done c t \<and> uart_chars t = cs \<and> device_frame s t"
    by (cases "uart_port s") (auto simp: uart_chars_def uartgetc_def andthen_def bnd_def gets_def ret_def upd_def device_frame_def split: if_splits)
  show "c \<in> set (uart_chars s) \<Longrightarrow> 0 \<le> c \<and> c < 256"
    using uint_lt2p [where 'a = 8] by (auto simp: uart_chars_def split: if_splits)
qed (simp add: uart_chars_def in_frame_def)

interpretation keyboard: char_source kbd_getc kbd_chars
proof
  fix s t :: "'z kcin_scheme" and c cs
  show "kbd_chars s = [] \<Longrightarrow> kbd_getc s = Done (-1) s"
    by (cases "kbd_port s") (simp_all add: kbd_chars_def kbd_getc_def kbdgetc_def andthen_def bnd_def gets_def ret_def upd_def)
  show "kbd_chars s = c # cs \<Longrightarrow> \<exists>t. kbd_getc s = Done c t \<and> kbd_chars t = cs \<and> device_frame s t"
    by (cases "kbd_port s") (auto simp: kbd_chars_def kbd_getc_def kbdgetc_def andthen_def bnd_def gets_def ret_def upd_def
        device_frame_def split: prod.splits)
  have "\<forall>c \<in> set (decode_all shift port). 0 \<le> c \<and> c < 256" for shift port
    using kbd_decode_range by (induction port arbitrary: shift) simp_all
  then show "c \<in> set (kbd_chars s) \<Longrightarrow> 0 \<le> c \<and> c < 256" by (simp add: kbd_chars_def)
qed (simp add: kbd_chars_def in_frame_def)

section \<open>Reading a line\<close>

text \<open>The bytes a reader of up to \<open>n\<close> gets and those it leaves; None when it has to wait.\<close>

fun take_line :: "nat \<Rightarrow> uchar list \<Rightarrow> uchar list \<Rightarrow> (uchar list \<times> uchar list) option" where
  "take_line 0 acc ready = Some (acc, ready)"
| "take_line (Suc n) acc [] = None"
| "take_line (Suc n) acc (c # cs) =
     (if c = 4 then Some (acc, if acc = [] then cs else c # cs)
      else if c = 0x0A then Some (acc @ [c], cs)
      else take_line n (acc @ [c]) cs)"

lemma in_st_take:
  assumes "in_st H s (c # cs) line"
  shows "in_st H (s\<lparr>in_r := in_r s + 1\<rparr>) cs line" "in_buf s ! unat (in_r s mod INPUT_BUF) = c" "in_r s \<noteq> in_w s"
proof -
  note D = in_stD [OF assms]
  show ne: "in_r s \<noteq> in_w s" using in_st_lengths(6) [OF assms] by simp
  have t: "c # cs = in_buf s ! (unat (in_r s) mod 128) # segment (in_buf s) (in_r s + 1) (in_w s)"
    using ring_take [of "in_buf s", OF _ ne] D(2,4) ring_128 by simp
  then show "in_buf s ! unat (in_r s mod INPUT_BUF) = c" by (simp add: input_index)
  have w: "unat (in_w s - in_r s) \<noteq> 0" using ne by (simp add: unat_eq_0)
  have ner: "in_r s \<noteq> in_e s"
  proof
    assume "in_r s = in_e s"
    then show False using D(3) w by simp
  qed
  have "unat (in_e s - in_r s) \<le> 128" using assms by (simp add: in_st_def)
  then show "in_st H (s\<lparr>in_r := in_r s + 1\<rparr>) cs line"
    using t D w ring_back(2) [OF ne] ring_back(2) [OF ner] by (simp add: in_st_def)
qed

definition reader :: "nat \<Rightarrow> 'z kproc_scheme \<Rightarrow> bool" where
  "reader r s \<longleftrightarrow> running r s \<and> \<not> p_killed (pt_proc s ! r)"

lemma reader_upd [simp]: "reader r (s\<lparr>in_r := x\<rparr>) = reader r s"
  by (simp add: reader_def running_def)

lemma reader_step: "reader r s \<Longrightarrow> kstep s t \<Longrightarrow> reader r t"
  using kstep_running [of s t r] kstep_proc(5) [of s t r] by (simp add: reader_def)

lemma consoleread_loop_takes:
  fixes s :: "'z kfs_scheme"
  assumes "in_st {InputLock} s ready line" and "reader r s"
    and "\<And>bs rest t. take_line n acc ready = Some (bs, rest) \<Longrightarrow> in_st {InputLock} t rest line \<Longrightarrow> reader r t \<Longrightarrow>
      (\<exists>x. t = s\<lparr>in_r := x\<rparr>) \<Longrightarrow> Q (int (length bs), bs) t"
    and "\<And>t. take_line n acc ready = None \<Longrightarrow> R t"
  shows "wpa (consoleread_loop n acc) Q R s"
  using assms
proof (induction n acc ready arbitrary: s rule: take_line.induct)
  case (1 acc ready)
  have "Q (int (length acc), acc) s" by (rule 1(3) [of acc ready]) (rule take_line.simps 1(1,2) exI [of _ "in_r s"] | simp)+
  then show ?case by (simp add: wpa_rules)
next
  case (2 n acc)
  have r: "running r s" "\<not> p_killed (pt_proc s ! r)" "r < NPROC" using 2(2) by (simp_all add: reader_def running_def)
  have "wp myproc (\<lambda>p. wpa (bnd (pget p) (\<lambda>q. if p_killed q then ret (-1, acc) else sleep InputChan (Some InputLock))) Q R) s"
    unfolding wp_myproc [OF r(1)] wpa_bnd
  proof (rule wpa_wp)
    have "wpa (sleep InputChan (Some InputLock)) Q R s"
      by (rule wpa_sleep_k [OF in_stD(1) [OF 2(1)] r(1)]) (rule 2(4), rule take_line.simps)
    then show "wp (pget r) (\<lambda>q. wpa (if p_killed q then ret (-1, acc) else sleep InputChan (Some InputLock)) Q R) s"
      using r(2) by (simp add: wp_pget_k [OF in_stD(1) [OF 2(1)] r(3)])
  qed
  from wpa_wp [OF this, of R] show ?case using in_st_lengths(6) [OF 2(1)] by (simp add: wpa_rules)
next
  case (3 n acc c cs)
  note t = in_st_take [OF 3(2)]
  let ?t = "s\<lparr>in_r := in_r s + 1\<rparr>"
  have stay: "Q (int (length bs), bs) s" if "take_line (Suc n) acc (c # cs) = Some (bs, c # cs)" for bs
    by (rule 3(4) [OF that 3(2,3)]) (rule exI [of _ "in_r s"], simp)
  have fwd: "Q (int (length bs), bs) ?t" if "take_line (Suc n) acc (c # cs) = Some (bs, cs)" for bs
    by (rule 3(4) [OF that t(1)]) (use 3(3) in simp, blast)
  consider "c = 4" | "c = 0x0A" | "c \<noteq> 4" "c \<noteq> 0x0A" by blast
  then show ?case
  proof cases
    case 1
    then show ?thesis using t(2,3) stay fwd by (cases "acc = []") (simp_all add: wpa_rules in_get_def)
  next
    case 2
    then show ?thesis using t(2,3) fwd [of "acc @ [c]"] by (simp add: wpa_rules in_get_def)
  next
    case c: 3
    have "wpa (consoleread_loop n (acc @ [c])) Q R ?t"
    proof (rule 3(1) [OF c t(1)])
      fix bs rest u assume u: "take_line n (acc @ [c]) cs = Some (bs, rest)" "in_st {InputLock} u rest line" "reader r u" "\<exists>x. u = ?t\<lparr>in_r := x\<rparr>"
      then have "\<exists>x. u = s\<lparr>in_r := x\<rparr>" by auto
      then show "Q (int (length bs), bs) u" using u c by (intro 3(4)) simp_all
    qed (use 3(3,5) c in simp_all)
    then show ?thesis using c t by (simp add: wpa_rules in_get_def)
  qed
qed

text \<open>The inode of the console, as \<open>readi\<close> has locked it.\<close>

definition locked_inode :: "nat \<Rightarrow> 'z kfs_scheme \<Rightarrow> bool" where
  "locked_inode ip s \<longleftrightarrow> ip < length (icache s) \<and> i_busy (icache s ! ip) \<and> 1 \<le> i_ref (icache s ! ip) \<and> i_valid (icache s ! ip)"

lemma kst_icache [simp]:
  "kst H (s\<lparr>icache := x\<rparr>) = kst H s" "in_st H (s\<lparr>icache := x\<rparr>) r l = in_st H s r l" "reader p (s\<lparr>icache := x\<rparr>) = reader p s"
proof -
  show "kst H (s\<lparr>icache := x\<rparr>) = kst H s" by (rule kst_eqI; simp)
  then show "in_st H (s\<lparr>icache := x\<rparr>) r l = in_st H s r l" by (simp add: in_st_def)
  show "reader p (s\<lparr>icache := x\<rparr>) = reader p s" by (simp add: reader_def running_def)
qed

lemma wp_iunlock:
  assumes s: "in_st {} s ready line" "reader r s" "locked_inode ip s"
    and K: "\<And>t. in_st {} t ready line \<Longrightarrow> reader r t \<Longrightarrow> icache t = (icache s)[ip := (icache s ! ip)\<lparr>i_busy := False\<rparr>] \<Longrightarrow> R () t"
  shows "wp (iunlock ip) R s"
proof -
  have "wp (acquire IcacheLock) (\<lambda>_. wp (inode_set ip (\<lambda>r. r\<lparr>i_busy := False\<rparr>)) (\<lambda>_. wp (wakeup (InodeChan ip)) (\<lambda>_. wp (release IcacheLock) R))) s"
  proof (rule wp_acquire_k [OF in_stD(1) [OF s(1)]], simp)
    fix t assume t: "kstep s t" "kst {IcacheLock} t"
    let ?t = "t\<lparr>icache := (icache s)[ip := (icache s ! ip)\<lparr>i_busy := False\<rparr>]\<rparr>"
    have "wp (wakeup (InodeChan ip)) (\<lambda>_. wp (release IcacheLock) R) ?t"
    proof (rule wp_wakeup_k [where H = "{IcacheLock}"])
      fix u assume u: "kstep ?t u" "kst {IcacheLock} u"
      show "wp (release IcacheLock) R u"
      proof (rule wp_release_k [OF u(2)], simp)
        fix v assume v: "kstep u v" "kst {} v"
        have "in_st {IcacheLock} ?t ready line" "reader r ?t" using in_st_step [OF s(1) t] reader_step [OF s(2) t(1)] by simp_all
        then have "in_st {} v ready line" "reader r v"
          using in_st_step [OF in_st_step [OF _ u] v] reader_step [OF reader_step [OF _ u(1)] v(1)] by blast+
        then show "R () v" using kstep_icache [OF v(1)] kstep_icache [OF u(1)] by (intro K) simp_all
      qed
    qed (use t in simp_all)
    then show "wp (inode_set ip (\<lambda>r. r\<lparr>i_busy := False\<rparr>)) (\<lambda>_. wp (wakeup (InodeChan ip)) (\<lambda>_. wp (release IcacheLock) R)) t"
      using s(3) kstep_icache [OF t(1)] by (simp add: wp_inode_set locked_inode_def)
  qed
  then show ?thesis using s(3) by (simp add: iunlock_def wp_inode_get wp_bnd wp_andthen locked_inode_def)
qed

lemma wp_ilock_cached:
  assumes s: "in_st {} s ready line" "reader r s" "ip < length (icache s)" "\<not> i_busy (icache s ! ip)" "1 \<le> i_ref (icache s ! ip)"
      "i_valid (icache s ! ip)"
    and K: "\<And>t. in_st {} t ready line \<Longrightarrow> reader r t \<Longrightarrow> icache t = (icache s)[ip := (icache s ! ip)\<lparr>i_busy := True\<rparr>] \<Longrightarrow> R () t"
  shows "wp (ilock ip) R s"
proof -
  have "wp (acquire IcacheLock) (\<lambda>_. wp (ilock_wait ip) R) s"
  proof (rule wp_acquire_k [OF in_stD(1) [OF s(1)]], simp)
    fix t assume t: "kstep s t" "kst {IcacheLock} t"
    let ?t = "t\<lparr>icache := (icache s)[ip := (icache s ! ip)\<lparr>i_busy := True\<rparr>]\<rparr>"
    have "wp (release IcacheLock) (\<lambda>_. wp (inode_get ip) (\<lambda>r. wp (if i_valid r then ret () else f r) R)) ?t" for f
    proof (rule wp_release_k [where H = "{}"])
      fix u assume u: "kstep ?t u" "kst {} u"
      have "in_st {IcacheLock} ?t ready line" "reader r ?t" using in_st_step [OF s(1) t] reader_step [OF s(2) t(1)] by simp_all
      then have "in_st {} u ready line" "reader r u" using in_st_step [OF _ u] reader_step [OF _ u(1)] by blast+
      then have "R () u" using kstep_icache [OF u(1)] by (intro K) simp_all
      then show "wp (inode_get ip) (\<lambda>r. wp (if i_valid r then ret () else f r) R) u"
        using s(3,6) kstep_icache [OF u(1)] by (simp add: wp_inode_get wp_ret)
    qed (use t in simp_all)
    then show "wp (ilock_wait ip) R t"
      unfolding ilock_wait_def wp_bnd wp_andthen using s(3,4) kstep_icache [OF t(1)]
      by (simp add: wp_inode_get wp_inode_set wp_andthen wp_bnd)
  qed
  then show ?thesis using s(3,5) by (simp add: ilock_def wp_inode_get wp_bnd wp_andthen)
qed

lemma consoleread_takes:
  fixes s :: "'z kfs_scheme"
  assumes s: "in_st {} s ready line" "reader r s" "locked_inode ip s"
  shows "wpa (consoleread ip n) (\<lambda>(m, bs) t. m = int (length bs) \<and> locked_inode ip t \<and>
      (\<exists>rest. take_line (nat n) [] ready = Some (bs, rest) \<and> in_st {} t rest line))
    (\<lambda>t. take_line (nat n) [] ready = None) s" (is "wpa _ ?Q ?R s")
  unfolding consoleread_def wpa_andthen wpa_bnd
proof (rule wpa_wp, rule wp_iunlock [OF s])
  let ?i = "(icache s)[ip := (icache s ! ip)\<lparr>i_busy := False\<rparr>]"
  fix t :: "'z kfs_scheme" assume t: "in_st {} t ready line" "reader r t" "icache t = ?i"
  show "wpa (acquire InputLock) (\<lambda>_. wpa (consoleread_loop (nat n) []) (\<lambda>a. wpa (consoleread_end ip a) ?Q ?R) ?R) ?R t"
  proof (rule wpa_wp, rule wp_acquire_k [OF in_stD(1) [OF t(1)]], simp)
    fix u :: "'z kfs_scheme" assume u: "kstep t u" "kst {InputLock} u"
    show "wpa (consoleread_loop (nat n) []) (\<lambda>a. wpa (consoleread_end ip a) ?Q ?R) ?R u"
    proof (rule consoleread_loop_takes [OF in_st_step [OF t(1) u] reader_step [OF t(2) u(1)]])
      fix bs rest and v :: "'z kfs_scheme" assume v: "take_line (nat n) [] ready = Some (bs, rest)" "in_st {InputLock} v rest line" "reader r v" "\<exists>x. v = u\<lparr>in_r := x\<rparr>"
      then have iv: "icache v = ?i" using t(3) kstep_icache [OF u(1)] by auto
      show "wpa (consoleread_end ip (int (length bs), bs)) ?Q ?R v"
        unfolding consoleread_end_def
      proof (rule wpa_wp, unfold wp_andthen wp_ret, rule wp_release_k [OF in_stD(1) [OF v(2)]], simp)
        fix w :: "'z kfs_scheme" assume w: "kstep v w" "kst {} w"
        note st = in_st_step [OF v(2) w] reader_step [OF v(3) w(1)]
        have iw: "icache w = ?i" using iv kstep_icache [OF w(1)] by simp
        show "wp (ilock ip) (\<lambda>_. ?Q (int (length bs), bs)) w"
          by (rule wp_ilock_cached [OF st]) (use s(3) iw v(1) in \<open>auto simp: locked_inode_def\<close>)
      qed
    qed
  qed
qed

section \<open>Examples of the input buffer\<close>

definition demo_typing :: kcin where
  "demo_typing = demo_cin\<lparr>in_r := -1, in_w := -1, in_e := -1, uart := True,
     uart_port := [0x6C, 0x78, 0x08, 0x73, 0x0D, 0x70], kbd_port := [0x2A, 0x1E, 0xAA, 0x30, 0x1C, 0x9C]\<rparr>"

lemma demo_typing_st: "in_st {} demo_typing [] []"
proof -
  have "kst {} demo_typing" unfolding demo_typing_def
    using demo_kst(1) by (subst kst_eqI [of _ demo_cin]) simp_all
  then show ?thesis by (simp add: in_st_def demo_typing_def demo_cin_def klog.defs)
qed

lemmas kbd_eval = kbd_decode_def Let_def charcode_def shiftcode_def togglecode_def normalmap_def shiftmap_def table_def
  CTL_def SHIFT_def E0ESC_def CAPSLOCK_def

lemma demo_codes:
  "kbd_decode 0 0x2A = (1, 0)" "kbd_decode 1 0x1E = (1, 0x41)" "kbd_decode 1 0xAA = (0, 0)" "kbd_decode 0 0x30 = (0, 0x62)"
  "kbd_decode 0 0x1C = (0, 10)" "kbd_decode 0 0x9C = (0, 0)"
  by (simp_all add: kbd_eval)

lemma demo_chars: "uart_chars demo_typing = [0x6C, 0x78, 8, 0x73, 13, 0x70]" "kbd_chars demo_typing = [0, 0x41, 0, 0x62, 10, 0]"
  by (simp_all add: demo_typing_def uart_chars_def kbd_chars_def demo_cin_def klog.defs demo_codes)

definition demo_reading :: kfs where
  "demo_reading = demo_fs\<lparr>in_buf := [0x73, 0x0A, 0x70] @ replicate 124 0 @ [0x6C], in_r := 0xFFFFFFFF, in_w := 3, in_e := 3,
     icache := (icache demo_fs)[7 := free_inode\<lparr>i_ref := 1, i_busy := True, i_valid := True, i_type := T_DEV, i_major := 1\<rparr>]\<rparr>"

lemma demo_reading_st: "in_st {} demo_reading [0x6C, 0x73, 0x0A, 0x70] []" "reader 2 demo_reading" "locked_inode 7 demo_reading"
proof -
  have "kst {} demo_reading" unfolding demo_reading_def
    using demo_kst(2) by (subst kst_eqI [of _ demo_fs]) simp_all
  then show "in_st {} demo_reading [0x6C, 0x73, 0x0A, 0x70] []"
    by (simp add: in_st_def demo_reading_def segment_def upt_rec nth_Cons' nth_append)
  show "reader 2 demo_reading"
    using demo_running(3) demo_table_running(2) demo_cpu
    by (simp add: reader_def running_def demo_reading_def demo_fs_def kcin.defs runner_def init_proc_def no_proc_def)
  show "locked_inode 7 demo_reading"
    by (simp add: locked_inode_def demo_reading_def demo_fs_def kcin.defs)
qed

section \<open>Properties\<close>

text \<open>
  C11. The console's interrupt handlers edit a line. From any consistent state of the input buffer \<open>uartintr\<close> and
  \<open>kbdintr\<close> return and leave the buffer as the editor \<open>edit\<close> leaves it on the characters that were waiting at the
  serial line or that the waiting scan codes decode to, one after the other: control-U drops the line, backspace and
  delete its last character, and a newline, control-D or the 128th character hands the line to the readers;
  characters that do not fit are dropped, wherever the 32-bit indices stand.
\<close>

theorem console_input_edits:
  assumes "in_st {} s ready line"
  shows "(\<exists>t. uartintr s = Done () t \<and> uart_chars t = [] \<and>
      in_st {} t (fst (foldl edit (ready, line) (uart_chars s))) (snd (foldl edit (ready, line) (uart_chars s)))) \<and>
    (\<exists>t. kbdintr s = Done () t \<and> kbd_chars t = [] \<and>
      in_st {} t (fst (foldl edit (ready, line) (kbd_chars s))) (snd (foldl edit (ready, line) (kbd_chars s))))"
proof -
  have u: "length (uart_chars s) < length (uart_port s) + 1" by (simp add: uart_chars_def)
  have "length (decode_all shift port) = length port" for shift port by (induction port arbitrary: shift) simp_all
  then have k: "length (kbd_chars s) < length (kbd_port s) + 1" by (simp add: kbd_chars_def)
  show ?thesis
    using serial_line.intr_edits [OF assms u] keyboard.intr_edits [OF assms k]
    unfolding wp_iff_Done uartintr_def kbdintr_def bnd_def gets_def by auto
qed

lemma console_input_edits_witness:
  "(\<exists>t. uartintr demo_typing = Done () t \<and> in_st {} t [0x6C, 0x73, 0x0A] [0x70]) \<and>
   (\<exists>t. kbdintr demo_typing = Done () t \<and> in_st {} t [0x41, 0x62, 0x0A] [])"
  using console_input_edits [OF demo_typing_st] by (auto simp: demo_chars)

text \<open>
  C12. \<open>consoleread\<close> gives a reader whole lines. Called with the console's inode locked by a process that is not
  killed, it returns the characters up to the first newline and the newline, or those before a control-D (which it
  leaves for the next call unless it came first), or the number asked for, whichever is least; it takes
  them, and nothing else, out of the buffer and returns with the inode locked again; and it goes to sleep exactly when
  what is ready ends before.
\<close>

theorem consoleread_takes_line:
  assumes "in_st {} s ready line" and "reader r s" and "locked_inode ip s"
  shows "case take_line (nat n) [] ready of
      Some (bs, rest) \<Rightarrow> \<exists>t. consoleread ip n s = Done (int (length bs), bs) t \<and> in_st {} t rest line \<and> locked_inode ip t
    | None \<Rightarrow> \<exists>t. consoleread ip n s = Asleep t"
  using consoleread_takes [OF assms, of n] unfolding wpa_def by (auto split: outcome.splits option.splits)

lemma consoleread_takes_line_witness:
  "(\<exists>t. consoleread 7 80 demo_reading = Done (3, [0x6C, 0x73, 0x0A]) t \<and> in_st {} t [0x70] []) \<and>
   (\<exists>t. consoleread 7 2 demo_reading = Done (2, [0x6C, 0x73]) t \<and> in_st {} t [0x0A, 0x70] [])"
proof -
  note r = consoleread_takes_line [OF demo_reading_st]
  have "take_line (Suc (Suc (Suc m))) [] [0x6C, 0x73, 0x0A, 0x70] = Some ([0x6C, 0x73, 0x0A], [0x70])"
    "take_line (Suc (Suc 0)) [] [0x6C, 0x73, 0x0A, 0x70] = Some ([0x6C, 0x73], [0x0A, 0x70])" for m
    by simp_all
  from this(1) [of 77] this(2) have "take_line (nat 80) [] [0x6C, 0x73, 0x0A, 0x70] = Some ([0x6C, 0x73, 0x0A], [0x70])"
    "take_line (nat 2) [] [0x6C, 0x73, 0x0A, 0x70] = Some ([0x6C, 0x73], [0x0A, 0x70])"
    by (simp_all add: numeral_2_eq_2)
  then show ?thesis using r [of 80] r [of 2] by auto
qed

end
