(* ===== verification/Fs_Props.thy ===== *)
theory Fs_Props
  imports Fs_Rules Demo_State
begin

text \<open>
  The contents of files: \<open>readi\<close> and \<open>writei\<close> are the operations of an array of bytes, through the direct and the indirect
  blocks of the inode; and an inode written with \<open>iupdate\<close> is the one \<open>ilock\<close> loads.
\<close>

section \<open>The blocks of a file\<close>

definition baddr :: "(uint \<Rightarrow> uchar list) \<Rightarrow> inode \<Rightarrow> nat \<Rightarrow> uint" where
  "baddr C r bn = (if bn < NDIRECT then i_addrs r ! bn else get32 (C (i_addrs r ! NDIRECT)) (4 * (bn - NDIRECT)))"

text \<open>The first \<open>n\<close> blocks of the file are allocated, each once, outside the log and apart from the indirect block.\<close>

definition mapped :: "'z klog_scheme \<Rightarrow> (uint \<Rightarrow> uchar list) \<Rightarrow> inode \<Rightarrow> nat \<Rightarrow> bool" where
  "mapped s C r n \<longleftrightarrow> n \<le> MAXFILE \<and> (\<forall>bn < n. baddr C r bn \<noteq> 0 \<and> fs_block s (baddr C r bn)) \<and> inj_on (baddr C r) {..<n} \<and>
     (NDIRECT < n \<longrightarrow> i_addrs r ! NDIRECT \<noteq> 0 \<and> fs_block s (i_addrs r ! NDIRECT) \<and> i_addrs r ! NDIRECT \<notin> baddr C r ` {..<n})"

definition fbyte :: "(uint \<Rightarrow> uchar list) \<Rightarrow> inode \<Rightarrow> nat \<Rightarrow> uchar" where
  "fbyte C r k = C (baddr C r (k div BSIZE)) ! (k mod BSIZE)"

text \<open>The bytes of the file.\<close>

definition contents :: "(uint \<Rightarrow> uchar list) \<Rightarrow> inode \<Rightarrow> uchar list" where
  "contents C r = map (fbyte C r) [0..<unat (i_size r)]"

text \<open>The blocks the bytes from \<open>off\<close> to \<open>off + n\<close> are in.\<close>

definition touched :: "nat \<Rightarrow> nat \<Rightarrow> nat set" where
  "touched off n = (\<lambda>k. k div BSIZE) ` {off..<off + n}"

lemma mapped_lstep: "lstep s t \<Longrightarrow> mapped t C r n = mapped s C r n"
  by (simp add: mapped_def lstep_blocks)

lemma chunk_le: "chunk off n \<le> n" "off mod BSIZE + chunk off n \<le> BSIZE"
  by (simp_all add: chunk_def BSIZE_def)

lemma chunk_block:
  assumes "j < chunk off n"
  shows "(off + j) div BSIZE = off div BSIZE" "(off + j) mod BSIZE = off mod BSIZE + j"
proof -
  have j: "off mod BSIZE + j < BSIZE" using assms chunk_le(2) [of off n] by simp
  define q m where "q = off div BSIZE" and "m = off mod BSIZE"
  have e: "off + j = (m + j) + q * BSIZE" by (simp add: q_def m_def)
  have "(off + j) div BSIZE = q" "(off + j) mod BSIZE = m + j"
    unfolding e using j by (simp_all add: m_def BSIZE_def)
  then show "(off + j) div BSIZE = off div BSIZE" "(off + j) mod BSIZE = off mod BSIZE + j" by (simp_all add: q_def m_def)
qed

lemma chunk_bytes:
  assumes "length (C (baddr C r (off div BSIZE))) = BSIZE"
  shows "take (chunk off n) (drop (off mod BSIZE) (C (baddr C r (off div BSIZE)))) = map (fbyte C r) [off..<off + chunk off n]"
  using assms chunk_le(2) [of off n] by (intro nth_equalityI) (simp_all add: fbyte_def chunk_block [of _ off n])

lemma touched_chunk: "0 < n \<Longrightarrow> touched off n = insert (off div BSIZE) (touched (off + chunk off n) (n - chunk off n))"
proof -
  assume n: "0 < n"
  have s: "{off..<off + n} = {off..<off + chunk off n} \<union> {off + chunk off n..<off + n}" using chunk_le(1) [of off n] by auto
  have "(\<lambda>k. k div BSIZE) ` {off..<off + chunk off n} = {off div BSIZE}"
  proof -
    have "k div BSIZE = off div BSIZE" if "k \<in> {off..<off + chunk off n}" for k
      using chunk_block(1) [of "k - off" off n] that by (simp add: less_diff_conv2)
    moreover have "off \<in> {off..<off + chunk off n}" using chunk_positive [OF n, of off] by simp
    ultimately show ?thesis by blast
  qed
  then show ?thesis using chunk_le(1) [of off n] unfolding touched_def s image_Un by simp
qed

lemma wp_bmap:
  assumes s: "rst s C P" and ip: "ip < length (icache s)" "i_dev (icache s ! ip) = 1"
    and m: "mapped s C (icache s ! ip) n" "bn < n"
    and K: "\<And>t. rst t C P \<Longrightarrow> bstep s t \<Longrightarrow> R (baddr C (icache s ! ip) bn) t"
  shows "wp (bmap ip bn) R s"
proof (cases "bn < NDIRECT")
  case True
  then have "i_addrs (icache s ! ip) ! bn \<noteq> 0" using m by (auto simp: mapped_def baddr_def)
  then show ?thesis using True K [OF s bstep_refl] by (simp add: bmap_def wp_bnd wp_inode_get [OF ip(1)] wp_ret baddr_def)
next
  case False
  let ?r = "icache s ! ip"
  let ?i = "i_addrs ?r ! NDIRECT"
  have i: "?i \<noteq> 0" "fs_block s ?i" and b: "baddr C ?r bn \<noteq> 0" "bn - NDIRECT < NINDIRECT"
    using m False by (auto simp: mapped_def MAXFILE_def)
  have e: "baddr C ?r bn = get32 (C ?i) (4 * (bn - NDIRECT))" using False by (simp add: baddr_def)
  have "wp (bnd (bread 1 ?i) (\<lambda>bp. bnd (bufget bp) (\<lambda>q.
      bnd (if get32 (b_data q) (4 * (bn - NDIRECT)) = 0
           then bnd (balloc 1) (\<lambda>addr. andthen (bufdata bp (\<lambda>d. put32 d (4 * (bn - NDIRECT)) addr)) (andthen (log_write bp) (ret addr)))
           else ret (get32 (b_data q) (4 * (bn - NDIRECT)))) (\<lambda>addr. andthen (brelse bp) (ret addr))))) R s"
  proof (rule wp_block_read [OF s i(2), where k = "\<lambda>_. ret (baddr C ?r bn)"])
    fix c q t Q assume q: "b_data q = C ?i"
    show "wp (bnd (if get32 (b_data q) (4 * (bn - NDIRECT)) = 0
           then bnd (balloc 1) (\<lambda>addr. andthen (bufdata c (\<lambda>d. put32 d (4 * (bn - NDIRECT)) addr)) (andthen (log_write c) (ret addr)))
           else ret (get32 (b_data q) (4 * (bn - NDIRECT)))) (\<lambda>addr. andthen (brelse c) (ret addr))) Q t
      = wp (andthen (brelse c) (ret (baddr C ?r bn))) Q t"
      unfolding q e [symmetric] using b(1) by (simp add: wp_bnd wp_ret)
  qed (simp add: wp_ret K)
  then show ?thesis
    unfolding bmap_def Let_def wp_bnd wp_inode_get [OF ip(1)] ip(2) using False b(2) i(1) by (simp add: wp_bnd wp_ret)
qed

lemma wp_bmap_tst:
  assumes "tst s C P" and "ip < length (icache s)" "i_dev (icache s ! ip) = 1"
    and "mapped s C (icache s ! ip) n" "bn < n"
    and "\<And>t. tst t C P \<Longrightarrow> lstep s t \<Longrightarrow> R (baddr C (icache s ! ip) bn) t"
  shows "wp (bmap ip bn) R s"
  using assms(2-5) by (rule wp_bmap [OF tst_rst [OF assms(1)]]) (use assms(6) tst_rst_bstep [OF assms(1)] bstep_lstep in blast)

section \<open>Reading\<close>

lemma wp_readi_loop:
  assumes "rst s C P" and "ip < length (icache s)" "i_dev (icache s ! ip) = 1" and "mapped s C (icache s ! ip) m" "off + n \<le> m * BSIZE"
    and "\<And>t. rst t C P \<Longrightarrow> bstep s t \<Longrightarrow> R (map (fbyte C (icache s ! ip)) [off..<off + n]) t"
  shows "wp (readi_loop ip off n) R s"
  using assms
proof (induction ip off n arbitrary: s R rule: readi_loop.induct)
  case (1 ip off n)
  let ?r = "icache s ! ip" and ?c = "chunk off n"
  show ?case
  proof (cases "n = 0")
    case True
    then show ?thesis using "1.prems"(6) [OF "1.prems"(1) bstep_refl] by (simp add: readi_loop.simps wp_ret)
  next
    case False
    let ?a = "baddr C ?r (off div BSIZE)"
    have bn: "off div BSIZE < m"
      using "1.prems"(5) False by (simp add: less_mult_imp_div_less)
    have a: "fs_block s ?a" using "1.prems"(4) bn by (simp add: mapped_def)
    have len: "length (C ?a) = BSIZE" by (rule rst_length [OF "1.prems"(1)])
    have app: "map (fbyte C ?r) [off..<off + ?c] @ map (fbyte C ?r) [off + ?c..<off + n] = map (fbyte C ?r) [off..<off + n]"
      using upt_add_eq_append [of off "off + ?c" "n - ?c"] chunk_le(1) [of off n] by (simp flip: map_append)
    let ?k = "\<lambda>q. bnd (readi_loop ip (off + ?c) (n - ?c)) (\<lambda>rest. ret (take ?c (drop (off mod BSIZE) (b_data q)) @ rest))"
    have "wp (bmap ip (off div BSIZE)) (\<lambda>addr. wp (bnd (bread 1 addr) (\<lambda>bp. bnd (bufget bp) (\<lambda>q. andthen (brelse bp) (?k q)))) R) s"
    proof (rule wp_bmap [OF "1.prems"(1-4) bn])
      fix t assume t: "rst t C P" "bstep s t"
      have at: "fs_block t ?a" using a lstep_blocks(1) [OF bstep_lstep [OF t(2)]] by simp
      show "wp (bnd (bread 1 ?a) (\<lambda>bp. bnd (bufget bp) (\<lambda>q. andthen (brelse bp) (?k q)))) R t"
      proof (rule wp_block_read [OF t(1) at refl])
        fix q u assume q: "b_data q = C ?a" and u: "rst u C P" "bstep t u"
        have su: "bstep s u" using t(2) u(2) by (rule bstep_trans)
        note iu = lstep_icache [OF bstep_lstep [OF su]]
        show "wp (?k q) R u"
          unfolding wp_bnd
        proof (rule "1.IH" [OF False u(1)])
          fix v assume v: "rst v C P" "bstep u v"
          show "wp (ret (take ?c (drop (off mod BSIZE) (b_data q)) @ map (fbyte C (icache u ! ip)) [off + ?c..<off + ?c + (n - ?c)])) R v"
            unfolding q wp_ret iu chunk_bytes [of C ?r off n, OF len]
            using "1.prems"(6) [OF v(1) bstep_trans [OF su v(2)]] app chunk_le(1) [of off n] by simp
        qed (use "1.prems" iu mapped_lstep [OF bstep_lstep [OF su]] chunk_le(1) [of off n] in simp_all)
      qed
    qed
    then show ?thesis
      unfolding readi_loop.simps [of ip off n] using False "1.prems"(2,3) by (simp add: wp_bnd wp_inode_get)
  qed
qed

lemma min_word: "off \<le> sz \<Longrightarrow> unat off + unat n < 2 ^ 32 \<Longrightarrow>
    unat (if off + n > sz then sz - off else n) = min (unat n) (unat sz - unat off)" for off n sz :: uint
  by (auto simp: word_less_nat_alt word_le_nat_alt unat_add_lem [THEN iffD1] unat_sub)

lemma sint_small: "unat (n :: uint) < 2 ^ 31 \<Longrightarrow> sint n = int (unat n)"
proof -
  assume "unat n < 2 ^ 31"
  then have "int (unat n) < int (2 ^ 31)" by (simp only: of_nat_less_iff)
  then have "uint n < 2 ^ 31" by simp
  then show ?thesis by (simp add: sint_uint32)
qed

lemma no_wrap: "unat off + unat n < 2 ^ 32 \<Longrightarrow> \<not> off + n < off" for off n :: uint
  by (simp add: word_less_nat_alt unat_add_lem [THEN iffD1])

lemma wraps: "\<not> unat off + unat n < 2 ^ 32 \<Longrightarrow> off + n < off" for off n :: uint
proof -
  assume w: "\<not> unat off + unat n < 2 ^ 32"
  have b: "unat off < 2 ^ 32" "unat n < 2 ^ 32" using unsigned_less [of off, where ?'a = nat] unsigned_less [of n, where ?'a = nat] by simp_all
  have "(unat off + unat n) mod 2 ^ 32 = unat off + unat n - 2 ^ 32"
    using w b by (subst le_mod_geq) simp_all
  then show ?thesis using w b by (simp add: word_less_nat_alt unat_word_ariths)
qed

lemma file_size: "mapped s C r m \<Longrightarrow> k \<le> m * BSIZE \<Longrightarrow> k \<le> 71680"
  by (simp add: mapped_def MAXFILE_def NDIRECT_def NINDIRECT_def BSIZE_def)

lemma wp_readi:
  assumes s: "rst s C P" and ip: "ip < length (icache s)" "i_dev (icache s ! ip) = 1" "i_type (icache s ! ip) \<noteq> T_DEV"
    and m: "mapped s C (icache s ! ip) m" "unat (i_size (icache s ! ip)) \<le> m * BSIZE"
    and off: "off \<le> i_size (icache s ! ip)" "unat off + unat n < 2 ^ 32"
    and K: "\<And>t bs. rst t C P \<Longrightarrow> bstep s t \<Longrightarrow> bs = take (unat n) (drop (unat off) (contents C (icache s ! ip))) \<Longrightarrow>
      R (int (length bs), bs) t"
  shows "wp (readi ip off n) R s"
proof -
  let ?r = "icache s ! ip"
  define n' where "n' = (if off + n > i_size ?r then i_size ?r - off else n)"
  have n': "unat n' = min (unat n) (unat (i_size ?r) - unat off)" unfolding n'_def by (rule min_word [OF off])
  have o': "unat off \<le> unat (i_size ?r)" using off(1) by (simp add: word_le_nat_alt)
  have small: "unat (i_size ?r) \<le> 71680" by (rule file_size [OF m])
  have bs: "map (fbyte C ?r) [unat off..<unat off + unat n'] = take (unat n) (drop (unat off) (contents C ?r))"
    unfolding contents_def take_map drop_map n' using o' by (simp add: take_upt min_def)
  have "wp (bnd (readi_loop ip (unat off) (unat n')) (\<lambda>bs. ret (sint n', bs))) R s"
    unfolding wp_bnd
  proof (rule wp_readi_loop [OF s ip(1,2) m(1)])
    show "unat off + unat n' \<le> m * BSIZE" using n' m(2) o' by simp
    fix t assume t: "rst t C P" "bstep s t"
    have "sint n' = int (unat n')" using n' small by (intro sint_small) simp
    then show "wp (ret (sint n', map (fbyte C ?r) [unat off..<unat off + unat n'])) R t"
      using K [OF t bs] by (simp add: wp_ret)
  qed
  then show ?thesis
    unfolding readi_def wp_bnd wp_inode_get [OF ip(1)] using ip(3) off(1) no_wrap [OF off(2)]
    by (simp add: n'_def Let_def wp_bnd not_less [symmetric])
qed

section \<open>Writing\<close>

lemma tst_finite: "tst s C P \<Longrightarrow> finite P"
  using bst_fin_P by (auto simp: tst_def)

lemma finite_touched [simp]: "finite (touched off n)"
  by (simp add: touched_def)

lemma log_room_mono: "finite Q \<Longrightarrow> P \<subseteq> Q \<Longrightarrow> log_room s Q \<Longrightarrow> log_room s P"
  using card_mono [of Q P] by (simp add: log_room_def)

lemma baddr_write:
  assumes m: "mapped s C r m" and C': "same_blocks s (C(baddr C r b := d)) C'" and b: "b < m" and bn: "bn < m"
  shows "baddr C' r bn = baddr C r bn"
proof (cases "bn < NDIRECT")
  case False
  then have i: "i_addrs r ! NDIRECT \<notin> log_area s" "i_addrs r ! NDIRECT \<noteq> baddr C r b"
    using m b bn by (auto simp: mapped_def fs_block_def)
  then have "C' (i_addrs r ! NDIRECT) = C (i_addrs r ! NDIRECT)" using C' by (simp add: same_blocks_def)
  then show ?thesis using False by (simp add: baddr_def)
qed (simp add: baddr_def)

lemma mapped_write:
  assumes m: "mapped s C r m" and C': "same_blocks s (C(baddr C r b := d)) C'" and b: "b < m"
  shows "mapped s C' r m"
proof -
  note e = baddr_write [OF m C' b]
  have "inj_on (baddr C' r) {..<m} = inj_on (baddr C r) {..<m}" by (rule inj_on_cong) (simp add: e)
  moreover have "baddr C' r ` {..<m} = baddr C r ` {..<m}" by (rule image_cong) (simp_all add: e)
  ultimately show ?thesis using m e by (simp add: mapped_def)
qed

lemma splice_nth:
  "length d = BSIZE \<Longrightarrow> o' + length bs \<le> BSIZE \<Longrightarrow> j < BSIZE \<Longrightarrow>
   splice d o' bs ! j = (if o' \<le> j \<and> j < o' + length bs then bs ! (j - o') else d ! j)"
  by (auto simp: splice_def nth_append)

lemma length_splice: "length d = BSIZE \<Longrightarrow> o' + length bs \<le> BSIZE \<Longrightarrow> length (splice d o' bs) = BSIZE"
  by (simp add: splice_def)

lemma fbyte_write:
  assumes m: "mapped s C r m" and len: "length (C (baddr C r (off div BSIZE))) = BSIZE" and b: "off div BSIZE < m"
    and bs: "length bs = chunk off n" and C': "same_blocks s (C(baddr C r (off div BSIZE) := splice (C (baddr C r (off div BSIZE))) (off mod BSIZE) bs)) C'"
    and k: "k < m * BSIZE"
  shows "fbyte C' r k = (if off \<le> k \<and> k < off + chunk off n then bs ! (k - off) else fbyte C r k)"
proof -
  let ?a = "baddr C r (off div BSIZE)" and ?b = "baddr C r (k div BSIZE)"
  have kb: "k div BSIZE < m" using k by (simp add: less_mult_imp_div_less)
  have e: "baddr C' r (k div BSIZE) = ?b" by (rule baddr_write [OF m C' b kb])
  have "?b \<notin> log_area s" using m kb by (simp add: mapped_def fs_block_def)
  then have C'b: "C' ?b = (if k div BSIZE = off div BSIZE then splice (C ?a) (off mod BSIZE) bs else C ?b)"
    using C' m b kb by (auto simp: same_blocks_def mapped_def inj_on_def)
  have far: "off \<le> k \<and> k < off + chunk off n" if "k div BSIZE = off div BSIZE" "off mod BSIZE \<le> k mod BSIZE" "k mod BSIZE < off mod BSIZE + chunk off n"
  proof -
    have "k = off div BSIZE * BSIZE + k mod BSIZE" "off = off div BSIZE * BSIZE + off mod BSIZE" using that(1) by (metis div_mult_mod_eq, simp)
    then show ?thesis using that(2,3) by linarith
  qed
  have "k mod BSIZE < BSIZE" by (simp add: BSIZE_def)
  then have sp: "splice (C ?a) (off mod BSIZE) bs ! (k mod BSIZE) =
      (if off mod BSIZE \<le> k mod BSIZE \<and> k mod BSIZE < off mod BSIZE + chunk off n then bs ! (k mod BSIZE - off mod BSIZE) else C ?a ! (k mod BSIZE))"
    using splice_nth [OF len, of "off mod BSIZE" bs] chunk_le(2) [of off n] bs by simp
  show ?thesis
  proof (cases "off \<le> k \<and> k < off + chunk off n")
    case True
    then obtain j where "k = off + j" "j < chunk off n" by (auto simp: le_iff_add)
    then show ?thesis using chunk_block [of j off n] sp unfolding fbyte_def e C'b by simp
  next
    case False
    then show ?thesis using far sp unfolding fbyte_def e C'b by (auto split: if_splits)
  qed
qed

lemma wp_writei_loop:
  assumes "tst s C P" and "ip < length (icache s)" "i_dev (icache s ! ip) = 1" and "mapped s C (icache s ! ip) m" "off + n \<le> m * BSIZE"
    and "length src = n" and "log_room s (P \<union> baddr C (icache s ! ip) ` touched off n)"
    and "\<And>t C'. tst t C' (P \<union> baddr C (icache s ! ip) ` touched off n) \<Longrightarrow> lstep s t \<Longrightarrow>
      (\<And>x. x \<notin> log_area s \<Longrightarrow> x \<notin> baddr C (icache s ! ip) ` touched off n \<Longrightarrow> C' x = C x) \<Longrightarrow> mapped s C' (icache s ! ip) m \<Longrightarrow>
      (\<And>k. k < m * BSIZE \<Longrightarrow> fbyte C' (icache s ! ip) k = (if off \<le> k \<and> k < off + n then src ! (k - off) else fbyte C (icache s ! ip) k)) \<Longrightarrow>
      R () t"
  shows "wp (writei_loop ip src off n) R s"
  using assms
proof (induction ip src off n arbitrary: s C P R rule: writei_loop.induct)
  case (1 ip src off n)
  let ?r = "icache s ! ip" and ?c = "chunk off n" and ?b = "off div BSIZE"
  show ?case
  proof (cases "n = 0")
    case True
    then have "R () s" using "1.prems"(1,4) by (intro "1.prems"(8) [of s C]) (auto simp: touched_def)
    then show ?thesis using True by (simp add: writei_loop.simps wp_ret)
  next
    case False
    let ?a = "baddr C ?r ?b" and ?g = "\<lambda>d. splice d (off mod BSIZE) (take ?c src)"
    let ?F = "P \<union> baddr C ?r ` touched off n" and ?T = "touched (off + ?c) (n - ?c)"
    have bn: "?b < m" using "1.prems"(5) False by (simp add: less_mult_imp_div_less)
    have in_m: "bn < m" if "bn \<in> touched off n" for bn
      using that "1.prems"(5) by (auto simp: touched_def less_mult_imp_div_less)
    have a: "fs_block s ?a" using "1.prems"(4) bn by (simp add: mapped_def)
    have len: "length (C ?a) = BSIZE" by (rule tst_length [OF "1.prems"(1)])
    have tk: "length (take ?c src) = ?c" using "1.prems"(6) chunk_le(1) [of off n] by simp
    have T: "touched off n = insert ?b ?T" using False by (intro touched_chunk) simp
    have room: "log_room s (insert ?a P)"
      by (rule log_room_mono [OF _ _ "1.prems"(7)]) (use tst_finite [OF "1.prems"(1)] in \<open>auto simp: T\<close>)
    have "wp (bmap ip ?b) (\<lambda>addr. wp (bnd (bread 1 addr) (\<lambda>bp. andthen (bufdata bp ?g) (andthen (log_write bp)
        (andthen (brelse bp) (writei_loop ip (drop ?c src) (off + ?c) (n - ?c)))))) R) s"
    proof (rule wp_bmap_tst [OF "1.prems"(1-4) bn])
      fix t assume t: "tst t C P" "lstep s t"
      note lt = lstep_blocks [OF t(2)]
      show "wp (bnd (bread 1 ?a) (\<lambda>bp. andthen (bufdata bp ?g) (andthen (log_write bp)
        (andthen (brelse bp) (writei_loop ip (drop ?c src) (off + ?c) (n - ?c)))))) R t"
      proof (rule wp_block_update [OF t(1), where g = ?g], unfold lt)
        show "length (?g (C ?a)) = BSIZE" using length_splice [OF len] tk chunk_le(2) [of off n] by simp
        fix u C1 assume u: "tst u C1 (insert ?a P)" and C1: "same_blocks s (C(?a := ?g (C ?a))) C1" and "lstep t u"
        then have su: "lstep s u" using t(2) lstep_trans by blast
        note iu = lstep_icache [OF su] and lu = lstep_blocks [OF su] lstep_geometry(2) [OF su]
        note m1 = mapped_write [OF "1.prems"(4) C1 bn] and e = baddr_write [OF "1.prems"(4) C1 bn]
        have img: "baddr C1 ?r ` ?T = baddr C ?r ` ?T" using in_m T by (intro image_cong) (simp_all add: e)
        have F: "insert ?a P \<union> baddr C ?r ` ?T = ?F" unfolding T by auto
        show "wp (writei_loop ip (drop ?c src) (off + ?c) (n - ?c)) R u"
        proof (rule "1.IH" [OF False u], unfold iu F img lu mapped_lstep [OF su])
          fix v C2 assume v: "tst v C2 ?F" "lstep u v" and C2: "\<And>x. x \<notin> log_area s \<Longrightarrow> x \<notin> baddr C ?r ` ?T \<Longrightarrow> C2 x = C1 x"
            and m2: "mapped s C2 ?r m" and f: "\<And>k. k < m * BSIZE \<Longrightarrow>
              fbyte C2 ?r k = (if off + ?c \<le> k \<and> k < off + ?c + (n - ?c) then drop ?c src ! (k - (off + ?c)) else fbyte C1 ?r k)"
          show "R () v"
          proof (rule "1.prems"(8) [OF v(1) lstep_trans [OF su v(2)] _ m2])
            fix x assume "x \<notin> log_area s" "x \<notin> baddr C ?r ` touched off n"
            then show "C2 x = C x" using C2 [of x] C1 by (simp add: T same_blocks_def)
          next
            fix k assume k: "k < m * BSIZE"
            show "fbyte C2 ?r k = (if off \<le> k \<and> k < off + n then src ! (k - off) else fbyte C ?r k)"
              using f [OF k] fbyte_write [OF "1.prems"(4) len bn tk C1 k] chunk_le(1) [of off n] "1.prems"(6) by (auto simp: nth_append)
          qed
        qed (use "1.prems" iu m1 chunk_le(1) [of off n] in simp_all)
      qed (use a room in simp_all)
    qed
    then show ?thesis
      unfolding writei_loop.simps [of ip src off n] using False "1.prems"(2,3) by (simp add: wp_bnd wp_inode_get)
  qed
qed

lemma wp_iupdate:
  assumes s: "tst s C P" and ip: "ip < length (icache s)" "i_dev (icache s ! ip) = 1"
    and b: "fs_block s (IBLOCK (i_inum (icache s ! ip)))" "log_room s (insert (IBLOCK (i_inum (icache s ! ip))) P)"
    and K: "\<And>t C'. tst t C' (insert (IBLOCK (i_inum (icache s ! ip))) P) \<Longrightarrow>
      same_blocks s (C(IBLOCK (i_inum (icache s ! ip)) := dinode_store (icache s ! ip) (C (IBLOCK (i_inum (icache s ! ip)))))) C' \<Longrightarrow>
      lstep s t \<Longrightarrow> R () t"
  shows "wp (iupdate ip) R s"
proof -
  let ?r = "icache s ! ip"
  have "wp (bnd (bread 1 (IBLOCK (i_inum ?r))) (\<lambda>bp. andthen (bufdata bp (dinode_store ?r)) (andthen (log_write bp) (brelse bp)))) R s"
    by (rule wp_block_update_only [OF s b, where g = "dinode_store ?r"]) (simp_all add: tst_length [OF s] K)
  then show ?thesis unfolding iupdate_def wp_bnd wp_inode_get [OF ip(1)] ip(2) .
qed

text \<open>The blocks that make up the file.\<close>

definition fblocks :: "(uint \<Rightarrow> uchar list) \<Rightarrow> inode \<Rightarrow> nat \<Rightarrow> uint set" where
  "fblocks C r m = baddr C r ` {..<m} \<union> (if NDIRECT < m then {i_addrs r ! NDIRECT} else {})"

lemma inode_size_simps [simp]:
  "baddr C (r\<lparr>i_size := z\<rparr>) = baddr C r" "mapped s C (r\<lparr>i_size := z\<rparr>) m = mapped s C r m" "fbyte C (r\<lparr>i_size := z\<rparr>) = fbyte C r"
proof -
  show b: "baddr C (r\<lparr>i_size := z\<rparr>) = baddr C r" by (simp add: fun_eq_iff baddr_def)
  show "mapped s C (r\<lparr>i_size := z\<rparr>) m = mapped s C r m" "fbyte C (r\<lparr>i_size := z\<rparr>) = fbyte C r"
    by (simp_all add: b fun_eq_iff mapped_def fbyte_def)
qed

lemma mapped_frame:
  assumes m: "mapped s C r m" and C': "\<And>x. x \<in> fblocks C r m \<Longrightarrow> C' x = C x"
  shows "mapped s C' r m" "k < m * BSIZE \<Longrightarrow> fbyte C' r k = fbyte C r k"
proof -
  have e: "baddr C' r bn = baddr C r bn" if "bn < m" for bn
    using C' [of "i_addrs r ! NDIRECT"] that by (auto simp: baddr_def fblocks_def)
  have "inj_on (baddr C' r) {..<m} = inj_on (baddr C r) {..<m}" by (rule inj_on_cong) (simp add: e)
  moreover have "baddr C' r ` {..<m} = baddr C r ` {..<m}" by (rule image_cong) (simp_all add: e)
  ultimately show "mapped s C' r m" using m e by (simp add: mapped_def)
  assume "k < m * BSIZE"
  then have "k div BSIZE < m" by (simp add: less_mult_imp_div_less)
  then show "fbyte C' r k = fbyte C r k" using C' [of "baddr C r (k div BSIZE)"] by (simp add: fbyte_def e fblocks_def)
qed

lemma fblocks_cong: "mapped s C r m \<Longrightarrow> (\<And>bn. bn < m \<Longrightarrow> baddr C' r bn = baddr C r bn) \<Longrightarrow> fblocks C' r m = fblocks C r m"
  by (auto simp: fblocks_def)

lemma fblocks_outside: "mapped s C r m \<Longrightarrow> x \<in> fblocks C r m \<Longrightarrow> x \<notin> log_area s"
  by (auto simp: mapped_def fblocks_def fs_block_def split: if_splits)

lemma fblocks_write:
  assumes m: "mapped s C r m" and off: "off + n \<le> m * BSIZE"
    and out: "\<And>x. x \<notin> log_area s \<Longrightarrow> x \<notin> baddr C r ` touched off n \<Longrightarrow> C' x = C x"
  shows "fblocks C' r m = fblocks C r m"
proof (rule fblocks_cong [OF m])
  fix bn assume bn: "bn < m"
  have "touched off n \<subseteq> {..<m}" using off by (auto simp: touched_def less_mult_imp_div_less)
  then have "NDIRECT < m \<Longrightarrow> C' (i_addrs r ! NDIRECT) = C (i_addrs r ! NDIRECT)"
    using m by (intro out) (auto simp: mapped_def fs_block_def)
  then show "baddr C' r bn = baddr C r bn" using bn by (simp add: baddr_def)
qed

lemma contents_write:
  assumes f: "\<And>k. k < m * BSIZE \<Longrightarrow> fbyte C' r k = (if off \<le> k \<and> k < off + n then src ! (k - off) else fbyte C r k)"
    and sz: "unat (i_size r) \<le> m * BSIZE" "off \<le> unat (i_size r)" "off + n \<le> m * BSIZE" "length src = n"
    and z: "unat z = max (unat (i_size r)) (off + n)"
  shows "contents C' (r\<lparr>i_size := z\<rparr>) = take off (contents C r) @ src @ drop (off + n) (contents C r)"
proof (rule nth_equalityI)
  show "length (contents C' (r\<lparr>i_size := z\<rparr>)) = length (take off (contents C r) @ src @ drop (off + n) (contents C r))"
    using sz z by (simp add: contents_def max_def)
  fix k assume "k < length (contents C' (r\<lparr>i_size := z\<rparr>))"
  then have k: "k < max (unat (i_size r)) (off + n)" "k < m * BSIZE" using z sz by (simp_all add: contents_def)
  then show "contents C' (r\<lparr>i_size := z\<rparr>) ! k = (take off (contents C r) @ src @ drop (off + n) (contents C r)) ! k"
    using f [OF k(2)] sz z by (auto simp: contents_def nth_append max_def split: if_splits)
qed

text \<open>The inode after a write of \<open>n\<close> bytes at \<open>off\<close>.\<close>

definition resized :: "inode \<Rightarrow> uint \<Rightarrow> uint \<Rightarrow> inode" where
  "resized r off n = (if off + n > i_size r then r\<lparr>i_size := off + n\<rparr> else r)"

lemma resized_size: "unat off + unat n < 2 ^ 32 \<Longrightarrow>
    \<exists>z. resized r off n = r\<lparr>i_size := z\<rparr> \<and> unat z = max (unat (i_size r)) (unat off + unat n)"
  by (cases "off + n > i_size r")
    (auto simp: resized_def word_less_nat_alt unat_add_lem [THEN iffD1] intro: exI [of _ "i_size r"])

lemma wp_writei:
  assumes s: "tst s C P" and ip: "ip < length (icache s)" "i_dev r = 1" "i_type r \<noteq> T_DEV" and r: "r = icache s ! ip"
    and m: "mapped s C r m" "unat (i_size r) \<le> m * BSIZE"
    and off: "unat off \<le> unat (i_size r)" "unat off + unat n \<le> m * BSIZE" and src: "length src = unat n"
    and b: "fs_block s (IBLOCK (i_inum r))" "IBLOCK (i_inum r) \<notin> fblocks C r m"
      "log_room s (insert (IBLOCK (i_inum r)) (P \<union> baddr C r ` touched (unat off) (unat n)))"
    and K: "\<And>t C' Q. tst t C' Q \<Longrightarrow> mapped s C' r m \<Longrightarrow> fs_block t = fs_block s \<Longrightarrow> icache t = (icache s)[ip := resized r off n] \<Longrightarrow>
      contents C' (resized r off n) = take (unat off) (contents C r) @ src @ drop (unat off + unat n) (contents C r) \<Longrightarrow>
      R (int (unat n)) t"
  shows "wp (writei ip src off n) R s"
proof -
  let ?F = "P \<union> baddr C r ` touched (unat off) (unat n)" and ?ib = "IBLOCK (i_inum r)"
  have small: "unat off + unat n \<le> 71680" by (rule file_size [OF m(1) off(2)])
  then have w: "unat off + unat n < 2 ^ 32" and sn: "sint n = int (unat n)" by (simp, intro sint_small, simp)
  obtain z where z: "resized r off n = r\<lparr>i_size := z\<rparr>" "unat z = max (unat (i_size r)) (unat off + unat n)"
    using resized_size [OF w] by blast
  have "log_room s ?F" by (rule log_room_mono [OF _ _ b(3)]) (use tst_finite [OF s] in auto)
  then have "wp (writei_loop ip src (unat off) (unat n)) (\<lambda>_. wp (bnd (inode_get ip) (\<lambda>r.
      andthen (whenever (n > 0 \<and> off + n > i_size r) (andthen (inode_set ip (\<lambda>r. r\<lparr>i_size := off + n\<rparr>)) (iupdate ip)))
      (ret (sint n)))) R) s"
  proof (rule wp_writei_loop [OF s ip(1), folded r, OF ip(2) m(1) off(2) src])
    fix t C' assume t: "tst t C' ?F" "lstep s t" and m': "mapped s C' r m"
      and out: "\<And>x. x \<notin> log_area s \<Longrightarrow> x \<notin> baddr C r ` touched (unat off) (unat n) \<Longrightarrow> C' x = C x"
      and f: "\<And>k. k < m * BSIZE \<Longrightarrow> fbyte C' r k = (if unat off \<le> k \<and> k < unat off + unat n then src ! (k - unat off) else fbyte C r k)"
    note it = lstep_icache [OF t(2)] and lt = lstep_blocks [OF t(2)]
    note c = contents_write [OF f m(2) off src z(2), folded z(1)]
    have F': "fblocks C' r m = fblocks C r m" by (rule fblocks_write [OF m(1) off(2) out])
    show "wp (bnd (inode_get ip) (\<lambda>r. andthen (whenever (n > 0 \<and> off + n > i_size r)
      (andthen (inode_set ip (\<lambda>r. r\<lparr>i_size := off + n\<rparr>)) (iupdate ip))) (ret (sint n)))) R t"
    proof (cases "n > 0 \<and> off + n > i_size r")
      case False
      then have "n = 0 \<or> \<not> i_size r < off + n" by (auto simp: word_gt_0)
      moreover have "\<not> i_size r < off" using off(1) by (simp add: word_le_nat_alt not_less)
      ultimately have e: "resized r off n = r" by (elim disjE) (simp_all add: resized_def)
      have "R (int (unat n)) t" by (rule K [OF t(1) m' lt(1)]) (use c e it r in simp_all)
      then show ?thesis using False ip(1) it r by (auto simp: wp_rules wp_inode_get sn)
    next
      case True
      then have e: "resized r off n = r\<lparr>i_size := off + n\<rparr>" by (simp add: resized_def)
      let ?t = "t\<lparr>icache := (icache s)[ip := resized r off n]\<rparr>"
      have "wp (iupdate ip) (\<lambda>_. R (int (unat n))) ?t"
      proof (rule wp_iupdate [where C = C' and P = ?F])
        let ?C = "C'(?ib := dinode_store (icache ?t ! ip) (C' ?ib))"
        fix u C2 assume "tst u C2 (insert (IBLOCK (i_inum (icache ?t ! ip))) ?F)" and u: "lstep ?t u"
          and "same_blocks ?t (C'(IBLOCK (i_inum (icache ?t ! ip)) := dinode_store (icache ?t ! ip) (C' (IBLOCK (i_inum (icache ?t ! ip)))))) C2"
        then have u2: "tst u C2 (insert ?ib ?F)" and C2: "same_blocks s ?C C2" using ip(1) e lt(3) by simp_all
        have C2x: "C2 x = C' x" if "x \<in> fblocks C' r m" for x
          using that fblocks_outside [OF m' that] b(2) C2 unfolding F' same_blocks_def by auto
        note fr = mapped_frame [OF m' C2x]
        note c2 = contents_write [OF trans [OF fr(2) f] m(2) off src z(2), folded z(1)]
        show "R (int (unat n)) u"
          by (rule K [OF u2 fr(1) _ _ c2]) (use lstep_blocks(1) [OF u] lstep_icache [OF u] lt in simp_all)
      qed (use t(1) ip e lt b(1,3) in simp_all)
      then show ?thesis using True ip(1) it r e by (simp add: wp_rules wp_inode_get wp_inode_set sn)
    qed
  qed
  then show ?thesis
    unfolding writei_def wp_bnd wp_inode_get [OF ip(1)] r [symmetric]
    using ip(3) off(1) no_wrap [OF w] small by (simp add: wp_rules word_le_nat_alt word_less_nat_alt unat_add_lem [THEN iffD1] w MAXFILE_def NDIRECT_def NINDIRECT_def BSIZE_def not_less)
qed

section \<open>Files as arrays of bytes\<close>

text \<open>A file whose blocks up to \<open>m\<close> are allocated, its inode locked by the process.\<close>

definition open_inode :: "'z kfs_scheme \<Rightarrow> (uint \<Rightarrow> uchar list) \<Rightarrow> nat \<Rightarrow> nat \<Rightarrow> bool" where
  "open_inode s C ip m \<longleftrightarrow> ip < length (icache s) \<and> i_dev (icache s ! ip) = 1 \<and> i_type (icache s ! ip) \<noteq> T_DEV \<and>
     mapped s C (icache s ! ip) m \<and> unat (i_size (icache s ! ip)) \<le> m * BSIZE"

text \<open>
  C9. \<open>readi\<close> reads the file, inside a transaction or outside one: of an ordinary file whose blocks are allocated it returns the bytes from
  the offset on, as many as were asked for or as there are up to the end of the file, across the blocks of the file and through its
  indirect block; it returns -1 when the offset lies behind the end or the end of what is asked for does not fit 32 bits; and it changes
  neither what the blocks hold nor the inode cache.
\<close>

theorem readi_reads_contents:
  assumes "rst s C P" and "open_inode s C ip m"
  shows "wp (readi ip off n) (\<lambda>(k, bs) t. rst t C P \<and> icache t = icache s \<and>
     (if off \<le> i_size (icache s ! ip) \<and> unat off + unat n < 2 ^ 32
      then bs = take (unat n) (drop (unat off) (contents C (icache s ! ip))) \<and> k = int (length bs)
      else bs = [] \<and> k = -1)) s"
proof (cases "off \<le> i_size (icache s ! ip) \<and> unat off + unat n < 2 ^ 32")
  case True
  then show ?thesis
    by (intro wp_readi [OF assms(1)]) (use assms(2) lstep_icache [OF bstep_lstep] in \<open>auto simp: open_inode_def\<close>)
next
  case False
  then have "i_size (icache s ! ip) < off \<or> off + n < off"
    using wraps [of off n] by (auto simp: not_le)
  then show ?thesis
    using assms False by (auto simp: readi_def open_inode_def wp_bnd wp_inode_get wp_ret)
qed

text \<open>
  C7. Files are arrays of bytes: after \<open>writei\<close> has put a string at an offset inside a file or at its end, in blocks the file
  has, any \<open>readi\<close> of the file returns what the same write of an array of bytes would have left there; the file has grown if the
  string reaches past its end, and no other inode in the cache has changed.
\<close>

theorem writei_then_readi:
  assumes "tst s C P" and "open_inode s C ip m" and "r = icache s ! ip"
    and "unat off \<le> unat (i_size r)" and "unat off + unat n \<le> m * BSIZE" and "length src = unat n"
    and "fs_block s (IBLOCK (i_inum r))" and "IBLOCK (i_inum r) \<notin> fblocks C r m"
    and "log_room s (insert (IBLOCK (i_inum r)) (P \<union> baddr C r ` touched (unat off) (unat n)))"
    and "new = take (unat off) (contents C r) @ src @ drop (unat off + unat n) (contents C r)"
    and "unat off' \<le> length new" and "unat off' + unat n' < 2 ^ 32"
  shows "wp (bnd (writei ip src off n) (\<lambda>k. bnd (readi ip off' n') (\<lambda>(k', bs). ret (k, k', bs))))
     (\<lambda>(k, k', bs) t. k = int (unat n) \<and> bs = take (unat n') (drop (unat off') new) \<and> k' = int (length bs) \<and>
       (\<forall>j. j \<noteq> ip \<longrightarrow> icache t ! j = icache s ! j)) s"
  unfolding wp_bnd
proof (rule wp_writei [OF assms(1) _ _ _ assms(3) _ _ assms(4-9)])
  fix t C' Q assume t: "tst t C' Q" "mapped s C' r m" "fs_block t = fs_block s" "icache t = (icache s)[ip := resized r off n]"
    and c: "contents C' (resized r off n) = take (unat off) (contents C r) @ src @ drop (unat off + unat n) (contents C r)"
  have ip: "ip < length (icache s)" using assms(2) by (simp add: open_inode_def)
  have it: "icache t ! ip = resized r off n" using t(4) ip by simp
  have w: "unat off + unat n < 2 ^ 32" using file_size [OF t(2) assms(5)] by simp
  obtain z where z: "resized r off n = r\<lparr>i_size := z\<rparr>" "unat z = max (unat (i_size r)) (unat off + unat n)"
    using resized_size [OF w] by blast
  have nc: "contents C' (resized r off n) = new" using c assms(10) by (simp only:)
  then have len: "length new = unat z" by (auto simp: contents_def z(1))
  have m: "mapped t C' (resized r off n) m" using t(2,3) by (simp add: z(1) mapped_def)
  show "wp (readi ip off' n') (\<lambda>a. wp (case a of (k', bs) \<Rightarrow> ret (int (unat n), k', bs)) (\<lambda>(k, k', bs) t. k = int (unat n) \<and>
      bs = take (unat n') (drop (unat off') new) \<and> k' = int (length bs) \<and> (\<forall>j. j \<noteq> ip \<longrightarrow> icache t ! j = icache s ! j))) t"
  proof (rule wp_readi [OF tst_rst [OF t(1)] _ _ _ _ _ _ assms(12)], unfold it nc)
    show "mapped t C' (resized r off n) m" by (rule m)
    fix u bs assume u: "bstep t u" and bs: "bs = take (unat n') (drop (unat off') new)"
    show "wp (case (int (length bs), bs) of (k', bs) \<Rightarrow> ret (int (unat n), k', bs)) (\<lambda>(k, k', bs) t. k = int (unat n) \<and>
        bs = take (unat n') (drop (unat off') new) \<and> k' = int (length bs) \<and> (\<forall>j. j \<noteq> ip \<longrightarrow> icache t ! j = icache s ! j)) u"
      using bs lstep_icache [OF bstep_lstep [OF u]] t(4) by (simp add: wp_ret)
  qed (use assms(2,3,5,11) ip t(4) z len in \<open>auto simp: open_inode_def word_le_nat_alt\<close>)
qed (use assms(2,3) in \<open>auto simp: open_inode_def\<close>)

section \<open>Inodes on the disk and in the cache\<close>

definition tblocks :: "'z klog_scheme \<Rightarrow> (uint \<Rightarrow> uchar list) \<Rightarrow> uint set \<Rightarrow> bool" where
  "tblocks s C P \<longleftrightarrow> (\<exists>D W. bst s C D W P {}) \<and> log_geometry s \<and> log_busy s \<and> P \<inter> log_area s = {} \<and>
     lh_n s = int (card P) \<and> set (take (card P) (lh_sector s)) = P \<and> card P < LOGSIZE"

lemma tst_tblocks: "tst s C P \<longleftrightarrow> kst {} s \<and> tblocks s C P"
  by (auto simp: tst_def tblocks_def)

lemma tblocks_kstep:
  fixes s :: "'z klog_scheme"
  assumes "kstep s t"
  shows "tblocks t C P = tblocks s C P"
proof -
  note b = kstep_bio(1,7) [OF assms]
  note l = bstep_log [OF b(1)] lstep_geometry(2,3) [OF bstep_lstep [OF b(1)]]
  show ?thesis unfolding tblocks_def b(2) using l by simp
qed

lemma tblocks_kfs [simp]: "tblocks (s\<lparr>icache := is\<rparr>) C P = tblocks s C P"
  by (simp add: tblocks_def bst_def log_geometry_def log_area_def lsec_def)

lemma tblocks_bsteps:
  fixes s :: "'z kfs_scheme"
  assumes s: "tblocks s C P" and st: "bstep s t" "bstep (t\<lparr>icache := is\<rparr>) u" and u: "bst u C D W P {}"
  shows "tblocks u C P"
proof -
  have "log_geometry (t\<lparr>icache := is\<rparr>) = log_geometry t" "log_area (t\<lparr>icache := is\<rparr>) = log_area t"
    by (simp_all add: log_geometry_def log_area_def lsec_def)
  then have g: "log_geometry u = log_geometry s" "log_area u = log_area s"
    using lstep_geometry(2,3) [OF bstep_lstep [OF st(1)]] lstep_geometry(2,3) [OF bstep_lstep [OF st(2)]]
      bstep_log(5) [OF st(1)] bstep_log(5) [OF st(2)] by simp_all
  show ?thesis
    unfolding tblocks_def g using s u bstep_log(4,5,6) [OF st(1)] bstep_log(4,5,6) [OF st(2)] by (auto simp: tblocks_def)
qed

lemma wp_load_inode:
  fixes s :: "'z kfs_scheme"
  assumes s: "tst s C P" and b: "fs_block s sec" and ip: "ip < length (icache s)"
    and K: "\<And>t. tst t C P \<Longrightarrow> icache t = (icache s)[ip := g (C sec) (icache s ! ip)] \<Longrightarrow> wp m R t"
  shows "wp (bnd (bread 1 sec) (\<lambda>bp. bnd (bufget bp) (\<lambda>d. andthen (inode_set ip (g (b_data d))) (andthen (brelse bp) m)))) R s"
proof -
  obtain D W where k: "kst {} s" and bs: "bst s C D W P {}" and P: "card P < NBUF" and tb: "tblocks s C P"
    using s by (auto simp: tst_def tblocks_def LOGSIZE_def NBUF_def)
  show ?thesis
    unfolding wp_bnd
  proof (rule wp_bread [OF k _ bs], simp, simp, simp add: P, use b in \<open>simp add: fs_block_def\<close>)
    fix c t assume t: "kst {} t" "bst t C D W P {(c, sec)}" "bstep s t"
    have it: "icache t = icache s" by (rule lstep_icache [OF bstep_lstep [OF t(3)]])
    let ?t = "t\<lparr>icache := (icache s)[ip := g (C sec) (icache s ! ip)]\<rparr>"
    have t': "bst ?t C D W P {(c, sec)}" "kst {} ?t" using t(1,2) kst_eqI [of ?t t] by (simp_all add: bst_def)
    have "wp (brelse c) (\<lambda>_. wp m R) ?t"
    proof (rule wp_brelse [OF t'(2) _ _ t'(1) singletonI])
      show "sec \<in> P \<or> C sec = D sec" using bst_clean [OF bs, of sec] by auto
      fix u assume u: "kst {} u" "bst u C D W P ({(c, sec)} - {(c, sec)})" "bstep ?t u"
      have "bst u C D W P {}" using u(2) by simp
      then have "tst u C P" using u(1) tblocks_bsteps [OF tb t(3) u(3)] by (simp add: tst_tblocks)
      then show "wp m R u" using lstep_icache [OF bstep_lstep [OF u(3)]] by (intro K) simp_all
    qed simp_all
    then show "wp (bufget c) (\<lambda>d. wp (andthen (inode_set ip (g (b_data d))) (andthen (brelse c) m)) R) t"
      unfolding wp_bufget_b [OF t(2) singletonI] bst_held(6) [OF t(2) singletonI] using ip it by (simp add: wp_andthen wp_inode_set)
  qed
qed

text \<open>\<open>ilock\<close> of an entry that has not been read yet.\<close>

lemma wp_ilock_load:
  fixes s :: "'z kfs_scheme"
  assumes s: "tst s C P" and ip: "ip < length (icache s)" and q: "q = icache s ! ip" "i_dev q = 1" "1 \<le> i_ref q" "\<not> i_busy q" "\<not> i_valid q"
    and b: "fs_block s (IBLOCK (i_inum q))" and p: "p = dinode_load (C (IBLOCK (i_inum q))) (i_inum q) q" "i_type p \<noteq> 0"
    and K: "\<And>t. tst t C P \<Longrightarrow> icache t = (icache s)[ip := p\<lparr>i_busy := True, i_valid := True\<rparr>] \<Longrightarrow> R () t"
  shows "wp (ilock ip) R s"
proof -
  let ?b = "IBLOCK (i_inum q)" and ?q = "q\<lparr>i_busy := True\<rparr>"
  let ?fin = "andthen (inode_set ip (\<lambda>r. r\<lparr>i_valid := True\<rparr>)) (bnd (inode_get ip) (\<lambda>r. if i_type r = 0 then panic ''ilock: no type'' else ret ()))"
  let ?read = "bnd (bread 1 ?b) (\<lambda>bp. bnd (bufget bp) (\<lambda>d. andthen (inode_set ip (dinode_load (b_data d) (i_inum q))) (andthen (brelse bp) ?fin)))"
  let ?rest = "\<lambda>r. if i_valid r then ret () else bnd (bread (i_dev r) (IBLOCK (i_inum r))) (\<lambda>bp. bnd (bufget bp) (\<lambda>d.
    andthen (inode_set ip (dinode_load (b_data d) (i_inum r))) (andthen (brelse bp) ?fin)))"
  have k: "kst {} s" and tb: "tblocks s C P" using s by (simp_all add: tst_tblocks)
  have "wp (acquire IcacheLock) (\<lambda>_. wp (ilock_wait ip) R) s"
  proof (rule wp_acquire_k [OF k], simp)
    fix t assume t: "kstep s t" "kst {IcacheLock} t"
    note it = kstep_icache [OF t(1)]
    let ?t = "t\<lparr>icache := (icache s)[ip := ?q]\<rparr>"
    have "wp (release IcacheLock) (\<lambda>_. wp (bnd (inode_get ip) ?rest) R) ?t"
    proof (rule wp_release_k [where H = "{}"])
      fix u assume u: "kstep ?t u" "kst {} u"
      note iu = kstep_icache [OF u(1)]
      have tu: "tst u C P" using u(2) tb by (simp add: tst_tblocks tblocks_kstep [OF u(1)] tblocks_kstep [OF t(1)])
      have "wp ?read R u"
      proof (rule wp_load_inode [OF tu, where g = "\<lambda>d. dinode_load d (i_inum q)"])
        show "fs_block u ?b" using b lstep_blocks(1) [OF bstep_lstep [OF kstep_bio(1) [OF u(1)]]]
            lstep_blocks(1) [OF bstep_lstep [OF kstep_bio(1) [OF t(1)]]] by simp
        fix v :: "'z kfs_scheme" assume v: "tst v C P" "icache v = (icache u)[ip := dinode_load (C ?b) (i_inum q) (icache u ! ip)]"
        have pq: "dinode_load (C ?b) (i_inum q) ?q = p\<lparr>i_busy := True\<rparr>" by (simp add: p(1) dinode_load_def Let_def)
        have "icache v = (icache s)[ip := p\<lparr>i_busy := True\<rparr>]" using v(2) iu ip by (simp add: pq)
        then show "wp ?fin R v" using ip p(2) v(1) K by (simp add: wp_rules wp_inode_set wp_inode_get)
      qed (use iu ip in simp)
      then show "wp (bnd (inode_get ip) ?rest) R u" using iu ip q(2,5) by (simp add: wp_bnd wp_inode_get)
    qed (use t(2) kst_eqI [of ?t t] in simp_all)
    then show "wp (ilock_wait ip) R t"
      unfolding ilock_wait_def wp_bnd wp_andthen using ip q(1,4) it by (simp add: wp_inode_set wp_inode_get wp_bnd wp_andthen)
  qed
  then show ?thesis
    unfolding ilock_def wp_bnd wp_inode_get [OF ip] q(1) [symmetric] using q(3) by (simp add: wp_andthen)
qed

lemma same_inode: "IBLOCK i = IBLOCK j \<Longrightarrow> dinode_at i = dinode_at j \<Longrightarrow> i = j"
proof -
  assume "IBLOCK i = IBLOCK j" and at: "dinode_at i = dinode_at j"
  then have "unat (i div 8) = unat (j div 8)" by (simp add: IBLOCK_def IPB_def)
  then have "unat i div 8 = unat j div 8" "unat i mod 8 = unat j mod 8" using at by (simp_all add: unat_div dinode_at_def IPB_def)
  then have "unat i = unat j" by (metis div_mult_mod_eq)
  then show "i = j" by (simp add: word_unat_eq_iff)
qed

text \<open>The inode \<open>q\<close> with what the disk holds of it: the fields of \<open>r\<close> if it is the inode written, those of before if not.\<close>

definition reloaded :: "(uint \<Rightarrow> uchar list) \<Rightarrow> inode \<Rightarrow> inode \<Rightarrow> inode" where
  "reloaded C r q =
     (if i_inum q = i_inum r
      then q\<lparr>i_type := i_type r, i_major := i_major r, i_minor := i_minor r, i_nlink := i_nlink r, i_size := i_size r, i_addrs := i_addrs r\<rparr>
      else dinode_load (C (IBLOCK (i_inum q))) (i_inum q) q)"

text \<open>
  C8. What \<open>iupdate\<close> has written is what \<open>ilock\<close> loads: an entry of the inode cache that names the same inode and has not been read
  gets all the fields of the inode written, and an entry of any other inode, in the same block of inodes or not, gets what the
  disk held before; the entry is then busy and valid, and no other entry has changed.
\<close>

theorem iupdate_then_ilock:
  fixes s :: "'z kfs_scheme"
  assumes s: "tst s C P" and r: "ip < length (icache s)" "r = icache s ! ip" "i_dev r = 1" "length (i_addrs r) = NDIRECT + 1"
      "fs_block s (IBLOCK (i_inum r))" "log_room s (insert (IBLOCK (i_inum r)) P)"
    and q: "jp < length (icache s)" "q = icache s ! jp" "i_dev q = 1" "1 \<le> i_ref q" "\<not> i_busy q" "\<not> i_valid q"
      "fs_block s (IBLOCK (i_inum q))" "i_type (reloaded C r q) \<noteq> 0"
  shows "wp (andthen (iupdate ip) (ilock jp))
     (\<lambda>_ t. icache t = (icache s)[jp := (reloaded C r q)\<lparr>i_busy := True, i_valid := True\<rparr>]) s"
  unfolding wp_andthen
proof (rule wp_iupdate [OF s r(1), folded r(2), OF r(3,5,6)])
  fix t :: "'z kfs_scheme" and C' assume t: "tst t C' (insert (IBLOCK (i_inum r)) P)" "lstep s t"
    and C': "same_blocks s (C(IBLOCK (i_inum r) := dinode_store r (C (IBLOCK (i_inum r))))) C'"
  note it = lstep_icache [OF t(2)] and lt = lstep_blocks(1) [OF t(2)]
  have "IBLOCK (i_inum q) \<notin> log_area s" using q(7) by (simp add: fs_block_def)
  then have Cq: "C' (IBLOCK (i_inum q)) = (if IBLOCK (i_inum q) = IBLOCK (i_inum r) then dinode_store r (C (IBLOCK (i_inum r))) else C (IBLOCK (i_inum q)))"
    using C' by (simp add: same_blocks_def)
  have len: "length (C (IBLOCK (i_inum r))) = BSIZE" by (rule tst_length [OF s])
  have p: "reloaded C r q = dinode_load (C' (IBLOCK (i_inum q))) (i_inum q) q"
    unfolding Cq reloaded_def using dinode_load_store [OF len r(4)] dinode_load_other [OF len, of "i_inum q" r q]
      same_inode [of "i_inum q" "i_inum r"] by (cases "i_inum q = i_inum r"; cases "IBLOCK (i_inum q) = IBLOCK (i_inum r)") (simp, simp, fastforce, simp)
  show "wp (ilock jp) (\<lambda>_ t. icache t = (icache s)[jp := (reloaded C r q)\<lparr>i_busy := True, i_valid := True\<rparr>]) t"
    by (rule wp_ilock_load [OF t(1) _ _ _ _ _ _ _ p]) (use q it lt in simp_all)
qed

section \<open>An example\<close>

definition demo_inode :: inode where
  "demo_inode = free_inode\<lparr>i_dev := 1, i_inum := 9, i_ref := 1, i_busy := True, i_valid := True, i_type := T_FILE, i_nlink := 1,
     i_size := 600, i_addrs := [30, 31] @ replicate 11 0\<rparr>"

definition demo_entry :: inode where
  "demo_entry = free_inode\<lparr>i_dev := 1, i_inum := 9, i_ref := 1\<rparr>"

definition demo_tx :: kfs where
  "demo_tx = demo_fs\<lparr>log_busy := True, icache := demo_inode # demo_entry # replicate 48 free_inode\<rparr>"

lemma demo_tx_simps [simp]:
  "icache demo_tx = demo_inode # demo_entry # replicate 48 free_inode" "icache demo_tx ! 0 = demo_inode" "icache demo_tx ! 1 = demo_entry"
  "length (icache demo_tx) = 50"
  by (simp_all add: demo_tx_def)

lemma demo_tx_block: "uint x < 80 \<Longrightarrow> fs_block demo_tx x"
proof -
  assume x: "uint x < 80"
  have "log_area demo_tx = log_area demo_log" "disksize demo_tx = 100"
    by (simp_all add: log_area_def lsec_def demo_tx_def demo_extends demo_log_def demo_bio_def kbio.defs kmem.defs)
  then show ?thesis using demo_area [OF x] x by (simp add: fs_block_def word_less_def)
qed

lemma demo_tx_tst: "tst demo_tx (disk demo_log) {}"
proof -
  have i: "bst demo_log (disk demo_log) (disk demo_log) (disk_trace demo_log) {} {}" "log_geometry demo_log"
    using demo_log_idle by (simp_all add: log_idle_def)
  have "kst {} demo_tx" using demo_kst(2) by (subst kst_eqI [of _ demo_fs]) (simp_all add: demo_tx_def)
  moreover have "bst demo_tx (disk demo_log) (disk demo_log) (disk_trace demo_log) {} {}"
    using i(1) unfolding bst_def by (simp add: demo_tx_def demo_extends del: demo_log_simps)
  moreover have "log_geometry demo_tx" using i(2) by (simp add: log_geometry_def demo_tx_def demo_extends)
  ultimately show ?thesis by (auto simp: tst_def LOGSIZE_def demo_tx_def demo_extends)
qed

lemma demo_baddr: "baddr C demo_inode 0 = 30" "baddr C demo_inode (Suc 0) = 31"
  by (simp_all add: baddr_def demo_inode_def NDIRECT_def)

lemma below_2: "k < (2 :: nat) \<longleftrightarrow> k = 0 \<or> k = Suc 0" "{..<2 :: nat} = {0, Suc 0}"
  by auto

lemma demo_open: "open_inode demo_tx (disk demo_log) 0 2"
proof -
  have "fs_block demo_tx 30" "fs_block demo_tx 31" by (rule demo_tx_block; simp)+
  then have "mapped demo_tx (disk demo_log) demo_inode 2"
    by (simp add: mapped_def MAXFILE_def NDIRECT_def below_2 all_conj_distrib imp_disjL demo_baddr)
  then show ?thesis by (simp add: open_inode_def demo_inode_def T_DEV_def T_FILE_def BSIZE_def)
qed

lemma demo_contents: "contents (disk demo_log) demo_inode = replicate 512 30 @ replicate 88 31"
proof (rule nth_equalityI)
  fix k assume "k < length (contents (disk demo_log) demo_inode)"
  then have k: "k < 600" by (simp add: contents_def demo_inode_def)
  then have "k div 512 = (if k < 512 then 0 else Suc 0)" by auto
  then have "fbyte (disk demo_log) demo_inode k = (if k < 512 then 30 else 31)"
    using k by (simp add: fbyte_def BSIZE_def demo_baddr)
  then show "contents (disk demo_log) demo_inode ! k = (replicate 512 30 @ replicate 88 31) ! k"
    using k by (simp add: contents_def nth_append) (simp add: demo_inode_def)
qed (simp add: contents_def demo_inode_def)

text \<open>The same state with no transaction open.\<close>

lemma rst_idle: "rst s C P \<Longrightarrow> rst (s\<lparr>log_busy := b\<rparr>) C P"
proof -
  have "kst {} (s\<lparr>log_busy := b\<rparr>) = kst {} s" by (rule kst_eqI) simp_all
  then show "rst s C P \<Longrightarrow> rst (s\<lparr>log_busy := b\<rparr>) C P" by (simp add: rst_def bst_def)
qed

lemma open_inode_idle: "open_inode s C ip m \<Longrightarrow> open_inode (s\<lparr>log_busy := b\<rparr>) C ip m"
  by (simp add: open_inode_def mapped_def fs_block_def log_area_def lsec_def)

lemma readi_reads_contents_witness:
  "wp (readi 0 510 4) (\<lambda>(k, bs) t. bs = [30, 30, 31, 31] \<and> k = 4) (demo_tx\<lparr>log_busy := False\<rparr>)"
proof -
  let ?s = "demo_tx\<lparr>log_busy := False\<rparr>"
  have "510 \<le> i_size (icache ?s ! 0) \<and> unat (510 :: uint) + unat (4 :: uint) < 2 ^ 32" by (simp add: demo_inode_def)
  with readi_reads_contents [OF rst_idle [OF tst_rst [OF demo_tx_tst]] open_inode_idle [OF demo_open], of 510 4 False]
  have "wp (readi 0 510 4) (\<lambda>(k, bs) t. rst t (disk demo_log) {} \<and> icache t = icache ?s \<and>
      bs = take (unat (4 :: uint)) (drop (unat (510 :: uint)) (contents (disk demo_log) (icache ?s ! 0))) \<and> k = int (length bs)) ?s"
    by (simp only: if_True simp_thms)
  moreover have "contents (disk demo_log) (icache ?s ! 0) = replicate 512 30 @ replicate 88 31" using demo_contents by simp
  moreover have "take (unat (4 :: uint)) (drop (unat (510 :: uint)) (replicate 512 30 @ replicate 88 31)) = [30, 30, 31, 31 :: uchar]"
    by code_simp
  ultimately show ?thesis by (elim wp_mono) auto
qed

lemma writei_then_readi_witness:
  "wp (bnd (writei 0 [1, 2, 3, 4] 598 4) (\<lambda>k. bnd (readi 0 596 10) (\<lambda>(k', bs). ret (k, k', bs))))
     (\<lambda>(k, k', bs) t. k = 4 \<and> k' = 6 \<and> bs = [31, 31, 1, 2, 3, 4]) demo_tx"
proof -
  have t: "touched 598 4 = {Suc 0}"
  proof -
    have "k div 512 = Suc 0" if "598 \<le> k" "k < 602" for k :: nat using that by auto
    then show ?thesis by (auto simp: touched_def BSIZE_def intro!: image_eqI [of _ _ 598])
  qed
  have ib: "IBLOCK (i_inum demo_inode) = 3" by (simp add: IBLOCK_def IPB_def demo_inode_def)
  have "wp (bnd (writei 0 [1, 2, 3, 4] 598 4) (\<lambda>k. bnd (readi 0 596 10) (\<lambda>(k', bs). ret (k, k', bs))))
     (\<lambda>(k, k', bs) t. k = int (unat (4 :: uint)) \<and> bs = take (unat (10 :: uint)) (drop (unat (596 :: uint))
        (take (unat (598 :: uint)) (contents (disk demo_log) demo_inode) @ [1, 2, 3, 4] @
         drop (unat (598 :: uint) + unat (4 :: uint)) (contents (disk demo_log) demo_inode))) \<and> k' = int (length bs) \<and>
       (\<forall>j. j \<noteq> 0 \<longrightarrow> icache t ! j = icache demo_tx ! j)) demo_tx"
  proof (rule writei_then_readi [OF demo_tx_tst demo_open, where r = demo_inode])
    show "fs_block demo_tx (IBLOCK (i_inum demo_inode))" unfolding ib by (rule demo_tx_block) simp
    show "IBLOCK (i_inum demo_inode) \<notin> fblocks (disk demo_log) demo_inode 2"
      unfolding ib by (simp add: fblocks_def NDIRECT_def below_2 demo_baddr)
    show "log_room demo_tx (insert (IBLOCK (i_inum demo_inode)) ({} \<union> baddr (disk demo_log) demo_inode ` touched (unat (598 :: uint)) (unat (4 :: uint))))"
      unfolding ib by (simp add: t demo_baddr log_room_def LOGSIZE_def demo_tx_def demo_extends)
  qed (simp_all add: demo_inode_def BSIZE_def contents_def)
  moreover have "take (unat (10 :: uint)) (drop (unat (596 :: uint)) (take (unat (598 :: uint)) (replicate 512 30 @ replicate 88 31) @
      [1, 2, 3, 4] @ drop (unat (598 :: uint) + unat (4 :: uint)) (replicate 512 30 @ replicate 88 31))) = [31, 31, 1, 2, 3, 4 :: uchar]"
    by code_simp
  ultimately show ?thesis unfolding demo_contents by (elim wp_mono) auto
qed

lemma iupdate_then_ilock_witness:
  "wp (andthen (iupdate 0) (ilock 1)) (\<lambda>_ t. i_size (icache t ! 1) = 600 \<and> i_addrs (icache t ! 1) = [30, 31] @ replicate 11 0) demo_tx"
proof -
  have ib: "IBLOCK (i_inum demo_inode) = 3" "IBLOCK (i_inum demo_entry) = 3" by (simp_all add: IBLOCK_def IPB_def demo_inode_def demo_entry_def)
  have b: "fs_block demo_tx 3" by (rule demo_tx_block) simp
  have e: "reloaded C demo_inode demo_entry = demo_entry\<lparr>i_type := T_FILE, i_nlink := 1, i_size := 600, i_addrs := [30, 31] @ replicate 11 0\<rparr>" for C
    by (simp add: reloaded_def demo_inode_def demo_entry_def free_inode_def)
  have "wp (andthen (iupdate 0) (ilock 1)) (\<lambda>_ t. icache t = (icache demo_tx)[1 :=
      (reloaded (disk demo_log) demo_inode demo_entry)\<lparr>i_busy := True, i_valid := True\<rparr>]) demo_tx"
    by (rule iupdate_then_ilock [OF demo_tx_tst, of 0 demo_inode 1 demo_entry], unfold ib e)
      (use b in \<open>simp_all add: demo_inode_def demo_entry_def free_inode_def NDIRECT_def log_room_def LOGSIZE_def T_FILE_def demo_tx_def demo_extends\<close>)
  then show ?thesis unfolding e by (rule wp_mono) simp
qed

end
