(* ===== verification/Mp.thy ===== *)
theory Mp
  imports Kernel_Frame Kalloc Vm
begin

text \<open>
  mp.c: the search for the tables the BIOS left about the processors, and \<open>mpinit\<close>, which reads them. The tables are in the
  kernel's memory; \<open>ports\<close> records what is written to I/O ports, and what port 0x23 reads as is the argument \<open>imcr\<close>.
\<close>

section \<open>Definitions\<close>

record kmp = kmem +
  ismp :: bool
  ncpu :: nat
  ioapicid :: uchar
  lapic :: uint
  bcpu :: nat
  ports :: "(ushort \<times> uchar) list"

definition mpbcpu :: "('z kmp_scheme, nat) kop" where
  "mpbcpu = gets bcpu"

text \<open>The bytes at an address, and their sum in a \<open>uchar\<close>.\<close>

definition bytes_at :: "memory \<Rightarrow> uint \<Rightarrow> nat \<Rightarrow> uchar list" where
  "bytes_at m a n = map (\<lambda>i. m (a + of_nat i)) [0..<n]"

definition mp_sum :: "memory \<Rightarrow> uint \<Rightarrow> nat \<Rightarrow> uchar" where
  "mp_sum m addr len = sum_list (bytes_at m addr len)"

definition rd16 :: "memory \<Rightarrow> uint \<Rightarrow> ushort" where
  "rd16 m a = ucast (m a) OR push_bit 8 (ucast (m (a + 1)))"

definition MPSIZE :: nat where "MPSIZE = 16"

definition mpsearch1 :: "memory \<Rightarrow> uint \<Rightarrow> nat \<Rightarrow> uint option" where
  "mpsearch1 m a len =
     find (\<lambda>p. bytes_at m p 4 = map of_char ''_MP_'' \<and> mp_sum m p MPSIZE = 0)
       (map (\<lambda>i. P2V a + of_nat (MPSIZE * i)) [0..<(len + MPSIZE - 1) div MPSIZE])"

definition mpsearch :: "memory \<Rightarrow> uint option" where
  "mpsearch m =
     (let bda = P2V 0x400;
          p = push_bit 4 (push_bit 8 (ucast (m (bda + 0x0F))) OR ucast (m (bda + 0x0E))) :: uint;
          found = (if p \<noteq> 0 then mpsearch1 m p 1024
                   else mpsearch1 m ((push_bit 8 (ucast (m (bda + 0x14))) OR ucast (m (bda + 0x13))) * 1024 - 1024) 1024)
      in case found of Some mp \<Rightarrow> Some mp | None \<Rightarrow> mpsearch1 m 0xF0000 0x10000)"

text \<open>The floating pointer has the table's address at 4 and \<open>imcrp\<close> at 12; the table its length at 4, its version at 6, \<open>lapicaddr\<close>
  at 36, and entries from 44 on.\<close>

definition mpconfig :: "memory \<Rightarrow> (uint \<times> uint) option" where
  "mpconfig m =
     (case mpsearch m of
        None \<Rightarrow> None
      | Some mp \<Rightarrow>
          if rd32 m (mp + 4) = 0 then None
          else
            let conf = P2V (rd32 m (mp + 4)) in
            if bytes_at m conf 4 \<noteq> map of_char ''PCMP'' then None
            else if m (conf + 6) \<noteq> 1 \<and> m (conf + 6) \<noteq> 4 then None
            else if mp_sum m conf (unat (rd16 m (conf + 4))) \<noteq> 0 then None
            else Some (mp, conf))"

definition MPPROC :: uchar where "MPPROC = 0"
definition MPBUS :: uchar where "MPBUS = 1"
definition MPIOAPIC :: uchar where "MPIOAPIC = 2"
definition MPIOINTR :: uchar where "MPIOINTR = 3"
definition MPLINTR :: uchar where "MPLINTR = 4"
definition MPBOOT :: uchar where "MPBOOT = 2"

text \<open>The case of a processor's entry at \<open>p\<close>.\<close>

definition mpproc_entry :: "uint \<Rightarrow> ('z kmp_scheme, unit) kop" where
  "mpproc_entry p =
     bnd (gets mem) (\<lambda>m.
     bnd (gets ncpu) (\<lambda>n.
     andthen
       (whenever (n \<noteq> unat (m (p + 1)))
         (andthen (cprintf (''mpinit: ncpu=%d apicid=%d'' @ [CHR 0x0A]) [ArgInt (of_nat n), ArgInt (ucast (m (p + 1)))])
         (upd (\<lambda>s. s\<lparr>ismp := False\<rparr>))))
     (andthen (whenever (m (p + 3) AND MPBOOT \<noteq> 0) (upd (\<lambda>s. s\<lparr>bcpu := n\<rparr>)))
     (bnd (gets cpus) (\<lambda>cs.
     if n < length cs then
       andthen (upd (\<lambda>s. s\<lparr>cpus := (cpus s)[n := (cpus s ! n)\<lparr>c_id := of_nat n\<rparr>]\<rparr>))
       (upd (\<lambda>s. s\<lparr>ncpu := n + 1\<rparr>))
     else fault ''cpus'')))))"

text \<open>The loop over the entries from \<open>p\<close> to \<open>e\<close>; it may run \<open>k\<close> times before it counts as running on.\<close>

fun mpinit_loop :: "nat \<Rightarrow> uint \<Rightarrow> uint \<Rightarrow> ('z kmp_scheme, unit) kop" where
  "mpinit_loop 0 e p = spin"
| "mpinit_loop (Suc k) e p =
     (if p < e then
        bnd (gets mem) (\<lambda>m.
        if m p = MPPROC then andthen (mpproc_entry p) (mpinit_loop k e (p + 20))
        else if m p = MPIOAPIC then
          andthen (upd (\<lambda>s. s\<lparr>ioapicid := m (p + 1)\<rparr>)) (mpinit_loop k e (p + 8))
        else if m p = MPBUS \<or> m p = MPIOINTR \<or> m p = MPLINTR then mpinit_loop k e (p + 8)
        else
          andthen (cprintf (''mpinit: unknown config type %x'' @ [CHR 0x0A]) [ArgInt (ucast (m p))])
          (andthen (upd (\<lambda>s. s\<lparr>ismp := False\<rparr>))
          (mpinit_loop k e p)))
      else ret ())"

definition outb :: "ushort \<Rightarrow> uchar \<Rightarrow> ('z kmp_scheme, unit) kop" where
  "outb port v = upd (\<lambda>s. s\<lparr>ports := ports s @ [(port, v)]\<rparr>)"

definition mpinit :: "nat \<Rightarrow> uchar \<Rightarrow> ('z kmp_scheme, unit) kop" where
  "mpinit k imcr =
     andthen (upd (\<lambda>s. s\<lparr>bcpu := 0\<rparr>))
     (bnd (gets mem) (\<lambda>m.
     case mpconfig m of
       None \<Rightarrow> ret ()
     | Some (mp, conf) \<Rightarrow>
         andthen (upd (\<lambda>s. s\<lparr>ismp := True, lapic := rd32 m (conf + 36)\<rparr>))
         (andthen (mpinit_loop k (conf + ucast (rd16 m (conf + 4))) (conf + 44))
         (bnd (gets ismp) (\<lambda>y.
         if \<not> y then upd (\<lambda>s. s\<lparr>ncpu := 1, lapic := 0, ioapicid := 0\<rparr>)
         else whenever (m (mp + 12) \<noteq> 0) (andthen (outb 0x22 0x70) (outb 0x23 (imcr OR 1)))))))) "

section \<open>Tables of known entries\<close>

text \<open>The types of the entries from \<open>p\<close> to \<open>e\<close>, in order.\<close>

definition entry_size :: "uchar \<Rightarrow> uint" where
  "entry_size t = (if t = MPPROC then 20 else 8)"

fun mptable :: "memory \<Rightarrow> uint \<Rightarrow> (uchar \<times> uchar) list \<Rightarrow> uint \<Rightarrow> bool" where
  "mptable m p [] e \<longleftrightarrow> p = e"
| "mptable m p ((t, v) # ts) e \<longleftrightarrow> p < e \<and> m p = t \<and> m (p + 1) = v \<and> t \<le> MPLINTR \<and> mptable m (p + entry_size t) ts e"

text \<open>The identifiers of the processors in such a table.\<close>

definition apicids :: "(uchar \<times> uchar) list \<Rightarrow> uchar list" where
  "apicids ts = map snd (filter (\<lambda>x. fst x = MPPROC) ts)"

lemma known_type: "t \<le> MPLINTR \<Longrightarrow> t = MPPROC \<or> t = MPBUS \<or> t = MPIOAPIC \<or> t = MPIOINTR \<or> t = MPLINTR"
proof -
  assume "t \<le> MPLINTR"
  then have "unat t \<le> 4" by (simp add: MPLINTR_def word_le_nat_alt)
  then have "unat t = 0 \<or> unat t = 1 \<or> unat t = 2 \<or> unat t = 3 \<or> unat t = 4" by linarith
  moreover have "of_nat (unat t) = t" by simp
  ultimately have "t = of_nat 0 \<or> t = of_nat 1 \<or> t = of_nat 2 \<or> t = of_nat 3 \<or> t = of_nat 4" by metis
  then show ?thesis by (simp add: MPPROC_def MPBUS_def MPIOAPIC_def MPIOINTR_def MPLINTR_def)
qed

text \<open>\<open>numbered n cs\<close>: the first \<open>n\<close> processors have their numbers as identifiers.\<close>

definition numbered :: "nat \<Rightarrow> cpu list \<Rightarrow> bool" where
  "numbered n cs \<longleftrightarrow> (\<forall>i < n. c_id (cs ! i) = of_nat i)"

lemma wp_mpproc_entry:
  assumes m: "unat (mem s (p + 1)) = ncpu s" and n: "ncpu s < length (cpus s)" "numbered (ncpu s) (cpus s)"
    and K: "\<And>t. mem t = mem s \<Longrightarrow> ncpu t = ncpu s + 1 \<Longrightarrow> ismp t = ismp s \<Longrightarrow> lapic t = lapic s \<Longrightarrow> length (cpus t) = length (cpus s) \<Longrightarrow>
      numbered (ncpu s + 1) (cpus t) \<Longrightarrow> R () t"
  shows "wp (mpproc_entry p) R s"
proof -
  have "numbered (ncpu s + 1) ((cpus s)[ncpu s := (cpus s ! ncpu s)\<lparr>c_id := of_nat (ncpu s)\<rparr>])"
    using n by (auto simp: numbered_def nth_list_update less_Suc_eq)
  then show ?thesis using m n by (simp add: mpproc_entry_def wp_rules) (auto intro!: K)
qed

lemma wp_mpinit_loop:
  fixes s :: "'z kmp_scheme"
  assumes "mptable (mem s) p ts e" and "apicids ts = map of_nat [ncpu s..<n]" and "ncpu s \<le> n" "n \<le> length (cpus s)" "n \<le> 256"
    and "numbered (ncpu s) (cpus s)" and "length ts < k"
    and "\<And>t. ncpu t = n \<Longrightarrow> ismp t = ismp s \<Longrightarrow> mem t = mem s \<Longrightarrow> lapic t = lapic s \<Longrightarrow> numbered n (cpus t) \<Longrightarrow> R () t"
  shows "wp (mpinit_loop k e p) R s"
  using assms
proof (induction ts arbitrary: k p s)
  case Nil
  then have "ncpu s = n" "p = e" by (auto simp: apicids_def)
  then have "R () s" using Nil.prems(6) by (intro Nil.prems(8)) simp_all
  then show ?case using \<open>p = e\<close> Nil.prems(7) by (cases k) (simp_all add: wp_ret)
next
  case (Cons x ts)
  obtain t v where x: "x = (t, v)" by (cases x)
  obtain j where k: "k = Suc j" "length ts < j" using Cons.prems(7) by (cases k) auto
  have p: "p < e" "mem s p = t" "mem s (p + 1) = v" "t \<le> MPLINTR" "mptable (mem s) (p + entry_size t) ts e" using Cons.prems(1) by (simp_all add: x)
  show ?case
  proof (cases "t = MPPROC")
    case True
    then have a: "v # apicids ts = map of_nat [ncpu s..<n]" using Cons.prems(2) by (simp add: x apicids_def)
    then have lt: "ncpu s < n" by (cases "ncpu s < n") simp_all
    then have "[ncpu s..<n] = ncpu s # [ncpu s + 1..<n]" by (simp add: upt_conv_Cons)
    then have v: "v = of_nat (ncpu s)" "apicids ts = map of_nat [ncpu s + 1..<n]" using a by simp_all
    have "wp (mpproc_entry p) (\<lambda>_. wp (mpinit_loop j e (p + 20)) R) s"
    proof (rule wp_mpproc_entry)
      show "unat (mem s (p + 1)) = ncpu s" using p(3) v(1) lt Cons.prems(5) by (simp add: unat_of_nat)
      fix u :: "'z kmp_scheme" assume u: "mem u = mem s" "ncpu u = ncpu s + 1" "ismp u = ismp s" "lapic u = lapic s" "length (cpus u) = length (cpus s)"
        "numbered (ncpu s + 1) (cpus u)"
      show "wp (mpinit_loop j e (p + 20)) R u"
        by (rule Cons.IH) (use u p(5) True v lt k(2) Cons.prems(4,5,8) in \<open>simp_all add: entry_size_def\<close>)
    qed (use lt Cons.prems in simp_all)
    then show ?thesis using p True by (simp add: k(1) wp_rules)
  next
    case False
    then have a: "apicids ts = map of_nat [ncpu s..<n]" using Cons.prems(2) by (simp add: x apicids_def)
    have z: "entry_size t = 8" using False by (simp add: entry_size_def)
    have "wp (mpinit_loop j e (p + 8)) R (if t = MPIOAPIC then s\<lparr>ioapicid := v\<rparr> else s)"
      by (rule Cons.IH) (use p(5) z a k(2) Cons.prems(3-6,8) in \<open>simp_all split: if_splits\<close>)
    then show ?thesis using p False known_type [OF p(4)] by (cases "t = MPIOAPIC") (auto simp: k(1) wp_rules)
  qed
qed

text \<open>
  C37. \<open>mpinit\<close> reads a sound table: when the table the BIOS left is found and has only entries of the five known types, the
  identifiers of its processors are 0, 1, 2 and so on, and there are no more than \<open>NCPU\<close>, \<open>mpinit\<close> returns after one turn of its
  loop for each entry; the number of CPUs is the number of processor entries, each CPU has its number as its identifier, and
  the address of the local interrupt controller is the one in the table.
\<close>

theorem mpinit_reads_table:
  assumes "mpconfig (mem s) = Some (mp, conf)" and "mptable (mem s) (conf + 44) ts (conf + ucast (rd16 (mem s) (conf + 4)))"
    and "apicids ts = map of_nat [0..<n]" and "n \<le> length (cpus s)" and "n \<le> 256" and "ncpu s = 0" and "length ts < k"
  shows "\<exists>t. mpinit k imcr s = Done () t \<and> ncpu t = n \<and> ismp t \<and> lapic t = rd32 (mem s) (conf + 36) \<and> numbered n (cpus t)"
proof -
  let ?s = "s\<lparr>bcpu := 0, ismp := True, lapic := rd32 (mem s) (conf + 36)\<rparr>"
  let ?Q = "\<lambda>t. ncpu t = n \<and> ismp t \<and> lapic t = rd32 (mem s) (conf + 36) \<and> numbered n (cpus t)"
  have "wp (mpinit_loop k (conf + ucast (rd16 (mem s) (conf + 4))) (conf + 44)) (\<lambda>_ t. ?Q t) ?s"
    by (rule wp_mpinit_loop [where ts = ts and n = n]) (use assms in \<open>simp_all add: numbered_def\<close>)
  then have "wp (mpinit k imcr) (\<lambda>_ t. ?Q t) s"
    using assms(1) by (simp add: mpinit_def wp_rules outb_def) (erule wp_mono, simp add: wp_rules outb_def)
  then show ?thesis by (auto simp: wp_iff_Done)
qed

lemma mpinit_loop_spins:
  fixes s :: "'z kmp_scheme"
  assumes "kst {} s" and "p < e" and "mem s p > MPLINTR"
  shows "\<exists>t. mpinit_loop n e p s = Spin t"
  using assms
proof (induction n arbitrary: s)
  case 0
  then show ?case by (simp add: spin_def)
next
  case (Suc n)
  let ?m = "cprintf (''mpinit: unknown config type %x'' @ [CHR 0x0A]) [ArgInt (ucast (mem s p))]"
  have "wp ?m (\<lambda>_ t. kst {} t \<and> mem t = mem s) s"
    by (rule wp_cprintf_k [OF Suc.prems(1)]) (simp_all add: kstep_kmem)
  then obtain t where t: "?m s = Done () t" "kst {} t" "mem t = mem s" by (auto simp: wp_iff_Done)
  let ?t = "t\<lparr>ismp := False\<rparr>"
  have "kst {} ?t = kst {} t" by (rule kst_eqI) simp_all
  then obtain u where u: "mpinit_loop n e p ?t = Spin u" using Suc.IH [of ?t] Suc.prems(2,3) t(2,3) by auto
  have "mem s p \<noteq> MPPROC" "mem s p \<noteq> MPIOAPIC" "mem s p \<noteq> MPBUS" "mem s p \<noteq> MPIOINTR" "mem s p \<noteq> MPLINTR"
    using Suc.prems(3) by (auto simp: MPPROC_def MPBUS_def MPIOAPIC_def MPIOINTR_def MPLINTR_def)
  then have "mpinit_loop (Suc n) e p s = Spin u"
    using Suc.prems(2) t(1) u by (simp add: bnd_def andthen_def gets_def upd_def)
  then show ?case by blast
qed

text \<open>
  C38. An entry of another type hangs the machine: when the first entry of the table has a type above \<open>MPLINTR\<close>, \<open>mpinit\<close> reports it
  and goes round its loop again at the same entry, however often it has done so already, and never returns.
\<close>

theorem mpinit_never_returns:
  assumes k: "kst {} s" and c: "mpconfig (mem s) = Some (mp, conf)" and e: "conf + 44 < conf + ucast (rd16 (mem s) (conf + 4))"
    and t: "mem s (conf + 44) > MPLINTR"
  shows "\<exists>t. mpinit n imcr s = Spin t"
proof -
  let ?s = "s\<lparr>bcpu := 0, ismp := True, lapic := rd32 (mem s) (conf + 36)\<rparr>"
  have "kst {} ?s = kst {} s" by (rule kst_eqI) simp_all
  then obtain u where "mpinit_loop n (conf + ucast (rd16 (mem s) (conf + 4))) (conf + 44) ?s = Spin u"
    using mpinit_loop_spins [of ?s "conf + 44" "conf + ucast (rd16 (mem s) (conf + 4))" n] k e t by auto
  then show ?thesis using c by (simp add: mpinit_def bnd_def andthen_def gets_def upd_def)
qed

section \<open>An example\<close>

text \<open>
  A floating pointer at the start of the ROM area, to which the BIOS data area points too, and a table at 0x1000 with one
  processor, or with one entry of an unknown type.
\<close>

definition put_bytes :: "uint \<Rightarrow> uchar list \<Rightarrow> memory \<Rightarrow> memory" where
  "put_bytes a bs m = (\<lambda>x. if unat (x - a) < length bs then bs ! unat (x - a) else m x)"

definition demo_mp :: "uchar list" where
  "demo_mp = [0x5F, 0x4D, 0x50, 0x5F, 0, 0x10, 0, 0, 1, 4, 0x90, 0, 0, 0, 0, 0]"

definition demo_bios :: "uchar list \<Rightarrow> memory" where
  "demo_bios tab = put_bytes 0x800F0000 demo_mp (put_bytes 0x8000040E [0, 0xF0] (put_bytes 0x80001000 tab (\<lambda>_. 0)))"

definition demo_conf :: "uchar \<Rightarrow> uchar \<Rightarrow> uchar list \<Rightarrow> uchar list" where
  "demo_conf len chk es = [0x50, 0x43, 0x4D, 0x50, len, 0, 4, chk] @ replicate 28 0 @ [0, 0, 0xE0, 0xFE] @ replicate 4 0 @ es"

definition demo_good :: "uchar list" where
  "demo_good = demo_conf 64 0x97 ([0, 0, 0x14, 3] @ replicate 16 0)"

definition demo_bad :: "uchar list" where
  "demo_bad = demo_conf 52 0xB3 (7 # replicate 7 0)"

lemma bytes_at_put: "n \<le> length bs \<Longrightarrow> length bs < 2 ^ 32 \<Longrightarrow> bytes_at (put_bytes a bs m) a n = take n bs"
  by (rule nth_equalityI) (simp_all add: bytes_at_def put_bytes_def unat_of_nat)

lemma bytes_at_far:
  assumes "length bs \<le> unat (b - a)" and "unat (b - a) + n \<le> 2 ^ 32"
  shows "bytes_at (put_bytes a bs m) b n = bytes_at m b n"
proof -
  have "put_bytes a bs m (b + of_nat i) = m (b + of_nat i)" if "i < n" for i
  proof -
    have e: "b + of_nat i - a = (b - a) + of_nat i" by simp
    have "unat (b - a) + unat (of_nat i :: uint) < 2 ^ 32" using assms(2) that by (simp add: unat_of_nat)
    then have "unat (b + of_nat i - a) = unat (b - a) + i" unfolding e using assms(2) that by (simp add: unat_add_lem [THEN iffD1] unat_of_nat)
    then show ?thesis using assms(1) by (simp add: put_bytes_def)
  qed
  then show ?thesis by (simp add: bytes_at_def)
qed

lemma mpsearch1_first:
  "bytes_at m (P2V a) 4 = map of_char ''_MP_'' \<Longrightarrow> mp_sum m (P2V a) MPSIZE = 0 \<Longrightarrow> 0 < len \<Longrightarrow> mpsearch1 m a len = Some (P2V a)"
  by (simp add: mpsearch1_def MPSIZE_def upt_conv_Cons)

lemma demo_search: "mpsearch (demo_bios tab) = Some 0x800F0000"
proof -
  let ?m = "demo_bios tab"
  have "?m 0x8000040F = 0xF0" "?m 0x8000040E = 0" by (simp_all add: demo_bios_def put_bytes_def demo_mp_def)
  then have p: "push_bit 4 (push_bit 8 (ucast (?m (P2V 0x400 + 0x0F))) OR ucast (?m (P2V 0x400 + 0x0E))) = (0xF0000 :: uint)"
    by (simp add: P2V_def KERNBASE_def)
  have b: "bytes_at ?m 0x800F0000 n = take n demo_mp" if "n \<le> 16" for n
    unfolding demo_bios_def using that by (intro bytes_at_put) (simp_all add: demo_mp_def)
  have "bytes_at ?m (P2V 0xF0000) 4 = map of_char ''_MP_''" "mp_sum ?m (P2V 0xF0000) MPSIZE = 0"
    using b [of 4] b [of 16] by (simp_all add: P2V_def KERNBASE_def demo_mp_def mp_sum_def MPSIZE_def)
  then have "mpsearch1 ?m 0xF0000 1024 = Some (P2V 0xF0000)" by (intro mpsearch1_first) simp_all
  then show ?thesis unfolding mpsearch_def Let_def p by (simp add: P2V_def KERNBASE_def)
qed

lemma demo_conf_bytes:
  assumes "length tab \<le> 128" and "n \<le> length tab"
  shows "bytes_at (demo_bios tab) 0x80001000 n = take n tab"
proof -
  have "bytes_at (demo_bios tab) 0x80001000 n = bytes_at (put_bytes 0x8000040E [0, 0xF0] (put_bytes 0x80001000 tab (\<lambda>_. 0))) 0x80001000 n"
    unfolding demo_bios_def using assms by (intro bytes_at_far) (simp_all add: demo_mp_def)
  also have "\<dots> = bytes_at (put_bytes 0x80001000 tab (\<lambda>_. 0)) 0x80001000 n"
    using assms by (intro bytes_at_far) simp_all
  also have "\<dots> = take n tab" using assms by (intro bytes_at_put) simp_all
  finally show ?thesis .
qed

lemma demo_conf_byte: "length tab \<le> 128 \<Longrightarrow> i < length tab \<Longrightarrow> demo_bios tab (0x80001000 + of_nat i) = tab ! i"
  using arg_cong [OF demo_conf_bytes [of tab "length tab"], of "\<lambda>l. l ! i"] by (simp add: bytes_at_def)

lemma demo_mpconfig:
  assumes "tab = demo_conf len chk es" and "length tab = unat len" "unat len \<le> 128" and "sum_list tab = 0"
  shows "mpconfig (demo_bios tab) = Some (0x800F0000, 0x80001000)" "rd16 (demo_bios tab) 0x80001004 = ucast len"
    "rd32 (demo_bios tab) 0x80001024 = 0xFEE00000"
proof -
  let ?m = "demo_bios tab"
  have len: "length tab \<le> 128" "44 \<le> length tab" using assms by (simp_all add: demo_conf_def)
  note byte = demo_conf_byte [OF len(1)]
  have "?m 0x80001004 = len" "?m 0x80001005 = 0" and v: "?m 0x80001006 = 4"
    using byte [of 4] byte [of 5] byte [of 6] len(2) by (simp_all add: assms(1) demo_conf_def)
  then show l: "rd16 ?m 0x80001004 = ucast len" by (simp add: rd16_def)
  show "rd32 ?m 0x80001024 = 0xFEE00000"
    using byte [of 36] byte [of 37] byte [of 38] byte [of 39] len(2) by (simp add: rd32_def assms(1) demo_conf_def nth_append)
  have "?m 0x800F0004 = 0" "?m 0x800F0005 = 0x10" "?m 0x800F0006 = 0" "?m 0x800F0007 = 0"
    by (simp_all add: demo_bios_def put_bytes_def demo_mp_def)
  then have a: "rd32 ?m 0x800F0004 = 0x1000" by (simp add: rd32_def)
  have sig: "bytes_at ?m 0x80001000 4 = map of_char ''PCMP''" using demo_conf_bytes [OF len(1), of 4] len(2) by (simp add: assms(1) demo_conf_def)
  have s: "mp_sum ?m 0x80001000 (unat len) = 0" using demo_conf_bytes [OF len(1), of "unat len"] assms(2,4) by (simp add: mp_sum_def)
  have "unat (ucast len :: ushort) = unat len"
    unfolding unsigned_ucast_eq by (rule take_bit_nat_eq_self) (use assms(3) in simp)
  then show "mpconfig ?m = Some (0x800F0000, 0x80001000)"
    unfolding mpconfig_def demo_search using a sig v l s by (simp add: P2V_def KERNBASE_def)
qed

definition demo_kmp :: "uchar list \<Rightarrow> kmp" where
  "demo_kmp tab = kmem.extend (demo_mem\<lparr>mem := demo_bios tab\<rparr>)
     \<lparr>ismp = False, ncpu = 0, ioapicid = 0, lapic = 0, bcpu = 0, ports = []\<rparr>"

lemma demo_good_conf:
  "mpconfig (demo_bios demo_good) = Some (0x800F0000, 0x80001000)" "rd16 (demo_bios demo_good) 0x80001004 = 64"
  "rd32 (demo_bios demo_good) 0x80001024 = 0xFEE00000" "length demo_good = 64"
proof -
  have l: "length demo_good = 64" "sum_list demo_good = 0" by (simp_all add: demo_good_def demo_conf_def sum_list_replicate)
  then show "length demo_good = 64" by simp
  note c = demo_mpconfig [OF demo_good_def]
  show "mpconfig (demo_bios demo_good) = Some (0x800F0000, 0x80001000)" "rd16 (demo_bios demo_good) 0x80001004 = 64"
    "rd32 (demo_bios demo_good) 0x80001024 = 0xFEE00000" using c l by simp_all
qed

lemma demo_bad_conf:
  "mpconfig (demo_bios demo_bad) = Some (0x800F0000, 0x80001000)" "rd16 (demo_bios demo_bad) 0x80001004 = 52" "length demo_bad = 52"
proof -
  have l: "length demo_bad = 52" "sum_list demo_bad = 0" by (simp_all add: demo_bad_def demo_conf_def sum_list_replicate)
  then show "length demo_bad = 52" by simp
  note c = demo_mpconfig [OF demo_bad_def]
  show "mpconfig (demo_bios demo_bad) = Some (0x800F0000, 0x80001000)" "rd16 (demo_bios demo_bad) 0x80001004 = 52" using c l by simp_all
qed

lemma mpinit_reads_table_witness:
  "\<exists>t. mpinit 2 0 (demo_kmp demo_good) = Done () t \<and> ncpu t = 1 \<and> ismp t \<and> lapic t = 0xFEE00000 \<and> c_id (cpus t ! 0) = 0"
proof -
  let ?s = "demo_kmp demo_good"
  have m: "mem ?s = demo_bios demo_good" "ncpu ?s = 0" "0 < length (cpus ?s)"
    by (simp_all add: demo_kmp_def kmem.defs demo_mem_def kproc.defs demo_table_def boot_table_simps NCPU_def)
  have "demo_bios demo_good 0x8000102C = 0" "demo_bios demo_good 0x8000102D = 0"
    using demo_conf_byte [of demo_good 44] demo_conf_byte [of demo_good 45] by (simp_all add: demo_good_conf(4)) (simp_all add: demo_good_def demo_conf_def nth_append)
  then have "mptable (mem ?s) (0x80001000 + 44) [(0, 0)] (0x80001000 + ucast (rd16 (mem ?s) (0x80001000 + 4)))"
    by (simp add: m demo_good_conf MPLINTR_def entry_size_def MPPROC_def)
  from mpinit_reads_table [OF demo_good_conf(1) [folded m(1)] this, of 1 2 0]
  show ?thesis using m(2,3) by (auto simp: apicids_def MPPROC_def m(1) demo_good_conf(3) numbered_def)
qed

lemma mpinit_never_returns_witness: "\<exists>t. mpinit 1000 0 (demo_kmp demo_bad) = Spin t"
proof -
  let ?s = "demo_kmp demo_bad"
  have m: "mem ?s = demo_bios demo_bad" by (simp add: demo_kmp_def kmem.defs)
  have "demo_bios demo_bad 0x8000102C = 7"
    using demo_conf_byte [of demo_bad 44] by (simp add: demo_bad_conf(3)) (simp add: demo_bad_def demo_conf_def nth_append)
  moreover have "kst {} ?s" using demo_mem_kst by (subst kst_eqI [of _ demo_mem]) (simp_all add: demo_kmp_def kmem.defs)
  ultimately show ?thesis
    by (intro mpinit_never_returns [OF _ demo_bad_conf(1) [folded m]]) (simp_all add: m demo_bad_conf MPLINTR_def)
qed

end
