(* ===== verification/Devices.thy ===== *)
theory Devices
  imports Mp
begin

text \<open>
  The programming of the interrupt controllers, timers and the serial line: picirq.c, timer.c, ioapic.c, lapic.c and \<open>uartinit\<close> of
  uart.c. What goes out is kept: the bytes written to ports in \<open>ports\<close>, the registers of the I/O APIC in \<open>ioapic_regs\<close>, the writes to
  the local APIC in \<open>lapic_writes\<close>. What is read from a device whose answers are its own is an argument.
\<close>

section \<open>The two 8259A controllers\<close>

record kdev = kmp +
  irqmask :: ushort
  ioapic :: uint
  ioapic_regs :: "nat \<Rightarrow> uint"
  lapic_writes :: "(nat \<times> uint) list"
  cpunum_n :: int

definition IO_PIC1 :: ushort where "IO_PIC1 = 0x20"
definition IO_PIC2 :: ushort where "IO_PIC2 = 0xA0"
definition IRQ_SLAVE :: nat where "IRQ_SLAVE = 2"
definition T_IRQ0 :: nat where "T_IRQ0 = 32"
definition IRQ_TIMER :: nat where "IRQ_TIMER = 0"
definition IRQ_COM1 :: nat where "IRQ_COM1 = 4"
definition IRQ_ERROR :: nat where "IRQ_ERROR = 19"
definition IRQ_SPURIOUS :: nat where "IRQ_SPURIOUS = 31"

definition picsetmask :: "ushort \<Rightarrow> ('z kdev_scheme, unit) kop" where
  "picsetmask msk =
     andthen (upd (\<lambda>s. s\<lparr>irqmask := msk\<rparr>))
     (andthen (outb (IO_PIC1 + 1) (ucast msk))
     (outb (IO_PIC2 + 1) (ucast (drop_bit 8 msk))))"

definition picenable :: "nat \<Rightarrow> ('z kdev_scheme, unit) kop" where
  "picenable irq = bnd (gets irqmask) (\<lambda>m. picsetmask (m AND NOT (push_bit irq 1)))"

text \<open>The initial value of \<open>irqmask\<close>: everything masked but the line of the second controller.\<close>

definition irqmask_init :: ushort where
  "irqmask_init = NOT (push_bit IRQ_SLAVE 1)"

definition outbs :: "(ushort \<times> uchar) list \<Rightarrow> ('z kmp_scheme, unit) kop" where
  "outbs ws = for_each ws (\<lambda>(port, v). outb port v)"

definition picinit :: "('z kdev_scheme, unit) kop" where
  "picinit =
     andthen (outbs [(IO_PIC1 + 1, 0xFF), (IO_PIC2 + 1, 0xFF),
       (IO_PIC1, 0x11), (IO_PIC1 + 1, of_nat T_IRQ0), (IO_PIC1 + 1, push_bit IRQ_SLAVE 1), (IO_PIC1 + 1, 3),
       (IO_PIC2, 0x11), (IO_PIC2 + 1, of_nat (T_IRQ0 + 8)), (IO_PIC2 + 1, of_nat IRQ_SLAVE), (IO_PIC2 + 1, 3),
       (IO_PIC1, 0x68), (IO_PIC1, 0x0A), (IO_PIC2, 0x68), (IO_PIC2, 0x0A)])
     (bnd (gets irqmask) (\<lambda>m. whenever (m \<noteq> 0xFFFF) (picsetmask m)))"

section \<open>The timer\<close>

definition IO_TIMER1 :: ushort where "IO_TIMER1 = 0x40"

definition TIMER_DIV :: "nat \<Rightarrow> nat" where
  "TIMER_DIV x = (1193182 + x div 2) div x"

definition timerinit :: "('z kdev_scheme, unit) kop" where
  "timerinit =
     andthen (outbs [(IO_TIMER1 + 3, 0x00 OR 0x04 OR 0x30), (IO_TIMER1, of_nat (TIMER_DIV 100 mod 256)), (IO_TIMER1, of_nat (TIMER_DIV 100 div 256))])
     (picenable IRQ_TIMER)"

section \<open>The I/O APIC\<close>

definition IOAPIC :: uint where "IOAPIC = 0xFEC00000"
definition REG_ID :: nat where "REG_ID = 0"
definition REG_VER :: nat where "REG_VER = 1"
definition REG_TABLE :: nat where "REG_TABLE = 0x10"
definition INT_DISABLED :: uint where "INT_DISABLED = 0x10000"

definition ioapicread :: "nat \<Rightarrow> ('z kdev_scheme, uint) kop" where
  "ioapicread reg = gets (\<lambda>s. ioapic_regs s reg)"

definition ioapicwrite :: "nat \<Rightarrow> uint \<Rightarrow> ('z kdev_scheme, unit) kop" where
  "ioapicwrite reg v = upd (\<lambda>s. s\<lparr>ioapic_regs := (ioapic_regs s)(reg := v)\<rparr>)"

definition ioapicinit :: "('z kdev_scheme, unit) kop" where
  "ioapicinit =
     bnd (gets ismp) (\<lambda>mp.
     if \<not> mp then ret ()
     else
       andthen (upd (\<lambda>s. s\<lparr>ioapic := IOAPIC\<rparr>))
       (bnd (ioapicread REG_VER) (\<lambda>ver.
       bnd (ioapicread REG_ID) (\<lambda>idr.
       bnd (gets ioapicid) (\<lambda>apic.
       andthen
         (whenever (drop_bit 24 idr \<noteq> ucast apic)
           (cprintf (''ioapicinit: id isn'' @ [CHR 0x27] @ ''t equal to ioapicid; not a MP'' @ [CHR 0x0A]) []))
       (for_each [0..<unat (drop_bit 16 ver AND 0xFF) + 1] (\<lambda>i.
         andthen (ioapicwrite (REG_TABLE + 2 * i) (INT_DISABLED OR of_nat (T_IRQ0 + i)))
         (ioapicwrite (REG_TABLE + 2 * i + 1) 0))))))))"

definition ioapicenable :: "nat \<Rightarrow> uint \<Rightarrow> ('z kdev_scheme, unit) kop" where
  "ioapicenable irq cpunum =
     bnd (gets ismp) (\<lambda>mp.
     if \<not> mp then ret ()
     else
       andthen (ioapicwrite (REG_TABLE + 2 * irq) (of_nat (T_IRQ0 + irq)))
       (ioapicwrite (REG_TABLE + 2 * irq + 1) (push_bit 24 cpunum)))"

section \<open>The local APIC\<close>

definition TPR :: nat where "TPR = 0x80 div 4"
definition EOI :: nat where "EOI = 0xB0 div 4"
definition SVR :: nat where "SVR = 0xF0 div 4"
definition ESR :: nat where "ESR = 0x280 div 4"
definition ICRLO :: nat where "ICRLO = 0x300 div 4"
definition ICRHI :: nat where "ICRHI = 0x310 div 4"
definition TIMER :: nat where "TIMER = 0x320 div 4"
definition PCINT :: nat where "PCINT = 0x340 div 4"
definition LINT0 :: nat where "LINT0 = 0x350 div 4"
definition LINT1 :: nat where "LINT1 = 0x360 div 4"
definition ERROR :: nat where "ERROR = 0x370 div 4"
definition TICR :: nat where "TICR = 0x380 div 4"
definition TDCR :: nat where "TDCR = 0x3E0 div 4"

definition lapicw :: "nat \<Rightarrow> uint \<Rightarrow> ('z kdev_scheme, unit) kop" where
  "lapicw index v = upd (\<lambda>s. s\<lparr>lapic_writes := lapic_writes s @ [(index, v)]\<rparr>)"

text \<open>The wait for the delivery status to clear, on what the register reads as in turn.\<close>

fun lapic_wait :: "uint list \<Rightarrow> ('z kdev_scheme, unit) kop" where
  "lapic_wait [] = spin"
| "lapic_wait (v # vs) = (if v AND 0x1000 \<noteq> 0 then lapic_wait vs else ret ())"

text \<open>\<open>ver\<close> is what the version register reads as, \<open>icr\<close> what the command register does.\<close>

definition lapicinit :: "uint \<Rightarrow> uint list \<Rightarrow> ('z kdev_scheme, unit) kop" where
  "lapicinit ver icr =
     bnd (gets lapic) (\<lambda>l.
     if l = 0 then ret ()
     else
       andthen (for_each [(SVR, 0x100 OR of_nat (T_IRQ0 + IRQ_SPURIOUS)), (TDCR, 0xB), (TIMER, 0x20000 OR of_nat (T_IRQ0 + IRQ_TIMER)),
         (TICR, 10000000), (LINT0, 0x10000), (LINT1, 0x10000)] (\<lambda>(i, v). lapicw i v))
       (andthen (whenever (drop_bit 16 ver AND 0xFF \<ge> 4) (lapicw PCINT 0x10000))
       (andthen (for_each [(ERROR, of_nat (T_IRQ0 + IRQ_ERROR)), (ESR, 0), (ESR, 0), (EOI, 0), (ICRHI, 0),
         (ICRLO, 0x80000 OR 0x500 OR 0x8000)] (\<lambda>(i, v). lapicw i v))
       (andthen (lapic_wait icr)
       (lapicw TPR 0)))))"

text \<open>\<open>idr\<close> is what the identifier register reads as, \<open>ra\<close> the return address.\<close>

definition cpunum :: "uint \<Rightarrow> uint \<Rightarrow> ('z kdev_scheme, uint) kop" where
  "cpunum idr ra =
     bnd (gets (\<lambda>s. c_if (thecpu s))) (\<lambda>fl.
     andthen
       (whenever fl
         (bnd (gets cpunum_n) (\<lambda>n.
         andthen (upd (\<lambda>s. s\<lparr>cpunum_n := n + 1\<rparr>))
         (whenever (n = 0) (cprintf (''cpu called from %x with interrupts enabled'' @ [CHR 0x0A]) [ArgInt ra])))))
     (bnd (gets lapic) (\<lambda>l. ret (if l \<noteq> 0 then drop_bit 24 idr else 0))))"

definition lapiceoi :: "('z kdev_scheme, unit) kop" where
  "lapiceoi = bnd (gets lapic) (\<lambda>l. whenever (l \<noteq> 0) (lapicw EOI 0))"

text \<open>\<open>wrv\<close>, the warm reset vector, is two 16-bit words at physical address 0x467.\<close>

definition lapicstartap :: "uchar \<Rightarrow> uint \<Rightarrow> ('z kdev_scheme, unit) kop" where
  "lapicstartap apicid addr =
     andthen (outbs [(0x70, 0xF), (0x71, 0x0A)])
     (andthen (upd (\<lambda>s. s\<lparr>mem := (mem s)(P2V 0x467 := 0, P2V 0x468 := 0, P2V 0x469 := ucast (drop_bit 4 addr), P2V 0x46A := ucast (drop_bit 12 addr))\<rparr>))
     (andthen (for_each [(ICRHI, push_bit 24 (ucast apicid)), (ICRLO, 0x500 OR 0x8000 OR 0x4000), (ICRLO, 0x500 OR 0x8000)] (\<lambda>(i, v). lapicw i v))
     (for_each [0, 1 :: nat] (\<lambda>i.
       andthen (lapicw ICRHI (push_bit 24 (ucast apicid))) (lapicw ICRLO (0x600 OR drop_bit 12 addr))))))"

section \<open>The serial line\<close>

definition COM1 :: ushort where "COM1 = 0x3F8"

text \<open>\<open>lsr\<close> is what the line status register reads as.\<close>

definition uartinit :: "uchar \<Rightarrow> ('z kdev_scheme, unit) kop" where
  "uartinit lsr =
     andthen (outbs [(COM1 + 2, 0), (COM1 + 3, 0x80), (COM1, of_nat (115200 div 9600)), (COM1 + 1, 0), (COM1 + 3, 3), (COM1 + 4, 0), (COM1 + 1, 1)])
     (if lsr = 0xFF then ret ()
      else
        andthen (upd (\<lambda>s. s\<lparr>uart := True\<rparr>))
        (andthen (picenable IRQ_COM1)
        (andthen (ioapicenable IRQ_COM1 0)
        (for_each (''xv6...'' @ [CHR 0x0A]) (\<lambda>c. uartputc (of_char c))))))"

section \<open>Interrupt masks\<close>

text \<open>What was last written to a port, and whether the controllers mask an interrupt line by what was last written to them.\<close>

definition last_out :: "ushort \<Rightarrow> 'z kmp_scheme \<Rightarrow> uchar" where
  "last_out port s = the (map_of (rev (ports s)) port)"

definition irq_masked :: "'z kmp_scheme \<Rightarrow> nat \<Rightarrow> bool" where
  "irq_masked s irq \<longleftrightarrow> bit (last_out (if irq < 8 then IO_PIC1 + 1 else IO_PIC2 + 1) s) (irq mod 8)"

definition pics_set :: "'z kdev_scheme \<Rightarrow> bool" where
  "pics_set s \<longleftrightarrow> last_out (IO_PIC1 + 1) s = ucast (irqmask s) \<and> last_out (IO_PIC2 + 1) s = ucast (drop_bit 8 (irqmask s))"

lemma wp_picsetmask:
  assumes "\<And>t. pics_set t \<Longrightarrow> irqmask t = m \<Longrightarrow> R () t"
  shows "wp (picsetmask m) R s"
proof -
  let ?t = "s\<lparr>irqmask := m, ports := ports s @ [(IO_PIC1 + 1, ucast m), (IO_PIC2 + 1, ucast (drop_bit 8 m))]\<rparr>"
  have "pics_set ?t" by (simp add: pics_set_def last_out_def IO_PIC1_def IO_PIC2_def)
  then have "R () ?t" by (intro assms) simp_all
  then show ?thesis by (simp add: picsetmask_def outb_def wp_rules)
qed

lemma pics_masked: "pics_set s \<Longrightarrow> i < 16 \<Longrightarrow> irq_masked s i \<longleftrightarrow> bit (irqmask s) i"
proof -
  assume s: "pics_set s" and i: "i < 16"
  have "\<not> i < 8 \<Longrightarrow> 8 + i mod 8 = i" using i by presburger
  then show ?thesis using s by (cases "i < 8") (simp_all add: irq_masked_def pics_set_def bit_simps)
qed

lemma wp_picenables:
  fixes s :: "'z kdev_scheme"
  assumes "pics_set s" and "\<And>t. pics_set t \<Longrightarrow> (\<And>i. bit (irqmask t) i \<longleftrightarrow> bit (irqmask s) i \<and> i \<notin> set irqs) \<Longrightarrow> R () t"
  shows "wp (for_each irqs picenable) R s"
  using assms
proof (induction irqs arbitrary: s)
  case Nil
  then show ?case by (simp add: wp_ret)
next
  case (Cons irq irqs)
  have "wp (picenable irq) (\<lambda>_. wp (for_each irqs picenable) R) s"
    unfolding picenable_def [of irq] wp_bnd wp_gets
  proof (rule wp_picsetmask)
    fix t :: "'z kdev_scheme" assume t: "pics_set t" "irqmask t = irqmask s AND NOT (push_bit irq 1)"
    have "R () u" if u: "pics_set u" "\<And>i. bit (irqmask u) i \<longleftrightarrow> bit (irqmask t) i \<and> i \<notin> set irqs" for u
      by (rule Cons.prems(2) [OF u(1)]) (auto simp: u(2) t(2) bit_simps dest: bit_imp_le_length)
    then show "wp (for_each irqs picenable) R t" by (rule Cons.IH [OF t(1)])
  qed
  then show ?case by (simp add: wp_andthen)
qed

text \<open>
  C39. The interrupt controllers do what was asked of them: after \<open>picinit\<close>, on the initial mask, and any sequence of calls of \<open>picenable\<close>,
  the masks last written to the two controllers let through exactly the lines that were enabled and the line that joins them.
\<close>

theorem picenable_unmasks:
  fixes s :: "'z kdev_scheme"
  assumes "irqmask s = irqmask_init"
  shows "wp (andthen picinit (for_each irqs picenable)) (\<lambda>_ t. \<forall>i < 16. irq_masked t i \<longleftrightarrow> i \<notin> set irqs \<and> i \<noteq> IRQ_SLAVE) s"
proof -
  have ne: "irqmask_init \<noteq> 0xFFFF" by (simp add: irqmask_init_def IRQ_SLAVE_def)
  have b: "bit irqmask_init i \<longleftrightarrow> i < 16 \<and> i \<noteq> IRQ_SLAVE" for i by (auto simp: irqmask_init_def bit_simps)
  let ?R = "\<lambda>_ t. \<forall>i < 16. irq_masked t i \<longleftrightarrow> i \<notin> set irqs \<and> i \<noteq> IRQ_SLAVE"
  have "wp (picsetmask irqmask_init) (\<lambda>_. wp (for_each irqs picenable) ?R) t" for t :: "'z kdev_scheme"
  proof (rule wp_picsetmask)
    fix u :: "'z kdev_scheme" assume u: "pics_set u" "irqmask u = irqmask_init"
    show "wp (for_each irqs picenable) ?R u" by (rule wp_picenables [OF u(1)]) (auto simp: pics_masked u(2) b)
  qed
  then show ?thesis using assms ne by (simp add: picinit_def outbs_def outb_def wp_rules)
qed

definition demo_dev :: kdev where
  "demo_dev = kmp.extend (demo_kmp []) \<lparr>irqmask = irqmask_init, ioapic = 0, ioapic_regs = (\<lambda>_. 0), lapic_writes = [], cpunum_n = 0\<rparr>"

lemma picenable_unmasks_witness:
  "wp (andthen picinit (for_each [0, 14] picenable)) (\<lambda>_ t. \<not> irq_masked t 0 \<and> irq_masked t 1 \<and> \<not> irq_masked t 2 \<and> \<not> irq_masked t 14) demo_dev"
proof -
  have "irqmask demo_dev = irqmask_init" by (simp add: demo_dev_def kmp.defs)
  from picenable_unmasks [OF this, of "[0, 14]"] show ?thesis by (rule wp_mono) (simp add: IRQ_SLAVE_def)
qed

end
