(* ===== verification/Ide.thy ===== *)
theory Ide
  imports Bio Kernel_Frame
begin

text \<open>
  ide.c: the driver of the IDE disk, with its queue of buffers linked through \<open>qnext\<close>. The controller is its ports: \<open>ide_status\<close> is what the
  status port reads as, \<open>ide_ports\<close> the bytes written, \<open>ide_out\<close> the sectors sent, \<open>ide_in\<close> the sector it has ready. A driver that waits
  for a controller that does not become ready spins. The rest of the development has memide.c in its place.
\<close>

section \<open>Definitions\<close>

record kide = kbio +
  idequeue :: "nat option"
  havedisk1 :: bool
  ide_status :: uchar
  ide_ports :: "(ushort \<times> uchar) list"
  ide_out :: "uchar list list"
  ide_in :: "uchar list"

definition IDE_BSY :: uchar where "IDE_BSY = 0x80"
definition IDE_DRDY :: uchar where "IDE_DRDY = 0x40"
definition IDE_DF :: uchar where "IDE_DF = 0x20"
definition IDE_ERR :: uchar where "IDE_ERR = 0x01"
definition IDE_CMD_READ :: uchar where "IDE_CMD_READ = 0x20"
definition IDE_CMD_WRITE :: uchar where "IDE_CMD_WRITE = 0x30"

definition ide_outb :: "ushort \<Rightarrow> uchar \<Rightarrow> ('z kide_scheme, unit) kop" where
  "ide_outb port v = upd (\<lambda>s. s\<lparr>ide_ports := ide_ports s @ [(port, v)]\<rparr>)"

definition idewait :: "bool \<Rightarrow> ('z kide_scheme, int) kop" where
  "idewait checkerr =
     bnd (gets ide_status) (\<lambda>r.
     if r AND (IDE_BSY OR IDE_DRDY) \<noteq> IDE_DRDY then spin
     else if checkerr \<and> r AND (IDE_DF OR IDE_ERR) \<noteq> 0 then ret (-1)
     else ret 0)"

text \<open>\<open>probe\<close> is what the status port reads as in the 1000 turns of the loop that looks for disk 1.\<close>

definition ideinit :: "(nat \<Rightarrow> uchar) \<Rightarrow> ('z kide_scheme, unit) kop" where
  "ideinit probe =
     andthen (initlock IdeLock ''ide'')
     (andthen (idewait False)
     (andthen (ide_outb 0x1F6 (0xE0 OR push_bit 4 1))
     (andthen (whenever (\<exists>i \<in> set [0..<1000]. probe i \<noteq> 0) (upd (\<lambda>s. s\<lparr>havedisk1 := True\<rparr>)))
     (ide_outb 0x1F6 0xE0))))"

definition outsl :: "uchar list \<Rightarrow> ('z kide_scheme, unit) kop" where
  "outsl d = upd (\<lambda>s. s\<lparr>ide_out := ide_out s @ [d]\<rparr>)"

definition insl :: "nat \<Rightarrow> ('z kide_scheme, unit) kop" where
  "insl b = bnd (gets ide_in) (\<lambda>d. bufset b (\<lambda>r. r\<lparr>b_data := d\<rparr>))"

definition idestart :: "nat option \<Rightarrow> ('z kide_scheme, unit) kop" where
  "idestart p =
     (case p of None \<Rightarrow> panic ''idestart''
      | Some b \<Rightarrow>
          bnd (bufget b) (\<lambda>r.
          andthen (idewait False)
          (andthen (ide_outb 0x3F6 0)
          (andthen (ide_outb 0x1F2 1)
          (andthen (ide_outb 0x1F3 (ucast (b_sector r AND 0xFF)))
          (andthen (ide_outb 0x1F4 (ucast (drop_bit 8 (b_sector r) AND 0xFF)))
          (andthen (ide_outb 0x1F5 (ucast (drop_bit 16 (b_sector r) AND 0xFF)))
          (andthen (ide_outb 0x1F6 (ucast (0xE0 OR push_bit 4 (b_dev r AND 1) OR (drop_bit 24 (b_sector r) AND 0x0F))))
          (if b_dirty r
           then andthen (ide_outb 0x1F7 IDE_CMD_WRITE) (outsl (b_data r))
           else ide_outb 0x1F7 IDE_CMD_READ)))))))))"

definition ideintr :: "('z kide_scheme, unit) kop" where
  "ideintr =
     andthen (acquire IdeLock)
     (bnd (gets idequeue) (\<lambda>q.
     case q of
       None \<Rightarrow> release IdeLock
     | Some b \<Rightarrow>
         bnd (bufget b) (\<lambda>r.
         andthen (upd (\<lambda>s. s\<lparr>idequeue := b_qnext r\<rparr>))
         (andthen
           (if b_dirty r then ret () else bnd (idewait True) (\<lambda>e. whenever (e \<ge> 0) (insl b)))
         (andthen (bufset b (\<lambda>r. r\<lparr>b_valid := True\<rparr>))
         (andthen (bufset b (\<lambda>r. r\<lparr>b_dirty := False\<rparr>))
         (andthen (wakeup (BufChan b))
         (bnd (gets idequeue) (\<lambda>q.
         andthen (whenever (q \<noteq> None) (idestart q))
         (release IdeLock))))))))))"

text \<open>The last buffer of the queue that starts at \<open>b\<close>; the queue has at most \<open>NBUF\<close> buffers.\<close>

fun queue_end :: "nat \<Rightarrow> buf list \<Rightarrow> nat \<Rightarrow> nat option" where
  "queue_end 0 bs b = None"
| "queue_end (Suc n) bs b = (case b_qnext (bs ! b) of None \<Rightarrow> Some b | Some c \<Rightarrow> queue_end n bs c)"

definition ide_append :: "nat \<Rightarrow> ('z kide_scheme, unit) kop" where
  "ide_append b =
     bnd (gets idequeue) (\<lambda>q.
     case q of
       None \<Rightarrow> upd (\<lambda>s. s\<lparr>idequeue := Some b\<rparr>)
     | Some c \<Rightarrow>
         bnd (gets (\<lambda>s. queue_end NBUF (bc_buf s) c)) (\<lambda>e.
         case e of None \<Rightarrow> fault ''idequeue'' | Some l \<Rightarrow> bufset l (\<lambda>r. r\<lparr>b_qnext := Some b\<rparr>)))"

text \<open>The wait of \<open>iderw\<close>; a process that slept starts here again.\<close>

definition iderw_wait :: "nat \<Rightarrow> ('z kide_scheme, unit) kop" where
  "iderw_wait b =
     bnd (bufget b) (\<lambda>r.
     if \<not> (b_valid r \<and> \<not> b_dirty r) then sleep (BufChan b) (Some IdeLock) else release IdeLock)"

definition iderw :: "nat \<Rightarrow> ('z kide_scheme, unit) kop" where
  "iderw b =
     bnd (bufget b) (\<lambda>r.
     if \<not> b_busy r then panic ''iderw: buf not busy''
     else if b_valid r \<and> \<not> b_dirty r then panic ''iderw: nothing to do''
     else
       bnd (gets havedisk1) (\<lambda>h.
       if b_dev r \<noteq> 0 \<and> \<not> h then panic ''iderw: ide disk 1 not present''
       else
         andthen (acquire IdeLock)
         (andthen (bufset b (\<lambda>r. r\<lparr>b_qnext := None\<rparr>))
         (andthen (ide_append b)
         (bnd (gets idequeue) (\<lambda>q.
         andthen (whenever (q = Some b) (idestart (Some b)))
         (iderw_wait b)))))))"

section \<open>The queue\<close>

text \<open>\<open>ide_list bs q xs\<close>: the buffers linked from \<open>q\<close> on are \<open>xs\<close>.\<close>

fun ide_list :: "buf list \<Rightarrow> nat option \<Rightarrow> nat list \<Rightarrow> bool" where
  "ide_list bs q [] \<longleftrightarrow> q = None"
| "ide_list bs q (x # xs) \<longleftrightarrow> q = Some x \<and> x < length bs \<and> ide_list bs (b_qnext (bs ! x)) xs"

lemma ide_list_upd: "ide_list bs q xs \<Longrightarrow> l \<notin> set xs \<Longrightarrow> ide_list (bs[l := r]) q xs"
  by (induction xs arbitrary: q) auto

lemma queue_end_last:
  "ide_list bs (Some c) (c # xs) \<Longrightarrow> length xs < n \<Longrightarrow> queue_end n bs c = Some (last (c # xs))"
proof (induction xs arbitrary: c n)
  case Nil
  then show ?case by (cases n) simp_all
next
  case (Cons x xs)
  then obtain m where n: "n = Suc m" "length xs < m" by (cases n) auto
  have "ide_list bs (Some x) (x # xs)" and q: "b_qnext (bs ! c) = Some x" using Cons.prems(1) by simp_all
  from Cons.IH [OF this(1) n(2)] show ?case by (simp add: n(1) q)
qed

lemma ide_list_snoc:
  assumes "ide_list bs (Some c) (c # xs)" and "distinct (c # xs @ [b])" and "b < length bs" "b_qnext (bs ! b) = None"
    and l: "l = last (c # xs)"
  shows "ide_list (bs[l := (bs ! l)\<lparr>b_qnext := Some b\<rparr>]) (Some c) (c # xs @ [b])"
  using assms
proof (induction xs arbitrary: c)
  case (Cons x xs)
  let ?bs = "bs[l := (bs ! l)\<lparr>b_qnext := Some b\<rparr>]"
  have "l \<in> set (x # xs)" using Cons.prems(5) by simp
  then have "l \<noteq> c" using Cons.prems(2) by auto
  moreover have "ide_list ?bs (Some x) (x # xs @ [b])" using Cons.prems by (intro Cons.IH) auto
  ultimately show ?case using Cons.prems(1) by simp
qed auto

text \<open>A request is served after those that were made before it: \<open>iderw\<close> puts its buffer at the end of the queue.\<close>

lemma wp_ide_append:
  assumes q: "ide_list (bc_buf s) (idequeue s) xs" and d: "distinct (xs @ [b])" and b: "b < length (bc_buf s)" "b_qnext (bc_buf s ! b) = None"
    and n: "length xs \<le> NBUF"
  shows "wp (ide_append b) (\<lambda>_ t. ide_list (bc_buf t) (idequeue t) (xs @ [b])) s"
proof (cases xs)
  case Nil
  then show ?thesis using q b by (simp add: ide_append_def wp_rules)
next
  case (Cons c cs)
  then have i: "idequeue s = Some c" and l: "ide_list (bc_buf s) (Some c) (c # cs)" using q by simp_all
  have e: "queue_end NBUF (bc_buf s) c = Some (last (c # cs))" using n Cons by (intro queue_end_last [OF l]) simp
  have "last (c # cs) < length (bc_buf s)" using l by (induction cs arbitrary: c) (auto split: if_splits)
  then show ?thesis
    using ide_list_snoc [OF l _ b refl] d Cons by (simp add: ide_append_def i e wp_rules bufset_def)
qed

text \<open>The handler takes the first buffer off the queue; a read that has failed leaves the buffer's data as it was, and marks it valid.\<close>

lemma failed_read_valid:
  assumes "b < length (bc_buf s)" and "\<not> b_dirty (bc_buf s ! b)" and "ide_status s AND (IDE_BSY OR IDE_DRDY) = IDE_DRDY"
    and "ide_status s AND (IDE_DF OR IDE_ERR) \<noteq> 0"
  shows "wp (andthen (bnd (idewait True) (\<lambda>e. whenever (e \<ge> 0) (insl b))) (bufset b (\<lambda>r. r\<lparr>b_valid := True\<rparr>)))
    (\<lambda>_ t. b_valid (bc_buf t ! b) \<and> b_data (bc_buf t ! b) = b_data (bc_buf s ! b)) s"
  using assms by (simp add: idewait_def wp_rules bufset_def)

end
