(* ===== verification/Shell.thy ===== *)
theory Shell
  imports Main
begin

text \<open>
  user/sh.c: the shell. The parser works on the line's buffer by positions, as the code does by pointers;
  the buffer ends with the zero byte at its length. What a command does is a tree of system calls:
  \<open>runcmd\<close> gives for each command the calls the process makes, with a branch for every result the code tests.
\<close>

section \<open>Commands\<close>

text \<open>A string in the buffer is a pair of positions, its start and its end.\<close>

datatype cmd =
    EXEC "(nat \<times> nat) list"
  | REDIR cmd "nat \<times> nat" int int
  | PIPE cmd cmd
  | LIST cmd cmd
  | BACK cmd

definition MAXARGS :: nat where
  "MAXARGS = 10"

definition NUL :: char where
  "NUL = CHR 0x00"

text \<open>The outcome of parsing: a value, the message of \<open>panic\<close>, or what is left of a line that is not a command; \<open>NoFuel\<close> marks a recursion that was cut off.\<close>

datatype 'a presult = Parsed 'a | Syntax string | Leftovers string | NoFuel

fun pbind :: "'a presult \<Rightarrow> ('a \<Rightarrow> 'b presult) \<Rightarrow> 'b presult" where
  "pbind (Parsed a) f = f a"
| "pbind (Syntax e) f = Syntax e"
| "pbind (Leftovers e) f = Leftovers e"
| "pbind NoFuel f = NoFuel"

section \<open>Constructors\<close>

text \<open>The code allocates a command of each kind; that the allocation succeeds is taken for granted there too.\<close>

definition execcmd :: cmd where
  "execcmd = EXEC []"

definition redircmd :: "cmd \<Rightarrow> nat \<Rightarrow> nat \<Rightarrow> int \<Rightarrow> int \<Rightarrow> cmd" where
  "redircmd subcmd file efile mode fd = REDIR subcmd (file, efile) mode fd"

definition pipecmd :: "cmd \<Rightarrow> cmd \<Rightarrow> cmd" where
  "pipecmd left right = PIPE left right"

definition listcmd :: "cmd \<Rightarrow> cmd \<Rightarrow> cmd" where
  "listcmd left right = LIST left right"

definition backcmd :: "cmd \<Rightarrow> cmd" where
  "backcmd subcmd = BACK subcmd"

declare execcmd_def [simp] redircmd_def [simp] pipecmd_def [simp] listcmd_def [simp] backcmd_def [simp]

section \<open>Tokens\<close>

definition O_RDONLY :: int where
  "O_RDONLY = 0"

definition O_WRONLY_CREATE :: int where
  "O_WRONLY_CREATE = 0x201"

text \<open>\<open>strchr\<close> (ulib.c) finds no zero byte.\<close>

definition strchr :: "string \<Rightarrow> char \<Rightarrow> bool" where
  "strchr s c \<longleftrightarrow> c \<noteq> NUL \<and> c \<in> set s"

definition whitespace :: string where
  "whitespace = [CHR '' '', CHR 0x09, CHR 0x0D, CHR 0x0A, CHR 0x0B]"

definition symbols :: string where
  "symbols = ''<|>&;()''"

text \<open>The byte at a position of the line; the zero byte ends it.\<close>

definition at :: "string \<Rightarrow> nat \<Rightarrow> char" where
  "at buf s = (if s < length buf then buf ! s else NUL)"

function skip_while :: "(char \<Rightarrow> bool) \<Rightarrow> string \<Rightarrow> nat \<Rightarrow> nat" where
  "skip_while P buf s = (if s < length buf \<and> P (at buf s) then skip_while P buf (s + 1) else s)"
  by pat_completeness auto

termination skip_while
  by (relation "measure (\<lambda>(P, buf, s). length buf - s)") auto

declare skip_while.simps [simp del]

definition skip_ws :: "string \<Rightarrow> nat \<Rightarrow> nat" where
  "skip_ws buf s = skip_while (strchr whitespace) buf s"

text \<open>\<open>gettoken\<close> returns the token, its start and end, and the position after it.\<close>

definition gettoken :: "string \<Rightarrow> nat \<Rightarrow> char \<times> nat \<times> nat \<times> nat" where
  "gettoken buf s =
     (let q = skip_ws buf s; c = at buf q;
          (ret, eq) =
            (if c = NUL then (c, q)
             else if c \<in> set ''|();&<'' then (c, q + 1)
             else if c = CHR ''>'' then
               (if at buf (q + 1) = CHR ''>'' then (CHR ''+'', q + 2) else (c, q + 1))
             else (CHR ''a'', skip_while (\<lambda>c. \<not> strchr whitespace c \<and> \<not> strchr symbols c) buf q))
      in (ret, q, eq, skip_ws buf eq))"

text \<open>\<open>peek\<close> returns its answer and the position after the blanks.\<close>

definition peek :: "string \<Rightarrow> nat \<Rightarrow> string \<Rightarrow> bool \<times> nat" where
  "peek buf s toks = (let s = skip_ws buf s in (at buf s \<noteq> NUL \<and> strchr toks (at buf s), s))"

section \<open>The parser\<close>

text \<open>\<open>parseredirs\<close>; every round reads a token, so the position grows.\<close>

fun parseredirs :: "nat \<Rightarrow> string \<Rightarrow> cmd \<Rightarrow> nat \<Rightarrow> (cmd \<times> nat) presult" where
  "parseredirs 0 buf cmd s = NoFuel"
| "parseredirs (Suc n) buf cmd s =
     (let (yes, s) = peek buf s ''<>'' in
      if \<not> yes then Parsed (cmd, s)
      else
        (let (tok, _, _, s) = gettoken buf s; (tok2, q, eq, s) = gettoken buf s in
         if tok2 \<noteq> CHR ''a'' then Syntax ''missing file for redirection''
         else
           (let cmd = (if tok = CHR ''<'' then redircmd cmd q eq O_RDONLY 0
                       else redircmd cmd q eq O_WRONLY_CREATE 1)
            in parseredirs n buf cmd s)))"

text \<open>\<open>parseexec\<close> keeps a pointer to the \<open>EXEC\<close> command inside the redirections it has put around it and
  stores the arguments there.\<close>

fun add_arg :: "cmd \<Rightarrow> nat \<times> nat \<Rightarrow> cmd" where
  "add_arg (EXEC args) a = EXEC (args @ [a])"
| "add_arg (REDIR c f m fd) a = REDIR (add_arg c a) f m fd"
| "add_arg c a = c"

fun parseargs :: "nat \<Rightarrow> string \<Rightarrow> cmd \<Rightarrow> nat \<Rightarrow> nat \<Rightarrow> (cmd \<times> nat) presult" where
  "parseargs 0 buf cmd argc s = NoFuel"
| "parseargs (Suc n) buf cmd argc s =
     (let (yes, s) = peek buf s ''|)&;'' in
      if yes then Parsed (cmd, s)
      else
        (let (tok, q, eq, s) = gettoken buf s in
         if tok = NUL then Parsed (cmd, s)
         else if tok \<noteq> CHR ''a'' then Syntax ''syntax''
         else
           (let cmd = add_arg cmd (q, eq); argc = argc + 1 in
            if argc \<ge> MAXARGS then Syntax ''too many args''
            else pbind (parseredirs n buf cmd s) (\<lambda>(cmd, s). parseargs n buf cmd argc s))))"

text \<open>The loop of \<open>parseline\<close> over \<open>&\<close>.\<close>

fun parseback :: "nat \<Rightarrow> string \<Rightarrow> cmd \<Rightarrow> nat \<Rightarrow> (cmd \<times> nat) presult" where
  "parseback 0 buf cmd s = NoFuel"
| "parseback (Suc n) buf cmd s =
     (let (yes, s) = peek buf s ''&'' in
      if \<not> yes then Parsed (cmd, s)
      else (let (_, _, _, s) = gettoken buf s in parseback n buf (backcmd cmd) s))"

fun parseline :: "nat \<Rightarrow> string \<Rightarrow> nat \<Rightarrow> (cmd \<times> nat) presult"
  and parsepipe :: "nat \<Rightarrow> string \<Rightarrow> nat \<Rightarrow> (cmd \<times> nat) presult"
  and parseexec :: "nat \<Rightarrow> string \<Rightarrow> nat \<Rightarrow> (cmd \<times> nat) presult"
  and parseblock :: "nat \<Rightarrow> string \<Rightarrow> nat \<Rightarrow> (cmd \<times> nat) presult"
where
  "parseline 0 buf s = NoFuel"
| "parseline (Suc n) buf s =
     pbind (parsepipe n buf s) (\<lambda>(cmd, s).
     pbind (parseback n buf cmd s) (\<lambda>(cmd, s).
     let (yes, s) = peek buf s '';'' in
     if yes then
       (let (_, _, _, s) = gettoken buf s in
        pbind (parseline n buf s) (\<lambda>(r, s). Parsed (listcmd cmd r, s)))
     else Parsed (cmd, s)))"
| "parsepipe 0 buf s = NoFuel"
| "parsepipe (Suc n) buf s =
     pbind (parseexec n buf s) (\<lambda>(cmd, s).
     let (yes, s) = peek buf s ''|'' in
     if yes then
       (let (_, _, _, s) = gettoken buf s in
        pbind (parsepipe n buf s) (\<lambda>(r, s). Parsed (pipecmd cmd r, s)))
     else Parsed (cmd, s))"
| "parseexec 0 buf s = NoFuel"
| "parseexec (Suc n) buf s =
     (let (yes, s) = peek buf s ''('' in
      if yes then parseblock n buf s
      else pbind (parseredirs n buf execcmd s) (\<lambda>(cmd, s). parseargs n buf cmd 0 s))"
| "parseblock 0 buf s = NoFuel"
| "parseblock (Suc n) buf s =
     (let (yes, s) = peek buf s ''('' in
      if \<not> yes then Syntax ''parseblock''
      else
        (let (_, _, _, s) = gettoken buf s in
         pbind (parseline n buf s) (\<lambda>(cmd, s).
         let (yes, s) = peek buf s '')'' in
         if \<not> yes then Syntax ''syntax - missing )''
         else (let (_, _, _, s) = gettoken buf s in parseredirs n buf cmd s))))"

text \<open>The zero byte after every string of the command; \<open>*eargv[i] = 0\<close> at the very end stores the zero byte
  that is there.\<close>

definition put_nul :: "string \<Rightarrow> nat \<Rightarrow> string" where
  "put_nul buf p = buf[p := NUL]"

fun nulterminate :: "string \<Rightarrow> cmd \<Rightarrow> string" where
  "nulterminate buf (EXEC args) = foldl (\<lambda>buf (q, eq). put_nul buf eq) buf args"
| "nulterminate buf (REDIR c (q, eq) m fd) = put_nul (nulterminate buf c) eq"
| "nulterminate buf (PIPE l r) = nulterminate (nulterminate buf l) r"
| "nulterminate buf (LIST l r) = nulterminate (nulterminate buf l) r"
| "nulterminate buf (BACK c) = nulterminate buf c"

text \<open>The fuel is enough for any line: see \<open>parse_never_out_of_fuel\<close>.\<close>

definition parse_fuel :: "string \<Rightarrow> nat" where
  "parse_fuel buf = 4 * length buf + 8"

definition parsecmd :: "string \<Rightarrow> (cmd \<times> string) presult" where
  "parsecmd buf =
     pbind (parseline (parse_fuel buf) buf 0) (\<lambda>(cmd, s).
     let (_, s) = peek buf s '''' in
     if s \<noteq> length buf then Leftovers (drop s buf)
     else Parsed (cmd, nulterminate buf cmd))"

section \<open>Running a command\<close>

text \<open>The program a process runs, as its system calls; the argument of a continuation is the result.\<close>

datatype prog =
    Exit
  | Exec string "string list" prog
  | Close int prog
  | Open string int "int \<Rightarrow> prog"
  | Fork "int \<Rightarrow> prog"
  | Wait prog
  | Pipe "(int \<times> int) option \<Rightarrow> prog"
  | Dup int prog
  | Chdir string "int \<Rightarrow> prog"
  | Printf int string "string list" prog

text \<open>The string at a position, up to the zero byte.\<close>

definition cstring :: "string \<Rightarrow> nat \<Rightarrow> string" where
  "cstring buf p = takeWhile (\<lambda>c. c \<noteq> NUL) (drop p buf)"

definition sh_panic :: "string \<Rightarrow> prog" where
  "sh_panic s = Printf 2 ''%s\<newline>'' [s] Exit"

definition fork1 :: "(int \<Rightarrow> prog) \<Rightarrow> prog" where
  "fork1 k = Fork (\<lambda>pid. if pid = -1 then sh_panic ''fork'' else k pid)"

fun runcmd :: "string \<Rightarrow> cmd \<Rightarrow> prog" where
  "runcmd buf (EXEC args) =
     (case args of
        [] \<Rightarrow> Exit
      | (q, _) # _ \<Rightarrow>
          Exec (cstring buf q) (map (\<lambda>(q, _). cstring buf q) args)
            (Printf 2 ''exec %s failed\<newline>'' [cstring buf q] Exit))"
| "runcmd buf (REDIR c (q, eq) mode fd) =
     Close fd
       (Open (cstring buf q) mode (\<lambda>r.
          if r < 0 then Printf 2 ''open %s failed\<newline>'' [cstring buf q] Exit else runcmd buf c))"
| "runcmd buf (LIST l r) =
     fork1 (\<lambda>pid. if pid = 0 then runcmd buf l else Wait (runcmd buf r))"
| "runcmd buf (PIPE l r) =
     Pipe (\<lambda>p. case p of
         None \<Rightarrow> sh_panic ''pipe''
       | Some (p0, p1) \<Rightarrow>
           fork1 (\<lambda>pid.
             if pid = 0 then Close 1 (Dup p1 (Close p0 (Close p1 (runcmd buf l))))
             else
               fork1 (\<lambda>pid.
                 if pid = 0 then Close 0 (Dup p0 (Close p0 (Close p1 (runcmd buf r))))
                 else Close p0 (Close p1 (Wait (Wait Exit))))))"
| "runcmd buf (BACK c) = fork1 (\<lambda>pid. if pid = 0 then runcmd buf c else Exit)"

text \<open>One command line of the loop of \<open>main\<close>; \<open>k\<close> is the rest of the loop. The line of a \<open>cd\<close> ends with
  the newline that is chopped.\<close>

definition sh_line :: "string \<Rightarrow> prog \<Rightarrow> prog" where
  "sh_line buf k =
     (if take 3 buf = ''cd ''
      then Chdir (butlast (drop 3 buf)) (\<lambda>r.
             if r < 0 then Printf 2 ''cannot cd %s\<newline>'' [butlast (drop 3 buf)] k else k)
      else fork1 (\<lambda>pid.
             if pid = 0 then
               (case parsecmd buf of
                  Parsed (cmd, buf) \<Rightarrow> runcmd buf cmd
                | Syntax e \<Rightarrow> sh_panic e
                | Leftovers s \<Rightarrow> Printf 2 ''leftovers: %s\<newline>'' [s] (sh_panic ''syntax'')
                | NoFuel \<Rightarrow> Exit)
             else Wait k))"

text \<open>The loop of \<open>main\<close> over the lines \<open>gets\<close> returns; an empty one is the end of the input.\<close>

fun sh_loop :: "string list \<Rightarrow> prog" where
  "sh_loop [] = Printf 2 ''$ '' [] Exit"
| "sh_loop (line # rest) =
     Printf 2 ''$ '' [] (if line = '''' then Exit else sh_line line (sh_loop rest))"

end
