(* ===== verification/Shell_Parse.thy ===== *)
theory Shell_Parse
  imports Shell
begin

text \<open>
  The parser of the shell always returns, and it reads back what the grammar prints: a command printed as
  a line parses to that command, and after \<open>nulterminate\<close> its strings are the words that were printed.
\<close>

section \<open>The grammar\<close>

datatype ast =
    AExec "string list"
  | ARedir ast string bool
  | APipe ast ast
  | AList ast ast
  | ABack ast

definition wordch :: "char \<Rightarrow> bool" where
  "wordch c \<longleftrightarrow> c \<noteq> NUL \<and> \<not> strchr whitespace c \<and> \<not> strchr symbols c"

definition word :: "string \<Rightarrow> bool" where
  "word w \<longleftrightarrow> w \<noteq> [] \<and> list_all wordch w"

fun wf_ast :: "ast \<Rightarrow> bool" where
  "wf_ast (AExec ws) \<longleftrightarrow> length ws < MAXARGS \<and> list_all word ws"
| "wf_ast (ARedir a f i) \<longleftrightarrow> wf_ast a \<and> word f"
| "wf_ast (APipe l r) \<longleftrightarrow> wf_ast l \<and> wf_ast r"
| "wf_ast (AList l r) \<longleftrightarrow> wf_ast l \<and> wf_ast r"
| "wf_ast (ABack a) \<longleftrightarrow> wf_ast a"

definition paren :: "bool \<Rightarrow> string \<Rightarrow> string" where
  "paren b s = (if b then ''('' @ s @ '')'' else s)"

definition show_words :: "string list \<Rightarrow> string" where
  "show_words ws = concat (map (\<lambda>w. CHR '' '' # w) ws)"

definition show_redir :: "string \<times> bool \<Rightarrow> string" where
  "show_redir = (\<lambda>(f, i). (if i then CHR ''<'' else CHR ''>'') # f)"

text \<open>The levels: 0 a line, 1 a command that may be followed by \<open>&\<close>, 2 a pipeline, 3 a simple command.\<close>

fun show_ast :: "nat \<Rightarrow> ast \<Rightarrow> string" where
  "show_ast lv (AExec ws) = show_words ws"
| "show_ast lv (ARedir a f i) = show_ast 3 a @ show_redir (f, i)"
| "show_ast lv (APipe l r) = paren (lv > 2) (show_ast 3 l @ ''|'' @ show_ast 2 r)"
| "show_ast lv (AList l r) = paren (lv > 0) (show_ast 1 l @ '';'' @ show_ast 0 r)"
| "show_ast lv (ABack a) = paren (lv > 1) (show_ast 1 a @ ''&'')"

text \<open>A command of the shell and what it stands for, its strings read from the buffer.\<close>

fun ast_of :: "string \<Rightarrow> cmd \<Rightarrow> ast" where
  "ast_of buf (EXEC args) = AExec (map (\<lambda>(q, _). cstring buf q) args)"
| "ast_of buf (REDIR c (q, eq) mode fd) = ARedir (ast_of buf c) (cstring buf q) (mode = O_RDONLY \<and> fd = 0)"
| "ast_of buf (PIPE l r) = APipe (ast_of buf l) (ast_of buf r)"
| "ast_of buf (LIST l r) = AList (ast_of buf l) (ast_of buf r)"
| "ast_of buf (BACK c) = ABack (ast_of buf c)"

section \<open>Scanning\<close>

lemma skip_while_eq: "skip_while P buf s = s + length (takeWhile P (drop s buf))"
proof (induction P buf s rule: skip_while.induct)
  case (1 P buf s)
  show ?case
  proof (cases "s < length buf \<and> P (at buf s)")
    case True
    then have "drop s buf = at buf s # drop (s + 1) buf" by (simp add: at_def Cons_nth_drop_Suc)
    then show ?thesis using 1 True by (subst skip_while.simps) simp
  next
    case False
    then have "takeWhile P (drop s buf) = []"
      by (cases "s < length buf") (auto simp: at_def Cons_nth_drop_Suc [symmetric])
    then show ?thesis using False by (subst skip_while.simps) auto
  qed
qed

lemma drop_skip_while: "drop (skip_while P buf s) buf = dropWhile P (drop s buf)"
  by (simp add: skip_while_eq dropWhile_eq_drop add.commute)

lemma at_drop: "at buf s = (case drop s buf of [] \<Rightarrow> NUL | c # _ \<Rightarrow> c)"
  by (cases "s < length buf") (simp_all add: at_def Cons_nth_drop_Suc [symmetric])

lemma skip_while_le: "s \<le> skip_while P buf s" "s \<le> length buf \<Longrightarrow> skip_while P buf s \<le> length buf"
proof -
  show "s \<le> skip_while P buf s" by (simp add: skip_while_eq)
  have "length (takeWhile P (drop s buf)) \<le> length (drop s buf)" by (rule length_takeWhile_le)
  then show "s \<le> length buf \<Longrightarrow> skip_while P buf s \<le> length buf" by (simp add: skip_while_eq)
qed

lemma skip_ws_le: "s \<le> skip_ws buf s" "s \<le> length buf \<Longrightarrow> skip_ws buf s \<le> length buf"
  by (simp_all add: skip_ws_def skip_while_le)

lemma drop_skip_ws: "drop (skip_ws buf s) buf = dropWhile (strchr whitespace) (drop s buf)"
  by (simp add: skip_ws_def drop_skip_while)

lemma dropWhile_stops: "dropWhile P xs = c # r \<Longrightarrow> \<not> P c"
  using hd_dropWhile [of P xs] by auto

lemma takeWhile_dropWhile_Nil: "takeWhile P (dropWhile P xs) = []"
  by (induction xs) auto

lemma skip_ws_stop: "at buf (skip_ws buf s) = NUL \<or> \<not> strchr whitespace (at buf (skip_ws buf s))"
  unfolding at_drop [of buf] drop_skip_ws by (auto split: list.split dest: dropWhile_stops)

section \<open>The parser always returns\<close>

lemma gettoken_le:
  assumes "gettoken buf s = (tok, q, eq, s')" and "s \<le> length buf"
  shows "s \<le> s'" "s' \<le> length buf" "tok \<noteq> NUL \<Longrightarrow> s < s'" "at buf (skip_ws buf s) \<noteq> NUL \<Longrightarrow> s < s'"
proof -
  let ?q = "skip_ws buf s"
  have q: "s \<le> ?q" "?q \<le> length buf" using skip_ws_le assms(2) by simp_all
  define e where "e = (if at buf ?q = NUL then ?q else if at buf ?q \<in> set ''|();&<'' then ?q + 1
      else if at buf ?q = CHR ''>'' then (if at buf (?q + 1) = CHR ''>'' then ?q + 2 else ?q + 1)
      else skip_while (\<lambda>c. \<not> strchr whitespace c \<and> \<not> strchr symbols c) buf ?q)"
  have s': "s' = skip_ws buf e" "tok = NUL \<longleftrightarrow> at buf ?q = NUL"
    using assms(1) by (auto simp: gettoken_def Let_def e_def NUL_def split: if_splits)
  have lt: "?q < length buf" if "at buf ?q \<noteq> NUL" using that by (auto simp: at_def split: if_splits)
  have gt: "?q + 2 \<le> length buf" if "at buf (?q + 1) = CHR ''>''" using that by (auto simp: at_def NUL_def split: if_splits)
  have wd: "?q < skip_while (\<lambda>c. \<not> strchr whitespace c \<and> \<not> strchr symbols c) buf ?q"
    if c: "at buf ?q \<noteq> NUL" "at buf ?q \<notin> set ''|();&<''" "at buf ?q \<noteq> CHR ''>''"
  proof -
    have "\<not> strchr whitespace (at buf ?q)" using skip_ws_stop c(1) by blast
    moreover have "\<not> strchr symbols (at buf ?q)" using c by (auto simp: strchr_def symbols_def)
    moreover have "drop ?q buf = at buf ?q # drop (?q + 1) buf"
      using lt [OF c(1)] by (simp add: at_def Cons_nth_drop_Suc)
    ultimately show ?thesis by (simp add: skip_while_eq)
  qed
  have e: "?q \<le> e" "e \<le> length buf" "at buf ?q \<noteq> NUL \<Longrightarrow> ?q < e"
    unfolding e_def using q(2) lt gt wd skip_while_le(2) by (auto intro: less_imp_le)
  show "s \<le> s'" "s' \<le> length buf" "at buf ?q \<noteq> NUL \<Longrightarrow> s < s'"
    using s'(1) e q skip_ws_le [of e buf] by auto
  then show "tok \<noteq> NUL \<Longrightarrow> s < s'" using s'(2) by simp
qed

lemma peek_le:
  assumes "peek buf s toks = (yes, s')" and "s \<le> length buf"
  shows "s \<le> s'" "s' \<le> length buf" "yes \<Longrightarrow> at buf (skip_ws buf s') \<noteq> NUL"
proof -
  have s': "s' = skip_ws buf s" "yes \<longleftrightarrow> at buf s' \<noteq> NUL \<and> strchr toks (at buf s')"
    using assms(1) by (auto simp: peek_def Let_def)
  then show "s \<le> s'" "s' \<le> length buf" using skip_ws_le assms(2) by simp_all
  have "skip_ws buf s' = s'"
    unfolding s'(1) by (simp add: skip_ws_def [of _ "skip_ws _ _"] skip_while_eq drop_skip_ws takeWhile_dropWhile_Nil)
  then show "yes \<Longrightarrow> at buf (skip_ws buf s') \<noteq> NUL" using s'(2) by simp
qed

text \<open>The position a parser returns lies between the one it was given and the end.\<close>

definition moves :: "string \<Rightarrow> nat \<Rightarrow> (cmd \<times> nat) presult \<Rightarrow> bool" where
  "moves buf s r \<longleftrightarrow> (\<forall>c s'. r = Parsed (c, s') \<longrightarrow> s \<le> s' \<and> s' \<le> length buf)"

lemma movesD: "moves buf s r \<Longrightarrow> r = Parsed (c, s') \<Longrightarrow> s \<le> s' \<and> s' \<le> length buf"
  by (simp add: moves_def)

lemma moves_bind:
  assumes "moves buf s r" and "\<And>c s'. r = Parsed (c, s') \<Longrightarrow> s \<le> s' \<Longrightarrow> s' \<le> length buf \<Longrightarrow> moves buf s (f (c, s'))"
  shows "moves buf s (pbind r f)"
  using assms by (cases r) (auto simp: moves_def)

lemma moves_later: "moves buf t r \<Longrightarrow> s \<le> t \<Longrightarrow> moves buf s r"
  by (auto simp: moves_def)

lemma pbind_fuel: "r \<noteq> NoFuel \<Longrightarrow> (\<And>a. r = Parsed a \<Longrightarrow> f a \<noteq> NoFuel) \<Longrightarrow> pbind r f \<noteq> NoFuel"
  by (cases r) auto

lemma parseredirs_total:
  "s \<le> length buf \<Longrightarrow> moves buf s (parseredirs n buf c s) \<and> (length buf - s < n \<longrightarrow> parseredirs n buf c s \<noteq> NoFuel)"
proof (induction n arbitrary: c s)
  case 0
  then show ?case by (simp add: moves_def)
next
  case (Suc n)
  obtain yes s1 where p: "peek buf s ''<>'' = (yes, s1)" by fastforce
  note pl = peek_le [OF p Suc.prems]
  obtain tok q1 e1 s2 where g: "gettoken buf s1 = (tok, q1, e1, s2)" by (metis prod_cases4)
  note gl = gettoken_le [OF g pl(2)]
  obtain tok2 q e s3 where h: "gettoken buf s2 = (tok2, q, e, s3)" by (metis prod_cases4)
  note hl = gettoken_le [OF h gl(2)]
  show ?case
  proof (cases "yes \<and> tok2 = CHR ''a''")
    case False
    then show ?thesis using p g h pl by (auto simp: moves_def)
  next
    case True
    then have "s1 < s2" using pl(3) gl(4) by blast
    then have le: "s \<le> s3" "length buf - s < Suc n \<longrightarrow> length buf - s3 < n" using pl hl(1,2) by auto
    show ?thesis
      using True p g h le Suc.IH [OF hl(2)] by (auto simp: Let_def intro: moves_later)
  qed
qed

lemma parseargs_total:
  "s \<le> length buf \<Longrightarrow> moves buf s (parseargs n buf c k s) \<and> (length buf - s < n \<longrightarrow> parseargs n buf c k s \<noteq> NoFuel)"
proof (induction n arbitrary: c k s)
  case 0
  then show ?case by (simp add: moves_def)
next
  case (Suc n)
  obtain yes s1 where p: "peek buf s ''|)&;'' = (yes, s1)" by fastforce
  note pl = peek_le [OF p Suc.prems]
  obtain tok q e s2 where g: "gettoken buf s1 = (tok, q, e, s2)" by (metis prod_cases4)
  note gl = gettoken_le [OF g pl(2)]
  show ?case
  proof (cases "\<not> yes \<and> tok = CHR ''a'' \<and> Suc k < MAXARGS")
    case False
    then show ?thesis using p g pl gl by (auto simp: moves_def Let_def)
  next
    case True
    then have "s1 < s2" using gl(3) by (simp add: NUL_def)
    then have le: "s \<le> s2" "length buf - s < Suc n \<longrightarrow> length buf - s2 < n" using pl(1,2) gl(2) by auto
    note rd = parseredirs_total [OF gl(2), of n "add_arg c (q, e)"]
    have "moves buf s (pbind (parseredirs n buf (add_arg c (q, e)) s2) (\<lambda>(c, s). parseargs n buf c (Suc k) s))"
      by (rule moves_bind) (use rd le Suc.IH in \<open>auto intro: moves_later\<close>)
    moreover have "pbind (parseredirs n buf (add_arg c (q, e)) s2) (\<lambda>(c, s). parseargs n buf c (Suc k) s) \<noteq> NoFuel"
      if "length buf - s < Suc n"
    proof (rule pbind_fuel)
      show "parseredirs n buf (add_arg c (q, e)) s2 \<noteq> NoFuel" using rd le that by simp
      fix a assume a: "parseredirs n buf (add_arg c (q, e)) s2 = Parsed a"
      obtain c' s3 where [simp]: "a = (c', s3)" by fastforce
      have "s2 \<le> s3 \<and> s3 \<le> length buf" using movesD [OF rd [THEN conjunct1]] a by simp
      then show "(case a of (c, s) \<Rightarrow> parseargs n buf c (Suc k) s) \<noteq> NoFuel" using Suc.IH [of s3] le that by auto
    qed
    ultimately show ?thesis using True p g by (auto simp: Let_def NUL_def)
  qed
qed

lemma parseback_total:
  "s \<le> length buf \<Longrightarrow> moves buf s (parseback n buf c s) \<and> (length buf - s < n \<longrightarrow> parseback n buf c s \<noteq> NoFuel)"
proof (induction n arbitrary: c s)
  case 0
  then show ?case by (simp add: moves_def)
next
  case (Suc n)
  obtain yes s1 where p: "peek buf s ''&'' = (yes, s1)" by fastforce
  note pl = peek_le [OF p Suc.prems]
  obtain tok q e s2 where g: "gettoken buf s1 = (tok, q, e, s2)" by (metis prod_cases4)
  note gl = gettoken_le [OF g pl(2)]
  show ?case
  proof (cases yes)
    case False
    then show ?thesis using p pl by (auto simp: moves_def)
  next
    case True
    then have "s1 < s2" using pl(3) gl(4) by blast
    then have le: "s \<le> s2" "length buf - s < Suc n \<longrightarrow> length buf - s2 < n" using pl(1,2) gl(2) by auto
    then show ?thesis using True p g Suc.IH [OF gl(2)] by (auto simp: Let_def intro: moves_later)
  qed
qed

text \<open>The four mutually recursive parsers, with the fuel each needs.\<close>

definition returns :: "string \<Rightarrow> nat \<Rightarrow> nat \<Rightarrow> nat \<Rightarrow> (cmd \<times> nat) presult \<Rightarrow> bool" where
  "returns buf s k n r \<longleftrightarrow> moves buf s r \<and> (4 * (length buf - s) + k < n \<longrightarrow> r \<noteq> NoFuel)"

lemma returns_bind:
  assumes "returns buf s k n r" and "\<And>c s'. r = Parsed (c, s') \<Longrightarrow> s \<le> s' \<Longrightarrow> s' \<le> length buf \<Longrightarrow> returns buf s k n (f (c, s'))"
  shows "returns buf s k n (pbind r f)"
  using assms by (cases r) (auto simp: returns_def moves_def)

lemma returns_later: "returns buf t j m r \<Longrightarrow> s \<le> t \<Longrightarrow> 4 * (length buf - s) + k < n \<longrightarrow> 4 * (length buf - t) + j < m \<Longrightarrow> returns buf s k n r"
  by (auto simp: returns_def intro: moves_later)

lemma returns_Parsed: "s \<le> s' \<Longrightarrow> s' \<le> length buf \<Longrightarrow> returns buf s k n (Parsed (c, s'))"
  by (simp add: returns_def moves_def)

lemma returns_Syntax: "returns buf s k n (Syntax e)"
  by (simp add: returns_def moves_def)

lemma loop_returns:
  assumes "t \<le> length buf"
  shows "returns buf t 0 n (parseredirs n buf c t)" "returns buf t 0 n (parseargs n buf c j t)" "returns buf t 0 n (parseback n buf c t)"
  using parseredirs_total [OF assms, of n c] parseargs_total [OF assms, of n c j] parseback_total [OF assms, of n c]
  by (auto simp: returns_def)

lemma returns_token:
  assumes "t \<le> length buf" and step: "\<And>s2. t < s2 \<Longrightarrow> s2 \<le> length buf \<Longrightarrow> returns buf s k n (f s2)"
    and stop: "\<And>s1. t \<le> s1 \<Longrightarrow> s1 \<le> length buf \<Longrightarrow> returns buf s k n (g s1)"
  shows "returns buf s k n (let (yes, s) = peek buf t toks in if yes then (let (_, _, _, s) = gettoken buf s in f s) else g s)"
    and "returns buf s k n (let (yes, s) = peek buf t toks in if \<not> yes then g s else (let (_, _, _, s) = gettoken buf s in f s))"
proof -
  obtain yes s1 where p: "peek buf t toks = (yes, s1)" by fastforce
  note pl = peek_le [OF p assms(1)]
  obtain tok q e s2 where g: "gettoken buf s1 = (tok, q, e, s2)" by (metis prod_cases4)
  note gl = gettoken_le [OF g pl(2)]
  have "yes \<Longrightarrow> t < s2" "s2 \<le> length buf" using pl gl by auto
  then show "returns buf s k n (let (yes, s) = peek buf t toks in if yes then (let (_, _, _, s) = gettoken buf s in f s) else g s)"
    "returns buf s k n (let (yes, s) = peek buf t toks in if \<not> yes then g s else (let (_, _, _, s) = gettoken buf s in f s))"
    using p g step stop pl(1,2) by auto
qed

lemma parse_total:
  "s \<le> length buf \<Longrightarrow> returns buf s 3 n (parseline n buf s) \<and> returns buf s 2 n (parsepipe n buf s) \<and>
     returns buf s 1 n (parseexec n buf s) \<and> returns buf s 0 n (parseblock n buf s)"
proof (induction n arbitrary: s)
  case 0
  then show ?case by (simp add: returns_def moves_def)
next
  case (Suc n)
  note IH = Suc.IH [THEN conjunct1] Suc.IH [THEN conjunct2, THEN conjunct1] Suc.IH [THEN conjunct2, THEN conjunct2, THEN conjunct1]
    Suc.IH [THEN conjunct2, THEN conjunct2, THEN conjunct2]
  have "returns buf s 3 (Suc n) (parseline (Suc n) buf s)"
    unfolding parseline.simps
  proof (rule returns_bind, goal_cases)
    case 1
    show ?case by (rule returns_later [OF IH(2) [OF Suc.prems]]) auto
  next
    case (2 c t)
    show ?case
      unfolding prod.case
    proof (rule returns_bind, goal_cases)
      case 1
      show ?case by (rule returns_later [OF loop_returns(3) [OF 2(3)]]) (use 2(2) in auto)
    next
      case (2 c u)
      show ?case
        unfolding prod.case
      proof (rule returns_token(1) [OF 2(3)], goal_cases)
        case (1 v)
        show ?case
          by (rule returns_bind, rule returns_later [OF IH(1) [OF 1(2)]]) (use 1 2 in \<open>auto intro: returns_Parsed\<close>)
      qed (use 2 in \<open>auto intro: returns_Parsed\<close>)
    qed
  qed
  moreover have "returns buf s 2 (Suc n) (parsepipe (Suc n) buf s)"
    unfolding parsepipe.simps
  proof (rule returns_bind, goal_cases)
    case 1
    show ?case by (rule returns_later [OF IH(3) [OF Suc.prems]]) auto
  next
    case (2 c u)
    show ?case
      unfolding prod.case
    proof (rule returns_token(1) [OF 2(3)], goal_cases)
      case (1 v)
      show ?case
        by (rule returns_bind, rule returns_later [OF IH(2) [OF 1(2)]]) (use 1 2 in \<open>auto intro: returns_Parsed\<close>)
    qed (use 2 in \<open>auto intro: returns_Parsed\<close>)
  qed
  moreover have "returns buf s 1 (Suc n) (parseexec (Suc n) buf s)"
  proof -
    obtain yes t where p: "peek buf s ''('' = (yes, t)" by fastforce
    note pl = peek_le [OF p Suc.prems]
    have "returns buf s 1 (Suc n) (parseblock n buf t)" by (rule returns_later [OF IH(4) [OF pl(2)]]) (use pl in auto)
    moreover have "returns buf s 1 (Suc n) (pbind (parseredirs n buf (EXEC []) t) (\<lambda>(cmd, s). parseargs n buf cmd 0 s))"
      by (rule returns_bind, rule returns_later [OF loop_returns(1) [OF pl(2)]])
        (use pl in \<open>auto intro!: returns_later [OF loop_returns(2)]\<close>)
    ultimately show ?thesis using p by simp
  qed
  moreover have "returns buf s 0 (Suc n) (parseblock (Suc n) buf s)"
    unfolding parseblock.simps
  proof (rule returns_token(2) [OF Suc.prems], goal_cases)
    case (1 u)
    show ?case
    proof (rule returns_bind, goal_cases)
      case 1
      show ?case by (rule returns_later [OF IH(1) [OF \<open>u \<le> length buf\<close>]]) (use \<open>s < u\<close> \<open>u \<le> length buf\<close> in auto)
    next
      case (2 c v)
      show ?case
        unfolding prod.case
        by (rule returns_token(2) [OF 2(3)])
          (use 2 in \<open>auto intro: returns_Syntax intro!: returns_later [OF loop_returns(1)]\<close>)
    qed
  qed (rule returns_Syntax)
  ultimately show ?case by blast
qed

lemma parse_never_out_of_fuel: "parsecmd buf \<noteq> NoFuel"
proof -
  have "returns buf 0 3 (parse_fuel buf) (parseline (parse_fuel buf) buf 0)" using parse_total [of 0 buf] by simp
  then have "parseline (parse_fuel buf) buf 0 \<noteq> NoFuel" by (simp add: returns_def parse_fuel_def)
  then show ?thesis unfolding parsecmd_def by (rule pbind_fuel) (auto simp: Let_def split: prod.split)
qed

section \<open>Reading back what was printed\<close>

text \<open>The word at a pair of positions: nothing that could be part of it follows.\<close>

definition word_at :: "string \<Rightarrow> nat \<times> nat \<Rightarrow> string \<Rightarrow> bool" where
  "word_at buf p w \<longleftrightarrow> word w \<and> snd p = fst p + length w \<and>
     (\<exists>r. drop (fst p) buf = w @ r \<and> (r = [] \<or> \<not> wordch (hd r)))"

fun denotes :: "string \<Rightarrow> cmd \<Rightarrow> ast \<Rightarrow> bool" where
  "denotes buf (EXEC args) a \<longleftrightarrow> (\<exists>ws. a = AExec ws \<and> list_all2 (word_at buf) args ws)"
| "denotes buf (REDIR c p m fd) a \<longleftrightarrow> (\<exists>b f i. a = ARedir b f i \<and> denotes buf c b \<and> word_at buf p f \<and>
     (m, fd) = (if i then (O_RDONLY, 0) else (O_WRONLY_CREATE, 1)))"
| "denotes buf (PIPE l r) a \<longleftrightarrow> (\<exists>x y. a = APipe x y \<and> denotes buf l x \<and> denotes buf r y)"
| "denotes buf (LIST l r) a \<longleftrightarrow> (\<exists>x y. a = AList x y \<and> denotes buf l x \<and> denotes buf r y)"
| "denotes buf (BACK c) a \<longleftrightarrow> (\<exists>b. a = ABack b \<and> denotes buf c b)"

definition add_redirs :: "ast \<Rightarrow> (string \<times> bool) list \<Rightarrow> ast" where
  "add_redirs a rs = foldl (\<lambda>a (f, i). ARedir a f i) a rs"

definition show_redirs :: "(string \<times> bool) list \<Rightarrow> string" where
  "show_redirs rs = concat (map show_redir rs)"

text \<open>What is left to read at a position, blanks skipped.\<close>

definition trim :: "string \<Rightarrow> string" where
  "trim t = dropWhile (strchr whitespace) t"

definition rest :: "string \<Rightarrow> nat \<Rightarrow> string" where
  "rest buf s = trim (drop s buf)"

text \<open>What may follow a printed command.\<close>

definition ends :: "string \<Rightarrow> string \<Rightarrow> bool" where
  "ends toks post \<longleftrightarrow> post = [] \<or> hd post \<in> set toks"

definition reads :: "string \<Rightarrow> (cmd \<times> nat) presult \<Rightarrow> ast \<Rightarrow> string \<Rightarrow> bool" where
  "reads buf r a post \<longleftrightarrow> r \<noteq> NoFuel \<longrightarrow> (\<exists>c s'. r = Parsed (c, s') \<and> denotes buf c a \<and> rest buf s' = post)"

lemma chars:
  "wordch c \<Longrightarrow> c \<noteq> NUL" "wordch c \<Longrightarrow> \<not> strchr whitespace c" "wordch c \<Longrightarrow> c \<notin> set symbols"
  "c \<in> set symbols \<Longrightarrow> \<not> wordch c" "c \<in> set symbols \<Longrightarrow> c \<noteq> NUL" "c \<in> set symbols \<Longrightarrow> \<not> strchr whitespace c"
  "strchr whitespace (CHR '' '')" "\<not> wordch (CHR '' '')" "\<not> wordch NUL"
  by (auto simp: wordch_def strchr_def symbols_def whitespace_def NUL_def)

lemma word_hd: "word w \<Longrightarrow> wordch (hd w)" "word w \<Longrightarrow> w \<noteq> []"
  by (auto simp: word_def list_all_iff)

lemma trim_simps [simp]:
  "trim [] = []" "trim (CHR '' '' # t) = trim t" "c \<in> set symbols \<Longrightarrow> trim (c # t) = c # t"
  by (simp_all add: trim_def chars)

lemma trim_word [simp]: "word w \<Longrightarrow> trim (w @ t) = w @ t"
  by (cases w) (auto simp: trim_def word_def chars)

lemma trim_trim [simp]: "trim (trim t) = trim t"
  by (simp add: trim_def)

lemma rest_stop: "rest buf s = c # r \<Longrightarrow> \<not> strchr whitespace c"
  by (auto simp: rest_def trim_def dest: dropWhile_stops)

lemma drop_skip_rest: "drop (skip_ws buf s) buf = rest buf s"
  by (simp add: rest_def trim_def drop_skip_ws)

lemma at_skip: "at buf (skip_ws buf s) = (case rest buf s of [] \<Rightarrow> NUL | c # _ \<Rightarrow> c)"
  by (simp add: at_drop drop_skip_rest)

lemma rest_skip [simp]: "rest buf (skip_ws buf s) = rest buf s"
  unfolding rest_def [of _ "skip_ws _ _"] drop_skip_rest by (simp add: rest_def)

lemma drop_rest: "rest buf s = t @ r \<Longrightarrow> rest buf (skip_ws buf s + length t) = trim r"
proof -
  assume "rest buf s = t @ r"
  then have "drop (skip_ws buf s) buf = t @ r" by (simp add: drop_skip_rest)
  then have "drop (length t) (drop (skip_ws buf s) buf) = r" by simp
  then show ?thesis by (simp add: rest_def add.commute)
qed

lemma peek_rest:
  obtains s' where "peek buf s toks = (rest buf s \<noteq> [] \<and> hd (rest buf s) \<noteq> NUL \<and> hd (rest buf s) \<in> set toks, s')"
    and "rest buf s' = rest buf s"
proof
  show "peek buf s toks = (rest buf s \<noteq> [] \<and> hd (rest buf s) \<noteq> NUL \<and> hd (rest buf s) \<in> set toks, skip_ws buf s)"
    by (auto simp: peek_def Let_def at_skip strchr_def split: list.split)
qed simp

lemma gettoken_sym:
  assumes "rest buf s = c # r" and "c \<in> set ''|();&<''"
  obtains q s' where "gettoken buf s = (c, q, q + 1, s')" and "rest buf s' = trim r"
proof
  have "c \<noteq> NUL" using assms(2) by (auto simp: NUL_def)
  then show "gettoken buf s = (c, skip_ws buf s, skip_ws buf s + 1, skip_ws buf (skip_ws buf s + 1))"
    using assms by (simp add: gettoken_def Let_def at_skip)
  show "rest buf (skip_ws buf (skip_ws buf s + 1)) = trim r" using drop_rest [of buf s "[c]" r] assms(1) by simp
qed

lemma gettoken_gt:
  assumes "rest buf s = CHR ''>'' # r" and "r = [] \<or> hd r \<noteq> CHR ''>''"
  obtains q s' where "gettoken buf s = (CHR ''>'', q, q + 1, s')" and "rest buf s' = trim r"
proof
  have "drop (skip_ws buf s + 1) buf = r"
    using drop_skip_rest [of buf s] assms(1) by (metis add.commute drop_drop drop_Suc_Cons drop0 plus_1_eq_Suc)
  then have "at buf (skip_ws buf s + 1) \<noteq> CHR ''>''" using assms(2) by (auto simp: at_drop NUL_def split: list.split)
  then show "gettoken buf s = (CHR ''>'', skip_ws buf s, skip_ws buf s + 1, skip_ws buf (skip_ws buf s + 1))"
    using assms by (simp add: gettoken_def Let_def at_skip NUL_def)
  show "rest buf (skip_ws buf (skip_ws buf s + 1)) = trim r" using drop_rest [of buf s "[CHR ''>'']" r] assms(1) by simp
qed

lemma gettoken_word:
  assumes "rest buf s = w @ r" and "word w" and "r = [] \<or> \<not> wordch (hd r)" and "NUL \<notin> set buf"
  obtains q s' where "gettoken buf s = (CHR ''a'', q, q + length w, s')" and "word_at buf (q, q + length w) w" and "rest buf s' = trim r"
proof
  let ?q = "skip_ws buf s" and ?P = "\<lambda>c. \<not> strchr whitespace c \<and> \<not> strchr symbols c"
  have d: "drop ?q buf = w @ r" using assms(1) drop_skip_rest by simp
  have c: "wordch (at buf ?q)" using d word_hd [OF assms(2)] by (cases w) (simp_all add: at_drop)
  have "set r \<subseteq> set buf" using d set_drop_subset [of ?q buf] by auto
  then have "r = [] \<or> \<not> ?P (hd r)" using assms(3,4) by (cases r) (auto simp: wordch_def)
  moreover have "list_all ?P w" using assms(2) by (auto simp: word_def list_all_iff wordch_def)
  ultimately have "takeWhile ?P (w @ r) = w" by (cases r) (auto simp: takeWhile_append list_all_iff)
  then have "skip_while ?P buf ?q = ?q + length w" using d by (simp add: skip_while_eq)
  then show "gettoken buf s = (CHR ''a'', ?q, ?q + length w, skip_ws buf (?q + length w))"
    using chars(1,3) [OF c] by (auto simp: gettoken_def Let_def symbols_def)
  show "word_at buf (?q, ?q + length w) w" using d assms(2,3) by (auto simp: word_at_def)
  show "rest buf (skip_ws buf (?q + length w)) = trim r" using drop_rest [OF assms(1)] by simp
qed

lemma gettoken_end:
  assumes "rest buf s = []"
  obtains q s' where "gettoken buf s = (NUL, q, q, s')" and "rest buf s' = []"
  using that assms by (simp add: gettoken_def Let_def at_skip)

text \<open>Text that no redirection and no word begins.\<close>

definition no_redir :: "string \<Rightarrow> bool" where
  "no_redir post \<longleftrightarrow> (post = [] \<or> \<not> wordch (hd post)) \<and> (trim post = [] \<or> hd (trim post) \<notin> set ''<>'')"

lemma redirs_hd: "rs \<noteq> [] \<Longrightarrow> \<exists>c t. show_redirs rs @ post = c # t \<and> c \<in> set ''<>''"
  by (cases rs) (auto simp: show_redirs_def show_redir_def split: prod.splits)

lemma parseredirs_reads:
  assumes "NUL \<notin> set buf" and "rest buf s = trim (show_redirs rs @ post)" and "\<forall>(f, i) \<in> set rs. word f" and "no_redir post"
    and "denotes buf c a"
  shows "reads buf (parseredirs n buf c s) (add_redirs a rs) (trim post)"
  using assms(2-5)
proof (induction rs arbitrary: n s c a)
  case Nil
  obtain s1 where p: "peek buf s ''<>'' = (rest buf s \<noteq> [] \<and> hd (rest buf s) \<noteq> NUL \<and> hd (rest buf s) \<in> set ''<>'', s1)"
    "rest buf s1 = rest buf s" by (rule peek_rest)
  show ?case using p Nil by (cases n) (auto simp: reads_def add_redirs_def show_redirs_def no_redir_def)
next
  case (Cons fi rs)
  obtain f i where [simp]: "fi = (f, i)" by fastforce
  have f: "word f" using Cons.prems(2) by simp
  let ?c = "if i then CHR ''<'' else CHR ''>''" and ?r = "f @ show_redirs rs @ post"
  have cs: "?c \<in> set symbols" by (simp add: symbols_def)
  have r0: "rest buf s = ?c # ?r" using Cons.prems(1) cs by (simp add: show_redirs_def show_redir_def)
  obtain s1 where p: "peek buf s ''<>'' = (rest buf s \<noteq> [] \<and> hd (rest buf s) \<noteq> NUL \<and> hd (rest buf s) \<in> set ''<>'', s1)"
    "rest buf s1 = rest buf s" by (rule peek_rest)
  have yes: "peek buf s ''<>'' = (True, s1)" using p(1) r0 by (simp add: NUL_def)
  have r1: "rest buf s1 = ?c # ?r" using p(2) r0 by simp
  have nh: "hd ?r \<noteq> CHR ''>''" using word_hd [OF f] chars(3) [of "hd f"] by (cases f) (auto simp: symbols_def)
  obtain q1 s2 where g: "gettoken buf s1 = (?c, q1, q1 + 1, s2)" "rest buf s2 = trim ?r"
  proof (cases i)
    case True
    then show thesis using gettoken_sym [of buf s1 "CHR ''<''" ?r] r1 that by auto
  next
    case False
    then show thesis using gettoken_gt [of buf s1 ?r] r1 nh that by auto
  qed
  have nw: "show_redirs rs @ post = [] \<or> \<not> wordch (hd (show_redirs rs @ post))"
  proof (cases "rs = []")
    case True
    then show ?thesis using Cons.prems(3) by (simp add: show_redirs_def no_redir_def)
  next
    case False
    then obtain c t where "show_redirs rs @ post = c # t" "c \<in> set ''<>''" using redirs_hd by blast
    then show ?thesis using chars(4) [of c] by (auto simp: symbols_def)
  qed
  have "rest buf s2 = f @ show_redirs rs @ post" using g(2) f by simp
  then obtain q s3 where h: "gettoken buf s2 = (CHR ''a'', q, q + length f, s3)" "word_at buf (q, q + length f) f"
    "rest buf s3 = trim (show_redirs rs @ post)"
    using gettoken_word [OF _ f nw assms(1)] by metis
  let ?d = "if i then REDIR c (q, q + length f) O_RDONLY 0 else REDIR c (q, q + length f) O_WRONLY_CREATE 1"
  have "denotes buf ?d (ARedir a f i)" using Cons.prems(4) h(2) by (cases i) auto
  then have "reads buf (parseredirs (n - 1) buf ?d s3) (add_redirs (ARedir a f i) rs) (trim post)"
    using Cons.IH [OF h(3) _ Cons.prems(3)] Cons.prems(2) by simp
  then show ?case
    using yes g(1) h(1) by (cases n) (auto simp: reads_def add_redirs_def Let_def)
qed

lemma parseargs_done:
  assumes "rest buf s = post" and "ends ''|)&;'' post" and "denotes buf c a"
  shows "reads buf (parseargs n buf c k s) a post"
proof -
  obtain s1 where p: "peek buf s ''|)&;'' = (rest buf s \<noteq> [] \<and> hd (rest buf s) \<noteq> NUL \<and> hd (rest buf s) \<in> set ''|)&;'', s1)"
    "rest buf s1 = rest buf s" by (rule peek_rest)
  show ?thesis
  proof (cases post)
    case Nil
    then obtain q s2 where g: "gettoken buf s1 = (NUL, q, q, s2)" "rest buf s2 = []" using gettoken_end assms(1) p(2) by metis
    show ?thesis using p g assms Nil by (cases n) (auto simp: reads_def)
  next
    case (Cons d t)
    then have "d \<in> set ''|)&;''" using assms(2) by (simp add: ends_def)
    then have "d \<noteq> NUL" by (auto simp: NUL_def)
    then show ?thesis using p assms Cons \<open>d \<in> set ''|)&;''\<close> by (cases n) (auto simp: reads_def)
  qed
qed

lemma ends_no_redir: "ends ''|)&;'' post \<Longrightarrow> no_redir post \<and> trim post = post"
  by (cases post) (auto simp: ends_def no_redir_def symbols_def chars(4))

lemma words_no_redir: "word w \<Longrightarrow> no_redir (show_words (w # ws) @ t)"
proof -
  assume w: "word w"
  have "trim (show_words (w # ws) @ t) = w @ show_words ws @ t" using w by (simp add: show_words_def)
  then show ?thesis
    using word_hd [OF w] chars(3) [of "hd w"] by (auto simp: no_redir_def show_words_def chars symbols_def)
qed

lemma parseargs_reads:
  assumes "NUL \<notin> set buf" and "rest buf s = trim (show_words ws @ show_redirs rs @ post)" and "list_all word ws" and "ws \<noteq> []"
    and "\<forall>(f, i) \<in> set rs. word f" and "ends ''|)&;'' post" and "length us + length ws < MAXARGS"
    and "list_all2 (word_at buf) args us"
  shows "reads buf (parseargs n buf (EXEC args) (length us) s) (add_redirs (AExec (us @ ws)) rs) post"
  using assms(2-4,7,8)
proof (induction ws arbitrary: n s args us)
  case Nil
  then show ?case by simp
next
  case (Cons w ws)
  let ?t = "show_words ws @ show_redirs rs @ post"
  have w: "word w" "list_all word ws" using Cons.prems(2) by simp_all
  note en = ends_no_redir [OF assms(6)]
  have r0: "rest buf s = w @ ?t" using Cons.prems(1) w by (simp add: show_words_def)
  have nw: "?t = [] \<or> \<not> wordch (hd ?t)"
  proof (cases ws)
    case Nil
    then show ?thesis using en redirs_hd [of rs post]
      by (cases "rs = []") (auto simp: show_words_def show_redirs_def no_redir_def symbols_def chars(4))
  qed (simp add: show_words_def chars)
  obtain s1 where p: "peek buf s ''|)&;'' = (rest buf s \<noteq> [] \<and> hd (rest buf s) \<noteq> NUL \<and> hd (rest buf s) \<in> set ''|)&;'', s1)"
    "rest buf s1 = rest buf s" by (rule peek_rest)
  have "hd (rest buf s) \<notin> set ''|)&;''" using r0 word_hd [OF w(1)] chars(3) [of "hd w"] by (cases w) (auto simp: symbols_def)
  then have no: "peek buf s ''|)&;'' = (False, s1)" using p(1) by simp
  have "rest buf s1 = w @ ?t" using p(2) r0 by simp
  then obtain q s2 where g: "gettoken buf s1 = (CHR ''a'', q, q + length w, s2)" "word_at buf (q, q + length w) w"
    "rest buf s2 = trim ?t" using gettoken_word [OF _ w(1) nw assms(1)] by metis
  let ?args = "args @ [(q, q + length w)]" and ?us = "us @ [w]"
  have a2: "list_all2 (word_at buf) ?args ?us" using Cons.prems(5) g(2) by (simp add: list_all2_appendI)
  have k: "\<not> MAXARGS \<le> length us + 1" and lt: "length ?us + length ws < MAXARGS" using Cons.prems(4) by simp_all
  have "reads buf (pbind (parseredirs m buf (EXEC ?args) s2) (\<lambda>(cmd, s). parseargs m buf cmd (length us + 1) s))
      (add_redirs (AExec (us @ w # ws)) rs) post" for m
  proof (cases ws)
    case Nil
    have "reads buf (parseredirs m buf (EXEC ?args) s2) (add_redirs (AExec ?us) rs) (trim post)"
      by (rule parseredirs_reads [OF assms(1) _ assms(5)]) (use g(3) Nil a2 en in \<open>auto simp: show_words_def\<close>)
    then show ?thesis
      using parseargs_done [OF _ assms(6)] en Nil
      by (cases "parseredirs m buf (EXEC ?args) s2") (auto simp: reads_def)
  next
    case (Cons v vs)
    have "reads buf (parseredirs m buf (EXEC ?args) s2) (add_redirs (AExec ?us) []) (trim ?t)"
      by (rule parseredirs_reads [OF assms(1)]) (use g(3) Cons w a2 words_no_redir in \<open>auto simp: show_redirs_def\<close>)
    then have r: "reads buf (parseredirs m buf (EXEC ?args) s2) (AExec ?us) (trim ?t)" by (simp add: add_redirs_def)
    show ?thesis
    proof (cases "parseredirs m buf (EXEC ?args) s2")
      case (Parsed cs)
      then obtain c s3 where c: "cs = (c, s3)" "denotes buf c (AExec ?us)" "rest buf s3 = trim ?t" using r by (auto simp: reads_def)
      then obtain args' where [simp]: "c = EXEC args'" and a': "list_all2 (word_at buf) args' ?us" by (cases c) auto
      have "reads buf (parseargs m buf (EXEC args') (length ?us) s3) (add_redirs (AExec (?us @ ws)) rs) post"
        by (rule Cons.IH) (use c(3) w(2) Cons a' lt in simp_all)
      then show ?thesis using Parsed c(1) by simp
    qed (use r in \<open>auto simp: reads_def\<close>)
  qed
  then show ?case using no g(1) k by (cases n) (auto simp: reads_def Let_def NUL_def)
qed

text \<open>The four levels of the grammar.\<close>

definition exec_ok :: "ast \<Rightarrow> bool" where
  "exec_ok a \<longleftrightarrow> (\<forall>n buf s rs post. NUL \<notin> set buf \<longrightarrow> rest buf s = trim (show_ast 3 a @ show_redirs rs @ post) \<longrightarrow>
     (\<forall>(f, i) \<in> set rs. word f) \<longrightarrow> ends ''|)&;'' post \<longrightarrow> reads buf (parseexec n buf s) (add_redirs a rs) post)"

definition pipe_ok :: "ast \<Rightarrow> bool" where
  "pipe_ok a \<longleftrightarrow> (\<forall>n buf s post. NUL \<notin> set buf \<longrightarrow> rest buf s = trim (show_ast 2 a @ post) \<longrightarrow> ends '')&;'' post \<longrightarrow>
     reads buf (parsepipe n buf s) a post)"

definition add_backs :: "nat \<Rightarrow> ast \<Rightarrow> ast" where
  "add_backs k a = (ABack ^^ k) a"

definition back_ok :: "ast \<Rightarrow> bool" where
  "back_ok a \<longleftrightarrow> (\<forall>n m buf s k post. NUL \<notin> set buf \<longrightarrow> rest buf s = trim (show_ast 1 a @ replicate k (CHR ''&'') @ post) \<longrightarrow>
     ends '');'' post \<longrightarrow> reads buf (pbind (parsepipe n buf s) (\<lambda>(c, s). parseback m buf c s)) (add_backs k a) post)"

definition line_ok :: "ast \<Rightarrow> bool" where
  "line_ok a \<longleftrightarrow> (\<forall>n buf s post. NUL \<notin> set buf \<longrightarrow> rest buf s = trim (show_ast 0 a @ post) \<longrightarrow> ends '')'' post \<longrightarrow>
     reads buf (parseline n buf s) a post)"

lemma reads_bind:
  assumes "reads buf r a post" and "\<And>c s. denotes buf c a \<Longrightarrow> rest buf s = post \<Longrightarrow> reads buf (f (c, s)) b post'"
  shows "reads buf (pbind r f) b post'"
  using assms by (cases r) (auto simp: reads_def)

lemma pbind_assoc: "pbind (pbind r f) g = pbind r (\<lambda>x. pbind (f x) g)"
  by (cases r) auto

text \<open>A token of punctuation that is there, or not.\<close>

lemma peek_yes:
  assumes "rest buf s = c # t" and "c \<in> set toks" and "c \<in> set ''|();&<''"
  obtains s1 q s2 where "peek buf s toks = (True, s1)" "rest buf s1 = c # t" "gettoken buf s1 = (c, q, q + 1, s2)" "rest buf s2 = trim t"
proof -
  obtain s1 where p: "peek buf s toks = (rest buf s \<noteq> [] \<and> hd (rest buf s) \<noteq> NUL \<and> hd (rest buf s) \<in> set toks, s1)"
    "rest buf s1 = rest buf s" by (rule peek_rest)
  have c: "c \<noteq> NUL" using assms(3) by (auto simp: NUL_def)
  obtain q s2 where "gettoken buf s1 = (c, q, q + 1, s2)" "rest buf s2 = trim t"
    using gettoken_sym [of buf s1 c t] p(2) assms by metis
  then show thesis using that p assms c by simp
qed

lemma peek_no:
  assumes "rest buf s = [] \<or> hd (rest buf s) \<notin> set toks"
  obtains s1 where "peek buf s toks = (False, s1)" "rest buf s1 = rest buf s"
proof -
  obtain s1 where "peek buf s toks = (rest buf s \<noteq> [] \<and> hd (rest buf s) \<noteq> NUL \<and> hd (rest buf s) \<in> set toks, s1)"
    "rest buf s1 = rest buf s" by (rule peek_rest)
  then show thesis using that assms by auto
qed

lemma ends_more: "ends toks post \<Longrightarrow> set toks \<subseteq> set toks' \<Longrightarrow> ends toks' post"
  by (auto simp: ends_def)

lemma exec_AExec:
  assumes "wf_ast (AExec ws)"
  shows "exec_ok (AExec ws)"
  unfolding exec_ok_def
proof (intro allI impI)
  fix n buf s rs post
  assume b: "NUL \<notin> set buf" and r: "rest buf s = trim (show_ast 3 (AExec ws) @ show_redirs rs @ post)"
    and rs: "\<forall>(f, i) \<in> set rs. word f" and en: "ends ''|)&;'' post"
  note en' = ends_no_redir [OF en]
  have w: "list_all word ws" "length ws < MAXARGS" using assms by simp_all
  show "reads buf (parseexec n buf s) (add_redirs (AExec ws) rs) post"
  proof (cases n)
    case 0
    then show ?thesis by (simp add: reads_def)
  next
    case (Suc m)
    have np: "rest buf s = [] \<or> hd (rest buf s) \<notin> set ''(''"
    proof (cases ws)
      case Nil
      then have r': "rest buf s = trim (show_redirs rs @ post)" using r by (simp add: show_words_def)
      show ?thesis
      proof (cases "rs = []")
        case True
        then show ?thesis using r' en en' by (auto simp: show_redirs_def ends_def)
      next
        case False
        then obtain c t where "show_redirs rs @ post = c # t" "c \<in> set ''<>''" using redirs_hd by blast
        then show ?thesis using r' by (auto simp: symbols_def)
      qed
    next
      case (Cons v vs)
      then have "rest buf s = v @ show_words vs @ show_redirs rs @ post" using r w by (simp add: show_words_def)
      then show ?thesis using word_hd [of v] chars(3) [of "hd v"] Cons w by (auto simp: symbols_def)
    qed
    obtain s1 where p: "peek buf s ''('' = (False, s1)" "rest buf s1 = rest buf s" using peek_no [OF np] by metis
    have "reads buf (pbind (parseredirs m buf (EXEC []) s1) (\<lambda>(c, s). parseargs m buf c 0 s)) (add_redirs (AExec ws) rs) post"
    proof (cases "ws = []")
      case True
      have "reads buf (parseredirs m buf (EXEC []) s1) (add_redirs (AExec []) rs) (trim post)"
        by (rule parseredirs_reads [OF b _ rs]) (use p(2) r True en' in \<open>auto simp: show_words_def\<close>)
      then show ?thesis by (rule reads_bind) (use parseargs_done [OF _ en] en' True in auto)
    next
      case False
      then obtain v vs where ws: "ws = v # vs" by (cases ws) auto
      have "reads buf (parseredirs m buf (EXEC []) s1) (add_redirs (AExec []) []) (trim (show_words ws @ show_redirs rs @ post))"
        by (rule parseredirs_reads [OF b]) (use p(2) r ws w words_no_redir in \<open>auto simp: show_redirs_def\<close>)
      then show ?thesis
      proof (rule reads_bind)
        fix c s2 assume c: "denotes buf c (add_redirs (AExec []) [])" "rest buf s2 = trim (show_words ws @ show_redirs rs @ post)"
        then have "c = EXEC []" by (cases c) (auto simp: add_redirs_def)
        then show "reads buf (case (c, s2) of (c, s) \<Rightarrow> parseargs m buf c 0 s) (add_redirs (AExec ws) rs) post"
          using parseargs_reads [OF b c(2) w(1) False rs en, of "[]" "[]"] w(2) by simp
      qed
    qed
    then show ?thesis using Suc p(1) by simp
  qed
qed

lemma exec_ARedir:
  assumes "exec_ok a" and "word f"
  shows "exec_ok (ARedir a f i)"
  unfolding exec_ok_def
proof (intro allI impI)
  fix n buf s rs post
  assume a: "NUL \<notin> set buf" "rest buf s = trim (show_ast 3 (ARedir a f i) @ show_redirs rs @ post)"
    "\<forall>(f, i) \<in> set rs. word f" "ends ''|)&;'' post"
  have "reads buf (parseexec n buf s) (add_redirs a ((f, i) # rs)) post"
    using assms(1) [unfolded exec_ok_def, rule_format, of buf s "(f, i) # rs" post n] a assms(2) by (auto simp: show_redirs_def)
  then show "reads buf (parseexec n buf s) (add_redirs (ARedir a f i) rs) post" by (simp add: add_redirs_def)
qed

lemma exec_paren:
  assumes "line_ok a" and "show_ast 3 a = paren True (show_ast 0 a)"
  shows "exec_ok a"
  unfolding exec_ok_def
proof (intro allI impI)
  fix n buf s rs post
  assume b: "NUL \<notin> set buf" and r: "rest buf s = trim (show_ast 3 a @ show_redirs rs @ post)"
    and rs: "\<forall>(f, i) \<in> set rs. word f" and en: "ends ''|)&;'' post"
  note en' = ends_no_redir [OF en]
  let ?t = "CHR '')'' # show_redirs rs @ post"
  have r: "rest buf s = CHR ''('' # show_ast 0 a @ ?t" using r assms(2) by (simp add: paren_def symbols_def)
  obtain s1 q0 s0 where p: "peek buf s ''('' = (True, s1)" "rest buf s1 = CHR ''('' # show_ast 0 a @ ?t" "gettoken buf s1 = (CHR ''('', q0, q0 + 1, s0)"
    by (rule peek_yes [OF r, of "''(''"]) simp_all
  obtain s2 q1 s3 where h: "peek buf s1 ''('' = (True, s2)" "gettoken buf s2 = (CHR ''('', q1, q1 + 1, s3)" "rest buf s3 = trim (show_ast 0 a @ ?t)"
    by (rule peek_yes [OF p(2), of "''(''"]) simp_all
  have "reads buf (parseblock m buf s1) (add_redirs a rs) post" for m
  proof (cases m)
    case 0
    then show ?thesis by (simp add: reads_def)
  next
    case (Suc l)
    have "reads buf (parseline l buf s3) a ?t"
      using assms(1) b h(3) unfolding line_ok_def by (auto simp: ends_def)
    then have "reads buf (pbind (parseline l buf s3) (\<lambda>(cmd, s). let (yes, s) = peek buf s '')'' in
         if \<not> yes then Syntax ''syntax - missing )'' else (let (_, _, _, s) = gettoken buf s in parseredirs l buf cmd s)))
         (add_redirs a rs) post"
    proof (rule reads_bind)
      fix c s4 assume c: "denotes buf c a" "rest buf s4 = ?t"
      obtain s5 q2 s6 where k: "peek buf s4 '')'' = (True, s5)" "gettoken buf s5 = (CHR '')'', q2, q2 + 1, s6)" "rest buf s6 = trim (show_redirs rs @ post)"
        by (rule peek_yes [OF c(2), of "'')''"]) simp_all
      show "reads buf (case (c, s4) of (cmd, s) \<Rightarrow> let (yes, s) = peek buf s '')'' in
         if \<not> yes then Syntax ''syntax - missing )'' else (let (_, _, _, s) = gettoken buf s in parseredirs l buf cmd s)) (add_redirs a rs) post"
        using k parseredirs_reads [OF b k(3) rs _ c(1), of l] en' by simp
    qed
    then show ?thesis using Suc h(1,2) by simp
  qed
  then show "reads buf (parseexec n buf s) (add_redirs a rs) post" using p(1) by (cases n) (auto simp: reads_def)
qed

lemma pipe_of_exec:
  assumes "exec_ok a" and "show_ast 2 a = show_ast 3 a"
  shows "pipe_ok a"
  unfolding pipe_ok_def
proof (intro allI impI)
  fix n buf s post
  assume b: "NUL \<notin> set buf" and r: "rest buf s = trim (show_ast 2 a @ post)" and en: "ends '')&;'' post"
  have ex: "reads buf (parseexec m buf s) a post" for m
    using assms(1) [unfolded exec_ok_def, rule_format, of buf s "[]" post m] b r assms(2) ends_more [OF en]
    by (simp add: show_redirs_def add_redirs_def)
  show "reads buf (parsepipe n buf s) a post"
  proof (cases n)
    case (Suc m)
    show ?thesis
      unfolding Suc parsepipe.simps
    proof (rule reads_bind [OF ex])
      fix c s1 assume c: "denotes buf c a" "rest buf s1 = post"
      have "rest buf s1 = [] \<or> hd (rest buf s1) \<notin> set ''|''" using c(2) en by (auto simp: ends_def)
      then obtain s2 where "peek buf s1 ''|'' = (False, s2)" "rest buf s2 = rest buf s1" by (rule peek_no)
      then show "reads buf (case (c, s1) of (cmd, s) \<Rightarrow> let (yes, s) = peek buf s ''|'' in
         if yes then (let (_, _, _, s) = gettoken buf s in pbind (parsepipe m buf s) (\<lambda>(r, s). Parsed (pipecmd cmd r, s)))
         else Parsed (cmd, s)) a post"
        using c by (simp add: reads_def)
    qed
  qed (simp add: reads_def)
qed

lemma pipe_APipe:
  assumes "exec_ok l" and "pipe_ok r"
  shows "pipe_ok (APipe l r)"
  unfolding pipe_ok_def
proof (intro allI impI)
  fix n buf s post
  assume b: "NUL \<notin> set buf" and t: "rest buf s = trim (show_ast 2 (APipe l r) @ post)" and en: "ends '')&;'' post"
  let ?t = "CHR ''|'' # show_ast 2 r @ post"
  have ex: "reads buf (parseexec m buf s) l ?t" for m
    using assms(1) [unfolded exec_ok_def, rule_format, of buf s "[]" ?t m] b t
    by (simp add: show_redirs_def add_redirs_def paren_def ends_def)
  show "reads buf (parsepipe n buf s) (APipe l r) post"
  proof (cases n)
    case (Suc m)
    show ?thesis
      unfolding Suc parsepipe.simps
    proof (rule reads_bind [OF ex])
      fix c s1 assume c: "denotes buf c l" "rest buf s1 = ?t"
      obtain s2 q s3 where k: "peek buf s1 ''|'' = (True, s2)" "gettoken buf s2 = (CHR ''|'', q, q + 1, s3)" "rest buf s3 = trim (show_ast 2 r @ post)"
        by (rule peek_yes [OF c(2), of "''|''"]) simp_all
      have "reads buf (pbind (parsepipe m buf s3) (\<lambda>(r, s). Parsed (PIPE c r, s))) (APipe l r) post"
        by (rule reads_bind [of _ _ r post]) (use assms(2) b k(3) en c(1) in \<open>auto simp: pipe_ok_def reads_def\<close>)
      then show "reads buf (case (c, s1) of (cmd, s) \<Rightarrow> let (yes, s) = peek buf s ''|'' in
         if yes then (let (_, _, _, s) = gettoken buf s in pbind (parsepipe m buf s) (\<lambda>(r, s). Parsed (pipecmd cmd r, s)))
         else Parsed (cmd, s)) (APipe l r) post"
        using k by simp
    qed
  qed (simp add: reads_def)
qed

lemma parseback_reads:
  assumes "rest buf s = replicate k (CHR ''&'') @ post" and "ends '');'' post" and "denotes buf c a"
  shows "reads buf (parseback m buf c s) (add_backs k a) post"
  using assms
proof (induction k arbitrary: m c a s)
  case 0
  then have "rest buf s = [] \<or> hd (rest buf s) \<notin> set ''&''" by (auto simp: ends_def)
  then obtain s1 where "peek buf s ''&'' = (False, s1)" "rest buf s1 = rest buf s" by (rule peek_no)
  then show ?case using 0 by (cases m) (auto simp: reads_def add_backs_def)
next
  case (Suc k)
  have t: "rest buf s = CHR ''&'' # replicate k (CHR ''&'') @ post" using Suc.prems(1) by simp
  obtain s2 q s3 where g: "peek buf s ''&'' = (True, s2)" "gettoken buf s2 = (CHR ''&'', q, q + 1, s3)"
    "rest buf s3 = trim (replicate k (CHR ''&'') @ post)"
    by (rule peek_yes [OF t, of "''&''"]) simp_all
  have "trim (replicate k (CHR ''&'') @ post) = replicate k (CHR ''&'') @ post"
    using Suc.prems(2) by (cases k; cases post) (auto simp: ends_def symbols_def)
  then have "reads buf (parseback (m - 1) buf (BACK c) s3) (add_backs k (ABack a)) post"
    using Suc.IH [of s3 "BACK c" "ABack a" "m - 1"] g(3) Suc.prems(2,3) by simp
  moreover have "add_backs k (ABack a) = add_backs (Suc k) a" by (simp add: add_backs_def funpow_swap1)
  ultimately show ?case using g(1,2) by (cases m) (auto simp: reads_def)
qed

lemma back_of_pipe:
  assumes "pipe_ok a" and "show_ast 1 a = show_ast 2 a"
  shows "back_ok a"
  unfolding back_ok_def
proof (intro allI impI)
  fix n m buf s k post
  assume b: "NUL \<notin> set buf" and r: "rest buf s = trim (show_ast 1 a @ replicate k (CHR ''&'') @ post)" and en: "ends '');'' post"
  have "ends '')&;'' (replicate k (CHR ''&'') @ post)" using en by (cases k) (auto simp: ends_def)
  then have "reads buf (parsepipe n buf s) a (replicate k (CHR ''&'') @ post)"
    using assms b r unfolding pipe_ok_def by simp
  then show "reads buf (pbind (parsepipe n buf s) (\<lambda>(c, s). parseback m buf c s)) (add_backs k a) post"
    by (rule reads_bind) (use parseback_reads en in auto)
qed

lemma back_ABack: "back_ok a \<Longrightarrow> back_ok (ABack a)"
  unfolding back_ok_def
proof (intro allI impI)
  fix n m buf s k post
  assume ok: "\<forall>n m buf s k post. NUL \<notin> set buf \<longrightarrow> rest buf s = trim (show_ast 1 a @ replicate k (CHR ''&'') @ post) \<longrightarrow>
     ends '');'' post \<longrightarrow> reads buf (pbind (parsepipe n buf s) (\<lambda>(c, s). parseback m buf c s)) (add_backs k a) post"
    and b: "NUL \<notin> set buf" and r: "rest buf s = trim (show_ast 1 (ABack a) @ replicate k (CHR ''&'') @ post)" and en: "ends '');'' post"
  have "rest buf s = trim (show_ast 1 a @ replicate (Suc k) (CHR ''&'') @ post)" using r by (simp add: paren_def)
  then have "reads buf (pbind (parsepipe n buf s) (\<lambda>(c, s). parseback m buf c s)) (add_backs (Suc k) a) post"
    using ok b en by blast
  then show "reads buf (pbind (parsepipe n buf s) (\<lambda>(c, s). parseback m buf c s)) (add_backs k (ABack a)) post"
    by (simp add: add_backs_def funpow_swap1)
qed

lemma line_of_back:
  assumes "back_ok a" and "show_ast 0 a = show_ast 1 a"
  shows "line_ok a"
  unfolding line_ok_def
proof (intro allI impI)
  fix n buf s post
  assume b: "NUL \<notin> set buf" and r: "rest buf s = trim (show_ast 0 a @ post)" and en: "ends '')'' post"
  have bk: "reads buf (pbind (parsepipe m buf s) (\<lambda>(c, s). parseback m buf c s)) a post" for m
    using assms(1) [unfolded back_ok_def, rule_format, of buf s 0 post m m] b r assms(2) ends_more [OF en]
    by (simp add: add_backs_def)
  show "reads buf (parseline n buf s) a post"
  proof (cases n)
    case (Suc m)
    have "reads buf (pbind (pbind (parsepipe m buf s) (\<lambda>(c, s). parseback m buf c s)) (\<lambda>(cmd, s).
       let (yes, s) = peek buf s '';'' in if yes then (let (_, _, _, s) = gettoken buf s in
        pbind (parseline m buf s) (\<lambda>(r, s). Parsed (listcmd cmd r, s))) else Parsed (cmd, s))) a post"
    proof (rule reads_bind [OF bk])
      fix c s1 assume c: "denotes buf c a" "rest buf s1 = post"
      have "rest buf s1 = [] \<or> hd (rest buf s1) \<notin> set '';''" using c(2) en by (auto simp: ends_def)
      then obtain s2 where "peek buf s1 '';'' = (False, s2)" "rest buf s2 = rest buf s1" by (rule peek_no)
      then show "reads buf (case (c, s1) of (cmd, s) \<Rightarrow> let (yes, s) = peek buf s '';'' in
         if yes then (let (_, _, _, s) = gettoken buf s in pbind (parseline m buf s) (\<lambda>(r, s). Parsed (listcmd cmd r, s)))
         else Parsed (cmd, s)) a post"
        using c by (simp add: reads_def)
    qed
    then show ?thesis unfolding Suc parseline.simps pbind_assoc by (simp add: case_prod_unfold)
  qed (simp add: reads_def)
qed

lemma line_AList:
  assumes "back_ok l" and "line_ok r"
  shows "line_ok (AList l r)"
  unfolding line_ok_def
proof (intro allI impI)
  fix n buf s post
  assume b: "NUL \<notin> set buf" and t: "rest buf s = trim (show_ast 0 (AList l r) @ post)" and en: "ends '')'' post"
  let ?t = "CHR '';'' # show_ast 0 r @ post"
  have bk: "reads buf (pbind (parsepipe m buf s) (\<lambda>(c, s). parseback m buf c s)) l ?t" for m
    using assms(1) [unfolded back_ok_def, rule_format, of buf s 0 ?t m m] b t by (simp add: add_backs_def paren_def ends_def)
  show "reads buf (parseline n buf s) (AList l r) post"
  proof (cases n)
    case (Suc m)
    have "reads buf (pbind (pbind (parsepipe m buf s) (\<lambda>(c, s). parseback m buf c s)) (\<lambda>(cmd, s).
       let (yes, s) = peek buf s '';'' in if yes then (let (_, _, _, s) = gettoken buf s in
        pbind (parseline m buf s) (\<lambda>(r, s). Parsed (listcmd cmd r, s))) else Parsed (cmd, s))) (AList l r) post"
    proof (rule reads_bind [OF bk])
      fix c s1 assume c: "denotes buf c l" "rest buf s1 = ?t"
      obtain s2 q s3 where k: "peek buf s1 '';'' = (True, s2)" "gettoken buf s2 = (CHR '';'', q, q + 1, s3)" "rest buf s3 = trim (show_ast 0 r @ post)"
        by (rule peek_yes [OF c(2), of "'';''"]) simp_all
      have "reads buf (pbind (parseline m buf s3) (\<lambda>(r, s). Parsed (LIST c r, s))) (AList l r) post"
        by (rule reads_bind [of _ _ r post]) (use assms(2) b k(3) en c(1) in \<open>auto simp: line_ok_def reads_def\<close>)
      then show "reads buf (case (c, s1) of (cmd, s) \<Rightarrow> let (yes, s) = peek buf s '';'' in
         if yes then (let (_, _, _, s) = gettoken buf s in pbind (parseline m buf s) (\<lambda>(r, s). Parsed (listcmd cmd r, s)))
         else Parsed (cmd, s)) (AList l r) post"
        using k by simp
    qed
    then show ?thesis unfolding Suc parseline.simps pbind_assoc by (simp add: case_prod_unfold)
  qed (simp add: reads_def)
qed

lemma all_ok: "wf_ast a \<Longrightarrow> exec_ok a \<and> pipe_ok a \<and> back_ok a \<and> line_ok a"
proof (induction a)
  case (AExec ws)
  then have "exec_ok (AExec ws)" by (rule exec_AExec)
  then show ?case by (auto intro!: pipe_of_exec back_of_pipe line_of_back)
next
  case (ARedir a f i)
  then have "exec_ok (ARedir a f i)" by (auto intro: exec_ARedir)
  then show ?case by (auto intro!: pipe_of_exec back_of_pipe line_of_back)
next
  case (APipe l r)
  then have p: "pipe_ok (APipe l r)" by (auto intro: pipe_APipe)
  then have l: "back_ok (APipe l r)" "line_ok (APipe l r)" by (auto intro!: back_of_pipe line_of_back simp: paren_def)
  then have "exec_ok (APipe l r)" by (auto intro: exec_paren simp: paren_def)
  then show ?case using p l by blast
next
  case (AList l r)
  then have l: "line_ok (AList l r)" by (auto intro: line_AList)
  then have "exec_ok (AList l r)" by (auto intro: exec_paren simp: paren_def)
  then show ?case using l by (auto intro!: pipe_of_exec back_of_pipe simp: paren_def)
next
  case (ABack a)
  then have b: "back_ok (ABack a)" by (auto intro: back_ABack)
  then have l: "line_ok (ABack a)" by (auto intro!: line_of_back simp: paren_def)
  then have "exec_ok (ABack a)" by (auto intro: exec_paren simp: paren_def)
  then show ?case using b l by (auto intro!: pipe_of_exec simp: paren_def)
qed

section \<open>Terminating the strings\<close>

fun stops :: "cmd \<Rightarrow> nat set" where
  "stops (EXEC args) = snd ` set args"
| "stops (REDIR c p m fd) = insert (snd p) (stops c)"
| "stops (PIPE l r) = stops l \<union> stops r"
| "stops (LIST l r) = stops l \<union> stops r"
| "stops (BACK c) = stops c"

definition with_nuls :: "string \<Rightarrow> nat set \<Rightarrow> string" where
  "with_nuls buf E = map (\<lambda>i. if i \<in> E then NUL else buf ! i) [0..<length buf]"

lemma put_nul_nuls: "put_nul (with_nuls buf E) e = with_nuls buf (insert e E)"
proof (rule nth_equalityI)
  fix i assume i: "i < length (put_nul (with_nuls buf E) e)"
  then have "i < length buf" by (simp add: put_nul_def with_nuls_def)
  then show "put_nul (with_nuls buf E) e ! i = with_nuls buf (insert e E) ! i"
    by (cases "i = e") (simp_all add: put_nul_def with_nuls_def)
qed (simp add: put_nul_def with_nuls_def)

lemma with_nuls_empty: "with_nuls buf {} = buf"
  by (simp add: with_nuls_def map_nth)

lemma nulterminate_nuls: "nulterminate (with_nuls buf E) c = with_nuls buf (E \<union> stops c)"
proof (induction c arbitrary: E)
  case (EXEC args)
  show ?case
  proof (induction args arbitrary: E)
    case (Cons a args)
    then show ?case by (cases a) (simp add: put_nul_nuls)
  qed simp
next
  case (REDIR c p m fd)
  then show ?case by (cases p) (simp add: put_nul_nuls)
qed (simp_all add: Un_assoc)

lemma word_stop:
  assumes "word_at buf (q, e) w"
  shows "e = length buf \<or> e < length buf \<and> \<not> wordch (buf ! e)" "\<And>i. q \<le> i \<Longrightarrow> i < e \<Longrightarrow> i < length buf \<and> wordch (buf ! i)"
    "e \<le> length buf" "q < e"
proof -
  obtain r where r: "drop q buf = w @ r" "r = [] \<or> \<not> wordch (hd r)" and e: "e = q + length w" "word w"
    using assms by (auto simp: word_at_def)
  have "w \<noteq> []" using word_hd e(2) by blast
  then have "length (drop q buf) = length w + length r" "drop q buf \<noteq> []" using r(1) by simp_all
  then have len: "length buf = e + length r" using e(1) by simp
  then show "e \<le> length buf" by simp
  show "q < e" using e \<open>w \<noteq> []\<close> by simp
  have nth: "buf ! (q + j) = (w @ r) ! j" if "q + j < length buf" for j
    using that r(1) by (metis add.commute nth_drop less_or_eq_imp_le le_add1 add_leD1 less_imp_le_nat)
  show "e = length buf \<or> e < length buf \<and> \<not> wordch (buf ! e)"
  proof (cases r)
    case Nil
    then show ?thesis using len by simp
  next
    case (Cons c t)
    then show ?thesis using r(2) len nth [of "length w"] e(1) by simp
  qed
  fix i assume i: "q \<le> i" "i < e"
  then obtain j where "i = q + j" "j < length w" using e(1) by (metis add_less_cancel_left le_Suc_ex)
  then show "i < length buf \<and> wordch (buf ! i)"
    using nth [of j] len e by (auto simp: nth_append word_def list_all_length)
qed

text \<open>No stop lies inside a word.\<close>

definition stops_ok :: "string \<Rightarrow> nat set \<Rightarrow> bool" where
  "stops_ok buf E \<longleftrightarrow> (\<forall>e \<in> E. e < length buf \<longrightarrow> \<not> wordch (buf ! e))"

lemma cstring_word:
  assumes "word_at buf (q, e) w" and "e \<in> E" and "stops_ok buf E"
  shows "cstring (with_nuls buf E) q = w"
proof -
  note ws = word_stop [OF assms(1)]
  have e: "e = q + length w" using assms(1) by (simp add: word_at_def)
  have w: "w ! j = buf ! (q + j)" if "j < length w" for j
  proof -
    obtain r where "drop q buf = w @ r" using assms(1) by (auto simp: word_at_def)
    then show ?thesis using that ws(3) e by (metis nth_append nth_drop add_leD1)
  qed
  let ?b = "with_nuls buf E"
  have len: "length ?b = length buf" by (simp add: with_nuls_def)
  have in_w: "?b ! (q + j) = w ! j" "w ! j \<noteq> NUL" if j: "j < length w" for j
  proof -
    have i: "q + j < length buf" "wordch (buf ! (q + j))" using ws(2) [of "q + j"] j e by auto
    then have "q + j \<notin> E" using assms(3) by (auto simp: stops_ok_def)
    then show "?b ! (q + j) = w ! j" "w ! j \<noteq> NUL" using i w [OF j] chars(1) by (auto simp: with_nuls_def)
  qed
  have d: "drop q ?b = w @ drop e ?b"
  proof (rule nth_equalityI)
    show "length (drop q ?b) = length (w @ drop e ?b)" using ws(3) e len by simp
    fix j assume j: "j < length (drop q ?b)"
    show "drop q ?b ! j = (w @ drop e ?b) ! j"
      using j ws(3) e len in_w(1) by (cases "j < length w") (auto simp: nth_append add.commute)
  qed
  have "takeWhile (\<lambda>c. c \<noteq> NUL) (drop e ?b) = []"
  proof (cases "e < length buf")
    case True
    then have "drop e ?b = NUL # drop (Suc e) ?b" using len assms(2) by (subst Cons_nth_drop_Suc [symmetric]) (simp_all add: with_nuls_def)
    then show ?thesis by simp
  qed (use len in simp)
  moreover have "\<forall>c \<in> set w. c \<noteq> NUL" using in_w(2) by (auto simp: in_set_conv_nth)
  ultimately show ?thesis unfolding cstring_def d by (simp add: takeWhile_append2)
qed

lemma denotes_stops: "denotes buf c a \<Longrightarrow> stops_ok buf (stops c)"
proof (induction c arbitrary: a)
  case (EXEC args)
  then obtain ws where "list_all2 (word_at buf) args ws" by auto
  then show ?case using word_stop(1) by (fastforce simp: stops_ok_def list_all2_conv_all_nth in_set_conv_nth)
next
  case (REDIR c p m fd)
  then show ?case using word_stop(1) [of buf "fst p" "snd p"] by (auto simp: stops_ok_def)
qed (auto simp: stops_ok_def)

lemma denotes_ast_of: "denotes buf c a \<Longrightarrow> stops c \<subseteq> E \<Longrightarrow> stops_ok buf E \<Longrightarrow> ast_of (with_nuls buf E) c = a"
proof (induction c arbitrary: a)
  case (EXEC args)
  then obtain ws where a: "a = AExec ws" "list_all2 (word_at buf) args ws" by auto
  have "map (\<lambda>(q, _). cstring (with_nuls buf E) q) args = ws"
  proof (rule nth_equalityI)
    show "length (map (\<lambda>(q, _). cstring (with_nuls buf E) q) args) = length ws" using a(2) by (simp add: list_all2_lengthD)
    fix i assume i: "i < length (map (\<lambda>(q, _). cstring (with_nuls buf E) q) args)"
    obtain q e where qe: "args ! i = (q, e)" by fastforce
    have "word_at buf (q, e) (ws ! i)" using a(2) i qe by (auto dest: list_all2_nthD)
    moreover have "e \<in> E" using EXEC.prems(2) i qe by (force simp: image_iff in_set_conv_nth)
    ultimately show "map (\<lambda>(q, _). cstring (with_nuls buf E) q) args ! i = ws ! i"
      using cstring_word EXEC.prems(3) i qe by simp
  qed
  then show ?case using a(1) by simp
next
  case (REDIR c p m fd)
  then show ?case
    using cstring_word [of buf "fst p" "snd p"] by (cases p) (auto simp: O_RDONLY_def O_WRONLY_CREATE_def split: if_splits)
qed auto

lemma nul_free:
  assumes "wf_ast a"
  shows "NUL \<notin> set (show_ast lv a)"
  using assms
proof (induction a arbitrary: lv)
  case (AExec ws)
  then show ?case by (auto simp: show_words_def word_def list_all_iff wordch_def NUL_def)
qed (auto simp: paren_def show_redir_def word_def list_all_iff wordch_def NUL_def)

section \<open>Properties\<close>

text \<open>
  C30. A command printed as a line, parentheses where the grammar needs them, is parsed back by \<open>parsecmd\<close>:
  the line is accepted, with nothing left over, and the command built, its strings read from the buffer as
  \<open>nulterminate\<close> leaves it, is the command that was printed.
\<close>

theorem parsecmd_reads_back:
  assumes "wf_ast a"
  shows "\<exists>c buf. parsecmd (show_ast 0 a) = Parsed (c, buf) \<and> ast_of buf c = a"
proof -
  let ?b = "show_ast 0 a" and ?n = "parse_fuel (show_ast 0 a)"
  have b: "NUL \<notin> set ?b" using nul_free [OF assms] .
  have "line_ok a" using all_ok [OF assms] by simp
  then have r: "reads ?b (parseline ?n ?b 0) a []"
    using b unfolding line_ok_def by (elim allE [of _ ?n] allE [of _ ?b] allE [of _ 0] allE [of _ "[]"]) (simp add: rest_def ends_def)
  have t: "returns ?b 0 3 ?n (parseline ?n ?b 0)" using parse_total [of 0 ?b ?n] by simp
  then have "parseline ?n ?b 0 \<noteq> NoFuel" by (simp add: returns_def parse_fuel_def)
  then obtain c s where p: "parseline ?n ?b 0 = Parsed (c, s)" "denotes ?b c a" "rest ?b s = []"
    using r by (auto simp: reads_def)
  have sl: "s \<le> length ?b" using t p(1) by (simp add: returns_def moves_def)
  have "skip_ws ?b s \<le> length ?b" "drop (skip_ws ?b s) ?b = []" using skip_ws_le(2) [OF sl] p(3) drop_skip_rest by simp_all
  then have "skip_ws ?b s = length ?b" by simp
  then have "parsecmd ?b = Parsed (c, nulterminate ?b c)" using p(1) by (simp add: parsecmd_def peek_def Let_def)
  moreover have "nulterminate ?b c = with_nuls ?b (stops c)"
    using nulterminate_nuls [of ?b "{}" c] by (simp add: with_nuls_empty)
  ultimately show ?thesis using denotes_ast_of [OF p(2)] denotes_stops [OF p(2)] by auto
qed

theorem parsecmd_reads_back_witness:
  "\<exists>c buf. parsecmd (show_ast 0 (AList (ABack (APipe (AExec [''cat'', ''a'']) (ARedir (AExec [''wc'']) ''out'' False))) (AExec [''ls''])))
      = Parsed (c, buf) \<and>
    ast_of buf c = AList (ABack (APipe (AExec [''cat'', ''a'']) (ARedir (AExec [''wc'']) ''out'' False))) (AExec [''ls''])"
  by (rule parsecmd_reads_back)
    (simp add: word_def wordch_def strchr_def whitespace_def symbols_def NUL_def MAXARGS_def)

text \<open>
  C31. Whatever the line, the parser of the shell returns: a command, the message of a syntax error, or the
  rest of a line that is not a command.
\<close>

theorem parsecmd_returns:
  "(\<exists>c b. parsecmd buf = Parsed (c, b)) \<or> (\<exists>e. parsecmd buf = Syntax e) \<or> (\<exists>t. parsecmd buf = Leftovers t)"
  using parse_never_out_of_fuel [of buf] by (cases "parsecmd buf") auto

end
