(* ===== verification/Grep.thy ===== *)
theory Grep
  imports Main
begin

text \<open>
  user/grep.c: the matcher for \<open>^ . * $\<close>, with the language of a pattern as its reference, the loop that
  reads a file through a buffer of 1024 bytes, and \<open>main\<close>. Strings are their bytes up to the zero byte. The buffer is static: it
  begins as zeroes and keeps what is in it from one file to the next.
\<close>

section \<open>The matcher\<close>

function matchhere :: "string \<Rightarrow> string \<Rightarrow> bool"
  and matchstar :: "char \<Rightarrow> string \<Rightarrow> string \<Rightarrow> bool"
where
  "matchhere re text =
     (if re = [] then True
      else if tl re \<noteq> [] \<and> hd (tl re) = CHR ''*'' then matchstar (hd re) (tl (tl re)) text
      else if hd re = CHR ''$'' \<and> tl re = [] then text = []
      else if text \<noteq> [] \<and> (hd re = CHR ''.'' \<or> hd re = hd text) then matchhere (tl re) (tl text)
      else False)"
| "matchstar c re text =
     (if matchhere re text then True
      else if text \<noteq> [] \<and> (hd text = c \<or> c = CHR ''.'') then matchstar c re (tl text)
      else False)"
  by pat_completeness auto

termination
proof (relation "measures [\<lambda>x. case x of Inl (re, text) \<Rightarrow> 2 * length re | Inr (c, re, text) \<Rightarrow> 2 * length re + 1,
      \<lambda>x. case x of Inl (re, text) \<Rightarrow> length text | Inr (c, re, text) \<Rightarrow> length text]")
qed (auto simp: neq_Nil_conv)

declare matchhere.simps [simp del] matchstar.simps [simp del]

fun match_from :: "string \<Rightarrow> string \<Rightarrow> bool" where
  "match_from re [] = matchhere re []"
| "match_from re (t # text) = (matchhere re (t # text) \<or> match_from re text)"

definition match :: "string \<Rightarrow> string \<Rightarrow> bool" where
  "match re text =
     (case re of
        c # re' \<Rightarrow> if c = CHR ''^'' then matchhere re' text else match_from re text
      | [] \<Rightarrow> match_from re text)"

section \<open>The loop\<close>

definition NL :: char where
  "NL = CHR 0x0A"

definition NUL :: char where
  "NUL = CHR 0x00"

definition BUFSZ :: nat where
  "BUFSZ = 1024"

datatype scan = Newline nat | NoNewline | Overrun

text \<open>\<open>strchr(p, '\<newline>')\<close> on the buffer: it stops at a zero byte; past the end of the buffer it reads what
  is not the buffer's.\<close>

function strchr_nl :: "string \<Rightarrow> nat \<Rightarrow> scan" where
  "strchr_nl buf p =
     (if p < length buf
      then if buf ! p = NL then Newline p else if buf ! p = NUL then NoNewline else strchr_nl buf (p + 1)
      else Overrun)"
  by pat_completeness auto

termination
  by (relation "measure (\<lambda>(buf, p). length buf - p)") auto

declare strchr_nl.simps [simp del]

text \<open>The string at \<open>p\<close> once the byte at \<open>q\<close> is zero.\<close>

definition text_at :: "string \<Rightarrow> nat \<Rightarrow> nat \<Rightarrow> string" where
  "text_at buf p q = takeWhile (\<lambda>c. c \<noteq> NUL) (take (q - p) (drop p buf))"

text \<open>The inner loop: the lines from \<open>p\<close> on. It returns what it wrote, the buffer and \<open>p\<close>; \<open>None\<close> when the
  scan ran past the buffer.\<close>

function grep_lines :: "string \<Rightarrow> string \<Rightarrow> nat \<Rightarrow> (string \<times> string \<times> nat) option" where
  "grep_lines pattern buf p =
     (case strchr_nl buf p of
        Overrun \<Rightarrow> None
      | NoNewline \<Rightarrow> Some ('''', buf, p)
      | Newline q \<Rightarrow>
          if q < p \<or> length buf \<le> q then None
          else if match pattern (text_at buf p q)
          then (case grep_lines pattern buf (q + 1) of
                  None \<Rightarrow> None
                | Some (out, buf', p') \<Rightarrow> Some (take (q + 1 - p) (drop p buf) @ out, buf', p'))
          else grep_lines pattern (buf[q := NUL]) (q + 1))"
  by pat_completeness auto

termination
  by (relation "measure (\<lambda>(pattern, buf, p). length buf - p)") auto

declare grep_lines.simps [simp del]

text \<open>\<open>grep\<close> on what the reads return: each read gives at most the bytes asked for of what is there next;
  a read of no bytes, or the end, ends the loop. \<open>m\<close> may become negative, and then a read stores below the buffer. The result
  is what was written and the buffer as it is left, \<open>None\<close> when the loop reads or writes outside it.\<close>

definition store :: "string \<Rightarrow> nat \<Rightarrow> string \<Rightarrow> string" where
  "store buf m bs = take m buf @ bs @ drop (m + length bs) buf"

function grep :: "string \<Rightarrow> string \<Rightarrow> int \<Rightarrow> string list \<Rightarrow> string \<times> string option" where
  "grep pattern buf m [] = ('''', Some buf)"
| "grep pattern buf m (chunk # rest) =
     (if chunk = [] then ('''', Some buf)
      else if m < 0 then ('''', None)
      else
        (let n = min (length chunk) (BUFSZ - nat m) in
         if n = 0 then ('''', Some buf)
         else
           (let buf = store buf (nat m) (take n chunk); m = m + int n;
                rest = (if n < length chunk then drop n chunk # rest else rest)
            in case grep_lines pattern buf 0 of
                 None \<Rightarrow> ('''', None)
               | Some (out, buf, p) \<Rightarrow>
                   (let m = (if p = 0 then 0 else m);
                        (buf, m) = (if m > 0 then (store buf 0 (take (nat (m - int p)) (drop p buf)), m - int p) else (buf, m));
                        (out', res) = grep pattern buf m rest
                    in (out @ out', res)))))"
  by pat_completeness auto

termination
  by (relation "measure (\<lambda>(pattern, buf, m, chunks). length (concat chunks) + length chunks)") auto

declare grep.simps(2) [simp del]

text \<open>The loop of \<open>main\<close> over the files named, each with what its reads return, \<open>None\<close> when it cannot be opened; and \<open>main\<close>, with
  what is written to descriptor 1. The message on how to use the program goes to descriptor 2.\<close>

fun grep_files :: "string \<Rightarrow> string \<Rightarrow> (string \<times> string list option) list \<Rightarrow> string \<times> string option" where
  "grep_files pattern buf [] = ('''', Some buf)"
| "grep_files pattern buf ((name, None) # fs) = (''grep: cannot open '' @ name @ [NL], Some buf)"
| "grep_files pattern buf ((name, Some reads) # fs) =
     (case grep pattern buf 0 reads of
        (out, None) \<Rightarrow> (out, None)
      | (out, Some buf) \<Rightarrow> (let (out', res) = grep_files pattern buf fs in (out @ out', res)))"

definition grep_main :: "string list \<Rightarrow> string list \<Rightarrow> (string \<Rightarrow> string list option) \<Rightarrow> string \<times> string option" where
  "grep_main args input opens =
     (let buf = replicate BUFSZ NUL in
      case args of
        _ # pattern # files \<Rightarrow>
          if files = [] then grep pattern buf 0 input
          else grep_files pattern buf (map (\<lambda>f. (f, opens f)) files)
      | _ \<Rightarrow> ('''', Some buf))"

section \<open>The language of a pattern\<close>

datatype item = One char | Many char

definition sym :: "char \<Rightarrow> char \<Rightarrow> bool" where
  "sym c t \<longleftrightarrow> c = CHR ''.'' \<or> c = t"

text \<open>The items of a pattern, and whether a \<open>$\<close> ends it.\<close>

function items :: "string \<Rightarrow> item list \<times> bool" where
  "items re =
     (if re = [] then ([], False)
      else if tl re \<noteq> [] \<and> hd (tl re) = CHR ''*'' then apfst ((#) (Many (hd re))) (items (tl (tl re)))
      else if hd re = CHR ''$'' \<and> tl re = [] then ([], True)
      else apfst ((#) (One (hd re))) (items (tl re)))"
  by pat_completeness auto

termination
  by (relation "measure length") (auto simp: neq_Nil_conv)

declare items.simps [simp del]

fun lang :: "item list \<Rightarrow> string set" where
  "lang [] = {[]}"
| "lang (One c # is) = {t # w | t w. sym c t \<and> w \<in> lang is}"
| "lang (Many c # is) = {u @ w | u w. list_all (sym c) u \<and> w \<in> lang is}"

text \<open>Some prefix of the text, the whole text when a \<open>$\<close> ends the pattern, is in the language.\<close>

definition here :: "string \<Rightarrow> string \<Rightarrow> bool" where
  "here re text \<longleftrightarrow> (\<exists>u v. text = u @ v \<and> u \<in> lang (fst (items re)) \<and> (snd (items re) \<longrightarrow> v = []))"

definition matches :: "string \<Rightarrow> string \<Rightarrow> bool" where
  "matches re text \<longleftrightarrow>
     (if re \<noteq> [] \<and> hd re = CHR ''^'' then here (tl re) text else \<exists>p v. text = p @ v \<and> here re v)"

lemma here_Nil: "here [] text"
  by (simp add: here_def items.simps)

lemma here_end: "here [CHR ''$''] text \<longleftrightarrow> text = []"
  by (simp add: here_def items.simps)

lemma here_One:
  assumes "re \<noteq> []" and "\<not> (tl re \<noteq> [] \<and> hd (tl re) = CHR ''*'')" and "\<not> (hd re = CHR ''$'' \<and> tl re = [])"
  shows "here re text \<longleftrightarrow> text \<noteq> [] \<and> sym (hd re) (hd text) \<and> here (tl re) (tl text)"
proof -
  have i: "items re = apfst ((#) (One (hd re))) (items (tl re))" using assms by (subst items.simps) auto
  show ?thesis
  proof
    assume "here re text"
    then obtain u v where u: "text = u @ v" "u \<in> lang (One (hd re) # fst (items (tl re)))" "snd (items (tl re)) \<longrightarrow> v = []"
      unfolding here_def i by auto
    then obtain t w where "u = t # w" "sym (hd re) t" "w \<in> lang (fst (items (tl re)))" by auto
    then show "text \<noteq> [] \<and> sym (hd re) (hd text) \<and> here (tl re) (tl text)" using u unfolding here_def by auto
  next
    assume a: "text \<noteq> [] \<and> sym (hd re) (hd text) \<and> here (tl re) (tl text)"
    then obtain u v where "tl text = u @ v" "u \<in> lang (fst (items (tl re)))" "snd (items (tl re)) \<longrightarrow> v = []"
      unfolding here_def by auto
    then have "text = (hd text # u) @ v" "hd text # u \<in> lang (fst (items re))" "snd (items re) \<longrightarrow> v = []"
      using a by (auto simp: i neq_Nil_conv)
    then show "here re text" unfolding here_def by blast
  qed
qed

lemma here_Many:
  assumes "re \<noteq> []" and "tl re \<noteq> []" and "hd (tl re) = CHR ''*''"
  shows "here re text \<longleftrightarrow> (\<exists>p v. text = p @ v \<and> list_all (sym (hd re)) p \<and> here (tl (tl re)) v)"
proof -
  have i: "items re = apfst ((#) (Many (hd re))) (items (tl (tl re)))" using assms by (subst items.simps) auto
  show ?thesis
  proof
    assume "here re text"
    then obtain x v where x: "text = x @ v" "x \<in> lang (Many (hd re) # fst (items (tl (tl re))))" "snd (items (tl (tl re))) \<longrightarrow> v = []"
      unfolding here_def i by auto
    then obtain u w where "x = u @ w" "list_all (sym (hd re)) u" "w \<in> lang (fst (items (tl (tl re))))" by auto
    then show "\<exists>p v. text = p @ v \<and> list_all (sym (hd re)) p \<and> here (tl (tl re)) v" using x unfolding here_def by auto
  next
    assume "\<exists>p v. text = p @ v \<and> list_all (sym (hd re)) p \<and> here (tl (tl re)) v"
    then obtain p u v where "text = p @ u @ v" "list_all (sym (hd re)) p" "u \<in> lang (fst (items (tl (tl re))))"
      "snd (items (tl (tl re))) \<longrightarrow> v = []" unfolding here_def by auto
    then have "text = (p @ u) @ v" "p @ u \<in> lang (fst (items re))" "snd (items re) \<longrightarrow> v = []" by (auto simp: i)
    then show "here re text" unfolding here_def by blast
  qed
qed

lemma star_step:
  "(\<exists>p v. text = p @ v \<and> list_all (sym c) p \<and> P v) \<longleftrightarrow>
     P text \<or> text \<noteq> [] \<and> sym c (hd text) \<and> (\<exists>p v. tl text = p @ v \<and> list_all (sym c) p \<and> P v)"
proof
  assume "\<exists>p v. text = p @ v \<and> list_all (sym c) p \<and> P v"
  then obtain p v where "text = p @ v" "list_all (sym c) p" "P v" by blast
  then show "P text \<or> text \<noteq> [] \<and> sym c (hd text) \<and> (\<exists>p v. tl text = p @ v \<and> list_all (sym c) p \<and> P v)"
    by (cases p) auto
next
  assume "P text \<or> text \<noteq> [] \<and> sym c (hd text) \<and> (\<exists>p v. tl text = p @ v \<and> list_all (sym c) p \<and> P v)"
  then show "\<exists>p v. text = p @ v \<and> list_all (sym c) p \<and> P v"
  proof
    assume "P text"
    then show ?thesis by (intro exI [of _ "[]"] exI [of _ "text"]) simp
  next
    assume a: "text \<noteq> [] \<and> sym c (hd text) \<and> (\<exists>p v. tl text = p @ v \<and> list_all (sym c) p \<and> P v)"
    then obtain p v where "tl text = p @ v" "list_all (sym c) p" "P v" by blast
    then show ?thesis using a by (intro exI [of _ "hd text # p"] exI [of _ v]) (auto simp: neq_Nil_conv)
  qed
qed

lemma matchhere_here:
  "matchhere re xs \<longleftrightarrow> here re xs"
  "matchstar c re xs \<longleftrightarrow> (\<exists>p v. xs = p @ v \<and> list_all (sym c) p \<and> here re v)"
proof (induction re xs and c re xs rule: matchhere_matchstar.induct)
  case (1 re xs)
  note ih = 1
  consider "re = []" | "re \<noteq> []" "tl re \<noteq> [] \<and> hd (tl re) = CHR ''*''"
    | "re \<noteq> []" "hd re = CHR ''$'' \<and> tl re = []"
    | "re \<noteq> []" "\<not> (tl re \<noteq> [] \<and> hd (tl re) = CHR ''*'')" "\<not> (hd re = CHR ''$'' \<and> tl re = [])" by blast
  then show ?case
  proof cases
    case 1
    then show ?thesis by (subst matchhere.simps) (simp add: here_Nil)
  next
    case 2
    then show ?thesis using ih(1) [OF 2] here_Many [of re xs] by (subst matchhere.simps) simp
  next
    case 3
    then have "re = [CHR ''$'']" by (metis hd_Cons_tl)
    then show ?thesis using here_end by (subst matchhere.simps) simp
  next
    case 4
    then show ?thesis using ih(2) here_One [OF 4] by (subst matchhere.simps) (auto simp: sym_def)
  qed
next
  case (2 c re xs)
  let ?star = "\<lambda>xs. \<exists>p v. xs = p @ v \<and> list_all (sym c) p \<and> here re v"
  have st: "?star xs \<longleftrightarrow> here re xs \<or> xs \<noteq> [] \<and> sym c (hd xs) \<and> ?star (tl xs)" by (rule star_step)
  have s: "(xs \<noteq> [] \<and> (hd xs = c \<or> c = CHR ''.'')) \<longleftrightarrow> xs \<noteq> [] \<and> sym c (hd xs)" by (auto simp: sym_def)
  show ?case
  proof (cases "here re xs")
    case True
    then show ?thesis unfolding st using 2(1) by (subst matchstar.simps) simp
  next
    case False
    then have nm: "\<not> matchhere re xs" using 2(1) by simp
    show ?thesis
    proof (cases "xs \<noteq> [] \<and> sym c (hd xs)")
      case True
      then have c: "xs \<noteq> [] \<and> (hd xs = c \<or> c = CHR ''.'')" using s by simp
      have "matchstar c re xs \<longleftrightarrow> matchstar c re (tl xs)" using nm c by (subst matchstar.simps) simp
      then show ?thesis unfolding st using 2(2) [OF nm c] False True by simp
    next
      case no: False
      have "\<not> matchstar c re xs" using nm no s by (subst matchstar.simps) auto
      then show ?thesis unfolding st using False no by auto
    qed
  qed
qed

section \<open>A file read at once\<close>

fun split_lines :: "string \<Rightarrow> string \<Rightarrow> string list" where
  "split_lines acc [] = []"
| "split_lines acc (c # cs) = (if c = NL then acc # split_lines [] cs else split_lines (acc @ [c]) cs)"

text \<open>The lines of a text that a newline ends, and those a pattern matches, as they are printed.\<close>

definition matching :: "string \<Rightarrow> string \<Rightarrow> string" where
  "matching pattern t = concat (map (\<lambda>l. l @ [NL]) (filter (match pattern) (split_lines [] t)))"

lemma split_lines_acc: "NL \<notin> set l \<Longrightarrow> split_lines acc (l @ r) = split_lines (acc @ l) r"
  by (induction l arbitrary: acc) auto

lemma split_lines_end: "NL \<notin> set u \<Longrightarrow> split_lines acc (t @ u) = split_lines acc t"
proof (induction t arbitrary: acc)
  case Nil
  then show ?case using split_lines_acc [of u acc "[]"] by simp
qed simp

lemma matching_end: "NL \<notin> set u \<Longrightarrow> matching pattern (t @ u) = matching pattern t"
  by (simp add: matching_def split_lines_end)

lemma matching_simps:
  "NL \<notin> set t \<Longrightarrow> matching pattern t = []"
  "NL \<notin> set l \<Longrightarrow> matching pattern (l @ NL # r) = (if match pattern l then l @ [NL] else []) @ matching pattern r"
  using split_lines_acc [of t "[]" "[]"] split_lines_acc [of l "[]" "NL # r"] by (auto simp: matching_def)

lemma strchr_nl_at:
  assumes "buf = pre @ t @ NUL # zs" and "NUL \<notin> set t"
  shows "NL \<notin> set t \<Longrightarrow> strchr_nl buf (length pre) = NoNewline"
    and "t = l @ NL # r \<Longrightarrow> NL \<notin> set l \<Longrightarrow> strchr_nl buf (length pre) = Newline (length pre + length l)"
proof -
  have "NL \<notin> set t \<longrightarrow> strchr_nl buf (length pre) = NoNewline"
    using assms
  proof (induction t arbitrary: pre)
    case Nil
    then show ?case by (subst strchr_nl.simps) (simp add: NL_def NUL_def)
  next
    case (Cons c t)
    then have "NL \<notin> set t \<longrightarrow> strchr_nl buf (length (pre @ [c])) = NoNewline" by (intro Cons.IH) auto
    then show ?case using Cons.prems by (subst strchr_nl.simps) auto
  qed
  then show "NL \<notin> set t \<Longrightarrow> strchr_nl buf (length pre) = NoNewline" by simp
  show "t = l @ NL # r \<Longrightarrow> NL \<notin> set l \<Longrightarrow> strchr_nl buf (length pre) = Newline (length pre + length l)"
    using assms
  proof (induction l arbitrary: pre t)
    case Nil
    then show ?case by (subst strchr_nl.simps) simp
  next
    case (Cons c l)
    have "strchr_nl buf (length (pre @ [c])) = Newline (length (pre @ [c]) + length l)"
      by (rule Cons.IH [of "l @ NL # r"]) (use Cons.prems in auto)
    then show ?case using Cons.prems by (subst strchr_nl.simps) auto
  qed
qed

text \<open>Where the rest of a text begins that no newline ends.\<close>

definition rest_at :: "string \<Rightarrow> nat" where
  "rest_at t = length t - length (takeWhile (\<lambda>c. c \<noteq> NL) (rev t))"

lemma rest_at_none: "NL \<notin> set t \<Longrightarrow> rest_at t = 0"
proof -
  assume "NL \<notin> set t"
  then have "takeWhile (\<lambda>c. c \<noteq> NL) (rev t) = rev t" by (auto simp: takeWhile_eq_all_conv)
  then show "rest_at t = 0" by (simp only: rest_at_def length_rev diff_self_eq_0)
qed

lemma rest_at_line: "rest_at (l @ NL # r) = Suc (length l) + rest_at r"
proof (cases "NL \<in> set r")
  case True
  then have "takeWhile (\<lambda>c. c \<noteq> NL) (rev r @ NL # rev l) = takeWhile (\<lambda>c. c \<noteq> NL) (rev r)" by (intro takeWhile_append1) auto
  then show ?thesis using length_takeWhile_le [of "\<lambda>c. c \<noteq> NL" "rev r"] by (simp add: rest_at_def)
next
  case False
  then have "takeWhile (\<lambda>c. c \<noteq> NL) (rev r @ NL # rev l) = rev r" by (auto simp: takeWhile_append takeWhile_eq_all_conv)
  then show ?thesis using rest_at_none [OF False] by (simp add: rest_at_def)
qed

lemma rest_at_more: "NL \<in> set u \<Longrightarrow> length t < rest_at (t @ u)"
proof -
  assume "NL \<in> set u"
  then obtain l r where "u = l @ NL # r" using split_list by metis
  then show ?thesis using rest_at_line [of "t @ l" r] by simp
qed

lemma grep_lines_text:
  assumes "NUL \<notin> set t"
  shows "\<exists>buf'. grep_lines pattern (pre @ t @ NUL # zs) (length pre) = Some (matching pattern t, buf', length pre + rest_at t) \<and>
    length buf' = length (pre @ t @ NUL # zs)"
  using assms
proof (induction "length t" arbitrary: t pre rule: less_induct)
  case less
  show ?case
  proof (cases "NL \<in> set t")
    case False
    then show ?thesis
      using strchr_nl_at(1) [OF refl less.prems] by (subst grep_lines.simps) (simp add: matching_simps rest_at_none)
  next
    case True
    then obtain l r where t: "t = l @ NL # r" "NL \<notin> set l" using split_list_first by metis
    let ?b = "pre @ t @ NUL # zs" and ?q = "length pre + length l"
    have q: "strchr_nl ?b (length pre) = Newline ?q" using strchr_nl_at(2) [OF refl less.prems t] .
    have tx: "text_at ?b (length pre) ?q = l" using t less.prems by (auto simp: text_at_def takeWhile_eq_all_conv)
    have up: "?b[?q := NUL] = (pre @ l @ [NUL]) @ r @ NUL # zs" using t by (simp add: list_update_append)
    have r: "NUL \<notin> set r" "length r < length t" using t less.prems by auto
    have ih: "\<exists>b'. grep_lines pattern ((pre @ l @ [c]) @ r @ NUL # zs) (length (pre @ l @ [c])) =
        Some (matching pattern r, b', length (pre @ l @ [c]) + rest_at r) \<and> length b' = length ((pre @ l @ [c]) @ r @ NUL # zs)" for c
      by (rule less.hyps [OF r(2,1)])
    show ?thesis
    proof (cases "match pattern l")
      case m: True
      then show ?thesis using q tx ih [of NL] t by (subst grep_lines.simps) (auto simp: matching_simps rest_at_line)
    next
      case m: False
      then show ?thesis using q tx ih [of NUL] t up by (subst grep_lines.simps) (auto simp: matching_simps rest_at_line)
    qed
  qed
qed

text \<open>One read, into a buffer that holds the string \<open>u\<close> behind the bytes read.\<close>

lemma grep_one_read:
  assumes t: "NUL \<notin> set t" "t \<noteq> []" "length t < BUFSZ" and buf: "length buf = BUFSZ" "drop (length t) buf = u @ NUL # zs" "NUL \<notin> set u"
  obtains buf' where "length buf' = BUFSZ" and
    "\<And>rest. grep pattern buf 0 (t # rest) = (case grep pattern buf' (if rest_at (t @ u) = 0 then 0 else int (length t) - int (rest_at (t @ u))) rest of
       (out, res) \<Rightarrow> (matching pattern (t @ u) @ out, res))"
proof -
  have st: "store buf 0 t = [] @ (t @ u) @ NUL # zs" using buf(2) by (simp add: store_def)
  have len: "length ([] @ (t @ u) @ NUL # zs) = BUFSZ" unfolding st [symmetric] using t(3) buf(1) by (simp add: store_def)
  obtain b where b: "grep_lines pattern ([] @ (t @ u) @ NUL # zs) (length ([]::string)) =
      Some (matching pattern (t @ u), b, length ([]::string) + rest_at (t @ u))" "length b = BUFSZ"
    using grep_lines_text [of "t @ u" pattern "[]" zs] t(1) buf(3) len by auto
  let ?p = "rest_at (t @ u)"
  let ?b = "if ?p = 0 then b else store b 0 (take (nat (int (length t) - int ?p)) (drop ?p b))"
  have "length ?b = BUFSZ" using b(2) t(3) by (simp add: store_def)
  moreover have "grep pattern buf 0 (t # rest) = (case grep pattern ?b (if ?p = 0 then 0 else int (length t) - int ?p) rest of
       (out, res) \<Rightarrow> (matching pattern (t @ u) @ out, res))" for rest
    using t b(1) st by (simp add: grep.simps(2) Let_def)
  ultimately show ?thesis by (rule that)
qed

section \<open>Properties\<close>

text \<open>
  C32. The matcher accepts a text exactly when the pattern's language says so: some part of the text, from its
  start when the pattern begins with \<open>^\<close> and to its end when it ends with \<open>$\<close>, is in the language of the
  pattern, in which \<open>.\<close> stands for any byte and \<open>c*\<close> for any number of bytes \<open>c\<close>.
\<close>

theorem match_iff_matches: "match re text \<longleftrightarrow> matches re text"
proof -
  have "match_from re xs \<longleftrightarrow> (\<exists>p v. xs = p @ v \<and> here re v)" for xs
  proof (induction xs)
    case (Cons t xs)
    have "(\<exists>p v. t # xs = p @ v \<and> here re v) \<longleftrightarrow> here re (t # xs) \<or> (\<exists>p v. xs = p @ v \<and> here re v)"
      by (auto simp: Cons_eq_append_conv)
    then show ?case using Cons by (simp add: matchhere_here)
  qed (simp add: matchhere_here)
  then show ?thesis by (cases re) (auto simp: match_def matches_def matchhere_here)
qed

text \<open>
  C33. On a file without zero bytes that one read returns whole, shorter than the buffer, \<open>grep\<close> writes exactly the lines that
  the pattern matches, each with its newline, in order, and stays inside its buffer, when what an earlier file left in the
  buffer behind the bytes read has no newline before its first zero byte. That is so for the first file of a run, since the buffer
  begins as zeroes. (A last line that no newline ends is not looked at.)
\<close>

theorem grep_prints_matching_lines:
  assumes "NUL \<notin> set t" and "t \<noteq> []" and "length t < BUFSZ"
    and "length buf = BUFSZ" and "drop (length t) buf = u @ NUL # zs" and "NUL \<notin> set u" and "NL \<notin> set u"
  shows "\<exists>buf'. grep pattern buf 0 [t] = (matching pattern t, Some buf') \<and> length buf' = BUFSZ"
proof (rule grep_one_read [OF assms(1-6)])
  fix b
  assume "length b = BUFSZ" and g: "\<And>rest. grep pattern buf 0 (t # rest) =
      (case grep pattern b (if rest_at (t @ u) = 0 then 0 else int (length t) - int (rest_at (t @ u))) rest of
        (out, res) \<Rightarrow> (matching pattern (t @ u) @ out, res))"
  then show ?thesis using g [of "[]"] matching_end [OF assms(7)] by simp
qed

theorem grep_prints_matching_lines_witness:
  "fst (grep_main [''grep'', ''a*b'', ''f''] [] (\<lambda>_. Some [''xaab'' @ [NL] @ ''c'' @ [NL] @ ''b'']))
    = matching ''a*b'' (''xaab'' @ [NL] @ ''c'' @ [NL] @ ''b'')"
proof -
  let ?t = "''xaab'' @ [NL] @ ''c'' @ [NL] @ ''b''"
  have "drop (length ?t) (replicate BUFSZ NUL) = [] @ NUL # replicate 1015 NUL" by (simp add: BUFSZ_def flip: replicate_Suc)
  then have "\<exists>b. grep ''a*b'' (replicate BUFSZ NUL) 0 [?t] = (matching ''a*b'' ?t, Some b) \<and> length b = BUFSZ"
    by (intro grep_prints_matching_lines [where u = "[]" and zs = "replicate 1015 NUL"]) (simp_all add: NUL_def NL_def BUFSZ_def)
  then show ?thesis by (auto simp: grep_main_def Let_def)
qed

text \<open>
  C34. Nothing ends the text that was read, so \<open>grep\<close> takes what an earlier read or an earlier file left in the buffer for the file's
  text: when the string \<open>u\<close> that stands in the buffer behind the bytes read has a newline in it, \<open>grep\<close> writes the matching lines
  of the file followed by \<open>u\<close>, and if the file has more bytes, the next read stores them below the buffer.
\<close>

theorem grep_reads_stale_lines:
  assumes "NUL \<notin> set t" and "t \<noteq> []" and "length t < BUFSZ"
    and "length buf = BUFSZ" and "drop (length t) buf = u @ NUL # zs" and "NUL \<notin> set u" and "NL \<in> set u"
  shows "fst (grep pattern buf 0 [t]) = matching pattern (t @ u) \<and>
    (c \<noteq> [] \<longrightarrow> grep pattern buf 0 (t # c # rest) = (matching pattern (t @ u), None))"
proof (rule grep_one_read [OF assms(1-6)])
  fix b
  assume g: "\<And>rest. grep pattern buf 0 (t # rest) =
      (case grep pattern b (if rest_at (t @ u) = 0 then 0 else int (length t) - int (rest_at (t @ u))) rest of
        (out, res) \<Rightarrow> (matching pattern (t @ u) @ out, res))"
  have "length t < rest_at (t @ u)" using assms(7) by (rule rest_at_more)
  then show ?thesis using g [of "[]"] g [of "c # rest"] by (simp add: grep.simps(2))
qed

text \<open>Two files: of the second, which holds no \<open>a\<close>, \<open>grep a\<close> writes a line that the first one left in the buffer.\<close>

theorem grep_reads_stale_lines_witness:
  "fst (grep_main [''grep'', ''a'', ''f'', ''g''] []
     (\<lambda>f. if f = ''f'' then Some [''axx'' @ [NL] @ ''aa'' @ [NL]] else Some [''b'' @ [NL]]))
   = ''axx'' @ [NL] @ ''aa'' @ [NL] @ ''aa'' @ [NL]"
proof -
  let ?f = "''axx'' @ [NL] @ ''aa'' @ [NL]" and ?t = "''b'' @ [NL]" and ?u = "''x'' @ [NL] @ ''aa'' @ [NL]"
  let ?b = "?f @ replicate 1017 NUL"
  have f: "grep ''a'' (replicate BUFSZ NUL) 0 [?f] = (?f, Some ?b)" by code_simp
  have "drop (length ?t) ?b = ?u @ NUL # replicate 1016 NUL" by (simp flip: replicate_Suc)
  then have "fst (grep ''a'' ?b 0 [?t]) = matching ''a'' (?t @ ?u)"
    using grep_reads_stale_lines [of ?t ?b ?u "replicate 1016 NUL" "''a''"] by (simp add: NUL_def NL_def BUFSZ_def)
  moreover have "matching ''a'' (?t @ ?u) = ''aa'' @ [NL]" by code_simp
  ultimately show ?thesis using f by (auto simp: grep_main_def Let_def split: option.splits prod.splits)
qed

end
