(* ===== verification/Spec2Isabelle.thy ===== *)
theory Spec2Isabelle
  imports Utils Sched_Props StringC Vm_Props Kernel_Types Pipe_Props Console_Props Fs_Props Devices Ide Shell_Parse Grep
begin

text \<open>
  The kernel of the repository (src/*.c), an xv6 for x86 whose scheduler is a multilevel feedback queue, and the programs that run
  on it (src/user/*.c).

  \<^bold>\<open>How code is modelled.\<close> Kernel code is a function from the kernel state to an outcome (\<open>Kernel_Prelude\<close>): it returns (\<open>Done\<close>), panics,
  gives up the CPU (\<open>Asleep\<close>), spins on a lock another holds (\<open>Spin\<close>), or does something C leaves undefined (\<open>Fault\<close>), such as
  an overflow of an \<open>int\<close>. Functions are
  composed with \<open>bnd\<close> and \<open>andthen\<close> in the order of the code. A process that sleeps stops in the middle of a function; what it does when it
  is back is a function of its own (\<open>sleep_return\<close>, \<open>ilock_wait\<close>, \<open>begin_trans_wait\<close> and so on). The state is an extensible record
  to which each component adds its fields: \<open>kbase\<close> (CPUs and locks), \<open>kcons\<close> (console output), \<open>kproc\<close> (process table), \<open>kmem\<close> (memory),
  \<open>kbio\<close> (buffers and disk), \<open>klog\<close>, \<open>kcin\<close> (console input), \<open>kfs\<close>, \<open>kfile\<close>, \<open>kern\<close>; \<open>kmp\<close> and \<open>kdev\<close> extend \<open>kmem\<close> for mp.c and the
  devices. A pointer into
  a table is the index in the table; memory is a function from 32-bit addresses to bytes, and words, structures on the disk and page
  tables are read from bytes. Integers are words of their width, or \<open>int\<close> and \<open>nat\<close> where the code keeps them small. \<open>wp\<close> is total
  correctness (the function returns), \<open>wpa\<close> lets it sleep.

  \<^bold>\<open>The parts, their theories and what is shown.\<close>
  \<^item> Locks (spinlock.c): \<open>Spinlock\<close>. Mutual exclusion over all interleavings of the memory accesses of several CPUs; balanced locking restores
    the interrupt flag.
  \<^item> Console output (console.c, uart.c): \<open>Console_Out\<close>. Numbers read back; printing stays on the screen and changes nothing else.
  \<^item> Process table and scheduler (proc.c): \<open>Sched\<close>; \<open>Sched_Inv\<close> and \<open>Sched_Sys\<close> have the invariant of the feedback queues as linked lists in the
    table, under any sequence of scheduler and process steps in which \<open>set_priority\<close> is given levels that exist; \<open>Sched_Props\<close> the behaviour of wakeup, kill, exit, set_priority and the
    starvation of the upper levels; \<open>Kernel_Frame\<close> the rules by which the components above use locks, sleep, wakeup and printing.
  \<^item> Memory: \<open>StringC\<close> (string.c), \<open>Kalloc\<close> (kalloc.c: pages are conserved), \<open>Vm\<close>, \<open>Vm_Map\<close> and \<open>Vm_Props\<close> (vm.c: the mapping a page table
    stands for, and what mappages, allocuvm and copyout do to it).
  \<^item> Disk blocks: \<open>Bio\<close> (bio.c and memide.c), \<open>Bio_View\<close>, \<open>Bio_Rules\<close>, \<open>Bio_Props\<close>: the cache of buffers is the disk to its clients. \<open>Log\<close> (log.c),
    \<open>Log_Rules\<close>, \<open>Log_Props\<close>: after a crash at any write of a transaction, recovery gives all of it or none of it; recovery may
    itself crash and start again.
    \<open>Ide\<close> has the other driver, ide.c, with its queue of requests, which is served in the order they were made.
  \<^item> Files: \<open>Fs\<close> (fs.c and the console device), \<open>Fs_Rules\<close> (blocks and inodes, inside a transaction and, for reading, outside one), \<open>Fs_Props\<close>: files are arrays of bytes under
    readi and writei, inodes survive the way to the disk and back. \<open>File\<close> (file.c, pipe.c), \<open>Ring_Buffer\<close>, \<open>Pipe_Props\<close>: a pipe is a bounded queue
    (locale \<open>bounded_queue\<close>).
  \<^item> Console input (console.c, kbd.c, uart.c): \<open>Kbd\<close>, \<open>Console_In\<close>, \<open>Console_Props\<close>: the interrupt handlers are a line editor, whichever device
    the characters come from (locale \<open>char_source\<close>), and consoleread takes its lines.
  \<^item> System calls, exec, processes and traps (syscall.c, sysfile.c, sysproc.c, exec.c, proc.c, trap.c): \<open>Sysfile\<close>, \<open>Exec\<close>, \<open>Kernel\<close>. \<open>Kernel_Types\<close>
    has the rules by which each operation, up to a trap as a whole, leaves the kernel's tables well-formed where it returns, sleeps or spins.
  \<^item> Processor tables (mp.c): \<open>Mp\<close>. A sound table is read in full; an entry of an unknown type hangs the machine.
  \<^item> Interrupt controllers and timers (picirq.c, timer.c, ioapic.c, lapic.c, uart.c): \<open>Devices\<close>, as what is written to the devices. The masks of the
    two 8259A controllers follow the calls of picenable.
  \<^item> User programs: \<open>Ulib\<close> (ulib.c, printf.c), \<open>Utils\<close> (cat, wc, echo, kill, ln, mkdir, rm, ls, init, zombie, ps), \<open>Shell\<close> and \<open>Shell_Parse\<close> (sh.c: the
    parser reads back what it is given, and always returns), \<open>Grep\<close> (grep.c: the matcher against the usual meaning of a pattern, and what
    the text an earlier read left in the buffer does to the lines written).
    They take the system calls as an argument.
  \<^item> \<open>Demo_State\<close> has the running system the examples start from.

  \<^bold>\<open>Bounds and fuel.\<close> Loops of the code are structural recursions or have a termination proof. Fuel stands for the number of times a loop may
  go round where only the outside world ends it: the characters a device delivers (the handlers pass the number waiting plus
  one), the reads a user program makes until the end of a file, and \<open>mpinit_loop\<close>; the theorems say how much is enough, or that none is.
  The recursion of the shell's parser has the length of the line as fuel and is shown never to run out. Searches along the buffer list go
  over \<open>NBUF\<close> + 1 links.

  \<^bold>\<open>Assumptions.\<close> The compiler and the hardware are as the code expects; accesses to memory by different CPUs are interleaved one by one. The
  disk is memide.c's, whose transfers are over when \<open>iderw\<close> returns, and a crash loses the writes after some point of their sequence.

  \<^bold>\<open>Not modelled.\<close> \<open>seginit\<close>, \<open>tvinit\<close> and \<open>idtinit\<close>, which only fill
  descriptor tables, whose meaning is the processor's, and the calls by which the other parts enable and acknowledge their interrupts. The assembly files and bootmain.c, which run before the kernel or below C. main.c, which calls the initialisations in
  turn and starts the other CPUs. mkfs.c, which runs on the host. user/umalloc.c. The test programs usertests.c, forktest.c and stressfs.c.
  The opening of the console in \<open>main\<close> of the shell.
\<close>

end
